(* ===== verification/Xx_Prelude.thy ===== *)
theory Xx_Prelude
  imports Main "HOL-Library.Word"
begin

text \<open>
  Shared vocabulary of the development: the machine types of the source (\<open>usize\<close> is 64 bits
  wide on both platforms the crate supports), the outcome of a Rust call that can return an error
  or panic, runs of a transition system with the locale that turns a preservation lemma into an
  invariant of every reachable state, and list facts used by several components.
\<close>

unbundle bit_operations_syntax

section \<open>Machine types\<close>

type_synonym byte = "8 word"
type_synonym u16 = "16 word"
type_synonym u32 = "32 word"
type_synonym u64 = "64 word"
type_synonym usize = "64 word"
type_synonym addr = nat

lemma unat_of_nat_usize: "n < 2 ^ 64 \<Longrightarrow> unat (of_nat n :: usize) = n"
  by (simp add: unat_of_nat take_bit_eq_mod)

named_theorems xx_defs \<open>definitions of operations, unfolded by the component proofs\<close>
named_theorems xx_inv \<open>preservation lemmas of the component invariants\<close>

section \<open>Outcomes\<close>

text \<open>
  A call returns \<open>Ok\<close>, returns \<open>Err\<close>, or panics. Stateful calls return the outcome paired with
  the state they leave behind, because \<open>&mut self\<close> keeps what was written before an error.
\<close>

datatype ('e, 'a) outcome = Ok 'a | Err 'e | Panic

fun map_outcome_ok :: "('a \<Rightarrow> 'b) \<Rightarrow> ('e, 'a) outcome \<Rightarrow> ('e, 'b) outcome" where
  "map_outcome_ok f (Ok a) = Ok (f a)"
| "map_outcome_ok f (Err e) = Err e"
| "map_outcome_ok f Panic = Panic"

fun is_ok :: "('e, 'a) outcome \<Rightarrow> bool" where
  "is_ok (Ok _) = True"
| "is_ok _ = False"

lemma is_ok_iff: "is_ok r \<longleftrightarrow> (\<exists>a. r = Ok a)"
  by (cases r) auto

section \<open>Transition systems\<close>

inductive reach :: "('s \<Rightarrow> bool) \<Rightarrow> ('s \<Rightarrow> 's \<Rightarrow> bool) \<Rightarrow> 's \<Rightarrow> bool"
  for start :: "'s \<Rightarrow> bool" and step :: "'s \<Rightarrow> 's \<Rightarrow> bool" where
  reach_start: "start s \<Longrightarrow> reach start step s"
| reach_step: "reach start step s \<Longrightarrow> step s t \<Longrightarrow> reach start step t"

lemma reach_rtrancl: "reach start step s \<Longrightarrow> step\<^sup>*\<^sup>* s t \<Longrightarrow> reach start step t"
  by (rotate_tac, induction rule: rtranclp_induct) (auto intro: reach.reach_step)

locale transition_invariant =
  fixes start :: "'s \<Rightarrow> bool"
    and step :: "'s \<Rightarrow> 's \<Rightarrow> bool"
    and inv :: "'s \<Rightarrow> bool"
  assumes start_inv: "start s \<Longrightarrow> inv s"
    and step_inv: "inv s \<Longrightarrow> step s t \<Longrightarrow> inv t"
begin

lemma reach_inv: "reach start step s \<Longrightarrow> inv s"
  by (induction rule: reach.induct) (auto intro: start_inv step_inv)

lemma steps_inv: "inv s \<Longrightarrow> step\<^sup>*\<^sup>* s t \<Longrightarrow> inv t"
  by (rotate_tac, induction rule: rtranclp_induct) (auto intro: step_inv)

end

text \<open>A lock: an invariant under which at most one thread holds it.\<close>

locale mutual_exclusion = transition_invariant start step inv
  for start :: "'s \<Rightarrow> bool" and step :: "'s \<Rightarrow> 's \<Rightarrow> bool" and inv :: "'s \<Rightarrow> bool" +
  fixes holds :: "'s \<Rightarrow> 't \<Rightarrow> bool"
  assumes inv_excl: "inv s \<Longrightarrow> holds s t \<Longrightarrow> holds s u \<Longrightarrow> t = u"
begin

lemma reach_excl: "reach start step s \<Longrightarrow> holds s t \<Longrightarrow> holds s u \<Longrightarrow> t = u"
  using reach_inv inv_excl by blast

lemma holders_le_1: "reach start step s \<Longrightarrow> card {t. holds s t} \<le> 1"
proof -
  assume r: "reach start step s"
  show "card {t. holds s t} \<le> 1"
  proof (cases "\<exists>t. holds s t")
    case True
    then obtain t where "holds s t" ..
    then have "{t. holds s t} = {t}" using reach_excl[OF r] by blast
    then show ?thesis by simp
  qed simp
qed

end

text \<open>
  A lock word that names its holder, against the places of the code a thread holds it at; taking,
  keeping and releasing it preserve the agreement.
\<close>

definition locked_by :: "('p \<Rightarrow> bool) \<Rightarrow> ('t \<Rightarrow> 'p) \<Rightarrow> 't option \<Rightarrow> bool" where
  "locked_by h pc l \<longleftrightarrow> (\<forall>t. h (pc t) \<longleftrightarrow> l = Some t)"

lemma locked_by_upd:
  assumes "locked_by h pc l" "h p \<longleftrightarrow> l' = Some t" "l' = l \<or> (l \<in> {None, Some t} \<and> l' \<in> {None, Some t})"
  shows "locked_by h (pc(t := p)) l'"
  using assms by (auto simp: locked_by_def)

lemma locked_byD: "locked_by h pc l \<Longrightarrow> h (pc t) \<longleftrightarrow> l = Some t"
  by (simp add: locked_by_def)

lemma locked_by_only: "locked_by h pc l \<Longrightarrow> h (pc t) \<Longrightarrow> h (pc u) \<Longrightarrow> u = t"
  by (simp add: locked_by_def)

section \<open>Lists\<close>

lemma take_append_drop_le:
  "m \<le> n \<Longrightarrow> take m xs @ take (n - m) (drop m xs) = take n xs"
  by (metis le_add_diff_inverse take_add)

lemma hd_conv_butlast_last: "xs \<noteq> [] \<Longrightarrow> butlast xs @ [last xs] = xs"
  by simp

lemma last_notin_butlast: "distinct xs \<Longrightarrow> xs \<noteq> [] \<Longrightarrow> last xs \<notin> set (butlast xs)"
  by (induction xs) auto

lemma in_set_tlD: "x \<in> set (tl xs) \<Longrightarrow> x \<in> set xs"
  by (cases xs) auto

lemma list_update_append_exact: "(xs @ y # ys)[length xs := z] = xs @ z # ys"
  by (induction xs) auto

lemma remove1_filter_distinct: "distinct xs \<Longrightarrow> remove1 x xs = filter (\<lambda>y. y \<noteq> x) xs"
  by (rule distinct_remove1_removeAll[THEN trans]) (auto simp: removeAll_filter_not_eq intro: filter_cong)

end
