(* ===== verification/Error_Codes.thy ===== *)
theory Error_Codes
  imports Xx_Prelude
begin

text \<open>
  The errors of the crate: the kinds of \<open>src/src/error/kind.rs\<close>, the OS error codes and the result
  conversions of \<open>src/src/os/error.rs\<close>, and the tagged pointer representation of \<open>src/src/error/repr/mod.rs\<close>.
  \<open>OsError\<close> is a C-like enum with explicit codes; a value is its code, and a table holds the names.
\<close>

section \<open>Error kinds\<close>

datatype error_kind =
    NotFound | PermissionDenied | ConnectionRefused | ConnectionReset | HostUnreachable |
    NetworkUnreachable | ConnectionAborted | NotConnected | AddrInUse | AddrNotAvailable |
    NetworkDown | BrokenPipe | AlreadyExists | WouldBlock | NotADirectory | IsADirectory |
    DirectoryNotEmpty | ReadOnlyFilesystem | FileSystemLoop | StaleNetworkFileHandle |
    InvalidInput | InvalidData | TimedOut | WriteZero | StorageFull | NotSeekable |
    DiskQuotaExceeded | FileTooLarge | ResourceBusy | ExecutableFileBusy | Deadlock |
    CrossesDevices | TooManyLinks | InvalidFilename | ArgumentListTooLong | Interrupted |
    Unsupported | UnexpectedEof | OutOfMemory | Overflow | Shutdown | FormatterError |
    Unimplemented | AlreadyInProgress | NoData | Other | Uncategorized

text \<open>The kinds in declaration order: the position of a kind is its \<open>u8\<close> discriminant.\<close>

definition error_kinds :: "error_kind list" where
  "error_kinds = [
     NotFound, PermissionDenied, ConnectionRefused, ConnectionReset, HostUnreachable,
     NetworkUnreachable, ConnectionAborted, NotConnected, AddrInUse, AddrNotAvailable,
     NetworkDown, BrokenPipe, AlreadyExists, WouldBlock, NotADirectory, IsADirectory,
     DirectoryNotEmpty, ReadOnlyFilesystem, FileSystemLoop, StaleNetworkFileHandle,
     InvalidInput, InvalidData, TimedOut, WriteZero, StorageFull, NotSeekable,
     DiskQuotaExceeded, FileTooLarge, ResourceBusy, ExecutableFileBusy, Deadlock,
     CrossesDevices, TooManyLinks, InvalidFilename, ArgumentListTooLong, Interrupted,
     Unsupported, UnexpectedEof, OutOfMemory, Overflow, Shutdown, FormatterError,
     Unimplemented, AlreadyInProgress, NoData, Other, Uncategorized]"

text \<open>The table behind \<open>as_str\<close>.\<close>

definition kind_strings :: "(error_kind \<times> string) list" where
  "kind_strings = [
     (NotFound, ''Entity not found''), (PermissionDenied, ''Permission denied''),
     (ConnectionRefused, ''Connection refused''), (ConnectionReset, ''Connection reset''),
     (HostUnreachable, ''Host unreachable''), (NetworkUnreachable, ''Network unreachable''),
     (ConnectionAborted, ''Connection aborted''), (NotConnected, ''Not connected''),
     (AddrInUse, ''Address in use''), (AddrNotAvailable, ''Address not available''),
     (NetworkDown, ''Network down''), (BrokenPipe, ''Broken pipe''),
     (AlreadyExists, ''Entity already exists''), (WouldBlock, ''Operation would block''),
     (NotADirectory, ''Not a directory''), (IsADirectory, ''Is a directory''),
     (DirectoryNotEmpty, ''Directory not empty''),
     (ReadOnlyFilesystem, ''Read-only file system''),
     (FileSystemLoop, ''Too many levels of symbolic links''),
     (StaleNetworkFileHandle, ''Stale network file handle''),
     (InvalidInput, ''Invalid argument''), (InvalidData, ''Invalid data''),
     (TimedOut, ''Operation timed out''), (WriteZero, ''Write EOF''),
     (StorageFull, ''Storage full''), (NotSeekable, ''Not seekable''),
     (DiskQuotaExceeded, ''Disk quota exceeded''), (FileTooLarge, ''File too large''),
     (ResourceBusy, ''Resource busy''), (ExecutableFileBusy, ''Executable file busy''),
     (Deadlock, ''Dead lock''), (CrossesDevices, ''Invalid cross-device link''),
     (TooManyLinks, ''Too many links''), (InvalidFilename, ''Invalid file name''),
     (ArgumentListTooLong, ''Argument list too long''),
     (Interrupted, ''Operation interrupted''), (Unsupported, ''Unsupported''),
     (UnexpectedEof, ''Unexpected end of file''), (OutOfMemory, ''Out of memory''),
     (Overflow, ''Overflow occurred''), (Shutdown, ''Resource is shutdown''),
     (FormatterError, ''Formatter error''), (Unimplemented, ''Not implemented''),
     (AlreadyInProgress, ''Operation already in progress''), (NoData, ''No data''),
     (Other, ''Other''), (Uncategorized, ''Uncategorized'')]"

definition kind_as_str :: "error_kind \<Rightarrow> string" where
  "kind_as_str k = the (map_of kind_strings k)"

fun index_of :: "'a list \<Rightarrow> 'a \<Rightarrow> nat" where
  "index_of [] x = 0"
| "index_of (y # ys) x = (if x = y then 0 else Suc (index_of ys x))"

definition kind_code :: "error_kind \<Rightarrow> byte" where
  "kind_code k = of_nat (index_of error_kinds k)"

text \<open>\<open>transmute\<close> of a byte to a kind: undefined, \<open>None\<close>, for a byte that is no discriminant.\<close>

definition kind_of_code :: "byte \<Rightarrow> error_kind option" where
  "kind_of_code b = (if unat b < length error_kinds then Some (error_kinds ! unat b) else None)"

section \<open>OS errors\<close>

datatype os_error = OsError (os_code: int)

definition os_error_table :: "(string \<times> int) list" where
  "os_error_table = [
     (''Unknown'', - 1), (''Ok'', 0), (''Perm'', 1), (''NoEnt'', 2), (''Srch'', 3),
     (''Intr'', 4), (''Io'', 5), (''Nxio'', 6), (''TooBig'', 7), (''NoExec'', 8),
     (''BadF'', 9), (''Child'', 10), (''Again'', 11), (''NoMem'', 12), (''Acces'', 13),
     (''Fault'', 14), (''NotBlk'', 15), (''Busy'', 16), (''Exist'', 17), (''XDev'', 18),
     (''NoDev'', 19), (''NotDir'', 20), (''IsDir'', 21), (''Inval'', 22), (''NFile'', 23),
     (''MFile'', 24), (''NotTy'', 25), (''TxtBsy'', 26), (''FBig'', 27), (''NoSpc'', 28),
     (''SPipe'', 29), (''Rofs'', 30), (''MLink'', 31), (''Pipe'', 32), (''Dom'', 33),
     (''Range'', 34), (''Deadlock'', 35), (''NameTooLong'', 36), (''NoLck'', 37),
     (''NoSys'', 38), (''NotEmpty'', 39), (''Loop'', 40), (''Nomsg'', 42), (''Idrm'', 43),
     (''Chrng'', 44), (''L2nsync'', 45), (''L3hlt'', 46), (''L3rst'', 47), (''Lnrng'', 48),
     (''Unatch'', 49), (''Nocsi'', 50), (''L2hlt'', 51), (''Bade'', 52), (''Badr'', 53),
     (''Xfull'', 54), (''Noano'', 55), (''Badrqc'', 56), (''Badslt'', 57), (''BFont'', 59),
     (''NoStr'', 60), (''NoData'', 61), (''Time'', 62), (''NoSr'', 63), (''NoNet'', 64),
     (''NoPkg'', 65), (''Remote'', 66), (''NoLink'', 67), (''Adv'', 68), (''Srmnt'', 69),
     (''Comm'', 70), (''Proto'', 71), (''Multihop'', 72), (''Dotdot'', 73), (''BadMsg'', 74),
     (''Overflow'', 75), (''NotUniq'', 76), (''BadFd'', 77), (''RemChg'', 78),
     (''LibAcc'', 79), (''LibBad'', 80), (''LibScn'', 81), (''LibMax'', 82), (''LibExec'', 83),
     (''IlSeq'', 84), (''Restart'', 85), (''StrPipe'', 86), (''Users'', 87), (''NotSock'', 88),
     (''DestAddrReq'', 89), (''MsgSize'', 90), (''Prototype'', 91), (''NoProtoOpt'', 92),
     (''ProtoNoSupport'', 93), (''SocktNoSupport'', 94), (''OpNotSupp'', 95),
     (''PfNoSupport'', 96), (''AfNoSupport'', 97), (''AddrInUse'', 98), (''AddrNotAvail'', 99),
     (''NetDown'', 100), (''NetUnreach'', 101), (''NetReset'', 102), (''ConnAborted'', 103),
     (''ConnReset'', 104), (''NoBufs'', 105), (''IsConn'', 106), (''NotConn'', 107),
     (''Shutdown'', 108), (''TooManyRefs'', 109), (''TimedOut'', 110), (''ConnRefused'', 111),
     (''HostDown'', 112), (''HostUnreach'', 113), (''Already'', 114), (''InProgress'', 115),
     (''Stale'', 116), (''UClean'', 117), (''NotNam'', 118), (''NAvail'', 119),
     (''IsNam'', 120), (''RemoteIo'', 121), (''DQuot'', 122), (''NoMedium'', 123),
     (''MediumType'', 124), (''Canceled'', 125), (''NoKey'', 126), (''KeyExpired'', 127),
     (''KeyRevoked'', 128), (''KeyRejected'', 129), (''OwnerDead'', 130),
     (''NotRecoverable'', 131), (''RfKill'', 132), (''HwPoison'', 133)]"

definition os_named :: "string \<Rightarrow> os_error" where
  "os_named n = OsError (the (map_of os_error_table n))"

text \<open>The derived \<open>from_i32\<close>, and \<open>From<i32>\<close>, which falls back to \<open>Unknown\<close>.\<close>

definition os_from_i32 :: "int \<Rightarrow> os_error option" where
  "os_from_i32 c = (if c \<in> set (map snd os_error_table) then Some (OsError c) else None)"

definition os_from :: "int \<Rightarrow> os_error" where
  "os_from c = (case os_from_i32 c of Some e \<Rightarrow> e | None \<Rightarrow> os_named ''Unknown'')"

definition os_kind_table :: "(string \<times> error_kind) list" where
  "os_kind_table = [
     (''TooBig'', ArgumentListTooLong), (''AddrInUse'', AddrInUse),
     (''AddrNotAvail'', AddrNotAvailable), (''Busy'', ResourceBusy),
     (''ConnAborted'', ConnectionAborted), (''ConnRefused'', ConnectionRefused),
     (''ConnReset'', ConnectionReset), (''Deadlock'', Deadlock),
     (''DQuot'', DiskQuotaExceeded), (''Exist'', AlreadyExists), (''FBig'', FileTooLarge),
     (''HostUnreach'', HostUnreachable), (''Intr'', Interrupted), (''Inval'', InvalidInput),
     (''IsDir'', IsADirectory), (''Loop'', FileSystemLoop), (''NoEnt'', NotFound),
     (''NoMem'', OutOfMemory), (''NoSpc'', StorageFull), (''NoSys'', Unsupported),
     (''MLink'', TooManyLinks), (''NameTooLong'', InvalidFilename), (''NetDown'', NetworkDown),
     (''NetUnreach'', NetworkUnreachable), (''NotConn'', NotConnected),
     (''NotDir'', NotADirectory), (''NotEmpty'', DirectoryNotEmpty), (''Pipe'', BrokenPipe),
     (''Rofs'', ReadOnlyFilesystem), (''SPipe'', NotSeekable),
     (''Stale'', StaleNetworkFileHandle), (''TimedOut'', TimedOut),
     (''TxtBsy'', ExecutableFileBusy), (''XDev'', CrossesDevices), (''Canceled'', Interrupted),
     (''Acces'', PermissionDenied), (''Perm'', PermissionDenied), (''Again'', WouldBlock)]"

definition kind_of_os :: "os_error \<Rightarrow> error_kind" where
  "kind_of_os e =
     (case find (\<lambda>(n, k). os_named n = e) os_kind_table of Some (n, k) \<Rightarrow> k | None \<Rightarrow> Uncategorized)"

text \<open>\<open>result_from_int\<close> and \<open>result_from_ptr\<close> on the raw \<open>isize\<close> of a system call.\<close>

definition neg_as_i32 :: "usize \<Rightarrow> int" where
  "neg_as_i32 r = sint (ucast (- r) :: u32)"

definition result_from_int :: "usize \<Rightarrow> (os_error, usize) outcome" where
  "result_from_int r = (if 0 \<le>s r then Ok r else Err (os_from (neg_as_i32 r)))"

definition result_from_ptr :: "usize \<Rightarrow> (os_error, usize) outcome" where
  "result_from_ptr r = (if r \<le> - 4096 then Ok r else Err (os_from (neg_as_i32 r)))"

text \<open>\<open>result_from_libc\<close>: \<open>errno\<close> is the thread's error code when the call returns.\<close>

definition result_from_libc :: "int \<Rightarrow> usize \<Rightarrow> (os_error, usize) outcome" where
  "result_from_libc errno r = (if 0 \<le>s r then Ok r else Err (os_from errno))"

section \<open>The tagged pointer\<close>

text \<open>A simple message and a custom error are behind pointers, here their addresses.\<close>

datatype error_data = DataOs os_error | DataSimple error_kind | DataMessage usize | DataCustom usize

definition TAG_MASK :: usize where
  "TAG_MASK = 3"

definition TAG_MESSAGE :: usize where
  "TAG_MESSAGE = 0"

definition TAG_SIMPLE :: usize where
  "TAG_SIMPLE = 1"

definition TAG_OS :: usize where
  "TAG_OS = 2"

definition TAG_CUSTOM :: usize where
  "TAG_CUSTOM = 3"

definition repr_new_os :: "os_error \<Rightarrow> usize" where
  "repr_new_os e = push_bit 8 (word_of_int (os_code e)) OR TAG_OS"

definition repr_new_simple :: "error_kind \<Rightarrow> usize" where
  "repr_new_simple k = push_bit 8 (ucast (kind_code k)) OR TAG_SIMPLE"

definition repr_new_simple_message :: "usize \<Rightarrow> usize" where
  "repr_new_simple_message p = p"

definition repr_new_custom :: "usize \<Rightarrow> usize" where
  "repr_new_custom p = p OR TAG_CUSTOM"

definition repr_new :: "error_data \<Rightarrow> usize" where
  "repr_new d =
     (case d of DataOs e \<Rightarrow> repr_new_os e | DataSimple k \<Rightarrow> repr_new_simple k
      | DataMessage p \<Rightarrow> repr_new_simple_message p | DataCustom p \<Rightarrow> repr_new_custom p)"

text \<open>\<open>(bits >> 8) as u16\<close> reinterpreted as the \<open>i16\<close> code: undefined when it is no code of the enum.\<close>

definition os_of_bits :: "u16 \<Rightarrow> os_error option" where
  "os_of_bits w = os_from_i32 (sint w)"

definition decode_repr :: "usize \<Rightarrow> error_data option" where
  "decode_repr repr =
     (let tag = repr AND TAG_MASK; bits = repr AND NOT TAG_MASK
      in if tag = TAG_OS then map_option DataOs (os_of_bits (ucast (drop_bit 8 bits)))
         else if tag = TAG_SIMPLE then map_option DataSimple (kind_of_code (ucast (drop_bit 8 bits)))
         else if tag = TAG_MESSAGE then Some (DataMessage repr)
         else Some (DataCustom bits))"

text \<open>The kind of an error; \<open>msg\<close> and \<open>custom\<close> read the kind stored behind the pointer.\<close>

definition error_kind_of :: "(usize \<Rightarrow> error_kind) \<Rightarrow> (usize \<Rightarrow> error_kind) \<Rightarrow> error_data \<Rightarrow> error_kind" where
  "error_kind_of msg custom d =
     (case d of DataOs e \<Rightarrow> kind_of_os e | DataSimple k \<Rightarrow> k | DataMessage p \<Rightarrow> msg p | DataCustom p \<Rightarrow> custom p)"

definition error_os_error :: "error_data \<Rightarrow> os_error option" where
  "error_os_error d = (case d of DataOs e \<Rightarrow> Some e | _ \<Rightarrow> None)"

text \<open>What the constructors are given: codes of the enum, and aligned, non-null pointers.\<close>

definition data_ok :: "error_data \<Rightarrow> bool" where
  "data_ok d =
     (case d of DataOs e \<Rightarrow> os_code e \<in> set (map snd os_error_table) | DataSimple k \<Rightarrow> True
      | DataMessage p \<Rightarrow> p AND 3 = 0 \<and> p \<noteq> 0 | DataCustom p \<Rightarrow> p AND 3 = 0 \<and> p \<noteq> 0)"

section \<open>Lemmas\<close>

lemma kind_in_error_kinds: "k \<in> set error_kinds"
  by (cases k) (simp_all add: error_kinds_def)

lemma index_of_less: "x \<in> set xs \<Longrightarrow> index_of xs x < length xs \<and> xs ! index_of xs x = x"
  by (induction xs) auto

lemma kind_code_unat: "unat (kind_code k) = index_of error_kinds k"
proof -
  have "index_of error_kinds k < length error_kinds"
    using index_of_less[OF kind_in_error_kinds] by blast
  also have "length error_kinds < 256" by (simp add: error_kinds_def)
  finally show ?thesis by (simp add: kind_code_def unat_of_nat take_bit_eq_mod)
qed

lemma kind_of_code_code [simp]: "kind_of_code (kind_code k) = Some k"
  using index_of_less[OF kind_in_error_kinds, of k] by (simp add: kind_of_code_def kind_code_unat)

lemma os_codes_range: "c \<in> set (map snd os_error_table) \<Longrightarrow> - 1 \<le> c \<and> c \<le> 133"
  by (simp add: os_error_table_def) presburger

lemma tag_bits:
  fixes w :: usize
  assumes "t \<in> {1, 2}"
  shows "(push_bit 8 w OR t) AND 3 = t" "(push_bit 8 w OR t) AND NOT 3 = push_bit 8 w"
proof -
  have t: "t AND 3 = t" "t AND NOT 3 = 0" using assms by auto
  have m: "(3 :: usize) = mask 2" by (simp add: mask_eq_exp_minus_1)
  have "push_bit 8 w AND 3 = (0 :: usize)"
    unfolding m by (rule bit_word_eqI) (auto simp: bit_simps)
  moreover have "push_bit 8 w AND NOT 3 = push_bit 8 w"
    unfolding m by (rule bit_word_eqI) (auto simp: bit_simps)
  ultimately show "(push_bit 8 w OR t) AND 3 = t" "(push_bit 8 w OR t) AND NOT 3 = push_bit 8 w"
    using t by (simp_all add: bit.conj_disj_distrib2)
qed

lemma high_bits: "drop_bit 8 (push_bit 8 w) = take_bit 56 (w :: usize)"
  by (rule bit_word_eqI) (auto simp: bit_simps)

lemma low_bits:
  "ucast (take_bit 56 (w :: usize)) = (ucast w :: u16)" "ucast (take_bit 56 (ucast b :: usize)) = (b :: byte)"
  by (rule bit_word_eqI; auto simp: bit_simps)+

lemma decode_os:
  assumes "os_code e \<in> set (map snd os_error_table)"
  shows "decode_repr (repr_new_os e) = Some (DataOs e)"
proof -
  have r: "- 1 \<le> os_code e" "os_code e \<le> 133" using os_codes_range[OF assms] by auto
  have "sint (ucast (word_of_int (os_code e) :: usize) :: u16) = os_code e"
  proof -
    have "(ucast (word_of_int (os_code e) :: usize) :: u16) = word_of_int (os_code e)"
      by (rule bit_word_eqI) (auto simp: bit_simps)
    moreover have "sint (word_of_int (os_code e) :: u16) = os_code e"
      using r sint_sbintrunc'[of "os_code e", where 'a = 16] by (simp add: signed_take_bit_int_eq_self)
    ultimately show ?thesis by simp
  qed
  then have "os_of_bits (ucast (take_bit 56 (word_of_int (os_code e) :: usize))) = Some e"
    using assms by (simp add: os_of_bits_def os_from_i32_def low_bits)
  then show ?thesis
    using tag_bits[of 2 "word_of_int (os_code e)"]
    by (simp add: decode_repr_def repr_new_os_def TAG_OS_def TAG_MASK_def high_bits Let_def)
qed

lemma decode_simple: "decode_repr (repr_new_simple k) = Some (DataSimple k)"
  using tag_bits[of 1 "ucast (kind_code k)"]
  by (simp add: decode_repr_def repr_new_simple_def TAG_SIMPLE_def TAG_OS_def TAG_MASK_def high_bits low_bits Let_def)

lemma decode_custom:
  assumes "p AND 3 = 0"
  shows "decode_repr (repr_new_custom p) = Some (DataCustom p)"
proof -
  have "(p OR 3) AND 3 = (3 :: usize)" "(p OR 3) AND NOT 3 = p AND NOT 3"
    by (simp_all add: bit.conj_disj_distrib2)
  moreover have "p AND NOT 3 = p"
  proof -
    have "(p AND 3) OR (p AND NOT 3) = p" by (simp flip: bit.conj_disj_distrib)
    with assms show ?thesis by simp
  qed
  ultimately show ?thesis
    by (simp add: decode_repr_def repr_new_custom_def TAG_CUSTOM_def TAG_SIMPLE_def TAG_OS_def TAG_MESSAGE_def
      TAG_MASK_def Let_def)
qed

section \<open>Properties\<close>

text \<open>C34: Every error survives its tagged pointer: decoding what any constructor builds gives back the OS
  error, the kind, or the pointer that went in, and the word is never null.\<close>

theorem repr_roundtrip:
  assumes "data_ok d"
  shows "decode_repr (repr_new d) = Some d \<and> repr_new d \<noteq> 0"
proof -
  have nz: "x OR t \<noteq> 0" if "t \<noteq> 0" for x t :: usize
    using that by (metis or_eq_0_iff)
  show ?thesis
  proof (cases d)
    case (DataOs e)
    with assms decode_os nz[of TAG_OS] show ?thesis
      by (simp add: data_ok_def repr_new_def repr_new_os_def TAG_OS_def)
  next
    case (DataSimple k)
    with decode_simple nz[of TAG_SIMPLE] show ?thesis
      by (simp add: repr_new_def repr_new_simple_def TAG_SIMPLE_def)
  next
    case (DataMessage p)
    with assms show ?thesis
      by (simp add: data_ok_def repr_new_def repr_new_simple_message_def decode_repr_def TAG_OS_def TAG_SIMPLE_def
        TAG_MESSAGE_def TAG_MASK_def Let_def)
  next
    case (DataCustom p)
    with assms decode_custom nz[of TAG_CUSTOM] show ?thesis
      by (simp add: data_ok_def repr_new_def repr_new_custom_def TAG_CUSTOM_def)
  qed
qed

theorem repr_roundtrip_witness:
  "decode_repr (repr_new (DataOs (OsError (- 1)))) = Some (DataOs (OsError (- 1)))"
proof -
  have "data_ok (DataOs (OsError (- 1)))" by (simp add: data_ok_def os_error_table_def)
  from repr_roundtrip[OF this] show ?thesis by simp
qed

text \<open>C40: A raw system call result that encodes an error (a negated code of the enum) becomes exactly that
  error, and any other result up to -4096 as an unsigned pointer is returned unchanged.\<close>

theorem raw_results_decode:
  assumes "c \<in> set (map snd os_error_table)" "0 < c"
  shows "result_from_ptr (- word_of_int c) = Err (OsError c) \<and> result_from_int (- word_of_int c) = Err (OsError c) \<and>
    (r \<le> - 4096 \<longrightarrow> result_from_ptr r = Ok r)"
proof -
  have r: "0 < c" "c \<le> 133" using os_codes_range[OF assms(1)] assms(2) by auto
  have "(ucast (word_of_int c :: usize) :: u32) = word_of_int c"
    by (rule bit_word_eqI) (auto simp: bit_simps)
  moreover have "sint (word_of_int c :: u32) = c"
    using r sint_sbintrunc'[of c, where 'a = 32] by (simp add: signed_take_bit_int_eq_self)
  ultimately have n: "neg_as_i32 (- word_of_int c) = c" by (simp add: neg_as_i32_def)
  have "sint (word_of_int (- c) :: usize) = - c"
    using r sint_sbintrunc'[of "- c", where 'a = 64] by (simp add: signed_take_bit_int_eq_self)
  then have s: "\<not> 0 \<le>s (- word_of_int c :: usize)" using r by (simp add: word_sle_eq)
  have "uint (word_of_int (- c) :: usize) = 2 ^ 64 - c"
  proof -
    have "uint (word_of_int (- c) :: usize) = (- c) mod 2 ^ 64"
      using uint_word_of_int[of "- c", where 'a = 64] by simp
    also have "\<dots> = 2 ^ 64 - c" using r by (simp add: zmod_zminus1_eq_if)
    finally show ?thesis .
  qed
  then have "\<not> (- word_of_int c :: usize) \<le> - 4096" using r by (simp add: word_le_def)
  with n s assms(1) show ?thesis
    by (simp add: result_from_ptr_def result_from_int_def os_from_def os_from_i32_def)
qed

theorem raw_results_decode_witness:
  "result_from_ptr (- 2) = Err (OsError 2) \<and> result_from_ptr 4096 = Ok 4096"
proof -
  have "(2 :: int) \<in> set (map snd os_error_table)" by (simp add: os_error_table_def)
  from raw_results_decode[OF this, of 4096] show ?thesis by simp
qed

end
