(* ===== verification/Async_Context.thy ===== *)
theory Async_Context
  imports Error_Codes
begin

text \<open>
  The context of an async worker, \<open>src/src/coroutines/context.rs\<close>, and the functions of \<open>coroutines/mod.rs\<close> over it: the budget, the
  interrupt flag, the interrupt guards and the cancel of the operation the worker is blocked on. Cancels are named; what calling one
  returns is a parameter. \<open>None\<close> is the abort of \<open>expect_nounwind\<close>. Shown: how much work a worker does between two suspensions, and which operations
  an interrupt reaches.
\<close>

section \<open>The context\<close>

definition DEFAULT_BUDGET :: u32 where
  "DEFAULT_BUDGET = 128"

record ctx_data =
  cx_budget :: u16
  cx_guards :: u32
  cx_interrupted :: bool
  cx_cancel :: "nat option"

definition data_new :: ctx_data where
  "data_new = \<lparr>cx_budget = ucast DEFAULT_BUDGET, cx_guards = 0, cx_interrupted = False, cx_cancel = None\<rparr>"

definition current_budget :: "ctx_data \<Rightarrow> u16" where
  "current_budget d = cx_budget d"

definition decrease_budget :: "u16 \<Rightarrow> ctx_data \<Rightarrow> u16 option \<times> ctx_data" where
  "decrease_budget amount d =
     (let result = (if amount \<le> cx_budget d then Some (cx_budget d - amount) else None)
      in (result, d\<lparr>cx_budget := (case result of None \<Rightarrow> 0 | Some b \<Rightarrow> b)\<rparr>))"

definition interrupted :: "ctx_data \<Rightarrow> bool" where
  "interrupted d \<longleftrightarrow> cx_guards d = 0 \<and> cx_interrupted d"

definition clear_interrupt :: "ctx_data \<Rightarrow> ctx_data" where
  "clear_interrupt d = d\<lparr>cx_interrupted := False\<rparr>"

text \<open>\<open>Context::interrupt\<close>: the cancel called, if any, what the call returns, and the context.\<close>

definition interrupt :: "(nat \<Rightarrow> (error_kind, unit) outcome) \<Rightarrow> ctx_data \<Rightarrow> nat option \<times> (error_kind, unit) outcome \<times> ctx_data" where
  "interrupt cancel d =
     (let was = cx_interrupted d; d1 = d\<lparr>cx_interrupted := True\<rparr>;
          plain = (if was then Err AlreadyInProgress else Ok ())
      in if 0 < cx_guards d1 then (None, plain, d1)
         else case cx_cancel d1 of
           None \<Rightarrow> (None, plain, d1)
         | Some c \<Rightarrow> (Some c, cancel c, d1\<lparr>cx_cancel := None\<rparr>))"

text \<open>\<open>update_guard_count\<close> for the two differences that occur: aborts when the count over- or underflows.\<close>

definition update_guard_count :: "int \<Rightarrow> ctx_data \<Rightarrow> ctx_data option" where
  "update_guard_count rel d =
     (if 0 \<le> uint (cx_guards d) + rel \<and> uint (cx_guards d) + rel < 2 ^ 32
      then Some (d\<lparr>cx_guards := word_of_int (uint (cx_guards d) + rel)\<rparr>) else None)"

definition guard_new :: "ctx_data \<Rightarrow> ctx_data option" where
  "guard_new d = update_guard_count 1 d"

definition guard_drop :: "ctx_data \<Rightarrow> ctx_data option" where
  "guard_drop d = update_guard_count (- 1) d"

text \<open>
  \<open>Context::block_on\<close> around the suspension of a pending future: before it, and after the worker was resumed.
  A thread safe operation needs a waker, and prepares it; without one it panics before the future is run.
\<close>

definition block_begin :: "nat \<Rightarrow> ctx_data \<Rightarrow> ctx_data" where
  "block_begin c d = d\<lparr>cx_cancel := Some c, cx_budget := ucast DEFAULT_BUDGET\<rparr>"

definition block_end :: "ctx_data \<Rightarrow> ctx_data" where
  "block_end d = d\<lparr>cx_cancel := None\<rparr>"

definition block_on_start :: "bool \<Rightarrow> bool \<Rightarrow> nat option \<Rightarrow> ctx_data \<Rightarrow> (unit, bool) outcome \<times> ctx_data" where
  "block_on_start has_waker thread_safe pending d =
     (if thread_safe \<and> \<not> has_waker then (Panic, d)
      else case pending of None \<Rightarrow> (Ok False, d) | Some c \<Rightarrow> (Ok True, block_begin c d))"

section \<open>Functions of async code\<close>

definition try_into_u16 :: "u32 \<Rightarrow> u16 option" where
  "try_into_u16 n = (if unat n < 2 ^ 16 then Some (ucast n) else None)"

definition acquire_budget :: "u32 option \<Rightarrow> ctx_data \<Rightarrow> bool \<times> ctx_data" where
  "acquire_budget amount d =
     (let n = (case amount of None \<Rightarrow> 1 | Some n \<Rightarrow> n);
          (r, d1) = decrease_budget (case try_into_u16 n of None \<Rightarrow> - 1 | Some m \<Rightarrow> m) d
      in (r \<noteq> None, d1))"

definition check_interrupt :: "ctx_data \<Rightarrow> (error_kind, unit) outcome" where
  "check_interrupt d = (if \<not> interrupted d then Ok () else Err Interrupted)"

definition take_interrupt :: "ctx_data \<Rightarrow> bool \<times> ctx_data" where
  "take_interrupt d = (interrupted d, if interrupted d then clear_interrupt d else d)"

definition check_interrupt_take :: "ctx_data \<Rightarrow> (error_kind, unit) outcome \<times> ctx_data" where
  "check_interrupt_take d = (let (i, d1) = take_interrupt d in (if \<not> i then Ok () else Err Interrupted, d1))"

section \<open>The budget\<close>

text \<open>What a worker is granted by a sequence of acquisitions.\<close>

fun granted :: "u32 option list \<Rightarrow> ctx_data \<Rightarrow> nat list \<times> ctx_data" where
  "granted [] d = ([], d)"
| "granted (a # as) d =
     (let (ok, d1) = acquire_budget a d; (gs, d2) = granted as d1
      in (if ok then unat (case a of None \<Rightarrow> 1 | Some n \<Rightarrow> n) # gs else gs, d2))"

lemma acquire_cases:
  assumes "acquire_budget a d = (ok, d1)" "unat (cx_budget d) < 2 ^ 16 - 1"
  shows "(ok \<longrightarrow> unat (case a of None \<Rightarrow> 1 | Some n \<Rightarrow> n) + unat (cx_budget d1) = unat (cx_budget d)) \<and>
    (\<not> ok \<longrightarrow> cx_budget d1 = 0)"
proof -
  let ?n = "case a of None \<Rightarrow> 1 | Some n \<Rightarrow> n"
  show ?thesis
  proof (cases "unat ?n < 2 ^ 16")
    case True
    then have "unat (ucast ?n :: u16) = unat ?n" by (simp add: unsigned_ucast_eq take_bit_nat_eq_self)
    then show ?thesis using assms(1) True
      by (auto simp: acquire_budget_def decrease_budget_def try_into_u16_def Let_def word_le_nat_alt unat_sub split: if_splits)
  next
    case False
    have "unat (- 1 :: u16) = 2 ^ 16 - 1" by (simp add: unsigned_minus_1_eq_mask mask_eq_exp_minus_1)
    then have "\<not> (- 1 :: u16) \<le> cx_budget d" using assms(2) by (simp add: word_le_nat_alt)
    then show ?thesis using assms(1) False
      by (auto simp: acquire_budget_def decrease_budget_def try_into_u16_def Let_def split: if_splits)
  qed
qed

lemma granted_bound: "unat (cx_budget d) < 2 ^ 16 - 1 \<Longrightarrow> sum_list (fst (granted as d)) \<le> unat (cx_budget d)"
proof (induction as arbitrary: d)
  case (Cons a as)
  obtain ok d1 where a: "acquire_budget a d = (ok, d1)" by fastforce
  note c = acquire_cases[OF a Cons.prems]
  have le: "unat (cx_budget d1) \<le> unat (cx_budget d)" using c by (cases ok) auto
  then have s: "sum_list (fst (granted as d1)) \<le> unat (cx_budget d1)" using Cons.IH[of d1] Cons.prems by simp
  show ?case
  proof (cases ok)
    case True
    then show ?thesis using c s by (simp add: a case_prod_beta)
  next
    case False
    then have "fst (granted (a # as) d) = fst (granted as d1)" by (simp add: a case_prod_beta)
    then show ?thesis using le_trans[OF s le] by simp
  qed
qed simp

text \<open>C28: Between two suspensions a worker is granted at most the default budget of work, however it splits its requests, and oversized requests, which
  do not fit the budget's 16 bits, are refused.\<close>

theorem work_between_suspensions_is_bounded:
  "sum_list (fst (granted as (block_end (block_begin c d)))) \<le> unat DEFAULT_BUDGET \<and> sum_list (fst (granted as data_new)) \<le> unat DEFAULT_BUDGET"
proof -
  have "unat (ucast DEFAULT_BUDGET :: u16) = unat DEFAULT_BUDGET" by (simp add: DEFAULT_BUDGET_def)
  then show ?thesis using granted_bound[of "block_end (block_begin c d)" as] granted_bound[of data_new as]
    by (simp add: block_begin_def block_end_def data_new_def) (simp add: DEFAULT_BUDGET_def)
qed

section \<open>Interrupts\<close>

text \<open>
  A worker's life: it blocks on operations and is resumed, it is interrupted by others, it checks and clears interrupts, and holds guards. The run keeps the operations it blocked on and
  the cancels that were called. A worker is suspended between \<open>EvBlock\<close> and \<open>EvResume\<close>.
\<close>

datatype ctx_event = EvBlock nat | EvResume | EvInterrupt | EvTake | EvClear | EvGuard | EvUnguard

record ctx_run =
  cr_data :: ctx_data
  cr_blocked :: "nat list"
  cr_called :: "nat list"
  cr_pending :: bool
  cr_depth :: nat

definition cr_start :: ctx_run where
  "cr_start = \<lparr>cr_data = data_new, cr_blocked = [], cr_called = [], cr_pending = False, cr_depth = 0\<rparr>"

text \<open>\<open>cr_pending\<close> and \<open>cr_depth\<close> say what the program did: an interrupt since the last one was cleared, and the guards held.\<close>

fun ctx_do :: "(nat \<Rightarrow> (error_kind, unit) outcome) \<Rightarrow> ctx_event \<Rightarrow> ctx_run \<Rightarrow> ctx_run option" where
  "ctx_do cancel (EvBlock c) r =
     (if c \<in> set (cr_blocked r) then None else Some (r\<lparr>cr_data := block_begin c (cr_data r), cr_blocked := cr_blocked r @ [c]\<rparr>))"
| "ctx_do cancel EvResume r = Some (r\<lparr>cr_data := block_end (cr_data r)\<rparr>)"
| "ctx_do cancel EvInterrupt r =
     (case interrupt cancel (cr_data r) of
        (called, _, d) \<Rightarrow> Some (r\<lparr>cr_data := d, cr_pending := True,
          cr_called := cr_called r @ (case called of None \<Rightarrow> [] | Some c \<Rightarrow> [c])\<rparr>))"
| "ctx_do cancel EvTake r =
     (case take_interrupt (cr_data r) of (i, d) \<Rightarrow> Some (r\<lparr>cr_data := d, cr_pending := (if i then False else cr_pending r)\<rparr>))"
| "ctx_do cancel EvClear r = Some (r\<lparr>cr_data := clear_interrupt (cr_data r), cr_pending := False\<rparr>)"
| "ctx_do cancel EvGuard r = map_option (\<lambda>d. r\<lparr>cr_data := d, cr_depth := cr_depth r + 1\<rparr>) (guard_new (cr_data r))"
| "ctx_do cancel EvUnguard r = map_option (\<lambda>d. r\<lparr>cr_data := d, cr_depth := cr_depth r - 1\<rparr>) (guard_drop (cr_data r))"

fun ctx_do_all :: "(nat \<Rightarrow> (error_kind, unit) outcome) \<Rightarrow> ctx_event list \<Rightarrow> ctx_run \<Rightarrow> ctx_run option" where
  "ctx_do_all cancel [] r = Some r"
| "ctx_do_all cancel (e # es) r = Option.bind (ctx_do cancel e r) (ctx_do_all cancel es)"

definition ctx_ok :: "ctx_run \<Rightarrow> bool" where
  "ctx_ok r \<longleftrightarrow> uint (cx_guards (cr_data r)) = int (cr_depth r) \<and> cx_interrupted (cr_data r) = cr_pending r \<and>
     distinct (cr_called r) \<and> set (cr_called r) \<subseteq> set (cr_blocked r) \<and>
     (\<forall>c. cx_cancel (cr_data r) = Some c \<longrightarrow> c \<in> set (cr_blocked r) \<and> c \<notin> set (cr_called r))"

lemma guard_count:
  assumes "update_guard_count rel d = Some d'"
  shows "uint (cx_guards d') = uint (cx_guards d) + rel" "cx_interrupted d' = cx_interrupted d" "cx_cancel d' = cx_cancel d"
proof -
  have r: "0 \<le> uint (cx_guards d) + rel" "uint (cx_guards d) + rel < 2 ^ 32"
    "d' = d\<lparr>cx_guards := word_of_int (uint (cx_guards d) + rel)\<rparr>"
    using assms by (auto simp: update_guard_count_def split: if_splits)
  have "uint (word_of_int (uint (cx_guards d) + rel) :: u32) = uint (cx_guards d) + rel"
    unfolding uint_word_of_int using r(1,2) by (simp add: take_bit_int_eq_self)
  then show "uint (cx_guards d') = uint (cx_guards d) + rel" using r(3) by simp
  show "cx_interrupted d' = cx_interrupted d" "cx_cancel d' = cx_cancel d" using r(3) by simp_all
qed

lemma ctx_step_ok:
  assumes "ctx_ok r" "ctx_do cancel e r = Some r'"
  shows "ctx_ok r'"
proof (cases e)
  case EvInterrupt
  then show ?thesis using assms
    by (auto simp: ctx_ok_def interrupt_def Let_def split: if_splits option.splits)
next
  case EvGuard
  then show ?thesis using assms guard_count[of 1 "cr_data r"] by (auto simp: ctx_ok_def guard_new_def)
next
  case EvUnguard
  then obtain d where d: "update_guard_count (- 1) (cr_data r) = Some d" "r' = r\<lparr>cr_data := d, cr_depth := cr_depth r - 1\<rparr>"
    using assms(2) by (auto simp: guard_drop_def)
  have "0 < cr_depth r" using d(1) assms(1) by (auto simp: ctx_ok_def update_guard_count_def split: if_splits)
  then show ?thesis using guard_count[OF d(1)] d(2) assms(1) by (auto simp: ctx_ok_def)
qed (use assms in \<open>auto simp: ctx_ok_def block_begin_def block_end_def take_interrupt_def clear_interrupt_def interrupted_def split: if_splits\<close>)

lemma ctx_all_ok: "ctx_ok r \<Longrightarrow> ctx_do_all cancel es r = Some r' \<Longrightarrow> ctx_ok r'"
proof (induction es arbitrary: r)
  case (Cons e es)
  then obtain s where "ctx_do cancel e r = Some s" "ctx_do_all cancel es s = Some r'" by (cases "ctx_do cancel e r") auto
  then show ?case using Cons.IH ctx_step_ok Cons.prems(1) by blast
qed simp

lemma ctx_start_ok: "ctx_ok cr_start"
  by (simp add: ctx_ok_def cr_start_def data_new_def)

text \<open>C27: Whatever a worker and those that interrupt it do, a blocked operation is cancelled at most once and only operations the worker blocked
  on are; under a guard no interrupt is visible and none cancels anything, but it is kept, and shows once the last guard is dropped.\<close>

theorem interrupts_reach_blocked_operations:
  assumes "ctx_do_all cancel es cr_start = Some r"
  shows "distinct (cr_called r) \<and> set (cr_called r) \<subseteq> set (cr_blocked r) \<and>
    (interrupted (cr_data r) \<longleftrightarrow> cr_pending r \<and> cr_depth r = 0) \<and>
    (0 < cr_depth r \<longrightarrow> fst (interrupt cancel (cr_data r)) = None) \<and>
    (cr_depth r = 0 \<longrightarrow> fst (interrupt cancel (cr_data r)) = cx_cancel (cr_data r))"
proof -
  have ok: "ctx_ok r" by (rule ctx_all_ok[OF ctx_start_ok assms])
  then have "cx_guards (cr_data r) = 0 \<longleftrightarrow> cr_depth r = 0" by (auto simp: ctx_ok_def word_uint_eq_iff)
  moreover from this have "0 < cx_guards (cr_data r) \<longleftrightarrow> 0 < cr_depth r" by (simp add: word_neq_0_conv[symmetric])
  ultimately show ?thesis using ok
    by (auto simp: ctx_ok_def interrupted_def interrupt_def Let_def split: option.splits)
qed

theorem interrupts_reach_blocked_operations_witness:
  "\<exists>r. ctx_do_all (\<lambda>_. Ok ()) [EvGuard, EvInterrupt, EvBlock 3, EvInterrupt, EvUnguard, EvInterrupt, EvResume] cr_start = Some r \<and>
    cr_called r = [3] \<and> interrupted (cr_data r)"
proof -
  let ?es = "[EvGuard, EvInterrupt, EvBlock 3, EvInterrupt, EvUnguard, EvInterrupt, EvResume]"
  have c: "map_option (\<lambda>r. (cr_called r, cr_pending r, cr_depth r)) (ctx_do_all (\<lambda>_. Ok ()) ?es cr_start) = Some ([3], True, 0)"
    by code_simp
  then obtain r where r: "ctx_do_all (\<lambda>_. Ok ()) ?es cr_start = Some r" by (cases "ctx_do_all (\<lambda>_. Ok ()) ?es cr_start") auto
  from interrupts_reach_blocked_operations[OF r] c show ?thesis unfolding r by auto
qed

end
