(* ===== verification/Async_Transform.thy ===== *)
theory Async_Transform
  imports Xx_Prelude
begin

text \<open>
  The body transform of \<open>#[asynchronous]\<close>, \<open>src/macros/src/asynchronous/visit.rs\<close>: the visitors that replace \<open>async\<close> blocks,
  \<open>.await\<close> and closures by calls into \<open>src/coroutines/internal.rs\<close>, on an abstract syntax of the expressions they look at. A
  block's statements are nested to the right, macro invocations (visited by the support crate) are left out. Taking an attribute off a list
  is the support crate's as well and is a parameter, \<open>rm\<close>.
  An evaluator, with fuel for the calls and loops, gives a meaning to both sides: to \<open>async\<close> and \<open>.await\<close> what the documentation
  promises, that a task runs on the context of whoever awaits it, and to the generated calls what the library does.
  Shown: the generated code does exactly what the source does, step for step, for every expression, environment, context and amount of fuel;
  the flag a visitor keeps says whether its body awaits; and no \<open>async\<close> is left.
\<close>

section \<open>Expressions\<close>

type_synonym attribute = "string \<times> string"

text \<open>Taking the first attribute of a name, \<open>remove_any\<close> of the support crate: what it took and what is left.\<close>

type_synonym take_attr = "attribute list \<Rightarrow> string \<Rightarrow> attribute option \<times> attribute list"

datatype ty = TyInfer | TyPath string | TyTuple "ty list" | TyContext

datatype pat = PWild | PIdent string | PContext | PTuple "pat list" | PType pat ty

text \<open>
  Items are not looked into. Besides those of the program there are the ones the macro itself puts into a body: a nested function that
  makes the compiler warn, an import, and the declaration of the type that a function's task has, an alias, a type of its own with
  attributes on \<open>run\<close>, or one whose output borrows the context. All three have \<open>new\<close> take a closure and \<open>run\<close> call it.
\<close>

datatype item =
    UserItem string
  | WarningItem
  | UseLang
  | WrapAlias
  | WrapStruct "attribute list"
  | WrapLending string

datatype callee =
    AsTask | OpaqueTaskNew | UnsafeStub | OpaqueAsyncFnNew | SupportWrapNew
  | Extern string
  | ExternTask string

text \<open>\<open>NoStmts\<close> is the end of a block that has no statement left and no final expression.\<close>

datatype expr =
    NoStmts
  | Path string
  | ContextIdent
  | Lit int
  | Tuple "expr list"
  | Call "attribute list" callee "expr list"
  | CallFn expr "expr list"
  | CallAsync expr expr
  | If expr expr expr
  | Loop expr
  | Break
  | Return expr
  | Block "attribute list" expr
  | Semi expr expr
  | Local pat expr expr
  | ItemThen item expr
  | Async "attribute list" bool expr
  | Await "attribute list" expr
  | Closure "attribute list" bool bool "pat list" expr

fun is_block :: "expr \<Rightarrow> bool" where
  "is_block (Block _ _) = True"
| "is_block _ = False"

definition to_block :: "expr \<Rightarrow> expr" where
  "to_block body = (if is_block body then body else Block [] body)"

section \<open>The visitors\<close>

definition join_pats :: "pat list \<Rightarrow> pat" where
  "join_pats data = (if length data = 1 then hd data else PTuple data)"

definition join_tys :: "ty list \<Rightarrow> ty" where
  "join_tys data = (if length data = 1 then hd data else TyTuple data)"

fun split_arg :: "pat \<Rightarrow> pat \<times> ty" where
  "split_arg (PType p t) = (p, t)"
| "split_arg p = (p, TyInfer)"

definition tuple_args :: "pat list \<Rightarrow> pat list" where
  "tuple_args args =
     (let pats = map (fst \<circ> split_arg) args; tys = map (snd \<circ> split_arg) args
      in [PType (join_pats pats) (join_tys tys)])"

definition context_arg :: pat where
  "context_arg = PType PContext TyContext"

text \<open>The code an \<open>async\<close> block, an \<open>.await\<close> and an asynchronous closure become, given what is inside, already visited.\<close>

definition async_task :: "take_attr \<Rightarrow> attribute list \<Rightarrow> bool \<Rightarrow> expr \<Rightarrow> expr" where
  "async_task rm attrs capture block =
     (let (inline, attrs) = rm attrs ''inline''
      in Call attrs AsTask
           [Call [] OpaqueTaskNew
             [Block [] (Closure (case inline of None \<Rightarrow> [] | Some a \<Rightarrow> [a]) False capture [context_arg] (Block [] block))]])"

definition await_stub :: "attribute list \<Rightarrow> expr \<Rightarrow> expr" where
  "await_stub attrs base = Call attrs UnsafeStub [ContextIdent, base]"

definition async_closure :: "take_attr \<Rightarrow> attribute list \<Rightarrow> bool \<Rightarrow> pat list \<Rightarrow> expr \<Rightarrow> expr" where
  "async_closure rm attrs capture inputs body =
     (let inputs = tuple_args inputs @ [context_arg];
          (inline, attrs) = rm attrs ''inline''
      in Call attrs OpaqueAsyncFnNew
           [case inline of
              None \<Rightarrow> Closure [] False capture inputs body
            | Some a \<Rightarrow> Block [] (Closure [a] False capture inputs body)])"

text \<open>
  \<open>visit_async\<close> is the visitor of a body that runs with a context; it carries the flag that says whether an \<open>.await\<close> was seen, which
  an inner \<open>async\<close> block or closure puts back. \<open>visit_sync\<close> is the one of a body without, which leaves an \<open>.await\<close> alone.
  Neither goes into an item.
\<close>

fun visit_async :: "take_attr \<Rightarrow> bool \<Rightarrow> expr \<Rightarrow> bool \<times> expr"
and visit_asyncs :: "take_attr \<Rightarrow> bool \<Rightarrow> expr list \<Rightarrow> bool \<times> expr list"
and visit_sync :: "take_attr \<Rightarrow> expr \<Rightarrow> expr"
and visit_syncs :: "take_attr \<Rightarrow> expr list \<Rightarrow> expr list" where
  "visit_async rm w NoStmts = (w, NoStmts)"
| "visit_async rm w (Path x) = (w, Path x)"
| "visit_async rm w ContextIdent = (w, ContextIdent)"
| "visit_async rm w (Lit i) = (w, Lit i)"
| "visit_async rm w (Tuple es) = (let (w, es) = visit_asyncs rm w es in (w, Tuple es))"
| "visit_async rm w (Call attrs f es) = (let (w, es) = visit_asyncs rm w es in (w, Call attrs f es))"
| "visit_async rm w (CallFn f es) = (let (w, f) = visit_async rm w f; (w, es) = visit_asyncs rm w es in (w, CallFn f es))"
| "visit_async rm w (CallAsync f e) = (let (w, f) = visit_async rm w f; (w, e) = visit_async rm w e in (w, CallAsync f e))"
| "visit_async rm w (If c a b) =
     (let (w, c) = visit_async rm w c; (w, a) = visit_async rm w a; (w, b) = visit_async rm w b in (w, If c a b))"
| "visit_async rm w (Loop b) = (let (w, b) = visit_async rm w b in (w, Loop b))"
| "visit_async rm w Break = (w, Break)"
| "visit_async rm w (Return e) = (let (w, e) = visit_async rm w e in (w, Return e))"
| "visit_async rm w (Block attrs b) = (let (w, b) = visit_async rm w b in (w, Block attrs b))"
| "visit_async rm w (Semi a b) = (let (w, a) = visit_async rm w a; (w, b) = visit_async rm w b in (w, Semi a b))"
| "visit_async rm w (Local p a b) = (let (w, a) = visit_async rm w a; (w, b) = visit_async rm w b in (w, Local p a b))"
| "visit_async rm w (ItemThen i b) = (let (w, b) = visit_async rm w b in (w, ItemThen i b))"
| "visit_async rm w (Async attrs capture b) = (w, async_task rm attrs capture (snd (visit_async rm w b)))"
| "visit_async rm w (Await attrs e) = (let (w, e) = visit_async rm True e in (w, await_stub attrs e))"
| "visit_async rm w (Closure attrs asyncness capture inputs body) =
     (if asyncness then
        (w, async_closure rm attrs capture inputs
              (if is_block body then snd (visit_async rm w body) else Block [] (snd (visit_async rm w body))))
      else
        (case body of
           Async battrs True b \<Rightarrow> (w, async_closure rm attrs capture inputs (Block battrs (snd (visit_async rm w b))))
         | _ \<Rightarrow> (w, Closure attrs False capture inputs (visit_sync rm body))))"
| "visit_asyncs rm w [] = (w, [])"
| "visit_asyncs rm w (e # es) = (let (w, e) = visit_async rm w e; (w, es) = visit_asyncs rm w es in (w, e # es))"
| "visit_sync rm NoStmts = NoStmts"
| "visit_sync rm (Path x) = Path x"
| "visit_sync rm ContextIdent = ContextIdent"
| "visit_sync rm (Lit i) = Lit i"
| "visit_sync rm (Tuple es) = Tuple (visit_syncs rm es)"
| "visit_sync rm (Call attrs f es) = Call attrs f (visit_syncs rm es)"
| "visit_sync rm (CallFn f es) = CallFn (visit_sync rm f) (visit_syncs rm es)"
| "visit_sync rm (CallAsync f e) = CallAsync (visit_sync rm f) (visit_sync rm e)"
| "visit_sync rm (If c a b) = If (visit_sync rm c) (visit_sync rm a) (visit_sync rm b)"
| "visit_sync rm (Loop b) = Loop (visit_sync rm b)"
| "visit_sync rm Break = Break"
| "visit_sync rm (Return e) = Return (visit_sync rm e)"
| "visit_sync rm (Block attrs b) = Block attrs (visit_sync rm b)"
| "visit_sync rm (Semi a b) = Semi (visit_sync rm a) (visit_sync rm b)"
| "visit_sync rm (Local p a b) = Local p (visit_sync rm a) (visit_sync rm b)"
| "visit_sync rm (ItemThen i b) = ItemThen i (visit_sync rm b)"
| "visit_sync rm (Async attrs capture b) = async_task rm attrs capture (snd (visit_async rm False b))"
| "visit_sync rm (Await attrs e) = Await attrs (visit_sync rm e)"
| "visit_sync rm (Closure attrs asyncness capture inputs body) =
     (if asyncness then
        async_closure rm attrs capture inputs
          (if is_block body then snd (visit_async rm False body) else Block [] (snd (visit_async rm False body)))
      else
        (case body of
           Async battrs True b \<Rightarrow> async_closure rm attrs capture inputs (Block battrs (snd (visit_async rm False b)))
         | _ \<Rightarrow> Closure attrs False capture inputs (visit_sync rm body)))"
| "visit_syncs rm [] = []"
| "visit_syncs rm (e # es) = visit_sync rm e # visit_syncs rm es"

section \<open>Values and evaluation\<close>

text \<open>
  A closure keeps the variables and the context in scope where it was made. \<open>VTask\<close> is an \<open>async\<close> block that was not awaited yet,
  \<open>VAsyncClosure\<close> an asynchronous closure and \<open>VCallTask\<close> a call of one: they are the source's values. \<open>VOpaqueTask\<close> and
  \<open>VOpaqueFn\<close> are the library's types around a closure, \<open>VExtern\<close> a task of other code.
\<close>

datatype val =
    VNum int
  | VContext nat
  | VTuple "val list"
  | VClosure "nat option" env "pat list" expr
  | VTask "nat option" env expr
  | VAsyncClosure "nat option" env "pat list" expr
  | VCallTask val val
  | VOpaqueTask val
  | VOpaqueFn val
  | VExtern string "int list"
and env = Empty | Bind string val env

datatype flow = FVal val | FReturn val | FBreak | FStuck

fun lookup_var :: "env \<Rightarrow> string \<Rightarrow> val option" where
  "lookup_var Empty x = None"
| "lookup_var (Bind y v env) x = (if x = y then Some v else lookup_var env x)"

text \<open>Binding a pattern: the context's name is not one a program can write, so it has a place of its own.\<close>

fun bind_pat :: "pat \<Rightarrow> val \<Rightarrow> nat option \<times> env \<Rightarrow> (nat option \<times> env) option"
and bind_pats :: "pat list \<Rightarrow> val list \<Rightarrow> nat option \<times> env \<Rightarrow> (nat option \<times> env) option" where
  "bind_pat PWild v s = Some s"
| "bind_pat (PIdent x) v (cx, env) = Some (cx, Bind x v env)"
| "bind_pat PContext v (cx, env) = (case v of VContext k \<Rightarrow> Some (Some k, env) | _ \<Rightarrow> None)"
| "bind_pat (PTuple ps) v s = (case v of VTuple vs \<Rightarrow> bind_pats ps vs s | _ \<Rightarrow> None)"
| "bind_pat (PType p t) v s = bind_pat p v s"
| "bind_pats [] vs s = (if vs = [] then Some s else None)"
| "bind_pats (p # ps) vs s = (case vs of [] \<Rightarrow> None | v # vs \<Rightarrow> (case bind_pat p v s of None \<Rightarrow> None | Some s \<Rightarrow> bind_pats ps vs s))"

fun numbers :: "val list \<Rightarrow> int list option" where
  "numbers [] = Some []"
| "numbers (VNum i # vs) = (case numbers vs of None \<Rightarrow> None | Some is \<Rightarrow> Some (i # is))"
| "numbers (_ # vs) = None"

text \<open>The arguments of other code's functions: numbers, and a context last when the function takes one.\<close>

fun extern_args :: "val list \<Rightarrow> (int list \<times> nat option) option" where
  "extern_args [] = Some ([], None)"
| "extern_args (VNum i # vs) = (case extern_args vs of None \<Rightarrow> None | Some (is, cx) \<Rightarrow> Some (i # is, cx))"
| "extern_args (VContext k # vs) = (if vs = [] then Some ([], Some k) else None)"
| "extern_args (_ # vs) = None"

text \<open>The body of an asynchronous closure: one declared \<open>async\<close>, or one whose body is an \<open>async move\<close> block.\<close>

definition async_body :: "bool \<Rightarrow> expr \<Rightarrow> expr option" where
  "async_body asyncness body =
     (if asyncness then Some (to_block body)
      else (case body of Async battrs True b \<Rightarrow> Some (Block battrs b) | _ \<Rightarrow> None))"

text \<open>The arguments of an asynchronous closure come as one value: the argument itself when there is one, a tuple otherwise.\<close>

definition bind_args :: "pat list \<Rightarrow> val \<Rightarrow> nat option \<times> env \<Rightarrow> (nat option \<times> env) option" where
  "bind_args inputs v s = (case inputs of [p] \<Rightarrow> bind_pat p v s | _ \<Rightarrow> (case v of VTuple vs \<Rightarrow> bind_pats inputs vs s | _ \<Rightarrow> None))"

fun callable :: "val \<Rightarrow> bool" where
  "callable (VAsyncClosure _ _ _ _) = True"
| "callable (VOpaqueFn _) = True"
| "callable _ = False"

fun leave_fn :: "(flow \<times> 's) option \<Rightarrow> (flow \<times> 's) option" where
  "leave_fn (Some (FReturn v, s)) = Some (FVal v, s)"
| "leave_fn (Some (FBreak, s)) = Some (FStuck, s)"
| "leave_fn r = r"

text \<open>Other code: a function of numbers, with a context or without, or a task run on a context, acting on a state of its own.\<close>

type_synonym 's extern = "string \<Rightarrow> nat option \<Rightarrow> int list \<Rightarrow> 's \<Rightarrow> int \<times> 's"

text \<open>
  \<open>eval ext n cx aw env e s\<close>: \<open>cx\<close> is the context in scope, \<open>aw\<close> whether \<open>.await\<close> is allowed here, which it is directly
  in an asynchronous body and not in an ordinary closure. Each call and each turn of a loop takes one unit of the fuel \<open>n\<close>;
  \<open>None\<close> is running out.
\<close>

function eval :: "'s extern \<Rightarrow> nat \<Rightarrow> nat option \<Rightarrow> bool \<Rightarrow> env \<Rightarrow> expr \<Rightarrow> 's \<Rightarrow> (flow \<times> 's) option"
and evals :: "'s extern \<Rightarrow> nat \<Rightarrow> nat option \<Rightarrow> bool \<Rightarrow> env \<Rightarrow> expr list \<Rightarrow> 's \<Rightarrow> ((flow + val list) \<times> 's) option"
and run_task :: "'s extern \<Rightarrow> nat \<Rightarrow> nat \<Rightarrow> val \<Rightarrow> 's \<Rightarrow> (flow \<times> 's) option"
and apply_fn :: "'s extern \<Rightarrow> nat \<Rightarrow> val \<Rightarrow> val list \<Rightarrow> 's \<Rightarrow> (flow \<times> 's) option" where
  "eval ext n cx aw env NoStmts s = Some (FVal (VTuple []), s)"
| "eval ext n cx aw env (Path x) s = Some (case lookup_var env x of None \<Rightarrow> FStuck | Some v \<Rightarrow> FVal v, s)"
| "eval ext n cx aw env ContextIdent s = Some (case cx of None \<Rightarrow> FStuck | Some k \<Rightarrow> FVal (VContext k), s)"
| "eval ext n cx aw env (Lit i) s = Some (FVal (VNum i), s)"
| "eval ext n cx aw env (Tuple es) s =
     (case evals ext n cx aw env es s of
        None \<Rightarrow> None
      | Some (Inl f, s) \<Rightarrow> Some (f, s)
      | Some (Inr vs, s) \<Rightarrow> Some (FVal (VTuple vs), s))"
| "eval ext n cx aw env (Call attrs f es) s =
     (case evals ext n cx aw env es s of
        None \<Rightarrow> None
      | Some (Inl f, s) \<Rightarrow> Some (f, s)
      | Some (Inr vs, s) \<Rightarrow>
          (case f of
             AsTask \<Rightarrow> Some (case vs of [v] \<Rightarrow> FVal v | _ \<Rightarrow> FStuck, s)
           | OpaqueTaskNew \<Rightarrow> Some (case vs of [v] \<Rightarrow> FVal (VOpaqueTask v) | _ \<Rightarrow> FStuck, s)
           | SupportWrapNew \<Rightarrow> Some (case vs of [v] \<Rightarrow> FVal (VOpaqueTask v) | _ \<Rightarrow> FStuck, s)
           | OpaqueAsyncFnNew \<Rightarrow> Some (case vs of [v] \<Rightarrow> FVal (VOpaqueFn v) | _ \<Rightarrow> FStuck, s)
           | UnsafeStub \<Rightarrow> (case vs of [VContext k, v] \<Rightarrow> run_task ext n k v s | _ \<Rightarrow> Some (FStuck, s))
           | Extern name \<Rightarrow>
               Some (case extern_args vs of
                       None \<Rightarrow> (FStuck, s)
                     | Some (is, cx) \<Rightarrow> (let (i, s) = ext name cx is s in (FVal (VNum i), s)))
           | ExternTask name \<Rightarrow> Some (case numbers vs of None \<Rightarrow> FStuck | Some is \<Rightarrow> FVal (VExtern name is), s)))"
| "eval ext n cx aw env (CallFn f es) s =
     (case eval ext n cx aw env f s of
        Some (FVal v, s) \<Rightarrow>
          (case evals ext n cx aw env es s of
             None \<Rightarrow> None
           | Some (Inl f, s) \<Rightarrow> Some (f, s)
           | Some (Inr vs, s) \<Rightarrow> apply_fn ext n v vs s)
      | r \<Rightarrow> r)"
| "eval ext n cx aw env (CallAsync f e) s =
     (case eval ext n cx aw env f s of
        Some (FVal v, s) \<Rightarrow>
          (case eval ext n cx aw env e s of
             Some (FVal a, s) \<Rightarrow> Some (if callable v then FVal (VCallTask v a) else FStuck, s)
           | r \<Rightarrow> r)
      | r \<Rightarrow> r)"
| "eval ext n cx aw env (If c a b) s =
     (case eval ext n cx aw env c s of
        Some (FVal v, s) \<Rightarrow>
          (case v of
             VNum i \<Rightarrow> if i \<noteq> 0 then eval ext n cx aw env a s else eval ext n cx aw env b s
           | _ \<Rightarrow> Some (FStuck, s))
      | r \<Rightarrow> r)"
| "eval ext n cx aw env (Loop b) s =
     (case eval ext n cx aw env b s of
        Some (FVal v, s) \<Rightarrow> (case n of 0 \<Rightarrow> None | Suc m \<Rightarrow> eval ext m cx aw env (Loop b) s)
      | Some (FBreak, s) \<Rightarrow> Some (FVal (VTuple []), s)
      | r \<Rightarrow> r)"
| "eval ext n cx aw env Break s = Some (FBreak, s)"
| "eval ext n cx aw env (Return e) s =
     (case eval ext n cx aw env e s of Some (FVal v, s) \<Rightarrow> Some (FReturn v, s) | r \<Rightarrow> r)"
| "eval ext n cx aw env (Block attrs b) s = eval ext n cx aw env b s"
| "eval ext n cx aw env (Semi a b) s =
     (case eval ext n cx aw env a s of Some (FVal v, s) \<Rightarrow> eval ext n cx aw env b s | r \<Rightarrow> r)"
| "eval ext n cx aw env (Local p a b) s =
     (case eval ext n cx aw env a s of
        Some (FVal v, s) \<Rightarrow>
          (case bind_pat p v (cx, env) of
             None \<Rightarrow> Some (FStuck, s)
           | Some (cx, env) \<Rightarrow> eval ext n cx aw env b s)
      | r \<Rightarrow> r)"
| "eval ext n cx aw env (ItemThen i b) s = eval ext n cx aw env b s"
| "eval ext n cx aw env (Async attrs capture b) s = Some (FVal (VTask cx env b), s)"
| "eval ext n cx aw env (Await attrs e) s =
     (if aw then
        (case cx of
           None \<Rightarrow> Some (FStuck, s)
         | Some k \<Rightarrow> (case eval ext n cx aw env e s of Some (FVal v, s) \<Rightarrow> run_task ext n k v s | r \<Rightarrow> r))
      else Some (FStuck, s))"
| "eval ext n cx aw env (Closure attrs asyncness capture inputs body) s =
     Some (FVal (case async_body asyncness body of
                   None \<Rightarrow> VClosure cx env inputs body
                 | Some b \<Rightarrow> VAsyncClosure cx env inputs b), s)"
| "evals ext n cx aw env [] s = Some (Inr [], s)"
| "evals ext n cx aw env (e # es) s =
     (case eval ext n cx aw env e s of
        None \<Rightarrow> None
      | Some (FVal v, s) \<Rightarrow>
          (case evals ext n cx aw env es s of Some (Inr vs, s) \<Rightarrow> Some (Inr (v # vs), s) | r \<Rightarrow> r)
      | Some (f, s) \<Rightarrow> Some (Inl f, s))"
| "run_task ext n k v s =
     (case v of
        VTask cx env b \<Rightarrow> (case n of 0 \<Rightarrow> None | Suc m \<Rightarrow> leave_fn (eval ext m (Some k) True env b s))
      | VCallTask (VAsyncClosure cx env inputs b) a \<Rightarrow>
          (case n of
             0 \<Rightarrow> None
           | Suc m \<Rightarrow>
               (case bind_args inputs a (cx, env) of
                  None \<Rightarrow> Some (FStuck, s)
                | Some (cx, env) \<Rightarrow> leave_fn (eval ext m (Some k) True env b s)))
      | VCallTask (VOpaqueFn f) a \<Rightarrow> apply_fn ext n f [a, VContext k] s
      | VOpaqueTask f \<Rightarrow> apply_fn ext n f [VContext k] s
      | VExtern name is \<Rightarrow> Some (let (i, s) = ext name (Some k) is s in (FVal (VNum i), s))
      | _ \<Rightarrow> Some (FStuck, s))"
| "apply_fn ext n v vs s =
     (case v of
        VClosure cx env inputs b \<Rightarrow>
          (case n of
             0 \<Rightarrow> None
           | Suc m \<Rightarrow>
               (case bind_pats inputs vs (cx, env) of
                  None \<Rightarrow> Some (FStuck, s)
                | Some (cx, env) \<Rightarrow> leave_fn (eval ext m cx False env b s)))
      | _ \<Rightarrow> Some (FStuck, s))"
  by pat_completeness auto
termination
  by (relation "inv_image (less_than <*lex*> less_than <*lex*> less_than)
       (\<lambda>x. case x of
          Inl (Inl (ext, n, cx, aw, env, e, s)) \<Rightarrow> (n, 2, size e)
        | Inl (Inr (ext, n, cx, aw, env, es, s)) \<Rightarrow> (n, 2, size_list size es)
        | Inr (Inl (ext, n, k, v, s)) \<Rightarrow> (n, 1, 0)
        | Inr (Inr (ext, n, v, vs, s)) \<Rightarrow> (n, 0, 0))") auto


section \<open>What the visitors keep\<close>

text \<open>Whether an expression awaits: an \<open>.await\<close> that is not inside an item, an \<open>async\<close> block or a closure.\<close>

fun awaits :: "expr \<Rightarrow> bool" where
  "awaits (Tuple es) = (\<exists>e\<in>set es. awaits e)"
| "awaits (Call attrs f es) = (\<exists>e\<in>set es. awaits e)"
| "awaits (CallFn f es) = (awaits f \<or> (\<exists>e\<in>set es. awaits e))"
| "awaits (CallAsync f e) = (awaits f \<or> awaits e)"
| "awaits (If c a b) = (awaits c \<or> awaits a \<or> awaits b)"
| "awaits (Loop b) = awaits b"
| "awaits (Return e) = awaits e"
| "awaits (Block attrs b) = awaits b"
| "awaits (Semi a b) = (awaits a \<or> awaits b)"
| "awaits (Local p a b) = (awaits a \<or> awaits b)"
| "awaits (ItemThen i b) = awaits b"
| "awaits (Await attrs e) = True"
| "awaits _ = False"

lemma visit_asyncs_flag:
  "(\<And>e w. e \<in> set es \<Longrightarrow> fst (visit_async rm w e) = (w \<or> awaits e)) \<Longrightarrow>
   fst (visit_asyncs rm w es) = (w \<or> (\<exists>e\<in>set es. awaits e))"
  by (induction es arbitrary: w) (auto simp: split_beta)

lemma visit_async_flag: "fst (visit_async rm w e) = (w \<or> awaits e)"
  by (induction e arbitrary: w) (auto simp: split_beta visit_asyncs_flag split: expr.split bool.split)

lemma async_task_inj: "async_task rm attrs capture a = async_task rm attrs capture b \<Longrightarrow> a = b"
  by (simp add: async_task_def split_beta)

lemma visit_asyncs_any_flag:
  "(\<And>e v w. e \<in> set es \<Longrightarrow> snd (visit_async rm v e) = snd (visit_async rm w e)) \<Longrightarrow>
   snd (visit_asyncs rm v es) = snd (visit_asyncs rm w es)"
  by (induction es arbitrary: v w) (simp, force simp: split_beta)

lemma visit_async_any_flag: "snd (visit_async rm v e) = snd (visit_async rm w e)"
proof (induction e arbitrary: v w)
  case (Closure attrs asyncness capture inputs body)
  show ?case
  proof (cases "\<exists>battrs b. body = Async battrs True b")
    case True
    then obtain battrs b where body: "body = Async battrs True b" by blast
    have "snd (visit_async rm v b) = snd (visit_async rm w b)"
      using Closure [of v w] by (simp add: body) (rule async_task_inj)
    with Closure [of v w] show ?thesis by (simp add: body)
  next
    case False
    with Closure [of v w] show ?thesis by (auto split: expr.split bool.split)
  qed
next
  case (Tuple es)
  then show ?case using visit_asyncs_any_flag [of es rm v w] by (simp add: split_beta)
next
  case (Call attrs f es)
  then show ?case using visit_asyncs_any_flag [of es rm v w] by (simp add: split_beta)
next
  case (CallFn f es)
  then show ?case using visit_asyncs_any_flag [of es rm] by (simp add: split_beta)
next
  case (CallAsync f e)
  then show ?case by (simp add: split_beta)
next
  case (If c a b)
  then show ?case by (simp add: split_beta)
next
  case (Semi a b)
  then show ?case by (simp add: split_beta)
next
  case (Local p a b)
  then show ?case by (simp add: split_beta)
next
  case (Async attrs capture b)
  then show ?case by simp metis
qed (simp_all add: split_beta)

definition desugar :: "take_attr \<Rightarrow> expr \<Rightarrow> expr" where
  "desugar rm e = snd (visit_async rm False e)"

definition desugars :: "take_attr \<Rightarrow> expr list \<Rightarrow> expr list" where
  "desugars rm es = snd (visit_asyncs rm False es)"

lemma snd_visit_async: "snd (visit_async rm w e) = desugar rm e"
  unfolding desugar_def by (rule visit_async_any_flag)

lemma snd_visit_asyncs: "snd (visit_asyncs rm w es) = desugars rm es"
  unfolding desugars_def by (rule visit_asyncs_any_flag) (rule visit_async_any_flag)

text \<open>The transform of an asynchronous body, constructor by constructor, without the flag.\<close>

lemma desugar_simps:
  "desugar rm NoStmts = NoStmts"
  "desugar rm (Path x) = Path x"
  "desugar rm ContextIdent = ContextIdent"
  "desugar rm (Lit i) = Lit i"
  "desugar rm (Tuple es) = Tuple (desugars rm es)"
  "desugar rm (Call attrs g es) = Call attrs g (desugars rm es)"
  "desugar rm (CallFn f es) = CallFn (desugar rm f) (desugars rm es)"
  "desugar rm (CallAsync f e) = CallAsync (desugar rm f) (desugar rm e)"
  "desugar rm (If c a b) = If (desugar rm c) (desugar rm a) (desugar rm b)"
  "desugar rm (Loop b) = Loop (desugar rm b)"
  "desugar rm Break = Break"
  "desugar rm (Return e) = Return (desugar rm e)"
  "desugar rm (Block attrs b) = Block attrs (desugar rm b)"
  "desugar rm (Semi a b) = Semi (desugar rm a) (desugar rm b)"
  "desugar rm (Local p a b) = Local p (desugar rm a) (desugar rm b)"
  "desugar rm (ItemThen it b) = ItemThen it (desugar rm b)"
  "desugar rm (Async attrs capture b) = async_task rm attrs capture (desugar rm b)"
  "desugar rm (Await attrs e) = await_stub attrs (desugar rm e)"
  "desugars rm [] = []"
  "desugars rm (e # es) = desugar rm e # desugars rm es"
  unfolding desugar_def [of rm NoStmts] desugar_def [of rm "Path x"] desugar_def [of rm ContextIdent] desugar_def [of rm "Lit i"] desugar_def [of rm "Tuple es"]
    desugar_def [of rm "Call attrs g es"] desugar_def [of rm "CallFn f es"] desugar_def [of rm "CallAsync f e"]
    desugar_def [of rm "If c a b"] desugar_def [of rm "Loop b"] desugar_def [of rm Break] desugar_def [of rm "Return e"]
    desugar_def [of rm "Block attrs b"] desugar_def [of rm "Semi a b"] desugar_def [of rm "Local p a b"] desugar_def [of rm "ItemThen it b"]
    desugar_def [of rm "Async attrs capture b"] desugar_def [of rm "Await attrs e"] desugars_def [of rm "[]"] desugars_def [of rm "e # es"]
  by (simp_all add: split_beta snd_visit_async snd_visit_asyncs)

lemma async_body_cases:
  assumes "async_body asyncness body = Some b"
  obtains (declared) "asyncness" "b = to_block body"
  | (block) battrs inner where "\<not> asyncness" "body = Async battrs True inner" "b = Block battrs inner"
  using assms by (cases asyncness; cases body) (auto simp: async_body_def split: bool.splits if_splits)

lemma async_body_none:
  assumes "async_body asyncness body = None"
  obtains "\<not> asyncness" "\<And>battrs inner. body \<noteq> Async battrs True inner"
  using assms by (cases asyncness; cases body) (auto simp: async_body_def split: bool.splits if_splits)

lemma visit_closure_declared:
  "desugar rm (Closure attrs True capture inputs body) = async_closure rm attrs capture inputs (desugar rm (to_block body))"
  "visit_sync rm (Closure attrs True capture inputs body) = async_closure rm attrs capture inputs (desugar rm (to_block body))"
  by (simp_all add: desugar_def to_block_def split_beta)

lemma visit_closure_block:
  "desugar rm (Closure attrs False capture inputs (Async battrs True b)) =
     async_closure rm attrs capture inputs (desugar rm (Block battrs b))"
  "visit_sync rm (Closure attrs False capture inputs (Async battrs True b)) =
     async_closure rm attrs capture inputs (desugar rm (Block battrs b))"
  by (simp_all add: desugar_def split_beta)

lemma desugar_closure:
  assumes "async_body asyncness body = Some b"
  shows "desugar rm (Closure attrs asyncness capture inputs body) = async_closure rm attrs capture inputs (desugar rm b)"
    and "visit_sync rm (Closure attrs asyncness capture inputs body) = async_closure rm attrs capture inputs (desugar rm b)"
proof -
  have "desugar rm (Closure attrs asyncness capture inputs body) = async_closure rm attrs capture inputs (desugar rm b) \<and>
      visit_sync rm (Closure attrs asyncness capture inputs body) = async_closure rm attrs capture inputs (desugar rm b)"
    using assms
  proof (cases rule: async_body_cases)
    case declared
    then show ?thesis using visit_closure_declared [of rm attrs capture inputs body] by (simp del: visit_sync.simps)
  next
    case (block battrs inner)
    then show ?thesis using visit_closure_block [of rm attrs capture inputs battrs inner] by (simp del: visit_sync.simps)
  qed
  then show "desugar rm (Closure attrs asyncness capture inputs body) = async_closure rm attrs capture inputs (desugar rm b)"
    and "visit_sync rm (Closure attrs asyncness capture inputs body) = async_closure rm attrs capture inputs (desugar rm b)"
    by blast+
qed

lemma visit_closure_sync:
  assumes "\<And>battrs inner. body \<noteq> Async battrs True inner"
  shows "visit_async rm w (Closure attrs False capture inputs body) = (w, Closure attrs False capture inputs (visit_sync rm body))"
    and "visit_sync rm (Closure attrs False capture inputs body) = Closure attrs False capture inputs (visit_sync rm body)"
proof -
  have "visit_async rm w (Closure attrs False capture inputs body) = (w, Closure attrs False capture inputs (visit_sync rm body)) \<and>
      visit_sync rm (Closure attrs False capture inputs body) = Closure attrs False capture inputs (visit_sync rm body)"
  proof (cases body)
    case (Async battrs c inner)
    with assms [of battrs inner] have "c = False" by simp
    with Async show ?thesis by (simp only: visit_async.simps visit_sync.simps expr.case bool.case if_False simp_thms)
  qed (simp_all only: visit_async.simps(19) visit_sync.simps(19) expr.case if_False simp_thms)
  then show "visit_async rm w (Closure attrs False capture inputs body) = (w, Closure attrs False capture inputs (visit_sync rm body))"
    and "visit_sync rm (Closure attrs False capture inputs body) = Closure attrs False capture inputs (visit_sync rm body)"
    by blast+
qed

lemma sync_closure:
  assumes "async_body asyncness body = None"
  shows "desugar rm (Closure attrs asyncness capture inputs body) = Closure attrs False capture inputs (visit_sync rm body)"
    and "visit_sync rm (Closure attrs asyncness capture inputs body) = Closure attrs False capture inputs (visit_sync rm body)"
proof -
  from assms have sync: "asyncness = False" and body: "\<And>battrs inner. body \<noteq> Async battrs True inner" by (auto elim: async_body_none)
  show "desugar rm (Closure attrs asyncness capture inputs body) = Closure attrs False capture inputs (visit_sync rm body)"
    unfolding sync desugar_def visit_closure_sync(1) [OF body] by simp
  show "visit_sync rm (Closure attrs asyncness capture inputs body) = Closure attrs False capture inputs (visit_sync rm body)"
    unfolding sync by (rule visit_closure_sync(2) [OF body])
qed

lemma shapes:
  "\<not> is_block (async_task rm attrs capture b)" "async_task rm attrs capture b \<noteq> Async attrs2 capture2 b2"
  "\<not> is_block (await_stub attrs b)" "await_stub attrs b \<noteq> Async attrs2 capture2 b2"
  "\<not> is_block (async_closure rm attrs capture inputs b)" "async_closure rm attrs capture inputs b \<noteq> Async attrs2 capture2 b2"
  by (simp_all add: async_task_def await_stub_def async_closure_def split_beta Let_def)

lemma desugar_shape: "(is_block (desugar rm e) \<longleftrightarrow> is_block e) \<and> desugar rm e \<noteq> Async attrs2 capture2 b2"
proof (cases e)
  case (Closure attrs asyncness capture inputs body)
  then show ?thesis
    using desugar_closure [of asyncness body _ rm attrs capture inputs] sync_closure [of asyncness body rm attrs capture inputs]
    by (cases "async_body asyncness body") (auto simp: shapes)
qed (simp_all add: desugar_simps shapes)

lemma visit_sync_shape: "visit_sync rm e \<noteq> Async attrs2 capture2 b2"
proof (cases e)
  case (Closure attrs asyncness capture inputs body)
  then show ?thesis
    using desugar_closure [of asyncness body _ rm attrs capture inputs] sync_closure [of asyncness body rm attrs capture inputs]
    by (cases "async_body asyncness body") (auto simp: shapes simp del: visit_sync.simps)
qed (simp_all add: shapes)

lemma async_body_sync: "async_body False (visit_sync rm e) = None"
  using visit_sync_shape [of rm e] by (auto simp: async_body_def split: expr.split)

lemma async_body_block: "async_body asyncness body = Some b \<Longrightarrow> is_block b"
  by (auto simp: async_body_def to_block_def split: if_splits expr.splits bool.splits)

lemma async_body_of_block: "is_block b \<Longrightarrow> async_body False b = None"
  by (cases b) (auto simp: async_body_def)

section \<open>Values on both sides\<close>

text \<open>The value the generated code has where the source has a value: the tasks and asynchronous closures of the source are the library's.\<close>

primrec tr_val :: "take_attr \<Rightarrow> val \<Rightarrow> val" and tr_env :: "take_attr \<Rightarrow> env \<Rightarrow> env" where
  "tr_val rm (VNum i) = VNum i"
| "tr_val rm (VContext k) = VContext k"
| "tr_val rm (VTuple vs) = VTuple (map (tr_val rm) vs)"
| "tr_val rm (VClosure cx env inputs b) = VClosure cx (tr_env rm env) inputs (visit_sync rm b)"
| "tr_val rm (VTask cx env b) = VOpaqueTask (VClosure cx (tr_env rm env) [context_arg] (Block [] (desugar rm b)))"
| "tr_val rm (VAsyncClosure cx env inputs b) =
     VOpaqueFn (VClosure cx (tr_env rm env) (tuple_args inputs @ [context_arg]) (desugar rm b))"
| "tr_val rm (VCallTask f a) = VCallTask (tr_val rm f) (tr_val rm a)"
| "tr_val rm (VOpaqueTask f) = VOpaqueTask (tr_val rm f)"
| "tr_val rm (VOpaqueFn f) = VOpaqueFn (tr_val rm f)"
| "tr_val rm (VExtern name is) = VExtern name is"
| "tr_env rm Empty = Empty"
| "tr_env rm (Bind x v env) = Bind x (tr_val rm v) (tr_env rm env)"

fun tr_flow :: "take_attr \<Rightarrow> flow \<Rightarrow> flow" where
  "tr_flow rm (FVal v) = FVal (tr_val rm v)"
| "tr_flow rm (FReturn v) = FReturn (tr_val rm v)"
| "tr_flow rm FBreak = FBreak"
| "tr_flow rm FStuck = FStuck"

definition tr_result :: "take_attr \<Rightarrow> (flow \<times> 's) option \<Rightarrow> (flow \<times> 's) option" where
  "tr_result rm r = map_option (map_prod (tr_flow rm) id) r"

definition tr_results :: "take_attr \<Rightarrow> ((flow + val list) \<times> 's) option \<Rightarrow> ((flow + val list) \<times> 's) option" where
  "tr_results rm r = map_option (map_prod (map_sum (tr_flow rm) (map (tr_val rm))) id) r"

lemma tr_result_simps [simp]:
  "tr_result rm None = None"
  "tr_result rm (Some (f, s)) = Some (tr_flow rm f, s)"
  "tr_results rm None = None"
  "tr_results rm (Some (Inl f, s)) = Some (Inl (tr_flow rm f), s)"
  "tr_results rm (Some (Inr vs, s)) = Some (Inr (map (tr_val rm) vs), s)"
  by (simp_all add: tr_result_def tr_results_def)

lemma leave_fn_tr: "leave_fn (tr_result rm r) = tr_result rm (leave_fn r)"
proof (cases r)
  case (Some p)
  then show ?thesis by (cases p; cases "fst p") auto
qed simp

lemma lookup_tr_env: "lookup_var (tr_env rm env) x = map_option (tr_val rm) (lookup_var env x)"
  by (induction env x rule: lookup_var.induct) auto

lemma numbers_tr: "numbers (map (tr_val rm) vs) = numbers vs"
proof (induction vs)
  case (Cons v vs)
  then show ?case by (cases v) auto
qed simp

lemma extern_args_tr: "extern_args (map (tr_val rm) vs) = extern_args vs"
proof (induction vs)
  case (Cons v vs)
  then show ?case by (cases v) auto
qed simp

lemma callable_tr: "callable (tr_val rm v) = callable v"
  by (cases v) auto

lemma bind_tr:
  "bind_pat p (tr_val rm v) (cx, tr_env rm env) = map_option (\<lambda>(cx, env). (cx, tr_env rm env)) (bind_pat p v (cx, env))"
  "bind_pats ps (map (tr_val rm) vs) (cx, tr_env rm env) =
     map_option (\<lambda>(cx, env). (cx, tr_env rm env)) (bind_pats ps vs (cx, env))"
proof (induction p v "(cx, env)" and ps vs "(cx, env)" arbitrary: cx env and cx env rule: bind_pat_bind_pats.induct)
  case (3 v cx env)
  then show ?case by (cases v) auto
next
  case (4 ps v)
  then show ?case by (cases v) auto
next
  case (7 p ps vs)
  then show ?case by (auto split: list.split option.split)
qed auto

section \<open>The generated code does what the source does\<close>

definition visit_body :: "take_attr \<Rightarrow> bool \<Rightarrow> expr \<Rightarrow> expr" where
  "visit_body rm aw e = (if aw then desugar rm e else visit_sync rm e)"

definition visit_bodies :: "take_attr \<Rightarrow> bool \<Rightarrow> expr list \<Rightarrow> expr list" where
  "visit_bodies rm aw es = (if aw then desugars rm es else visit_syncs rm es)"

lemma visit_body_simps:
  "visit_body rm aw NoStmts = NoStmts"
  "visit_body rm aw (Path x) = Path x"
  "visit_body rm aw ContextIdent = ContextIdent"
  "visit_body rm aw (Lit i) = Lit i"
  "visit_body rm aw (Tuple es) = Tuple (visit_bodies rm aw es)"
  "visit_body rm aw (Call attrs g es) = Call attrs g (visit_bodies rm aw es)"
  "visit_body rm aw (CallFn f es) = CallFn (visit_body rm aw f) (visit_bodies rm aw es)"
  "visit_body rm aw (CallAsync f e) = CallAsync (visit_body rm aw f) (visit_body rm aw e)"
  "visit_body rm aw (If c a b) = If (visit_body rm aw c) (visit_body rm aw a) (visit_body rm aw b)"
  "visit_body rm aw (Loop b) = Loop (visit_body rm aw b)"
  "visit_body rm aw Break = Break"
  "visit_body rm aw (Return e) = Return (visit_body rm aw e)"
  "visit_body rm aw (Block attrs b) = Block attrs (visit_body rm aw b)"
  "visit_body rm aw (Semi a b) = Semi (visit_body rm aw a) (visit_body rm aw b)"
  "visit_body rm aw (Local p a b) = Local p (visit_body rm aw a) (visit_body rm aw b)"
  "visit_body rm aw (ItemThen it b) = ItemThen it (visit_body rm aw b)"
  "visit_body rm aw (Async attrs capture b) = async_task rm attrs capture (desugar rm b)"
  "visit_body rm aw (Await attrs e) = (if aw then await_stub attrs (desugar rm e) else Await attrs (visit_sync rm e))"
  "visit_bodies rm aw [] = []"
  "visit_bodies rm aw (e # es) = visit_body rm aw e # visit_bodies rm aw es"
  by (simp_all add: visit_body_def visit_bodies_def desugar_simps snd_visit_async)

lemma visit_body_closure:
  "async_body asyncness body = Some b \<Longrightarrow>
   visit_body rm aw (Closure attrs asyncness capture inputs body) = async_closure rm attrs capture inputs (desugar rm b)"
  "async_body asyncness body = None \<Longrightarrow>
   visit_body rm aw (Closure attrs asyncness capture inputs body) = Closure attrs False capture inputs (visit_sync rm body)"
  by (simp_all only: visit_body_def desugar_closure sync_closure if_cancel)

lemma eval_async_task:
  "eval ext n cx aw env (async_task rm attrs capture b) s =
   Some (FVal (VOpaqueTask (VClosure cx env [context_arg] (Block [] b))), s)"
  by (simp add: async_task_def split_beta async_body_def)

lemma eval_async_closure:
  "is_block b \<Longrightarrow>
   eval ext n cx aw env (async_closure rm attrs capture inputs b) s =
   Some (FVal (VOpaqueFn (VClosure cx env (tuple_args inputs @ [context_arg]) b)), s)"
  by (simp add: async_closure_def split_beta Let_def async_body_of_block split: option.split)

lemma bind_split_arg:
  "bind_pat (fst (split_arg p)) v s = bind_pat p v s"
  by (cases p) auto

lemma bind_split_args: "bind_pats (map (fst \<circ> split_arg) ps) vs s = bind_pats ps vs s"
  by (induction ps arbitrary: vs s) (auto simp: bind_split_arg split: list.split option.split)

lemma bind_tuple_args:
  "bind_pats (tuple_args inputs @ [context_arg]) [a, VContext k] (cx, env) =
   map_option (\<lambda>(cx, env). (Some k, env)) (bind_args inputs a (cx, env))"
proof -
  have join: "bind_pat (join_pats (map (fst \<circ> split_arg) inputs)) a (cx, env) = bind_args inputs a (cx, env)"
  proof (cases inputs)
    case Nil
    then show ?thesis by (cases a) (auto simp: join_pats_def bind_args_def)
  next
    case (Cons p ps)
    then show ?thesis
      using bind_split_args [of inputs] by (cases ps) (auto simp: join_pats_def bind_args_def bind_split_arg split: val.split)
  qed
  then show ?thesis
    by (auto simp: tuple_args_def context_arg_def Let_def split: option.split)
qed

lemma bind_args_tr:
  "bind_args inputs (tr_val rm a) (cx, tr_env rm env) = map_option (\<lambda>(cx, env). (cx, tr_env rm env)) (bind_args inputs a (cx, env))"
proof (cases "\<exists>p. inputs = [p]")
  case True
  then show ?thesis by (auto simp: bind_args_def bind_tr)
next
  case False
  then have "bind_args inputs v s = (case v of VTuple vs \<Rightarrow> bind_pats inputs vs s | _ \<Rightarrow> None)" for v s
    by (auto simp: bind_args_def split: list.split)
  then show ?thesis by (cases a) (auto simp: bind_tr)
qed

lemma tr_val_context: "tr_val rm v = VContext k \<longleftrightarrow> v = VContext k"
  by (cases v) auto

lemma result_cases:
  obtains (out) "r = None" | (val) v s where "r = Some (FVal v, s)" | (return) v s where "r = Some (FReturn v, s)"
  | (break) s where "r = Some (FBreak, s)" | (stuck) s where "r = Some (FStuck, s)"
proof (cases r)
  case (Some p)
  obtain f s where "p = (f, s)" by (cases p)
  with Some that show ?thesis by (cases f) auto
qed (rule that)

lemma results_cases:
  obtains (out) "r = None" | (stop) f s where "r = Some (Inl f, s)" | (vals) vs s where "r = Some (Inr vs, s)"
proof (cases r)
  case (Some p)
  obtain f s where "p = (f, s)" by (cases p)
  with Some that show ?thesis by (cases f) auto
qed (rule that)

lemma eval_tr:
  fixes ext :: "'s extern"
  shows "eval ext n cx False (tr_env rm env) (visit_body rm aw e) s = tr_result rm (eval ext n cx aw env e s)"
    and "evals ext n cx False (tr_env rm env) (visit_bodies rm aw es) s = tr_results rm (evals ext n cx aw env es s)"
    and "run_task ext n k (tr_val rm v) s = tr_result rm (run_task ext n k v s)"
    and "apply_fn ext n (tr_val rm f) (map (tr_val rm) vs) s = tr_result rm (apply_fn ext n f vs s)"
proof (induction ext n cx aw env e s and ext n cx aw env es s and ext n k v s and ext n f vs s
    rule: eval_evals_run_task_apply_fn.induct)
  case (1 ext n cx aw env s)
  then show ?case by (simp add: visit_body_simps)
next
  case (2 ext n cx aw env x s)
  then show ?case by (simp add: visit_body_simps lookup_tr_env split: option.split)
next
  case (3 ext n cx aw env s)
  then show ?case by (simp add: visit_body_simps split: option.split)
next
  case (4 ext n cx aw env i s)
  then show ?case by (simp add: visit_body_simps)
next
  case (5 ext n cx aw env es s)
  then show ?case by (auto simp: visit_body_simps split: option.split sum.split)
next
  case (6 ext n cx aw env attrs f es s)
  show ?case
  proof (cases "evals ext n cx aw env es s" rule: results_cases)
    case (vals vs s1)
    show ?thesis
    proof (cases "f = UnsafeStub \<and> (\<exists>k v. vs = [VContext k, v])")
      case True
      then obtain k v where "f = UnsafeStub" "vs = [VContext k, v]" by blast
      with 6 vals show ?thesis by (simp add: visit_body_simps)
    next
      case False
      show ?thesis
      proof (cases f)
        case UnsafeStub
        with False have "\<nexists>k v. vs = [VContext k, v]" by simp
        then have "(case vs of [VContext k, v] \<Rightarrow> g k v | _ \<Rightarrow> d) = d"
          and "(case map (tr_val rm) vs of [VContext k, v] \<Rightarrow> g k v | _ \<Rightarrow> d) = d" for g :: "nat \<Rightarrow> val \<Rightarrow> (flow \<times> 's) option" and d
          by (auto simp: tr_val_context map_eq_Cons_conv split: list.split val.split)
        with 6(1) vals UnsafeStub show ?thesis by (simp add: visit_body_simps)
      qed (use 6(1) vals in \<open>simp add: visit_body_simps numbers_tr extern_args_tr split_beta Let_def split: list.split option.split\<close>)+
    qed
  qed (use 6(1) in \<open>simp_all add: visit_body_simps\<close>)
next
  case (7 ext n cx aw env f es s)
  then show ?case
    by (cases "eval ext n cx aw env f s" rule: result_cases; simp add: visit_body_simps)
      (rename_tac v s1, case_tac "evals ext n cx aw env es s1" rule: results_cases; simp)
next
  case (8 ext n cx aw env f e s)
  then show ?case
    by (cases "eval ext n cx aw env f s" rule: result_cases; simp add: visit_body_simps)
      (rename_tac v s1, case_tac "eval ext n cx aw env e s1" rule: result_cases; simp add: callable_tr)
next
  case (9 ext n cx aw env c a b s)
  then show ?case
    by (cases "eval ext n cx aw env c s" rule: result_cases; simp add: visit_body_simps)
      (rename_tac v s1, case_tac v; simp)
next
  case (10 ext n cx aw env b s)
  show ?case
  proof (cases "eval ext n cx aw env b s" rule: result_cases)
    case (val v s1)
    with 10 show ?thesis
      by (cases n) (simp_all add: visit_body_simps eval.simps(10) [of ext n] eval.simps(10) [of ext 0] eval.simps(10) [of ext "Suc _"]
          del: eval.simps(10))
  qed (use 10(1) in \<open>simp_all add: visit_body_simps\<close>)
next
  case (11 ext n cx aw env s)
  then show ?case by (simp add: visit_body_simps)
next
  case (12 ext n cx aw env e s)
  then show ?case
    by (cases "eval ext n cx aw env e s" rule: result_cases; simp add: visit_body_simps)
next
  case (13 ext n cx aw env attrs b s)
  then show ?case by (simp add: visit_body_simps)
next
  case (14 ext n cx aw env a b s)
  then show ?case
    by (cases "eval ext n cx aw env a s" rule: result_cases; simp add: visit_body_simps)
next
  case (15 ext n cx aw env p a b s)
  then show ?case
    by (cases "eval ext n cx aw env a s" rule: result_cases; simp add: visit_body_simps bind_tr split: option.split)
next
  case (16 ext n cx aw env i b s)
  then show ?case by (simp add: visit_body_simps)
next
  case (17 ext n cx aw env attrs capture b s)
  then show ?case by (simp add: visit_body_simps eval_async_task)
next
  case (18 ext n cx aw env attrs e s)
  then show ?case
    by (cases aw; cases cx; simp add: visit_body_simps await_stub_def)
      (cases "eval ext n cx aw env e s" rule: result_cases; simp add: visit_body_def)
next
  case (19 ext n cx aw env attrs asyncness capture inputs body s)
  then show ?case
    by (cases "async_body asyncness body")
      (simp_all add: visit_body_closure eval_async_closure desugar_shape async_body_block async_body_sync)
next
  case (20 ext n cx aw env s)
  then show ?case by (simp add: visit_body_simps)
next
  case (21 ext n cx aw env e es s)
  then show ?case
    by (cases "eval ext n cx aw env e s" rule: result_cases; simp add: visit_body_simps)
      (rename_tac v s1, case_tac "evals ext n cx aw env es s1" rule: results_cases; simp)
next
  case (22 ext n k v s)
  show ?case
  proof (cases v)
    case (VTask cx env b)
    with 22 show ?thesis
      by (cases n) (simp_all add: context_arg_def visit_body_def leave_fn_tr)
  next
    case (VCallTask f a)
    show ?thesis
    proof (cases f)
      case (VAsyncClosure cx env inputs b)
      with 22 VCallTask show ?thesis
        by (cases n; simp add: bind_tuple_args bind_args_tr visit_body_def split: option.split)
          (auto simp: leave_fn_tr)
    next
      case (VOpaqueFn g)
      with 22 VCallTask show ?thesis by simp
    qed (use VCallTask in simp_all)
  next
    case (VOpaqueTask f)
    with 22 show ?thesis by simp
  next
    case (VExtern name ns)
    then show ?thesis by (simp add: split_beta Let_def)
  qed simp_all
next
  case (23 ext n v vs s)
  then show ?case
    by (cases v; cases n; simp add: bind_tr visit_body_def leave_fn_tr split: option.split)
qed

lemma eval_desugar: "eval ext n cx False (tr_env rm env) (desugar rm e) s = tr_result rm (eval ext n cx True env e s)"
  using eval_tr(1) [of ext n cx rm env True e s] by (simp add: visit_body_def)

lemma eval_visit_sync: "eval ext n cx False (tr_env rm env) (visit_sync rm e) s = tr_result rm (eval ext n cx False env e s)"
  using eval_tr(1) [of ext n cx rm env False e s] by (simp add: visit_body_def)

section \<open>No asynchronous construct is left\<close>

fun no_async :: "expr \<Rightarrow> bool" where
  "no_async (Tuple es) = (\<forall>e\<in>set es. no_async e)"
| "no_async (Call attrs f es) = (\<forall>e\<in>set es. no_async e)"
| "no_async (CallFn f es) = (no_async f \<and> (\<forall>e\<in>set es. no_async e))"
| "no_async (CallAsync f e) = (no_async f \<and> no_async e)"
| "no_async (If c a b) = (no_async c \<and> no_async a \<and> no_async b)"
| "no_async (Loop b) = no_async b"
| "no_async (Return e) = no_async e"
| "no_async (Block attrs b) = no_async b"
| "no_async (Semi a b) = (no_async a \<and> no_async b)"
| "no_async (Local p a b) = (no_async a \<and> no_async b)"
| "no_async (ItemThen it b) = no_async b"
| "no_async (Async attrs capture b) = False"
| "no_async (Await attrs e) = no_async e"
| "no_async (Closure attrs asyncness capture inputs b) = (\<not> asyncness \<and> no_async b)"
| "no_async _ = True"

lemma no_async_generated:
  "no_async (async_task rm attrs capture b) = no_async b"
  "no_async (await_stub attrs b) = no_async b"
  "no_async (async_closure rm attrs capture inputs b) = no_async b"
  by (auto simp: async_task_def await_stub_def async_closure_def split_beta Let_def split: option.split)

lemma no_async_lists:
  "(\<And>e. e \<in> set es \<Longrightarrow> no_async (desugar rm e)) \<Longrightarrow> \<forall>e\<in>set (desugars rm es). no_async e"
  "(\<And>e. e \<in> set es \<Longrightarrow> no_async (visit_sync rm e)) \<Longrightarrow> \<forall>e\<in>set (visit_syncs rm es). no_async e"
  by (induction es) (auto simp: desugar_simps)

lemma visit_removes_async: "no_async (desugar rm e) \<and> no_async (visit_sync rm e)"
proof (induction e)
  case (Closure attrs asyncness capture inputs body)
  show ?case
  proof (cases "async_body asyncness body")
    case None
    then have "\<not> asyncness" by (rule async_body_none)
    with Closure show ?thesis unfolding sync_closure [OF None] by simp
  next
    case (Some b)
    from Some have "no_async (desugar rm b)"
    proof (cases rule: async_body_cases)
      case declared
      with Closure show ?thesis by (simp add: to_block_def desugar_simps)
    next
      case (block battrs inner)
      from Closure have "no_async (desugar rm body)" ..
      then show ?thesis unfolding block desugar_simps no_async_generated by simp
    qed
    then show ?thesis unfolding desugar_closure [OF Some] no_async_generated by simp
  qed
next
  case (Tuple es)
  then have "\<And>e. e \<in> set es \<Longrightarrow> no_async (desugar rm e)" "\<And>e. e \<in> set es \<Longrightarrow> no_async (visit_sync rm e)"
    by blast+
  note no_async_lists(1) [OF this(1)] no_async_lists(2) [OF this(2)]
  then show ?case by (simp add: desugar_simps)
next
  case (Call attrs f es)
  then have "\<And>e. e \<in> set es \<Longrightarrow> no_async (desugar rm e)" "\<And>e. e \<in> set es \<Longrightarrow> no_async (visit_sync rm e)"
    by blast+
  note no_async_lists(1) [OF this(1)] no_async_lists(2) [OF this(2)]
  then show ?case by (simp add: desugar_simps)
next
  case (CallFn f es)
  then have "\<And>e. e \<in> set es \<Longrightarrow> no_async (desugar rm e)" "\<And>e. e \<in> set es \<Longrightarrow> no_async (visit_sync rm e)"
    by blast+
  note no_async_lists(1) [OF this(1)] no_async_lists(2) [OF this(2)]
  with CallFn show ?case by (simp add: desugar_simps)
next
  case (Async attrs capture b)
  then show ?case by (simp add: desugar_simps no_async_generated snd_visit_async)
qed (simp_all add: desugar_simps no_async_generated)

text \<open>An instance of \<open>remove_any\<close>.\<close>

fun first_attr :: take_attr where
  "first_attr [] name = (None, [])"
| "first_attr (a # attrs) name =
     (if fst a = name then (Some a, attrs) else (let (found, rest) = first_attr attrs name in (found, a # rest)))"

text \<open>C19: 
  C0: what the visitors make of an expression means what the expression means. In an asynchronous body, whose \<open>.await\<close> runs a task on the
  body's context, and in one that is not, where there is none: the generated expression has the same result, the same effects in the same
  order, and stops or runs on exactly when the expression does, in any environment and on any context. Tasks and asynchronous closures are
  the library's on the generated side. The flag says whether the body awaits, and no asynchronous construct is left.
\<close>

theorem async_body_means_the_same:
  fixes ext :: "'s extern"
  shows "eval ext n cx False (tr_env rm env) (snd (visit_async rm w e)) s = tr_result rm (eval ext n cx True env e s) \<and>
    eval ext n cx False (tr_env rm env) (visit_sync rm e) s = tr_result rm (eval ext n cx False env e s) \<and>
    fst (visit_async rm w e) = (w \<or> awaits e) \<and>
    no_async (snd (visit_async rm w e)) \<and> no_async (visit_sync rm e)"
  by (simp only: snd_visit_async eval_desugar eval_visit_sync visit_async_flag visit_removes_async simp_thms)

end
