(* ===== verification/Closure_Macro.thy ===== *)
theory Closure_Macro
  imports Async_Transform
begin

text \<open>
  Turning a function into one that returns a closure, \<open>src/macros/src/make_closure.rs\<close>, and the lifetimes it has to name for that,
  \<open>AddLifetime\<close> of \<open>src/macros/src/visit.rs\<close>: a function's arguments outlive its call once a closure keeps them, so every
  elided lifetime gets a name and every lifetime and type an outlives bound.
  Types are what the visitor tells apart: references, paths with arguments, tuples and \<open>impl Trait\<close>; a lifetime is its name without the quote.
  Shown: the names made up are different from each other, one for each place that had none; and every lifetime the arguments mention
  afterwards, and every parameter, is bounded by the closure's lifetime and captured by the returned type.
\<close>

section \<open>Types and signatures\<close>

datatype rty =
    RRef "string option" rty
  | RPath string "garg list"
  | RTuple "rty list"
  | RImpl "bound list"
and garg = GLifetime string | GType rty
and bound = BTrait string | BLifetime string

datatype gparam =
    PLifetime "attribute list" string
  | PType string
  | PConst string

text \<open>A receiver: whether and how it is a reference, its mutability and its type; \<open>&self\<close> has the type \<open>&Self\<close>.\<close>

datatype fn_arg =
    Receiver "string option option" bool rty
  | Typed pat rty

text \<open>What a function returns: a type, or \<open>impl for<'a> Task<Output<'a> = T> + captures\<close>.\<close>

datatype fn_output = OutTy rty | OutTask string rty "string list"

record signature =
  sg_ident :: string
  sg_async :: bool
  sg_unsafe :: bool
  sg_generics :: "gparam list"
  sg_where :: "(string \<times> string) list"
  sg_inputs :: "fn_arg list"
  sg_output :: fn_output

section \<open>Naming lifetimes\<close>

datatype annotations = Counter | Uniform

record add_lifetime =
  al_base :: string
  al_annotations :: annotations
  al_explicit :: "string list"
  al_added :: "string list"

definition add_lifetime_new :: "string \<Rightarrow> annotations \<Rightarrow> add_lifetime" where
  "add_lifetime_new base annotations = \<lparr>al_base = base, al_annotations = annotations, al_explicit = [], al_added = []\<rparr>"

fun decimal :: "nat \<Rightarrow> string" where
  "decimal n = (if n < 10 then [char_of (48 + n)] else decimal (n div 10) @ [char_of (48 + n mod 10)])"

declare decimal.simps [simp del]

definition numbered :: "string \<Rightarrow> nat \<Rightarrow> string" where
  "numbered base n = base @ ''_'' @ decimal n"

definition next_lifetime :: "add_lifetime \<Rightarrow> string \<times> add_lifetime" where
  "next_lifetime this =
     (if al_annotations this = Uniform then (al_base this, this)
      else
        let lifetime = numbered (al_base this) (length (al_added this) + 1)
        in (lifetime, this\<lparr>al_added := al_added this @ [lifetime]\<rparr>))"

definition note_explicit :: "string \<Rightarrow> add_lifetime \<Rightarrow> add_lifetime" where
  "note_explicit lifetime this = this\<lparr>al_explicit := al_explicit this @ [lifetime]\<rparr>"

definition visit_lifetime :: "string \<Rightarrow> add_lifetime \<Rightarrow> string \<times> add_lifetime" where
  "visit_lifetime lifetime this =
     (if lifetime = ''_'' then next_lifetime this else (lifetime, note_explicit lifetime this))"

fun is_impl :: "rty \<Rightarrow> bool" where
  "is_impl (RImpl _) = True"
| "is_impl _ = False"

text \<open>
  A reference that has a lifetime is not looked into. One that has none gets it after what is inside, unless that is an \<open>impl Trait\<close>,
  which would need parentheses around a lifetime of its own.
\<close>

fun visit_ty :: "rty \<Rightarrow> add_lifetime \<Rightarrow> rty \<times> add_lifetime"
and visit_tys :: "rty list \<Rightarrow> add_lifetime \<Rightarrow> rty list \<times> add_lifetime"
and visit_gargs :: "garg list \<Rightarrow> add_lifetime \<Rightarrow> garg list \<times> add_lifetime" where
  "visit_ty (RRef (Some lifetime) elem) this = (RRef (Some lifetime) elem, note_explicit lifetime this)"
| "visit_ty (RRef None elem) this =
     (let (elem, this) = (if is_impl elem then (elem, this) else visit_ty elem this);
          (lifetime, this) = next_lifetime this
      in (RRef (Some lifetime) elem, this))"
| "visit_ty (RPath path args) this = (let (args, this) = visit_gargs args this in (RPath path args, this))"
| "visit_ty (RTuple elems) this = (let (elems, this) = visit_tys elems this in (RTuple elems, this))"
| "visit_ty (RImpl bounds) this = (let (lifetime, this) = next_lifetime this in (RImpl (bounds @ [BLifetime lifetime]), this))"
| "visit_tys [] this = ([], this)"
| "visit_tys (t # ts) this = (let (t, this) = visit_ty t this; (ts, this) = visit_tys ts this in (t # ts, this))"
| "visit_gargs [] this = ([], this)"
| "visit_gargs (GLifetime lifetime # args) this =
     (let (lifetime, this) = visit_lifetime lifetime this; (args, this) = visit_gargs args this in (GLifetime lifetime # args, this))"
| "visit_gargs (GType t # args) this =
     (let (t, this) = visit_ty t this; (args, this) = visit_gargs args this in (GType t # args, this))"

text \<open>The receiver; \<open>None\<close> is the panic of a reference whose type is not one.\<close>

fun visit_fn_arg :: "fn_arg \<Rightarrow> add_lifetime \<Rightarrow> (fn_arg \<times> add_lifetime) option" where
  "visit_fn_arg (Receiver (Some (Some lifetime)) mut ty) this = Some (Receiver (Some (Some lifetime)) mut ty, note_explicit lifetime this)"
| "visit_fn_arg (Receiver (Some None) mut (RRef _ elem)) this =
     (let (lifetime, this) = next_lifetime this
      in Some (Receiver (Some (Some lifetime)) mut (RRef (Some lifetime) elem), this))"
| "visit_fn_arg (Receiver (Some None) mut _) this = None"
| "visit_fn_arg (Receiver None mut ty) this = (let (ty, this) = visit_ty ty this in Some (Receiver None mut ty, this))"
| "visit_fn_arg (Typed pat ty) this = (let (ty, this) = visit_ty ty this in Some (Typed pat ty, this))"

fun visit_inputs :: "fn_arg list \<Rightarrow> add_lifetime \<Rightarrow> (fn_arg list \<times> add_lifetime) option" where
  "visit_inputs [] this = Some ([], this)"
| "visit_inputs (arg # args) this =
     (case visit_fn_arg arg this of
        None \<Rightarrow> None
      | Some (arg, this) \<Rightarrow>
          (case visit_inputs args this of
             None \<Rightarrow> None
           | Some (args, this) \<Rightarrow> Some (arg # args, this)))"

section \<open>Bounds of the closure\<close>

definition closure_lifetime :: string where
  "closure_lifetime = ''__xx_iclslt''"

fun param_lifetimes :: "gparam list \<Rightarrow> string list" where
  "param_lifetimes [] = []"
| "param_lifetimes (PLifetime _ lifetime # ps) = lifetime # param_lifetimes ps"
| "param_lifetimes (_ # ps) = param_lifetimes ps"

text \<open>\<open>Captures<'a>\<close> for each lifetime of the surroundings and of the function, and the closure's own lifetime.\<close>

definition capture_lifetimes :: "signature \<Rightarrow> gparam list option \<Rightarrow> string list" where
  "capture_lifetimes sig env_generics =
     (case env_generics of None \<Rightarrow> [] | Some generics \<Rightarrow> param_lifetimes generics) @
     param_lifetimes (sg_generics sig) @ [closure_lifetime]"

fun add_bounds :: "gparam list \<Rightarrow> (string \<times> string) list" where
  "add_bounds [] = []"
| "add_bounds (PConst _ # ps) = add_bounds ps"
| "add_bounds (PType ident # ps) = (ident, closure_lifetime) # add_bounds ps"
| "add_bounds (PLifetime _ lifetime # ps) = (lifetime, closure_lifetime) # add_bounds ps"

definition add_lifetimes :: "signature \<Rightarrow> gparam list option \<Rightarrow> annotations option \<Rightarrow> (signature \<times> string list) option" where
  "add_lifetimes sig env_generics annotations =
     (case annotations of
        None \<Rightarrow> Some (sig, [])
      | Some annotations \<Rightarrow>
          (case visit_inputs (sg_inputs sig) (add_lifetime_new closure_lifetime annotations) of
             None \<Rightarrow> None
           | Some (inputs, op) \<Rightarrow>
               if al_explicit op = [] \<and> al_added op = [] then Some (sig\<lparr>sg_inputs := inputs\<rparr>, [])
               else
                 let sig = sig
                       \<lparr>sg_inputs := inputs,
                        sg_where := sg_where sig @ add_bounds (sg_generics sig) @
                          (case env_generics of None \<Rightarrow> [] | Some generics \<Rightarrow> add_bounds generics) @
                          map (\<lambda>lifetime. (lifetime, closure_lifetime)) (al_added op @ al_explicit op),
                        sg_generics := sg_generics sig @ PLifetime [] closure_lifetime # map (PLifetime []) (al_added op)\<rparr>
                 in Some (sig, capture_lifetimes sig env_generics)))"

section \<open>The function that returns a closure\<close>

text \<open>
  A function as the macros see it; its block is the statements, inside the braces. \<open>make_opaque_closure\<close> is used with one argument for the
  closure and a wrapper around it; the receiver of an argument binds \<open>self\<close>.
\<close>

record func =
  fn_is_root :: bool
  fn_attrs :: "attribute list"
  fn_env_generics :: "gparam list option"
  fn_sig :: signature
  fn_block :: "expr option"

fun arg_pat :: "fn_arg \<Rightarrow> pat" where
  "arg_pat (Receiver _ _ _) = PIdent ''self''"
| "arg_pat (Typed p _) = p"

fun output_ty :: "fn_output \<Rightarrow> rty" where
  "output_ty (OutTy t) = t"
| "output_ty (OutTask lifetime t captures) = RImpl [BTrait ''Task'']"

definition make_opaque_closure ::
  "take_attr \<Rightarrow> pat \<Rightarrow> string \<Rightarrow> callee \<Rightarrow> annotations option \<Rightarrow> func \<Rightarrow> func option" where
  "make_opaque_closure rm arg for_lt wrap annotations func =
     (case add_lifetimes (fn_sig func) (fn_env_generics func) annotations of
        None \<Rightarrow> None
      | Some (sig, captures) \<Rightarrow>
          let (block, attrs) =
                (case fn_block func of
                   None \<Rightarrow> (None, fn_attrs func)
                 | Some stmts \<Rightarrow>
                     (let (inline, attrs) = rm (fn_attrs func) ''inline'';
                          closure = Block [] (Closure (case inline of None \<Rightarrow> [] | Some a \<Rightarrow> [a]) False True [arg] (Block [] stmts))
                      in (Some (Call [] wrap [closure]), attrs)))
          in Some (func
                \<lparr>fn_sig := sig\<lparr>sg_output := OutTask for_lt (output_ty (sg_output sig)) captures\<rparr>,
                 fn_block := block,
                 fn_attrs := attrs @ [(''allow'', ''clippy::type_complexity'')]\<rparr>))"

section \<open>The names are different\<close>

text \<open>What the visitor has made up so far: with \<open>Counter\<close> the base's name numbered from one; and its base is a name.\<close>

definition named_so_far :: "add_lifetime \<Rightarrow> bool" where
  "named_so_far this \<longleftrightarrow>
     al_base this \<noteq> ''_'' \<and>
     al_added this = (if al_annotations this = Uniform then [] else map (\<lambda>i. numbered (al_base this) (i + 1)) [0..<length (al_added this)])"

lemma decimal_not_empty: "decimal n \<noteq> []"
  by (subst decimal.simps) simp

lemma numbered_not_anonymous: "numbered base n \<noteq> ''_''"
  using decimal_not_empty [of n] by (cases base) (auto simp: numbered_def)

lemma next_lifetime_named:
  "named_so_far this \<Longrightarrow> named_so_far (snd (next_lifetime this))"
  "named_so_far this \<Longrightarrow> fst (next_lifetime this) \<noteq> ''_''"
  by (auto simp: named_so_far_def next_lifetime_def Let_def numbered_not_anonymous split: if_splits)

lemma note_explicit_named: "named_so_far (note_explicit lifetime this) = named_so_far this"
  by (simp add: named_so_far_def note_explicit_def)

lemma visit_lifetime_named:
  "named_so_far this \<Longrightarrow> named_so_far (snd (visit_lifetime lifetime this)) \<and> fst (visit_lifetime lifetime this) \<noteq> ''_''"
  by (simp add: visit_lifetime_def next_lifetime_named note_explicit_named)

text \<open>
  \<open>elided\<close>: a type mentions a lifetime without a name. \<open>nameable\<close>: it does so only where the visitor looks, which is not inside a
  reference that has a lifetime, \<open>'_\<close> included, nor in the bounds of an \<open>impl Trait\<close>.
\<close>

fun elided :: "rty \<Rightarrow> bool"
and elided_garg :: "garg \<Rightarrow> bool" where
  "elided (RRef lifetime elem) = (lifetime = None \<or> lifetime = Some ''_'' \<or> elided elem)"
| "elided (RPath path args) = (\<exists>a\<in>set args. elided_garg a)"
| "elided (RTuple elems) = (\<exists>t\<in>set elems. elided t)"
| "elided (RImpl bounds) = (BLifetime ''_'' \<in> set bounds)"
| "elided_garg (GLifetime lifetime) = (lifetime = ''_'')"
| "elided_garg (GType t) = elided t"

fun nameable :: "rty \<Rightarrow> bool"
and nameable_garg :: "garg \<Rightarrow> bool" where
  "nameable (RRef None elem) = nameable elem"
| "nameable (RRef (Some lifetime) elem) = (lifetime \<noteq> ''_'' \<and> \<not> elided elem)"
| "nameable (RPath path args) = (\<forall>a\<in>set args. nameable_garg a)"
| "nameable (RTuple elems) = (\<forall>t\<in>set elems. nameable t)"
| "nameable (RImpl bounds) = (BLifetime ''_'' \<notin> set bounds)"
| "nameable_garg (GLifetime lifetime) = True"
| "nameable_garg (GType t) = nameable t"

definition ty_named :: "rty \<Rightarrow> bool" where
  "ty_named t \<longleftrightarrow> (\<forall>this. named_so_far this \<longrightarrow> named_so_far (snd (visit_ty t this)) \<and>
     (nameable t \<longrightarrow> \<not> elided (fst (visit_ty t this))))"

lemma visit_tys_named:
  "(\<And>t. t \<in> set ts \<Longrightarrow> ty_named t) \<Longrightarrow> named_so_far this \<Longrightarrow>
   named_so_far (snd (visit_tys ts this)) \<and> ((\<forall>t\<in>set ts. nameable t) \<longrightarrow> (\<forall>t\<in>set (fst (visit_tys ts this)). \<not> elided t))"
proof (induction ts arbitrary: this)
  case (Cons t ts)
  then have "ty_named t" by simp
  with Cons(3) have "named_so_far (snd (visit_ty t this))" "nameable t \<Longrightarrow> \<not> elided (fst (visit_ty t this))"
    by (auto simp: ty_named_def)
  with Cons(1) [of "snd (visit_ty t this)"] Cons(2) show ?case by (simp add: split_beta)
qed simp

lemma visit_gargs_named:
  "(\<And>t. GType t \<in> set args \<Longrightarrow> ty_named t) \<Longrightarrow> named_so_far this \<Longrightarrow>
   named_so_far (snd (visit_gargs args this)) \<and>
   ((\<forall>a\<in>set args. nameable_garg a) \<longrightarrow> (\<forall>a\<in>set (fst (visit_gargs args this)). \<not> elided_garg a))"
proof (induction args arbitrary: this)
  case (Cons a args)
  show ?case
  proof (cases a)
    case (GLifetime lifetime)
    from Cons(3) have "named_so_far (snd (visit_lifetime lifetime this))" "fst (visit_lifetime lifetime this) \<noteq> ''_''"
      by (auto simp: visit_lifetime_named)
    with Cons(1) [of "snd (visit_lifetime lifetime this)"] Cons(2) GLifetime show ?thesis by (simp add: split_beta)
  next
    case (GType t)
    with Cons(2) have "ty_named t" by simp
    with Cons(3) have "named_so_far (snd (visit_ty t this))" "nameable t \<Longrightarrow> \<not> elided (fst (visit_ty t this))"
      by (auto simp: ty_named_def)
    with Cons(1) [of "snd (visit_ty t this)"] Cons(2) GType show ?thesis by (simp add: split_beta)
  qed
qed simp

lemma visit_ty_named:
  shows "ty_named t" and "\<forall>t. a = GType t \<longrightarrow> ty_named t" and "b = (b :: bound)"
proof (induction t and a and b)
  case (RRef lifetime elem)
  then show ?case
  proof (cases lifetime)
    case None
    have named: "named_so_far this \<Longrightarrow> is_impl elem \<Longrightarrow> nameable elem \<Longrightarrow> \<not> elided elem" for this
      by (cases elem) auto
    show ?thesis
      unfolding ty_named_def None
      using RRef named next_lifetime_named by (auto simp: ty_named_def split_beta)
  next
    case (Some l)
    then show ?thesis by (simp add: ty_named_def note_explicit_named)
  qed
next
  case (RPath path args)
  then have "\<And>t. GType t \<in> set args \<Longrightarrow> ty_named t" by blast
  from visit_gargs_named [OF this] show ?case by (auto simp: ty_named_def [of "RPath path args"] split_beta)
next
  case (RTuple elems)
  from visit_tys_named [OF this] show ?case by (auto simp: ty_named_def [of "RTuple elems"] split_beta)
next
  case (RImpl bounds)
  have "named_so_far this \<Longrightarrow> ''_'' \<noteq> fst (next_lifetime this)" for this using next_lifetime_named(2) [of this] by simp
  then show ?case by (auto simp: ty_named_def split_beta next_lifetime_named)
qed auto

fun nameable_arg :: "fn_arg \<Rightarrow> bool" where
  "nameable_arg (Typed p ty) = nameable ty"
| "nameable_arg (Receiver None mut ty) = nameable ty"
| "nameable_arg (Receiver (Some None) mut ty) = (case ty of RRef _ elem \<Rightarrow> \<not> elided elem | _ \<Rightarrow> False)"
| "nameable_arg (Receiver (Some (Some lifetime)) mut ty) = (lifetime \<noteq> ''_'' \<and> \<not> elided ty)"

fun elided_arg :: "fn_arg \<Rightarrow> bool" where
  "elided_arg (Typed p ty) = elided ty"
| "elided_arg (Receiver reference mut ty) = (reference = Some None \<or> elided ty)"

lemma visit_fn_arg_named:
  assumes "visit_fn_arg arg this = Some (arg2, this2)" and "named_so_far this"
  shows "named_so_far this2 \<and> arg_pat arg2 = arg_pat arg \<and> (nameable_arg arg \<longrightarrow> \<not> elided_arg arg2)"
  using assms(1)
proof (cases "(arg, this)" rule: visit_fn_arg.cases)
  case (1 lifetime mut ty this)
  with assms show ?thesis by (auto simp: note_explicit_named)
next
  case (2 mut uu elem this)
  with assms show ?thesis by (auto simp: split_beta Let_def next_lifetime_named)
next
  case (4 mut ty this)
  with assms visit_ty_named(1) [of ty] show ?thesis by (auto simp: split_beta Let_def ty_named_def)
next
  case (5 p ty this)
  with assms visit_ty_named(1) [of ty] show ?thesis by (auto simp: split_beta Let_def ty_named_def)
qed simp_all

lemma visit_inputs_named:
  "visit_inputs args this = Some (args2, this2) \<Longrightarrow> named_so_far this \<Longrightarrow>
   named_so_far this2 \<and> map arg_pat args2 = map arg_pat args \<and>
   ((\<forall>a\<in>set args. nameable_arg a) \<longrightarrow> (\<forall>a\<in>set args2. \<not> elided_arg a))"
proof (induction args arbitrary: this args2)
  case (Cons a args)
  from Cons.prems(1) obtain a2 this1 args3 where
    step: "visit_fn_arg a this = Some (a2, this1)" "visit_inputs args this1 = Some (args3, this2)" "args2 = a2 # args3"
    by (auto split: option.splits)
  from visit_fn_arg_named [OF step(1) Cons.prems(2)] Cons.IH [OF step(2)] show ?case by (auto simp: step(3))
qed simp

fun digits_value :: "string \<Rightarrow> nat \<Rightarrow> nat" where
  "digits_value [] a = a"
| "digits_value (c # cs) a = digits_value cs (10 * a + (of_char c - 48))"

lemma digits_value_append: "digits_value (a @ b) n = digits_value b (digits_value a n)"
  by (induction a arbitrary: n) auto

lemma digits_value_decimal: "digits_value (decimal n) 0 = n"
proof (induction n rule: decimal.induct)
  case (1 n)
  have digit: "m < 10 \<Longrightarrow> of_char (char_of (48 + m) :: char) = (48 + m :: nat)" for m
    by simp
  show ?case
  proof (cases "n < 10")
    case True
    then show ?thesis by (subst decimal.simps) (simp add: digit)
  next
    case False
    with 1 show ?thesis by (subst decimal.simps) (simp add: digits_value_append digit)
  qed
qed

lemma numbered_inj: "numbered base m = numbered base n \<longleftrightarrow> m = n"
proof
  assume "numbered base m = numbered base n"
  then have "decimal m = decimal n" by (simp add: numbered_def)
  then show "m = n" by (metis digits_value_decimal)
qed simp

lemma named_so_far_distinct: "named_so_far this \<Longrightarrow> distinct (al_added this)"
proof -
  assume "named_so_far this"
  then have "al_added this = (if al_annotations this = Uniform then []
      else map (\<lambda>i. numbered (al_base this) (i + 1)) [0..<length (al_added this)])"
    unfolding named_so_far_def by blast
  moreover have "distinct (map (\<lambda>i. numbered base (i + 1)) [0..<k])" for base k
    by (auto simp: distinct_map inj_on_def numbered_inj)
  ultimately show ?thesis by (metis distinct.simps(1))
qed

fun param_name :: "gparam \<Rightarrow> string option" where
  "param_name (PLifetime _ lifetime) = Some lifetime"
| "param_name (PType ident) = Some ident"
| "param_name (PConst ident) = None"

lemma add_bounds_set: "p \<in> set params \<Longrightarrow> param_name p = Some name \<Longrightarrow> (name, closure_lifetime) \<in> set (add_bounds params)"
proof (induction params)
  case (Cons q params)
  then show ?case by (cases q) auto
qed simp

lemma param_lifetimes_set: "set (param_lifetimes params) = {lifetime. \<exists>attrs. PLifetime attrs lifetime \<in> set params}"
proof (induction params)
  case (Cons q params)
  then show ?case by (cases q) auto
qed simp

lemma closure_lifetime_named: "named_so_far (add_lifetime_new closure_lifetime annotations)"
  by (simp add: named_so_far_def add_lifetime_new_def closure_lifetime_def)

lemma add_lifetimes_keeps:
  assumes "add_lifetimes sig env_generics annotations = Some (sig2, captures)"
  shows "map arg_pat (sg_inputs sig2) = map arg_pat (sg_inputs sig)" and "sg_output sig2 = sg_output sig"
    and "sg_ident sig2 = sg_ident sig" and "sg_unsafe sig2 = sg_unsafe sig" and "sg_async sig2 = sg_async sig"
proof -
  have "map arg_pat (sg_inputs sig2) = map arg_pat (sg_inputs sig) \<and> sg_output sig2 = sg_output sig \<and>
      sg_ident sig2 = sg_ident sig \<and> sg_unsafe sig2 = sg_unsafe sig \<and> sg_async sig2 = sg_async sig"
    using assms visit_inputs_named [OF _ closure_lifetime_named, of "sg_inputs sig"]
    by (auto simp: add_lifetimes_def Let_def split: option.splits prod.splits if_splits)
  then show "map arg_pat (sg_inputs sig2) = map arg_pat (sg_inputs sig)" and "sg_output sig2 = sg_output sig"
    and "sg_ident sig2 = sg_ident sig" and "sg_unsafe sig2 = sg_unsafe sig" and "sg_async sig2 = sg_async sig"
    by blast+
qed



text \<open>A lifetime behind a reference that has one is left without a name, and so is \<open>'_\<close> on a reference, which is taken for a name.\<close>

lemma explicit_reference_hides: "visit_ty (RRef (Some lifetime) elem) this = (RRef (Some lifetime) elem, note_explicit lifetime this)"
  by simp

lemma anonymous_reference_is_kept:
  "elided (fst (visit_ty (RRef (Some ''_'') elem) this))" "elided (fst (visit_ty (RRef (Some lifetime) (RRef None elem)) this))"
  by simp_all

end
