(* ===== verification/Async_Functions.thy ===== *)
theory Async_Functions
  imports Closure_Macro
begin

text \<open>
  What \<open>#[asynchronous]\<close> makes of functions, \<open>src/macros/src/asynchronous/transform.rs\<close>, with its options, \<open>options.rs\<close>. An
  accepted \<open>async fn\<close> becomes a function that returns a task, or, in a trait's implementation, one that takes the context as its last argument.
  Its meaning before is the language's: it binds its arguments and gives the \<open>async\<close> block of its body. Shown: the function made does what
  the one written does, for every kind of function, on every context, with the same effects; each reason to refuse a function; and the
  attributes that are lost.
\<close>

section \<open>Options\<close>

datatype closure_type = ClosureNone | ClosureDefault | ClosureTrait

datatype async_kind = Implicit | TraitFn | TraitExt | KindTask | KindSync

fun kind_closure_type :: "async_kind \<Rightarrow> closure_type" where
  "kind_closure_type Implicit = ClosureDefault"
| "kind_closure_type TraitExt = ClosureTrait"
| "kind_closure_type _ = ClosureNone"

datatype lang = GetContext | TaskWrap | AsyncClosure | TaskLang

datatype async_error =
    UnknownLangItem | DuplicateContextLifetime | EmptyBlockRequired | BlockMustBeEmpty | ContextLifetimeForbidden
  | GenericsNotAllowed | UnsupportedClosureType | AsyncMissing
  | DuplicateOption | UnknownOption | DuplicateKind
  | NotAllowed | InvalidLanguageItem | UnexpectedDeclaration | TraitFnUnspecified | MissingTrait | FunctionMustBeSafe

record impl_gen =
  impl_ref :: bool
  impl_mut :: bool
  impl_box :: bool

fun impl_gen_options :: "impl_gen \<Rightarrow> string list \<Rightarrow> (async_error, impl_gen) outcome" where
  "impl_gen_options this [] = Ok this"
| "impl_gen_options this (option # options) =
     (if option = ''ref'' then
        (if impl_ref this then Err DuplicateOption else impl_gen_options (this\<lparr>impl_ref := True\<rparr>) options)
      else if option = ''mut'' then
        (if impl_mut this then Err DuplicateOption else impl_gen_options (this\<lparr>impl_mut := True\<rparr>) options)
      else if option = ''box'' then
        (if impl_box this then Err DuplicateOption else impl_gen_options (this\<lparr>impl_box := True\<rparr>) options)
      else Err UnknownOption)"

definition impl_gen_parse :: "string list \<Rightarrow> (async_error, impl_gen) outcome" where
  "impl_gen_parse options = impl_gen_options \<lparr>impl_ref = False, impl_mut = False, impl_box = False\<rparr> options"

record attribute_args =
  aa_kind :: async_kind
  aa_language :: "lang option"
  aa_impl_gen :: "impl_gen option"

definition attribute_args_new :: "async_kind \<Rightarrow> attribute_args" where
  "attribute_args_new kind = \<lparr>aa_kind = kind, aa_language = None, aa_impl_gen = None\<rparr>"

text \<open>An option of the attribute: a name, or \<open>impl(..)\<close> with its list.\<close>

datatype attr_option = OptName string | OptImpl "string list"

fun kind_of_name :: "string \<Rightarrow> async_kind option" where
  "kind_of_name name =
     (if name = ''traitfn'' then Some TraitFn
      else if name = ''traitext'' then Some TraitExt
      else if name = ''task'' then Some KindTask
      else if name = ''sync'' then Some KindSync
      else None)"

fun attribute_args_options :: "attribute_args \<Rightarrow> attr_option list \<Rightarrow> (async_error, attribute_args) outcome" where
  "attribute_args_options this [] = Ok this"
| "attribute_args_options this (OptImpl content # options) =
     (case impl_gen_parse content of
        Ok gen \<Rightarrow> attribute_args_options (this\<lparr>aa_impl_gen := Some gen\<rparr>) options
      | Err e \<Rightarrow> Err e
      | Panic \<Rightarrow> Panic)"
| "attribute_args_options this (OptName name # options) =
     (case kind_of_name name of
        None \<Rightarrow> Err UnknownOption
      | Some kind \<Rightarrow>
          if aa_kind this \<noteq> Implicit then Err DuplicateKind else attribute_args_options (this\<lparr>aa_kind := kind\<rparr>) options)"

definition attribute_args_parse :: "attr_option list \<Rightarrow> (async_error, attribute_args) outcome" where
  "attribute_args_parse options = attribute_args_options (attribute_args_new Implicit) options"

fun lang_of_name :: "string \<Rightarrow> lang option" where
  "lang_of_name name =
     (if name = ''get_context'' then Some GetContext
      else if name = ''task_wrap'' then Some TaskWrap
      else if name = ''async_closure'' then Some AsyncClosure
      else if name = ''task'' then Some TaskLang
      else None)"

definition get_lang :: "take_attr \<Rightarrow> attribute list \<Rightarrow> (async_error, lang option) outcome \<times> attribute list" where
  "get_lang rm attrs =
     (case rm attrs ''lang'' of
        (None, attrs) \<Rightarrow> (Ok None, attrs)
      | (Some attr, attrs) \<Rightarrow>
          (case lang_of_name (snd attr) of None \<Rightarrow> (Err UnknownLangItem, attrs) | Some lang \<Rightarrow> (Ok (Some lang), attrs)))"

section \<open>Parts of the transform\<close>

definition transform_sync :: "take_attr \<Rightarrow> func \<Rightarrow> func" where
  "transform_sync rm func = func\<lparr>fn_block := map_option (visit_sync rm) (fn_block func)\<rparr>"

text \<open>Taking all attributes of a name; the fuel is the length of the list, which a list that loses one each time cannot exceed.\<close>

fun take_all :: "take_attr \<Rightarrow> nat \<Rightarrow> attribute list \<Rightarrow> string \<Rightarrow> attribute list \<times> attribute list" where
  "take_all rm 0 attrs target = ([], attrs)"
| "take_all rm (Suc n) attrs target =
     (case rm attrs target of
        (None, attrs) \<Rightarrow> ([], attrs)
      | (Some attr, attrs) \<Rightarrow> (let (removed, attrs) = take_all rm n attrs target in (attr # removed, attrs)))"

definition get_run_attrs :: "take_attr \<Rightarrow> attribute list \<Rightarrow> attribute list \<times> attribute list" where
  "get_run_attrs rm attrs =
     (let (must_use, attrs) = take_all rm (length attrs) attrs ''must_use'';
          (cold, attrs) = take_all rm (length attrs) attrs ''cold''
      in (must_use @ cold, attrs))"

fun get_cx_lifetime :: "take_attr \<Rightarrow> string option \<Rightarrow> gparam list \<Rightarrow> (async_error, string option \<times> gparam list) outcome" where
  "get_cx_lifetime rm context_lifetime [] = Ok (context_lifetime, [])"
| "get_cx_lifetime rm context_lifetime (PLifetime attrs lifetime # params) =
     (case rm attrs ''cx'' of
        (None, attrs) \<Rightarrow>
          (case get_cx_lifetime rm context_lifetime params of
             Ok (found, params) \<Rightarrow> Ok (found, PLifetime attrs lifetime # params)
           | r \<Rightarrow> r)
      | (Some attr, attrs) \<Rightarrow>
          if context_lifetime \<noteq> None then Err DuplicateContextLifetime
          else
            (case get_cx_lifetime rm (Some lifetime) params of
               Ok (found, params) \<Rightarrow> Ok (found, PLifetime attrs lifetime # params)
             | r \<Rightarrow> r))"
| "get_cx_lifetime rm context_lifetime (param # params) =
     (case get_cx_lifetime rm context_lifetime params of
        Ok (found, params) \<Rightarrow> Ok (found, param # params)
      | r \<Rightarrow> r)"

text \<open>A language item's body is made here; only \<open>get_context\<close> is a function, any other name is unreachable code.\<close>

definition impl_lang :: "lang \<Rightarrow> expr option \<Rightarrow> (async_error, expr) outcome" where
  "impl_lang lang block =
     (case block of
        None \<Rightarrow> Err EmptyBlockRequired
      | Some stmts \<Rightarrow>
          if stmts \<noteq> NoStmts then Err BlockMustBeEmpty
          else if lang = GetContext then Ok (ItemThen UseLang ContextIdent)
          else Panic)"

text \<open>The declaration of the type that a function's task has.\<close>

definition task_impl :: "attribute list \<Rightarrow> item" where
  "task_impl attrs = (if attrs = [] then WrapAlias else WrapStruct attrs)"

definition context_param :: fn_arg where
  "context_param = Typed PContext (RRef None (RPath ''Context'' []))"

text \<open>
  The lifetime that the task's output borrows the context for, from the attribute, the language item, or one no program names; it is looked
  for together with the checks on the function.
\<close>

definition context_lifetime_of ::
  "attribute_args \<Rightarrow> string option \<Rightarrow> gparam list \<Rightarrow> (async_error, string \<times> string option \<times> gparam list) outcome" where
  "context_lifetime_of attrs cx_lt generics =
     (case cx_lt of
        Some lifetime \<Rightarrow>
          if length generics \<noteq> 1 then Err GenericsNotAllowed
          else if kind_closure_type (aa_kind attrs) = ClosureNone then Err UnsupportedClosureType
          else Ok (lifetime, cx_lt, [])
      | None \<Rightarrow>
          if aa_language attrs = Some GetContext then Ok (''current'', Some ''current'', generics)
          else Ok (''__xx_icurctx'', None, generics))"

definition with_warning :: "attribute_args \<Rightarrow> bool \<Rightarrow> expr \<Rightarrow> expr" where
  "with_warning attrs has_await stmts =
     (if \<not> has_await \<and> aa_language attrs = None \<and> aa_kind attrs \<noteq> TraitFn then ItemThen WarningItem stmts else stmts)"

definition transform_block :: "take_attr \<Rightarrow> attribute_args \<Rightarrow> expr \<Rightarrow> expr" where
  "transform_block rm attrs stmts =
     (let (has_await, stmts) = visit_async rm False stmts in with_warning attrs has_await stmts)"

section \<open>The transform of a function\<close>

text \<open>A function in a trait's implementation: the context is its last argument, and calling it is unsafe.\<close>

definition take_context :: "func \<Rightarrow> func" where
  "take_context func =
     (let sig = fn_sig func; sig = sig\<lparr>sg_inputs := sg_inputs sig @ [context_param]\<rparr>
      in if sg_unsafe sig then func\<lparr>fn_sig := sig\<rparr>
         else
           func\<lparr>fn_sig := sig\<lparr>sg_unsafe := True\<rparr>,
                fn_attrs := (if fn_block func \<noteq> None then fn_attrs func @ [(''deny'', ''unsafe_op_in_unsafe_fn'')] else fn_attrs func)\<rparr>)"

definition return_task :: "take_attr \<Rightarrow> attribute_args \<Rightarrow> attribute list \<Rightarrow> string \<Rightarrow> string option \<Rightarrow> func \<Rightarrow> func option" where
  "return_task rm attrs func_attrs for_lt cx_lt func =
     (let annotations = (if kind_closure_type (aa_kind attrs) \<noteq> ClosureTrait \<and> aa_language attrs = None then Some Counter else None)
      in case make_opaque_closure rm context_arg for_lt SupportWrapNew annotations func of
           None \<Rightarrow> None
         | Some func \<Rightarrow>
             let task = (case cx_lt of Some lifetime \<Rightarrow> WrapLending lifetime | None \<Rightarrow> task_impl func_attrs)
             in Some (func\<lparr>fn_block := map_option (\<lambda>stmts. Block [] (ItemThen task stmts)) (fn_block func)\<rparr>))"

definition transform_async :: "take_attr \<Rightarrow> attribute_args \<Rightarrow> func \<Rightarrow> (async_error, func) outcome" where
  "transform_async rm attrs func =
     (if \<not> sg_async (fn_sig func) then (if \<not> fn_is_root func then Ok (transform_sync rm func) else Err AsyncMissing)
      else
        (case get_lang rm (fn_attrs func) of
           (Err e, _) \<Rightarrow> Err e
         | (Panic, _) \<Rightarrow> Panic
         | (Ok lang, fn_attributes) \<Rightarrow>
             (let attrs = attrs\<lparr>aa_language := lang\<rparr>;
                  (func_attrs, fn_attributes) = get_run_attrs rm fn_attributes
              in case get_cx_lifetime rm None (sg_generics (fn_sig func)) of
                   Err e \<Rightarrow> Err e
                 | Panic \<Rightarrow> Panic
                 | Ok (cx_lt, generics) \<Rightarrow>
                     (case (case lang of
                              None \<Rightarrow> Ok (fn_block func)
                            | Some lang \<Rightarrow>
                                if cx_lt \<noteq> None then Err ContextLifetimeForbidden
                                else (case impl_lang lang (fn_block func) of Ok b \<Rightarrow> Ok (Some b) | Err e \<Rightarrow> Err e | Panic \<Rightarrow> Panic)) of
                        Err e \<Rightarrow> Err e
                      | Panic \<Rightarrow> Panic
                      | Ok block \<Rightarrow>
                          (case context_lifetime_of attrs cx_lt generics of
                             Err e \<Rightarrow> Err e
                           | Panic \<Rightarrow> Panic
                           | Ok (for_lt, cx_lt, generics) \<Rightarrow>
                               (let func = func
                                      \<lparr>fn_attrs := fn_attributes,
                                       fn_sig := (fn_sig func)\<lparr>sg_async := False, sg_generics := generics\<rparr>,
                                       fn_block := map_option (transform_block rm attrs) block\<rparr>
                                in if kind_closure_type (aa_kind attrs) = ClosureNone then Ok (take_context func)
                                   else
                                     (case return_task rm attrs func_attrs for_lt cx_lt func of
                                        None \<Rightarrow> Panic
                                      | Some func \<Rightarrow> Ok func)))))))"

section \<open>What a function means\<close>

text \<open>Calling a function: its arguments are bound to its inputs, and its block runs with no context but one that an argument binds.\<close>

definition call_fn :: "'s extern \<Rightarrow> nat \<Rightarrow> func \<Rightarrow> val list \<Rightarrow> 's \<Rightarrow> (flow \<times> 's) option" where
  "call_fn ext n func args s =
     (case fn_block func of
        None \<Rightarrow> Some (FStuck, s)
      | Some body \<Rightarrow>
          (case bind_pats (map arg_pat (sg_inputs (fn_sig func))) args (None, Empty) of
             None \<Rightarrow> Some (FStuck, s)
           | Some (cx, env) \<Rightarrow> leave_fn (eval ext n cx False env body s)))"

text \<open>Calling an \<open>async fn\<close>: the \<open>async\<close> block of its body, with its arguments bound.\<close>

definition async_fn_task :: "func \<Rightarrow> val list \<Rightarrow> val option" where
  "async_fn_task func args =
     (case (fn_block func, bind_pats (map arg_pat (sg_inputs (fn_sig func))) args (None, Empty)) of
        (Some body, Some (cx, env)) \<Rightarrow> Some (VTask cx env body)
      | _ \<Rightarrow> None)"

lemma transform_block_eval:
  "eval ext n cx False (tr_env rm env) (transform_block rm attrs stmts) s = tr_result rm (eval ext n cx True env stmts s)"
  by (simp add: transform_block_def with_warning_def split_beta snd_visit_async eval_desugar)

lemma bind_pats_append:
  "bind_pats ps vs b = Some b2 \<Longrightarrow> bind_pats (ps @ qs) (vs @ ws) b = bind_pats qs ws b2"
  by (induction ps arbitrary: vs b) (auto split: list.splits option.splits if_splits)

lemma transform_async_steps:
  assumes "transform_async rm attrs func = Ok func2" and "sg_async (fn_sig func)"
  obtains lang fn_attributes func_attrs cx_lt generics block for_lt cx_lt2 generics2 func1 where
    "fst (get_lang rm (fn_attrs func)) = Ok lang"
    "get_run_attrs rm (snd (get_lang rm (fn_attrs func))) = (func_attrs, fn_attributes)"
    "get_cx_lifetime rm None (sg_generics (fn_sig func)) = Ok (cx_lt, generics)"
    "(case lang of
        None \<Rightarrow> Ok (fn_block func)
      | Some lang \<Rightarrow>
          if cx_lt \<noteq> None then Err ContextLifetimeForbidden
          else (case impl_lang lang (fn_block func) of Ok b \<Rightarrow> Ok (Some b) | Err e \<Rightarrow> Err e | Panic \<Rightarrow> Panic)) = Ok block"
    "context_lifetime_of (attrs\<lparr>aa_language := lang\<rparr>) cx_lt generics = Ok (for_lt, cx_lt2, generics2)"
    "func1 = func
       \<lparr>fn_attrs := fn_attributes,
        fn_sig := (fn_sig func)\<lparr>sg_async := False, sg_generics := generics2\<rparr>,
        fn_block := map_option (transform_block rm (attrs\<lparr>aa_language := lang\<rparr>)) block\<rparr>"
    "if kind_closure_type (aa_kind attrs) = ClosureNone then func2 = take_context func1
     else return_task rm (attrs\<lparr>aa_language := lang\<rparr>) func_attrs for_lt cx_lt2 func1 = Some func2"
proof -
  obtain r attributes where lang: "get_lang rm (fn_attrs func) = (r, attributes)" by (cases "get_lang rm (fn_attrs func)")
  obtain func_attrs fn_attributes where run: "get_run_attrs rm attributes = (func_attrs, fn_attributes)"
    by (cases "get_run_attrs rm attributes")
  from assms lang obtain lang where r: "r = Ok lang" by (cases r) (simp_all add: transform_async_def)
  note unfolded = assms(1) [unfolded transform_async_def lang r run Let_def, simplified assms(2) run, simplified]
  from unfolded obtain cx_lt generics where cx: "get_cx_lifetime rm None (sg_generics (fn_sig func)) = Ok (cx_lt, generics)"
    by (cases "get_cx_lifetime rm None (sg_generics (fn_sig func))") auto
  let ?block = "case lang of
        None \<Rightarrow> Ok (fn_block func)
      | Some lang \<Rightarrow>
          if cx_lt \<noteq> None then Err ContextLifetimeForbidden
          else (case impl_lang lang (fn_block func) of Ok b \<Rightarrow> Ok (Some b) | Err e \<Rightarrow> Err e | Panic \<Rightarrow> Panic)"
  have step: "(case ?block of
        Ok block \<Rightarrow>
          (case context_lifetime_of (attrs\<lparr>aa_language := lang\<rparr>) cx_lt generics of
             Ok (for_lt, cx_lt, generics) \<Rightarrow>
               (let func = func
                      \<lparr>fn_attrs := fn_attributes,
                       fn_sig := (fn_sig func)\<lparr>sg_async := False, sg_generics := generics\<rparr>,
                       fn_block := map_option (transform_block rm (attrs\<lparr>aa_language := lang\<rparr>)) block\<rparr>
                in if kind_closure_type (aa_kind attrs) = ClosureNone then Ok (take_context func)
                   else
                     (case return_task rm (attrs\<lparr>aa_language := lang\<rparr>) func_attrs for_lt cx_lt func of
                        None \<Rightarrow> Panic
                      | Some func \<Rightarrow> Ok func))
           | Err e \<Rightarrow> Err e
           | Panic \<Rightarrow> Panic)
      | Err e \<Rightarrow> Err e
      | Panic \<Rightarrow> Panic) = Ok func2"
    using assms unfolding transform_async_def lang r cx by (simp add: run Let_def cong: outcome.case_cong)
  then obtain block where block: "?block = Ok block" by (cases ?block) (simp_all only: outcome.case outcome.distinct)
  from step obtain for_lt cx_lt2 generics2 where lt: "context_lifetime_of (attrs\<lparr>aa_language := lang\<rparr>) cx_lt generics = Ok (for_lt, cx_lt2, generics2)"
    unfolding block by (cases "context_lifetime_of (attrs\<lparr>aa_language := lang\<rparr>) cx_lt generics") auto
  let ?func1 = "func
       \<lparr>fn_attrs := fn_attributes,
        fn_sig := (fn_sig func)\<lparr>sg_async := False, sg_generics := generics2\<rparr>,
        fn_block := map_option (transform_block rm (attrs\<lparr>aa_language := lang\<rparr>)) block\<rparr>"
  from step have "if kind_closure_type (aa_kind attrs) = ClosureNone then func2 = take_context ?func1
     else return_task rm (attrs\<lparr>aa_language := lang\<rparr>) func_attrs for_lt cx_lt2 ?func1 = Some func2"
    unfolding block lt by (auto simp: Let_def split: if_splits option.splits)
  from that [OF _ _ cx block lt refl this] show thesis using lang r run by simp
qed

lemma run_opaque_closure:
  "run_task ext n k (VOpaqueTask (VClosure cx env [context_arg] (Block [] b))) s =
   (case n of 0 \<Rightarrow> None | Suc m \<Rightarrow> leave_fn (eval ext m (Some k) False env b s))"
  by (cases n) (simp_all add: context_arg_def)

lemma run_source_task:
  "run_task ext n k (VTask cx env b) s = (case n of 0 \<Rightarrow> None | Suc m \<Rightarrow> leave_fn (eval ext m (Some k) True env b s))"
  by (cases n) simp_all

lemma run_transformed_block:
  "run_task ext n k (VOpaqueTask (VClosure cx (tr_env rm env) [context_arg] (Block [] (transform_block rm attrs b)))) s =
   tr_result rm (run_task ext n k (VTask cx env b) s)"
  unfolding run_opaque_closure run_source_task by (cases n) (simp_all add: transform_block_eval leave_fn_tr)

lemma make_opaque_closure_keeps:
  assumes "make_opaque_closure rm arg for_lt wrap annotations func = Some func2"
  shows "map arg_pat (sg_inputs (fn_sig func2)) = map arg_pat (sg_inputs (fn_sig func)) \<and>
    (\<forall>stmts. fn_block func = Some stmts \<longrightarrow>
       (\<exists>attrs. fn_block func2 = Some (Call [] wrap [Block [] (Closure attrs False True [arg] (Block [] stmts))])))"
  using assms
  by (auto simp: make_opaque_closure_def Let_def split_beta add_lifetimes_keeps split: option.splits)

lemma return_task_call:
  assumes "return_task rm attrs func_attrs for_lt cx_lt func = Some func2" and "fn_block func = Some stmts"
    and "bind_pats (map arg_pat (sg_inputs (fn_sig func))) args (None, Empty) = Some (cx, env)"
  shows "call_fn ext n func2 args s = Some (FVal (VOpaqueTask (VClosure cx env [context_arg] (Block [] stmts))), s)"
proof -
  obtain func1 annotations task where wrap: "make_opaque_closure rm context_arg for_lt SupportWrapNew annotations func = Some func1"
    and func2: "func2 = func1\<lparr>fn_block := map_option (\<lambda>stmts. Block [] (ItemThen task stmts)) (fn_block func1)\<rparr>"
    using assms(1) by (auto simp: return_task_def Let_def split: option.splits)
  note kept = make_opaque_closure_keeps [OF wrap]
  from kept assms(2) obtain inline
    where "fn_block func1 = Some (Call [] SupportWrapNew [Block [] (Closure inline False True [context_arg] (Block [] stmts))])"
    by blast
  with kept assms(3) show ?thesis by (simp add: func2 call_fn_def async_body_def)
qed

lemma take_context_call:
  assumes "fn_block func = Some stmts" and "bind_pats (map arg_pat (sg_inputs (fn_sig func))) args (None, Empty) = Some (cx, env)"
  shows "call_fn ext n (take_context func) (args @ [VContext k]) s = leave_fn (eval ext n (Some k) False env stmts s)"
proof -
  have inputs: "sg_inputs (fn_sig (take_context func)) = sg_inputs (fn_sig func) @ [context_param]"
    and block: "fn_block (take_context func) = fn_block func"
    by (simp_all add: take_context_def Let_def)
  show ?thesis
    unfolding call_fn_def inputs block assms(1)
    by (simp add: bind_pats_append [OF assms(2)] context_param_def)
qed

lemma async_fn_kept:
  fixes ext :: "'s extern"
  assumes "transform_async rm attrs func = Ok func2" and "sg_async (fn_sig func)" and "fst (get_lang rm (fn_attrs func)) = Ok None"
    and "async_fn_task func args = Some task"
  shows "if kind_closure_type (aa_kind attrs) = ClosureNone
    then \<forall>n k s. call_fn ext n func2 (map (tr_val rm) args @ [VContext k]) s = tr_result rm (run_task ext (Suc n) k task s)
    else \<exists>task2. (\<forall>n s. call_fn ext n func2 (map (tr_val rm) args) s = Some (FVal task2, s)) \<and>
      (\<forall>n k s. run_task ext n k task2 s = tr_result rm (run_task ext n k task s))"
proof -
  obtain body cx env where body: "fn_block func = Some body" and task: "task = VTask cx env body"
    and bind: "bind_pats (map arg_pat (sg_inputs (fn_sig func))) args (None, Empty) = Some (cx, env)"
    using assms(4) by (auto simp: async_fn_task_def split: option.splits)
  obtain func_attrs for_lt cx_lt func1 attrs2 where
    block1: "fn_block func1 = Some (transform_block rm attrs2 body)"
    and inputs1: "sg_inputs (fn_sig func1) = sg_inputs (fn_sig func)"
    and func2: "if kind_closure_type (aa_kind attrs) = ClosureNone then func2 = take_context func1
     else return_task rm attrs2 func_attrs for_lt cx_lt func1 = Some func2"
  proof (cases rule: transform_async_steps [OF assms(1,2)])
    case (1 lang fn_attributes func_attrs cx_lt generics block for_lt cx_lt2 generics2 func1)
    from 1(1) assms(3) have lang: "lang = None" by simp
    with 1(4) have block: "block = Some body" by (simp add: body)
    show thesis by (rule that [OF _ _ 1(7)]) (simp_all add: 1(6) block)
  qed
  have bind1: "bind_pats (map arg_pat (sg_inputs (fn_sig func1))) (map (tr_val rm) args) (None, Empty) = Some (cx, tr_env rm env)"
    using bind_tr(2) [of "map arg_pat (sg_inputs (fn_sig func))" rm args None Empty] by (simp add: bind inputs1)
  show ?thesis
  proof (cases "kind_closure_type (aa_kind attrs) = ClosureNone")
    case True
    with func2 show ?thesis
      by (simp add: take_context_call [OF block1 bind1] task run_source_task transform_block_eval leave_fn_tr)
  next
    case False
    with func2 have "call_fn ext n func2 (map (tr_val rm) args) s =
        Some (FVal (VOpaqueTask (VClosure cx (tr_env rm env) [context_arg] (Block [] (transform_block rm attrs2 body)))), s)" for n s
      using return_task_call [OF _ block1 bind1] by simp
    then have "\<exists>task2. (\<forall>n s. call_fn ext n func2 (map (tr_val rm) args) s = Some (FVal task2, s)) \<and>
        (\<forall>n k s. run_task ext n k task2 s = tr_result rm (run_task ext n k task s))"
      unfolding task by (blast intro: run_transformed_block)
    with False show ?thesis by simp
  qed
qed

text \<open>C20: 
  C0: an \<open>async fn\<close> that the macro accepts keeps its meaning. Where it becomes a function that returns a task, calling it runs nothing, and
  running the task on any context does what the \<open>async\<close> block of the body does there: the same result, effects and fuel. Where it takes the
  context as a last argument, calling it with one does what running that block does.
\<close>

theorem async_fn_means_the_same:
  fixes ext :: "'s extern"
  assumes "transform_async rm attrs func = Ok func2" and "sg_async (fn_sig func)" and "fst (get_lang rm (fn_attrs func)) = Ok None"
    and "async_fn_task func args = Some task"
  shows "if kind_closure_type (aa_kind attrs) = ClosureNone
    then \<forall>n k s. call_fn ext n func2 (map (tr_val rm) args @ [VContext k]) s = tr_result rm (run_task ext (Suc n) k task s)
    else \<exists>task2. (\<forall>n s. call_fn ext n func2 (map (tr_val rm) args) s = Some (FVal task2, s)) \<and>
      (\<forall>n k s. run_task ext n k task2 s = tr_result rm (run_task ext n k task s))"
  by (rule async_fn_kept [OF assms])

text \<open>
  \<open>async fn f(x) { log(x); async { return sleep(x).await }.await }\<close>, on other code that counts its calls and answers with the sum of
  its arguments and context.
\<close>

definition sample_extern :: "int extern" where
  "sample_extern name cx is s = (sum_list is + (case cx of None \<Rightarrow> 0 | Some k \<Rightarrow> int k), s + 1)"

definition sample_fn :: func where
  "sample_fn =
     \<lparr>fn_is_root = True, fn_attrs = [(''must_use'', []), (''inline'', [])], fn_env_generics = None,
      fn_sig = \<lparr>sg_ident = ''f'', sg_async = True, sg_unsafe = False, sg_generics = [], sg_where = [],
        sg_inputs = [Typed (PIdent ''x'') (RPath ''u32'' [])], sg_output = OutTy (RPath ''u32'' [])\<rparr>,
      fn_block = Some
        (Semi (Call [] (Extern ''log'') [Path ''x''])
           (Await [] (Async [] False (Return (Await [] (Call [] (ExternTask ''sleep'') [Path ''x'']))))))\<rparr>"

lemma async_fn_means_the_same_witness:
  "\<exists>func2 task2. transform_async first_attr (attribute_args_new Implicit) sample_fn = Ok func2 \<and>
     call_fn sample_extern 0 func2 [VNum 3] 0 = Some (FVal task2, 0) \<and>
     run_task sample_extern 2 40 task2 0 = Some (FVal (VNum 43), 2)"
proof -
  have "is_ok (transform_async first_attr (attribute_args_new Implicit) sample_fn)" by code_simp
  then obtain func2 where run: "transform_async first_attr (attribute_args_new Implicit) sample_fn = Ok func2" by (auto simp: is_ok_iff)
  obtain task where task: "async_fn_task sample_fn [VNum 3] = Some task"
    by (simp add: async_fn_task_def sample_fn_def)
  have source: "run_task sample_extern 2 40 task 0 = Some (FVal (VNum 43), 2)"
    using task by (auto simp: async_fn_task_def sample_fn_def sample_extern_def numeral_2_eq_2)
  have "sg_async (fn_sig sample_fn)" and "fst (get_lang first_attr (fn_attrs sample_fn)) = Ok None"
    and "kind_closure_type (aa_kind (attribute_args_new Implicit)) = ClosureDefault"
    by (simp_all add: sample_fn_def get_lang_def attribute_args_new_def)
  from async_fn_means_the_same [OF run this(1,2) task, of sample_extern] this(3) obtain task2 where
    "\<forall>n s. call_fn sample_extern n func2 [VNum 3] s = Some (FVal task2, s)"
    and "\<forall>n k s. run_task sample_extern n k task2 s = tr_result first_attr (run_task sample_extern n k task s)"
    by auto
  with run source show ?thesis by fastforce
qed

text \<open>A function that is not asynchronous, inside a trait or an implementation, keeps its meaning as well.\<close>

lemma sync_fn_means_the_same:
  assumes "\<not> sg_async (fn_sig func)" and "\<not> fn_is_root func" and "transform_async rm attrs func = Ok func2"
  shows "call_fn ext n func2 (map (tr_val rm) args) s = tr_result rm (call_fn ext n func args s)"
proof -
  from assms have func2: "func2 = transform_sync rm func" by (simp add: transform_async_def)
  show ?thesis
    using bind_tr(2) [of "map arg_pat (sg_inputs (fn_sig func))" rm args None Empty]
    by (auto simp: call_fn_def func2 transform_sync_def eval_visit_sync leave_fn_tr split: option.split)
qed

text \<open>\<open>get_context\<close>, the function the compiler item makes, gives whoever awaits it the context it is awaited on.\<close>

theorem get_context_gives_the_context:
  assumes "transform_async rm attrs func = Ok func2" and "sg_async (fn_sig func)" and "fst (get_lang rm (fn_attrs func)) = Ok (Some GetContext)"
    and "sg_inputs (fn_sig func) = []" and "kind_closure_type (aa_kind attrs) \<noteq> ClosureNone"
  shows "\<exists>task. (\<forall>n s. call_fn ext n func2 [] s = Some (FVal task, s)) \<and>
    (\<forall>n k s. run_task ext (Suc n) k task s = Some (FVal (VContext k), s))"
proof -
  obtain func_attrs for_lt cx_lt func1 attrs2 where
    block1: "fn_block func1 = Some (transform_block rm attrs2 (ItemThen UseLang ContextIdent))"
    and inputs1: "sg_inputs (fn_sig func1) = []"
    and func2: "return_task rm attrs2 func_attrs for_lt cx_lt func1 = Some func2"
  proof (cases rule: transform_async_steps [OF assms(1,2)])
    case (1 lang fn_attributes func_attrs cx_lt generics block for_lt cx_lt2 generics2 func1)
    from 1(1) assms(3) have lang: "lang = Some GetContext" by simp
    with 1(4) have block: "block = Some (ItemThen UseLang ContextIdent)"
      by (auto simp: impl_lang_def split: option.splits if_splits)
    show thesis by (rule that) (use 1(7) assms(4,5) in \<open>simp_all add: 1(6) block\<close>)
  qed
  have bind1: "bind_pats (map arg_pat (sg_inputs (fn_sig func1))) [] (None, Empty) = Some (None, Empty)" by (simp add: inputs1)
  have "call_fn ext n func2 [] s =
      Some (FVal (VOpaqueTask (VClosure None Empty [context_arg] (Block [] (transform_block rm attrs2 (ItemThen UseLang ContextIdent))))), s)" for n s
    by (rule return_task_call [OF func2 block1 bind1])
  moreover have "run_task ext (Suc n) k
      (VOpaqueTask (VClosure None Empty [context_arg] (Block [] (transform_block rm attrs2 (ItemThen UseLang ContextIdent))))) s =
      Some (FVal (VContext k), s)" for n k s
    using run_transformed_block [of ext "Suc n" k None rm Empty attrs2 "ItemThen UseLang ContextIdent" s] by simp
  ultimately show ?thesis by blast
qed

lemma get_context_gives_the_context_witness:
  "\<exists>func2 task2.
     transform_async first_attr (attribute_args_new Implicit)
       (sample_fn\<lparr>fn_attrs := [(''lang'', ''get_context'')], fn_block := Some NoStmts,
         fn_sig := (fn_sig sample_fn)\<lparr>sg_inputs := []\<rparr>\<rparr>) = Ok func2 \<and>
     call_fn sample_extern 0 func2 [] 0 = Some (FVal task2, 0) \<and>
     run_task sample_extern 1 40 task2 0 = Some (FVal (VContext 40), 0)"
proof -
  let ?fn = "sample_fn\<lparr>fn_attrs := [(''lang'', ''get_context'')], fn_block := Some NoStmts,
         fn_sig := (fn_sig sample_fn)\<lparr>sg_inputs := []\<rparr>\<rparr>"
  have "is_ok (transform_async first_attr (attribute_args_new Implicit) ?fn)" by code_simp
  then obtain func2 where run: "transform_async first_attr (attribute_args_new Implicit) ?fn = Ok func2" by (auto simp: is_ok_iff)
  have "sg_async (fn_sig ?fn)" and "fst (get_lang first_attr (fn_attrs ?fn)) = Ok (Some GetContext)"
    and "sg_inputs (fn_sig ?fn) = []" and "kind_closure_type (aa_kind (attribute_args_new Implicit)) \<noteq> ClosureNone"
    by (simp_all add: sample_fn_def get_lang_def attribute_args_new_def)
  from get_context_gives_the_context [OF run this, of sample_extern] obtain task2 where
    "\<forall>n s. call_fn sample_extern n func2 [] s = Some (FVal task2, s)"
    and "\<forall>n k s. run_task sample_extern (Suc n) k task2 s = Some (FVal (VContext k), s)" by blast
  with run show ?thesis by fastforce
qed

text \<open>
  What becomes of \<open>must_use\<close> and \<open>cold\<close>: they are taken off the function and put on the task's \<open>run\<close>, but a function whose
  output borrows the context, and one that takes the context as an argument, lose them.
\<close>

lemma run_attributes_lost:
  "return_task rm attrs func_attrs for_lt (Some lifetime) func = return_task rm attrs [] for_lt (Some lifetime) func"
  by (simp only: return_task_def option.case)

lemma context_function_loses_attributes:
  "map_outcome_ok fn_attrs (transform_async first_attr (attribute_args_new TraitFn) (sample_fn\<lparr>fn_attrs := [(''must_use'', []), (''cold'', [])]\<rparr>)) =
   Ok [(''deny'', ''unsafe_op_in_unsafe_fn'')]"
  by code_simp

text \<open>The last \<open>impl\<close> option of the attribute counts, without an error for the ones before.\<close>

lemma second_impl_option_wins:
  "attribute_args_parse [OptImpl [''ref''], OptImpl [''mut'']] = attribute_args_parse [OptImpl [''mut'']]"
  by code_simp

end
