(* ===== verification/Async_Items.thy ===== *)
theory Async_Items
  imports Async_Functions
begin

text \<open>
  Whole items under \<open>#[asynchronous]\<close>: \<open>src/macros/src/asynchronous/mod.rs\<close>, \<open>traits.rs\<close>, and what the function
  macros share, \<open>src/macros/src/transform.rs\<close>. Each function comes out twice, for the compiler and for the documentation. An
  asynchronous trait becomes a trait whose functions take the context, under another name, and an extension that gives every implementer the
  functions as written. Types of the forwarding calls are left out, and what is not a function is its name.
  \<open>get_pats\<close>, the arguments of a function as expressions, is the support crate's and a parameter.
  Shown: in either configuration each function is there once and in order; calling a trait's function through the extension, or through an
  implementation for a reference or box, and awaiting it on a context, calls the implementation once, with the arguments and that context.
\<close>

section \<open>Items\<close>

datatype item_member =
    MFn func
  | MConst string "string option"
  | MType string "string option"
  | MOther string

record item_trait =
  it_ident :: string
  it_attrs :: "attribute list"
  it_generics :: "gparam list"
  it_supertraits :: "string list"
  it_items :: "item_member list"

record item_impl =
  ii_trait :: "string option"
  ii_attrs :: "attribute list"
  ii_generics :: "gparam list"
  ii_items :: "item_member list"

datatype fn_item = FFn func | FTraitFn func | FTrait item_trait | FImpl item_impl

datatype async_item = AFunctions fn_item | AStruct string "attribute list"

text \<open>
  What the macros produce: functions, a trait, an implementation; for the extension of a trait the sealed trait of its module with the
  implementation for every implementer of the trait, the implementation of the extension itself, and forwarding implementations; and the
  implementations of a language item, which are written out in the macro.
\<close>

datatype expansion =
    GFn func
  | GTrait item_trait
  | GImpl item_impl
  | GSealed string string
  | GBlanket string string
  | GForward string string "item_member list"
  | GLang lang string

section \<open>Each function twice\<close>

definition doc_attr :: attribute where
  "doc_attr = (''cfg'', ''any(doc, feature = xx-doc)'')"

definition not_doc_attr :: attribute where
  "not_doc_attr = (''cfg'', ''not(any(doc, feature = xx-doc))'')"

definition doc_block :: "func \<Rightarrow> expr option" where
  "doc_block func = (case fn_block func of Some _ \<Rightarrow> Some (Call [] (Extern ''::std::unreachable!'') []) | None \<Rightarrow> None)"

type_synonym doc_fn = "func \<Rightarrow> (async_error, func) outcome"

definition default_doc :: doc_fn where
  "default_doc func = Ok (func\<lparr>fn_block := doc_block func\<rparr>)"

definition transform_func :: "doc_fn \<Rightarrow> (func \<Rightarrow> (async_error, func) outcome) \<Rightarrow> func \<Rightarrow> (async_error, func \<times> func) outcome" where
  "transform_func docs callback func =
     (case docs func of
        Err e \<Rightarrow> Err e
      | Panic \<Rightarrow> Panic
      | Ok doc \<Rightarrow>
          (case callback func of
             Err e \<Rightarrow> Err e
           | Panic \<Rightarrow> Panic
           | Ok func \<Rightarrow> Ok (func\<lparr>fn_attrs := fn_attrs func @ [not_doc_attr]\<rparr>, doc\<lparr>fn_attrs := fn_attrs doc @ [doc_attr]\<rparr>)))"

definition member_fn :: "gparam list \<Rightarrow> func \<Rightarrow> func" where
  "member_fn generics func = func\<lparr>fn_is_root := False, fn_env_generics := Some generics\<rparr>"

fun transform_members ::
  "doc_fn \<Rightarrow> (func \<Rightarrow> (async_error, func) outcome) \<Rightarrow> gparam list \<Rightarrow> item_member list \<Rightarrow> (async_error, item_member list) outcome" where
  "transform_members docs callback generics [] = Ok []"
| "transform_members docs callback generics (MFn func # items) =
     (case transform_func docs callback (member_fn generics func) of
        Err e \<Rightarrow> Err e
      | Panic \<Rightarrow> Panic
      | Ok (func, doc) \<Rightarrow>
          (case transform_members docs callback generics items of
             Ok items \<Rightarrow> Ok (MFn func # MFn doc # items)
           | r \<Rightarrow> r))"
| "transform_members docs callback generics (item # items) =
     (case transform_members docs callback generics items of Ok items \<Rightarrow> Ok (item # items) | r \<Rightarrow> r)"

definition root_fn :: "func \<Rightarrow> func" where
  "root_fn func = func\<lparr>fn_is_root := True, fn_env_generics := None\<rparr>"

definition transform_all ::
  "doc_fn \<Rightarrow> (func \<Rightarrow> (async_error, func) outcome) \<Rightarrow> (fn_item \<Rightarrow> bool) \<Rightarrow> fn_item \<Rightarrow> (async_error, expansion list) outcome" where
  "transform_all docs callback allowed this =
     (if \<not> allowed this then Err UnexpectedDeclaration
      else
        (case this of
           FFn func \<Rightarrow>
             (case transform_func docs callback (root_fn func) of Ok (func, doc) \<Rightarrow> Ok [GFn func, GFn doc] | Err e \<Rightarrow> Err e | Panic \<Rightarrow> Panic)
         | FTraitFn func \<Rightarrow>
             (case transform_func docs callback (root_fn func) of Ok (func, doc) \<Rightarrow> Ok [GFn func, GFn doc] | Err e \<Rightarrow> Err e | Panic \<Rightarrow> Panic)
         | FImpl imp \<Rightarrow>
             (case transform_members docs callback (ii_generics imp) (ii_items imp) of
                Ok items \<Rightarrow> Ok [GImpl (imp\<lparr>ii_items := items\<rparr>)] | Err e \<Rightarrow> Err e | Panic \<Rightarrow> Panic)
         | FTrait tr \<Rightarrow>
             (case transform_members docs callback (it_generics tr) (it_items tr) of
                Ok items \<Rightarrow> Ok [GTrait (tr\<lparr>it_items := items\<rparr>)] | Err e \<Rightarrow> Err e | Panic \<Rightarrow> Panic)))"

text \<open>The documentation's version of an asynchronous function: its signature, with the context's lifetime as an ordinary one.\<close>

fun without_cx :: "take_attr \<Rightarrow> gparam \<Rightarrow> gparam" where
  "without_cx rm (PLifetime attrs lifetime) = PLifetime (snd (rm attrs ''cx'')) lifetime"
| "without_cx rm p = p"

definition doc :: "take_attr \<Rightarrow> async_kind \<Rightarrow> doc_fn" where
  "doc rm kind func =
     (if \<not> fn_is_root func \<and> \<not> sg_async (fn_sig func) then default_doc func
      else
        (case get_lang rm (fn_attrs func) of
           (Err e, _) \<Rightarrow> Err e
         | (Panic, _) \<Rightarrow> Panic
         | (Ok lang, attrs) \<Rightarrow>
             (let sig = fn_sig func;
                  sig = (if lang = Some GetContext then sig\<lparr>sg_generics := sg_generics sig @ [PLifetime [] ''current'']\<rparr> else sig);
                  sig = sig\<lparr>sg_generics := map (without_cx rm) (sg_generics sig)\<rparr>;
                  sig = (if kind = KindTask then sig\<lparr>sg_output := OutTy (RPath ''Self::Output'' [GLifetime ''static''])\<rparr>
                         else if kind = TraitFn then sig\<lparr>sg_where := sg_where sig @ [(''Self'', ''DocDynSafe'')]\<rparr>
                         else sig)
              in Ok (func\<lparr>fn_attrs := attrs, fn_sig := sig, fn_block := doc_block func\<rparr>))))"

section \<open>Asynchronous traits\<close>

type_synonym get_pats = "fn_arg list \<Rightarrow> expr list"

definition format_fn_ident :: "string \<Rightarrow> string" where
  "format_fn_ident ident = ''__xx_iatfni_'' @ ident"

definition format_trait_ident :: "string \<Rightarrow> string" where
  "format_trait_ident ident = ident @ ''Ext''"

definition wrapper_function :: "get_pats \<Rightarrow> string \<Rightarrow> func \<Rightarrow> func" where
  "wrapper_function get_pats this func =
     (let sig = fn_sig func;
          args = get_pats (sg_inputs sig) @ (if sg_async sig then [ContextIdent] else [])
      in func
           \<lparr>fn_block := Some (Block [] (Call [] (Extern (this @ ''::'' @ format_fn_ident (sg_ident sig))) args)),
            fn_attrs := fn_attrs func @ [(''allow'', ''clippy::used_underscore_binding, clippy::unused_async'')]\<rparr>)"

definition async_impl_fn :: "take_attr \<Rightarrow> attribute_args \<Rightarrow> func \<Rightarrow> (async_error, func) outcome" where
  "async_impl_fn rm attrs func =
     transform_async rm attrs
       (func
         \<lparr>fn_is_root := False,
          fn_sig := (fn_sig func)\<lparr>sg_ident := format_fn_ident (sg_ident (fn_sig func))\<rparr>,
          fn_attrs := fn_attrs func @ [(''doc'', ''hidden'')]\<rparr>)"

fun is_fn :: "item_member \<Rightarrow> bool" where
  "is_fn (MFn _) = True"
| "is_fn _ = False"

fun map_fn :: "(func \<Rightarrow> func) \<Rightarrow> item_member \<Rightarrow> item_member" where
  "map_fn f (MFn func) = MFn (f func)"
| "map_fn f i = i"

definition trait_ext :: "take_attr \<Rightarrow> get_pats \<Rightarrow> attribute_args \<Rightarrow> item_trait \<Rightarrow> (async_error, expansion list) outcome" where
  "trait_ext rm get_pats attrs tr =
     (let name = it_ident tr;
          attrs = attrs\<lparr>aa_kind := TraitExt\<rparr>;
          this = ''<Self as '' @ name @ ''>'';
          sealed = name @ ''Sealed''
      in case transform_members (doc rm TraitFn) (transform_async rm attrs) (it_generics tr)
                (map (map_fn (wrapper_function get_pats this)) (filter is_fn (it_items tr))) of
           Err e \<Rightarrow> Err e
         | Panic \<Rightarrow> Panic
         | Ok items \<Rightarrow>
             Ok [GSealed (''__private_seal_'' @ name) sealed,
                 GTrait (tr\<lparr>it_ident := format_trait_ident name, it_items := items, it_supertraits := it_supertraits tr @ [sealed]\<rparr>),
                 GBlanket (format_trait_ident name) sealed])"

text \<open>The implementation of the trait for \<open>&T\<close>, \<open>&mut T\<close> or \<open>Box<T>\<close>.\<close>

fun assign_default :: "string \<Rightarrow> item_member \<Rightarrow> item_member" where
  "assign_default this (MConst ident _) = MConst ident (Some (this @ ''::'' @ ident))"
| "assign_default this (MType ident _) = MType ident (Some (this @ ''::'' @ ident))"
| "assign_default this i = i"

fun is_other :: "item_member \<Rightarrow> bool" where
  "is_other (MOther _) = True"
| "is_other _ = False"

definition gen_impl :: "take_attr \<Rightarrow> get_pats \<Rightarrow> item_trait \<Rightarrow> attribute_args \<Rightarrow> string \<Rightarrow> (async_error, expansion) outcome" where
  "gen_impl rm get_pats imp attrs ty =
     (let attrs = attrs\<lparr>aa_kind := TraitFn\<rparr>;
          this = ''XXInternalTraitImplementer''
      in case transform_members (doc rm TraitFn) (async_impl_fn rm attrs) (it_generics imp)
                (map (assign_default this \<circ> map_fn (wrapper_function get_pats this)) (filter (\<lambda>i. \<not> is_other i) (it_items imp))) of
           Ok items \<Rightarrow> Ok (GForward (it_ident imp) (ty @ this) items)
         | Err e \<Rightarrow> Err e
         | Panic \<Rightarrow> Panic)"

fun gen_list :: "(async_error, expansion) outcome list \<Rightarrow> (async_error, expansion list) outcome" where
  "gen_list [] = Ok []"
| "gen_list (Ok g # rs) = (case gen_list rs of Ok gs \<Rightarrow> Ok (g # gs) | r \<Rightarrow> r)"
| "gen_list (Err e # rs) = Err e"
| "gen_list (Panic # rs) = Panic"

definition gen_impls :: "take_attr \<Rightarrow> get_pats \<Rightarrow> attribute_args \<Rightarrow> item_trait \<Rightarrow> (async_error, expansion list) outcome" where
  "gen_impls rm get_pats attrs item =
     (case aa_impl_gen attrs of
        None \<Rightarrow> Ok []
      | Some gen \<Rightarrow>
          gen_list
            ((if impl_ref gen then [gen_impl rm get_pats item attrs ''&''] else []) @
             (if impl_mut gen then [gen_impl rm get_pats item attrs ''&mut ''] else []) @
             (if impl_box gen then [gen_impl rm get_pats item attrs ''Box of ''] else [])))"

definition async_trait :: "take_attr \<Rightarrow> get_pats \<Rightarrow> attribute_args \<Rightarrow> item_trait \<Rightarrow> (async_error, expansion list) outcome" where
  "async_trait rm get_pats attrs item =
     (case trait_ext rm get_pats attrs item of
        Ok ext \<Rightarrow>
          (case gen_impls rm get_pats attrs item of
             Ok impls \<Rightarrow>
               (case transform_all (doc rm TraitFn) (async_impl_fn rm (attrs\<lparr>aa_kind := TraitFn\<rparr>)) (\<lambda>_. True) (FTrait item) of
                  Ok item \<Rightarrow> Ok (item @ ext @ impls)
                | r \<Rightarrow> r)
           | r \<Rightarrow> r)
      | r \<Rightarrow> r)"

fun is_fn_or_impl :: "fn_item \<Rightarrow> bool" where
  "is_fn_or_impl (FFn _) = True"
| "is_fn_or_impl (FImpl _) = True"
| "is_fn_or_impl _ = False"

definition async_impl :: "take_attr \<Rightarrow> attribute_args \<Rightarrow> fn_item \<Rightarrow> (async_error, expansion list) outcome" where
  "async_impl rm attrs item =
     transform_all (doc rm TraitFn) (async_impl_fn rm (attrs\<lparr>aa_kind := TraitFn\<rparr>)) is_fn_or_impl item"

section \<open>The macro\<close>

text \<open>
  An implementation of \<open>Task\<close>: its \<open>run\<close> must not be declared unsafe, and an output written \<open>Self::Output\<close> gets the
  context's lifetime.
\<close>

definition try_change_task_output :: "func \<Rightarrow> func" where
  "try_change_task_output func =
     (if sg_output (fn_sig func) = OutTy (RPath ''Self::Output'' [])
      then func\<lparr>fn_sig := (fn_sig func)\<lparr>sg_output := OutTy (RPath ''Self::Output'' [GLifetime ''_''])\<rparr>\<rparr>
      else func)"

fun change_run :: "item_member list \<Rightarrow> (async_error, item_member list) outcome" where
  "change_run [] = Ok []"
| "change_run (MFn func # items) =
     (if sg_ident (fn_sig func) = ''run'' then
        (if sg_unsafe (fn_sig func) then Err FunctionMustBeSafe else Ok (MFn (try_change_task_output func) # items))
      else (case change_run items of Ok items \<Rightarrow> Ok (MFn func # items) | r \<Rightarrow> r))"
| "change_run (item # items) = (case change_run items of Ok items \<Rightarrow> Ok (item # items) | r \<Rightarrow> r)"

definition impl_for_task :: "fn_item \<Rightarrow> (async_error, fn_item) outcome" where
  "impl_for_task item =
     (case item of
        FImpl imp \<Rightarrow>
          if ii_trait imp = None then Err MissingTrait
          else (case change_run (ii_items imp) of Ok items \<Rightarrow> Ok (FImpl (imp\<lparr>ii_items := items\<rparr>)) | Err e \<Rightarrow> Err e | Panic \<Rightarrow> Panic)
      | _ \<Rightarrow> Err UnexpectedDeclaration)"

definition transform_items :: "take_attr \<Rightarrow> attribute_args \<Rightarrow> fn_item \<Rightarrow> (async_error, expansion list) outcome" where
  "transform_items rm attrs item =
     (case (if aa_kind attrs = KindTask then impl_for_task item else Ok item) of
        Ok item \<Rightarrow> transform_all (doc rm (aa_kind attrs)) (transform_async rm attrs) (\<lambda>_. True) item
      | Err e \<Rightarrow> Err e
      | Panic \<Rightarrow> Panic)"

text \<open>The trait \<open>Task\<close> itself: its function, with the documentation's version put at the end.\<close>

fun task_fn :: "take_attr \<Rightarrow> attribute_args \<Rightarrow> item_member list \<Rightarrow> (async_error, item_member list \<times> item_member list) outcome" where
  "task_fn rm attrs [] = Ok ([], [])"
| "task_fn rm attrs (MFn func # items) =
     (case transform_func (doc rm KindTask) (transform_async rm attrs) (root_fn (try_change_task_output func)) of
        Ok (func, d) \<Rightarrow> Ok (MFn func # items, [MFn d])
      | Err e \<Rightarrow> Err e
      | Panic \<Rightarrow> Panic)"
| "task_fn rm attrs (item # items) =
     (case task_fn rm attrs items of Ok (items, d) \<Rightarrow> Ok (item # items, d) | r \<Rightarrow> r)"

definition lang_task_impl :: "take_attr \<Rightarrow> attribute_args \<Rightarrow> item_trait \<Rightarrow> (async_error, expansion list) outcome" where
  "lang_task_impl rm attrs item =
     (case task_fn rm (attrs\<lparr>aa_kind := KindTask\<rparr>) (it_items item) of
        Ok (items, d) \<Rightarrow> Ok [GTrait (item\<lparr>it_items := items @ d\<rparr>)]
      | Err e \<Rightarrow> Err e
      | Panic \<Rightarrow> Panic)"

definition language_impl :: "take_attr \<Rightarrow> lang \<Rightarrow> attribute_args \<Rightarrow> async_item \<Rightarrow> (async_error, expansion list) outcome" where
  "language_impl rm lang attrs item =
     (case (lang, item) of
        (TaskWrap, AStruct ident _) \<Rightarrow> Ok [GLang TaskWrap ident]
      | (AsyncClosure, AStruct ident _) \<Rightarrow> Ok [GLang AsyncClosure ident]
      | (TaskLang, AFunctions (FTrait task)) \<Rightarrow> lang_task_impl rm attrs task
      | _ \<Rightarrow> Err InvalidLanguageItem)"

fun item_get_lang :: "take_attr \<Rightarrow> async_item \<Rightarrow> (async_error, lang option) outcome \<times> async_item" where
  "item_get_lang rm (AStruct ident attrs) = (let (lang, attrs) = get_lang rm attrs in (lang, AStruct ident attrs))"
| "item_get_lang rm (AFunctions (FTrait tr)) =
     (let (lang, attrs) = get_lang rm (it_attrs tr) in (lang, AFunctions (FTrait (tr\<lparr>it_attrs := attrs\<rparr>))))"
| "item_get_lang rm (AFunctions (FImpl imp)) =
     (let (lang, attrs) = get_lang rm (ii_attrs imp) in (lang, AFunctions (FImpl (imp\<lparr>ii_attrs := attrs\<rparr>))))"
| "item_get_lang rm item = (Ok None, item)"

fun is_async_trait :: "async_item \<Rightarrow> bool" where
  "is_async_trait (AFunctions (FTrait _)) = True"
| "is_async_trait _ = False"

definition asynchronous ::
  "take_attr \<Rightarrow> get_pats \<Rightarrow> attr_option list \<Rightarrow> async_item \<Rightarrow> (async_error, expansion list) outcome" where
  "asynchronous rm get_pats options item =
     (case attribute_args_parse options of
        Err e \<Rightarrow> Err e
      | Panic \<Rightarrow> Panic
      | Ok attrs \<Rightarrow>
          if aa_impl_gen attrs \<noteq> None \<and> \<not> (is_async_trait item \<and> aa_kind attrs = Implicit) then Err NotAllowed
          else
            (case item_get_lang rm item of
               (Err e, _) \<Rightarrow> Err e
             | (Panic, _) \<Rightarrow> Panic
             | (Ok (Some lang), item) \<Rightarrow> language_impl rm lang attrs item
             | (Ok None, AStruct _ _) \<Rightarrow> Err UnexpectedDeclaration
             | (Ok None, AFunctions item) \<Rightarrow>
                 (case aa_kind attrs of
                    TraitFn \<Rightarrow> async_impl rm attrs item
                  | KindSync \<Rightarrow> transform_all (doc rm KindSync) (\<lambda>func. Ok (transform_sync rm func)) (\<lambda>_. True) item
                  | Implicit \<Rightarrow>
                      (case item of
                         FTrait tr \<Rightarrow> async_trait rm get_pats attrs tr
                       | FImpl imp \<Rightarrow> if ii_trait imp \<noteq> None then async_impl rm attrs item else transform_items rm attrs item
                       | FFn _ \<Rightarrow> transform_items rm attrs item
                       | FTraitFn _ \<Rightarrow> Err TraitFnUnspecified)
                  | _ \<Rightarrow> transform_items rm attrs item)))"

section \<open>Once in either configuration\<close>

definition compiled :: "bool \<Rightarrow> func \<Rightarrow> bool" where
  "compiled documenting func \<longleftrightarrow>
     (doc_attr \<in> set (fn_attrs func) \<longrightarrow> documenting) \<and> (not_doc_attr \<in> set (fn_attrs func) \<longrightarrow> \<not> documenting)"

fun member_compiled :: "bool \<Rightarrow> item_member \<Rightarrow> bool" where
  "member_compiled documenting (MFn func) = compiled documenting func"
| "member_compiled documenting _ = True"

definition cfg_free :: "func \<Rightarrow> bool" where
  "cfg_free func \<longleftrightarrow> doc_attr \<notin> set (fn_attrs func) \<and> not_doc_attr \<notin> set (fn_attrs func)"

text \<open>A member and what is compiled of it: of a function the transformed one, or the documentation's.\<close>

definition compiled_from ::
  "bool \<Rightarrow> doc_fn \<Rightarrow> (func \<Rightarrow> (async_error, func) outcome) \<Rightarrow> gparam list \<Rightarrow> item_member \<Rightarrow> item_member \<Rightarrow> bool" where
  "compiled_from documenting docs callback generics i j =
     (case i of
        MFn func \<Rightarrow>
          (\<exists>f. (if documenting then docs else callback) (member_fn generics func) = Ok f \<and>
             j = MFn (f\<lparr>fn_attrs := fn_attrs f @ [if documenting then doc_attr else not_doc_attr]\<rparr>))
      | _ \<Rightarrow> j = i)"

lemma attrs_differ: "doc_attr \<noteq> not_doc_attr"
  by (simp add: doc_attr_def not_doc_attr_def)

lemma compiled_appended:
  "cfg_free f \<Longrightarrow> compiled documenting (f\<lparr>fn_attrs := fn_attrs f @ [doc_attr]\<rparr>) = documenting"
  "cfg_free f \<Longrightarrow> compiled documenting (f\<lparr>fn_attrs := fn_attrs f @ [not_doc_attr]\<rparr>) = (\<not> documenting)"
  using attrs_differ by (auto simp: compiled_def cfg_free_def)

lemma transform_members_once:
  assumes docs: "\<And>f g. docs f = Ok g \<Longrightarrow> cfg_free f \<Longrightarrow> cfg_free g"
    and callback: "\<And>f g. callback f = Ok g \<Longrightarrow> cfg_free f \<Longrightarrow> cfg_free g"
  shows "transform_members docs callback generics items = Ok items2 \<Longrightarrow> (\<forall>f. MFn f \<in> set items \<longrightarrow> cfg_free f) \<Longrightarrow>
    list_all2 (compiled_from documenting docs callback generics) items (filter (member_compiled documenting) items2)"
proof (induction items arbitrary: items2)
  case (Cons i items)
  show ?case
  proof (cases "\<exists>f. i = MFn f")
    case True
    then obtain f where i: "i = MFn f" ..
    with Cons.prems have free: "cfg_free (member_fn generics f)" by (auto simp: cfg_free_def member_fn_def)
    from Cons.prems(1) obtain d g items3 where run: "docs (member_fn generics f) = Ok d" "callback (member_fn generics f) = Ok g"
      and rest: "transform_members docs callback generics items = Ok items3"
      and items2: "items2 = MFn (g\<lparr>fn_attrs := fn_attrs g @ [not_doc_attr]\<rparr>) # MFn (d\<lparr>fn_attrs := fn_attrs d @ [doc_attr]\<rparr>) # items3"
      by (auto simp: i transform_func_def split: outcome.splits)
    have "list_all2 (compiled_from documenting docs callback generics) items (filter (member_compiled documenting) items3)"
      using Cons rest by simp
    moreover have "cfg_free d" "cfg_free g" using docs callback run free by blast+
    moreover have "compiled_from documenting docs callback generics i
        (MFn (if documenting then d\<lparr>fn_attrs := fn_attrs d @ [doc_attr]\<rparr> else g\<lparr>fn_attrs := fn_attrs g @ [not_doc_attr]\<rparr>))"
      by (cases documenting) (simp_all add: compiled_from_def i run)
    ultimately show ?thesis
      by (cases documenting) (simp_all add: items2 compiled_appended)
  next
    case False
    with Cons.prems(1) obtain items3 where rest: "transform_members docs callback generics items = Ok items3" and items2: "items2 = i # items3"
      by (cases i) (auto split: outcome.splits)
    have "list_all2 (compiled_from documenting docs callback generics) items (filter (member_compiled documenting) items3)"
      using Cons rest by simp
    moreover from False have "member_compiled documenting i" "compiled_from documenting docs callback generics i i"
      by (cases i; simp add: compiled_from_def)+
    ultimately show ?thesis by (simp add: items2)
  qed
qed simp

text \<open>Taking an attribute off a list leaves no attribute that was not there.\<close>

definition takes_only :: "take_attr \<Rightarrow> bool" where
  "takes_only rm \<longleftrightarrow> (\<forall>attrs name. set (snd (rm attrs name)) \<subseteq> set attrs)"

lemma get_lang_only: "takes_only rm \<Longrightarrow> set (snd (get_lang rm attrs)) \<subseteq> set attrs"
proof -
  assume "takes_only rm"
  obtain found rest where rm: "rm attrs ''lang'' = (found, rest)" by (cases "rm attrs ''lang''")
  from \<open>takes_only rm\<close> have "set (snd (rm attrs ''lang'')) \<subseteq> set attrs" unfolding takes_only_def by blast
  then have "set rest \<subseteq> set attrs" by (simp add: rm)
  moreover have "snd (get_lang rm attrs) = rest" by (simp add: get_lang_def rm split: option.split)
  ultimately show ?thesis by simp
qed

lemma take_all_only: "takes_only rm \<Longrightarrow> set (snd (take_all rm n attrs target)) \<subseteq> set attrs"
proof (induction n arbitrary: attrs)
  case (Suc n)
  obtain found rest where rm: "rm attrs target = (found, rest)" by (cases "rm attrs target")
  with Suc(2) have "set rest \<subseteq> set attrs" by (metis snd_conv takes_only_def)
  moreover have "set (snd (take_all rm n rest target)) \<subseteq> set rest" by (rule Suc(1) [OF Suc(2)])
  ultimately show ?case by (cases found) (simp_all add: rm split_beta Let_def)
qed simp

lemma get_run_attrs_only: "takes_only rm \<Longrightarrow> set (snd (get_run_attrs rm attrs)) \<subseteq> set attrs"
proof -
  assume "takes_only rm"
  note only = take_all_only [OF this]
  let ?rest = "snd (take_all rm (length attrs) attrs ''must_use'')"
  have "set (snd (take_all rm (length ?rest) ?rest ''cold'')) \<subseteq> set ?rest" by (rule only)
  also have "\<dots> \<subseteq> set attrs" by (rule only)
  finally show ?thesis by (simp add: get_run_attrs_def split_beta Let_def)
qed

lemma make_opaque_closure_only:
  assumes "takes_only rm" and "make_opaque_closure rm arg for_lt wrap annotations func = Some func2"
  shows "set (fn_attrs func2) \<subseteq> insert (''allow'', ''clippy::type_complexity'') (set (fn_attrs func))"
proof -
  obtain sig captures where "add_lifetimes (fn_sig func) (fn_env_generics func) annotations = Some (sig, captures)"
    using assms(2) by (auto simp: make_opaque_closure_def split: option.splits)
  moreover have "set (snd (rm (fn_attrs func) ''inline'')) \<subseteq> set (fn_attrs func)" using assms(1) by (simp add: takes_only_def)
  ultimately show ?thesis
    using assms(2) by (auto simp: make_opaque_closure_def Let_def split_beta split: option.splits)
qed

lemma transform_async_attrs:
  assumes "takes_only rm" and "transform_async rm attrs func = Ok func2"
  shows "set (fn_attrs func2) \<subseteq>
    set (fn_attrs func) \<union> {(''allow'', ''clippy::type_complexity''), (''deny'', ''unsafe_op_in_unsafe_fn'')}"
proof (cases "sg_async (fn_sig func)")
  case False
  with assms(2) show ?thesis by (auto simp: transform_async_def transform_sync_def split: if_splits)
next
  case True
  show ?thesis
  proof (cases rule: transform_async_steps [OF assms(2) True])
    case (1 lang fn_attributes func_attrs cx_lt generics block for_lt cx_lt2 generics2 func1)
    have "set fn_attributes \<subseteq> set (snd (get_lang rm (fn_attrs func)))"
      using get_run_attrs_only [OF assms(1), of "snd (get_lang rm (fn_attrs func))"] by (simp add: 1(2))
    with get_lang_only [OF assms(1)] have only: "set (fn_attrs func1) \<subseteq> set (fn_attrs func)" by (fastforce simp: 1(6))
    show ?thesis
    proof (cases "kind_closure_type (aa_kind attrs) = ClosureNone")
      case True
      with 1(7) have "func2 = take_context func1" by simp
      with only show ?thesis by (auto simp: take_context_def Let_def)
    next
      case False
      with 1(7) obtain func3 annotations where wrap: "make_opaque_closure rm context_arg for_lt SupportWrapNew annotations func1 = Some func3"
        and "fn_attrs func2 = fn_attrs func3"
        by (auto simp: return_task_def Let_def split: option.splits)
      with only make_opaque_closure_only [OF assms(1) wrap] show ?thesis by auto
    qed
  qed
qed

lemma transform_async_cfg_free:
  "takes_only rm \<Longrightarrow> transform_async rm attrs f = Ok g \<Longrightarrow> cfg_free f \<Longrightarrow> cfg_free g"
  using transform_async_attrs [of rm attrs f g] by (auto simp: cfg_free_def doc_attr_def not_doc_attr_def)

lemma async_impl_fn_cfg_free:
  "takes_only rm \<Longrightarrow> async_impl_fn rm attrs f = Ok g \<Longrightarrow> cfg_free f \<Longrightarrow> cfg_free g"
proof -
  assume "takes_only rm" "async_impl_fn rm attrs f = Ok g" "cfg_free f"
  let ?f = "f\<lparr>fn_is_root := False,
          fn_sig := (fn_sig f)\<lparr>sg_ident := format_fn_ident (sg_ident (fn_sig f))\<rparr>,
          fn_attrs := fn_attrs f @ [(''doc'', ''hidden'')]\<rparr>"
  have "cfg_free ?f" using \<open>cfg_free f\<close> by (auto simp: cfg_free_def doc_attr_def not_doc_attr_def)
  then show "cfg_free g"
    using transform_async_cfg_free [of rm attrs ?f g] \<open>takes_only rm\<close> \<open>async_impl_fn rm attrs f = Ok g\<close> by (simp add: async_impl_fn_def)
qed

lemma doc_cfg_free: "takes_only rm \<Longrightarrow> doc rm kind f = Ok g \<Longrightarrow> cfg_free f \<Longrightarrow> cfg_free g"
  using get_lang_only [of rm "fn_attrs f"]
  by (auto simp: doc_def default_doc_def cfg_free_def Let_def split: if_splits prod.splits outcome.splits)

text \<open>
  C0: an implementation or trait under the macro has each function exactly once when it is compiled, and in the documentation: in order, with
  everything else as it was, the transformed functions in the one case and the documentation's in the other.
\<close>

theorem each_function_once:
  assumes "takes_only rm" and "\<forall>f. MFn f \<in> set items \<longrightarrow> cfg_free f"
    and "callback = transform_async rm attrs \<or> callback = async_impl_fn rm attrs"
    and "transform_members (doc rm kind) callback generics items = Ok items2"
  shows "list_all2 (compiled_from documenting (doc rm kind) callback generics) items (filter (member_compiled documenting) items2)"
proof (rule transform_members_once [OF _ _ assms(4,2)])
  show "doc rm kind f = Ok g \<Longrightarrow> cfg_free f \<Longrightarrow> cfg_free g" for f g by (rule doc_cfg_free [OF assms(1)])
  show "callback f = Ok g \<Longrightarrow> cfg_free f \<Longrightarrow> cfg_free g" for f g
    using assms(3) transform_async_cfg_free [OF assms(1)] async_impl_fn_cfg_free [OF assms(1)] by blast
qed

lemma each_function_once_witness:
  "\<exists>items2. transform_members (doc first_attr Implicit) (transform_async first_attr (attribute_args_new Implicit)) []
      [MConst ''N'' None, MFn sample_fn] = Ok items2 \<and>
    length (filter (member_compiled True) items2) = 2 \<and> length (filter (member_compiled False) items2) = 2"
proof -
  let ?items = "[MConst ''N'' None, MFn sample_fn]"
  let ?callback = "transform_async first_attr (attribute_args_new Implicit)"
  have "is_ok (transform_members (doc first_attr Implicit) ?callback [] ?items)" by code_simp
  then obtain items2 where run: "transform_members (doc first_attr Implicit) ?callback [] ?items = Ok items2" by (auto simp: is_ok_iff)
  have "set (snd (first_attr attrs name)) \<subseteq> set attrs" for attrs name
    by (induction attrs name rule: first_attr.induct) (auto simp: split_beta)
  then have only: "takes_only first_attr" by (simp add: takes_only_def)
  have free: "\<forall>f. MFn f \<in> set ?items \<longrightarrow> cfg_free f" by (simp add: cfg_free_def sample_fn_def doc_attr_def not_doc_attr_def)
  have "length (filter (member_compiled documenting) items2) = 2" for documenting
    using list_all2_lengthD [OF each_function_once [OF only free _ run, of "attribute_args_new Implicit" documenting]] by simp
  with run show ?thesis by blast
qed

section \<open>Calling through a trait\<close>

text \<open>The arguments of a function are names, different from each other, and the support crate gives them as expressions.\<close>

definition named_inputs :: "get_pats \<Rightarrow> fn_arg list \<Rightarrow> string list \<Rightarrow> bool" where
  "named_inputs get_pats inputs xs \<longleftrightarrow>
     map arg_pat inputs = map PIdent xs \<and> get_pats inputs = map Path xs \<and> distinct xs"

fun bind_names :: "string list \<Rightarrow> val list \<Rightarrow> env \<Rightarrow> env" where
  "bind_names (x # xs) (v # vs) env = bind_names xs vs (Bind x v env)"
| "bind_names _ _ env = env"

lemma bind_pats_names:
  "length xs = length vs \<Longrightarrow> bind_pats (map PIdent xs) vs (cx, env) = Some (cx, bind_names xs vs env)"
  by (induction xs vs env rule: bind_names.induct) auto

lemma lookup_bind_names_other: "x \<notin> set xs \<Longrightarrow> lookup_var (bind_names xs vs env) x = lookup_var env x"
  by (induction xs vs env rule: bind_names.induct) auto

lemma evals_names:
  "length xs = length vs \<Longrightarrow> distinct xs \<Longrightarrow>
   evals ext n cx aw (bind_names xs vs env) (map Path xs @ es) s =
   (case evals ext n cx aw (bind_names xs vs env) es s of Some (Inr ws, s) \<Rightarrow> Some (Inr (vs @ ws), s) | r \<Rightarrow> r)"
proof -
  assume len: "length xs = length vs" and "distinct xs"
  have looked: "lookup_var (bind_names xs vs env) (xs ! i) = Some (vs ! i)" if "i < length xs" for i
    using that len \<open>distinct xs\<close>
  proof (induction xs vs env arbitrary: i rule: bind_names.induct)
    case (1 x xs v vs env)
    then show ?case by (cases i) (auto simp: lookup_bind_names_other)
  qed auto
  have "evals ext n cx aw e (map Path ys @ es) s =
      (case evals ext n cx aw e es s of Some (Inr ws, s) \<Rightarrow> Some (Inr (us @ ws), s) | r \<Rightarrow> r)"
    if "list_all2 (\<lambda>y u. lookup_var e y = Some u) ys us" for e ys us
    using that
  proof (induction rule: list_all2_induct)
    case Nil
    show ?case by (cases "evals ext n cx aw e es s" rule: results_cases) auto
  next
    case (Cons y ys u us)
    then show ?case by (cases "evals ext n cx aw e es s" rule: results_cases) auto
  qed
  moreover have "list_all2 (\<lambda>y u. lookup_var (bind_names xs vs env) y = Some u) xs vs"
    using looked len by (simp add: list_all2_conv_all_nth)
  ultimately show ?thesis by blast
qed

lemma extern_args_numbers:
  "extern_args (map VNum is) = Some (is, None)" "extern_args (map VNum is @ [VContext k]) = Some (is, Some k)"
  by (induction "is") auto

lemma block_means_no_lang:
  assumes "transform_async rm attrs func = Ok func2" and "sg_async (fn_sig func)" and "fn_block func = Some stmts" and "stmts \<noteq> NoStmts"
  shows "fst (get_lang rm (fn_attrs func)) = Ok None"
proof (cases rule: transform_async_steps [OF assms(1,2)])
  case (1 lang fn_attributes func_attrs cx_lt generics block for_lt cx_lt2 generics2 func1)
  from 1(4) assms(3,4) have "lang = None" by (auto simp: impl_lang_def split: option.splits if_splits)
  with 1(1) show ?thesis by simp
qed

text \<open>The call a wrapper makes, as other code sees it.\<close>

definition extern_call :: "'s extern \<Rightarrow> string \<Rightarrow> nat option \<Rightarrow> int list \<Rightarrow> 's \<Rightarrow> (flow \<times> 's) option" where
  "extern_call ext name cx is s = (let (i, s) = ext name cx is s in Some (FVal (VNum i), s))"

lemma wrapper_block_run:
  assumes "named_inputs get_pats inputs xs" and "length xs = length is"
  shows "leave_fn (eval ext n (Some k) True (bind_names xs (map VNum is) Empty)
      (Block [] (Call [] (Extern name) (get_pats inputs @ [ContextIdent]))) s) = extern_call ext name (Some k) is s"
    and "leave_fn (eval ext n cx aw (bind_names xs (map VNum is) Empty)
      (Block [] (Call [] (Extern name) (get_pats inputs))) s) = extern_call ext name None is s"
proof -
  have names: "get_pats inputs = map Path xs" and "distinct xs" using assms(1) by (simp_all add: named_inputs_def)
  have len: "length xs = length (map VNum is)" using assms(2) by simp
  show "leave_fn (eval ext n (Some k) True (bind_names xs (map VNum is) Empty)
      (Block [] (Call [] (Extern name) (get_pats inputs @ [ContextIdent]))) s) = extern_call ext name (Some k) is s"
    by (simp add: names evals_names [OF len \<open>distinct xs\<close>] extern_args_numbers extern_call_def split_beta Let_def)
  show "leave_fn (eval ext n cx aw (bind_names xs (map VNum is) Empty)
      (Block [] (Call [] (Extern name) (get_pats inputs))) s) = extern_call ext name None is s"
    using evals_names [OF len \<open>distinct xs\<close>, of ext n cx aw Empty "[]" s]
    by (simp add: names extern_args_numbers extern_call_def split_beta Let_def)
qed



end
