(* ===== verification/Node_Queue.thy ===== *)
theory Node_Queue
  imports Xx_Prelude
begin

text \<open>
  The contract of an intrusive queue as its clients (wait lists, thread pool) use it: nodes that are
  free can be pushed, the oldest node is popped, any queued node can be erased, and a node that left
  the queue is free again. Clients work from the laws alone; \<open>Linked_List\<close> provides them.
\<close>

text \<open>
  The loop \<open>while let Some(node) = list.pop_front()\<close>, with the nodes in the order they are taken.
  One unit of fuel per pop; \<open>None\<close> is running out of fuel or a violated precondition of the pop.
\<close>

fun pop_all :: "('h \<Rightarrow> ('a option \<times> 'h) option) \<Rightarrow> nat \<Rightarrow> 'h \<Rightarrow> ('a list \<times> 'h) option" where
  "pop_all pop 0 h = None"
| "pop_all pop (Suc k) h =
     (case pop h of
        None \<Rightarrow> None
      | Some (None, h') \<Rightarrow> Some ([], h')
      | Some (Some a, h') \<Rightarrow> map_option (\<lambda>(as, h''). (a # as, h'')) (pop_all pop k h'))"

locale node_queue =
  fixes at :: "'h \<Rightarrow> 'q \<Rightarrow> 'a list \<Rightarrow> bool"
    and free :: "'h \<Rightarrow> 'a \<Rightarrow> bool"
    and push :: "'h \<Rightarrow> 'q \<Rightarrow> 'a \<Rightarrow> 'h"
    and pop :: "'h \<Rightarrow> 'q \<Rightarrow> ('a option \<times> 'h) option"
    and erase :: "'h \<Rightarrow> 'a \<Rightarrow> 'h option"
  assumes at_distinct: "at h q as \<Longrightarrow> distinct as"
    and at_not_free: "at h q as \<Longrightarrow> a \<in> set as \<Longrightarrow> \<not> free h a"
    and push_at: "at h q as \<Longrightarrow> free h a \<Longrightarrow> at (push h q a) q (as @ [a])"
    and pop_empty: "at h q [] \<Longrightarrow> pop h q = Some (None, h)"
    and pop_at: "at h q (a # as) \<Longrightarrow> \<exists>h'. pop h q = Some (Some a, h') \<and> at h' q as \<and> free h' a \<and>
      (\<forall>b. free h b \<longrightarrow> free h' b)"
    and erase_at: "at h q (as @ a # bs) \<Longrightarrow> \<exists>h'. erase h a = Some h' \<and> at h' q (as @ bs) \<and>
      free h' a \<and> (\<forall>b. free h b \<longrightarrow> free h' b)"
begin

lemma push_not_in: "at h q as \<Longrightarrow> free h a \<Longrightarrow> a \<notin> set as"
  using at_not_free by blast

lemma erase_in:
  assumes "at h q as" "a \<in> set as"
  shows "\<exists>h'. erase h a = Some h' \<and> at h' q (remove1 a as) \<and> free h' a \<and>
    (\<forall>b. free h b \<longrightarrow> free h' b)"
proof -
  obtain us vs where as: "as = us @ a # vs" "a \<notin> set us"
    using split_list_first[OF assms(2)] by blast
  then have "remove1 a as = us @ vs" by (simp add: remove1_append)
  with erase_at[of h q us a vs] assms(1) as show ?thesis by simp
qed

lemma pop_all_at:
  "at h q as \<Longrightarrow> length as < k \<Longrightarrow>
   \<exists>h'. pop_all (\<lambda>h. pop h q) k h = Some (as, h') \<and> at h' q [] \<and>
     (\<forall>b. free h b \<or> b \<in> set as \<longrightarrow> free h' b)"
proof (induction as arbitrary: h k)
  case Nil
  then obtain k' where "k = Suc k'" by (cases k) auto
  with Nil pop_empty show ?case by auto
next
  case (Cons a as)
  then obtain k' where k: "k = Suc k'" "length as < k'" by (cases k) auto
  obtain h1 where h1: "pop h q = Some (Some a, h1)" "at h1 q as" "free h1 a"
      "\<And>b. free h b \<Longrightarrow> free h1 b"
    using pop_at[OF Cons.prems(1)] by blast
  obtain h' where "pop_all (\<lambda>h. pop h q) k' h1 = Some (as, h')" "at h' q []"
      "\<And>b. free h1 b \<or> b \<in> set as \<Longrightarrow> free h' b"
    using Cons.IH[OF h1(2) k(2)] by blast
  with k h1 show ?case by auto
qed

text \<open>Pushing one node after another and then emptying the queue returns them in push order.\<close>

lemma push_pop_all:
  assumes "at h q as" "free h a" "length as + 1 < k"
  shows "\<exists>h'. pop_all (\<lambda>h. pop h q) k (push h q a) = Some (as @ [a], h') \<and> at h' q []"
  using pop_all_at[OF push_at[OF assms(1,2)], of k] assms(3) by auto

end

end
