(* ===== verification/Linked_List.thy ===== *)
theory Linked_List
  imports Node_Queue
begin

text \<open>
  The intrusive list of \<open>src/src/container/intrusive/linked_list.rs\<close>. Nodes live at addresses of an
  explicit heap; a list is its base node, linked in a circle through \<open>prev\<close> and \<open>next\<close>. The
  unchecked assumptions of the source (\<open>assume\<close>, \<open>assert_unsafe_precondition!\<close>) are the value
  \<open>None\<close>: undefined behaviour in release builds, an abort in debug builds. The lemmas relate every
  operation to the list of addresses that \<open>list_at\<close> reads off the heap.
\<close>

section \<open>Nodes\<close>

record node =
  prev :: addr
  nxt :: addr

type_synonym heap = "addr \<Rightarrow> node"

definition null :: addr where
  "null = 0"

definition node_new :: node where
  "node_new = \<lparr>prev = null, nxt = null\<rparr>"

definition set_prev :: "heap \<Rightarrow> addr \<Rightarrow> addr \<Rightarrow> heap" where
  "set_prev h a p = h(a := (h a)\<lparr>prev := p\<rparr>)"

definition set_next :: "heap \<Rightarrow> addr \<Rightarrow> addr \<Rightarrow> heap" where
  "set_next h a n = h(a := (h a)\<lparr>nxt := n\<rparr>)"

definition set_ptrs :: "heap \<Rightarrow> addr \<Rightarrow> addr option \<Rightarrow> addr option \<Rightarrow> heap" where
  "set_ptrs h this p n =
     (let h1 = (case p of None \<Rightarrow> h | Some p \<Rightarrow> set_next (set_prev h this p) p this)
      in (case n of None \<Rightarrow> h1 | Some n \<Rightarrow> set_prev (set_next h1 this n) n this))"

definition set_circular :: "heap \<Rightarrow> addr \<Rightarrow> heap" where
  "set_circular h this = set_ptrs h this (Some this) None"

definition linked :: "heap \<Rightarrow> addr \<Rightarrow> bool option" where
  "linked h a =
     (if (prev (h a) = null) = (nxt (h a) = null) then Some (prev (h a) \<noteq> null) else None)"

definition unlink_unchecked :: "heap \<Rightarrow> addr \<Rightarrow> heap option" where
  "unlink_unchecked h a =
     (if linked h a = Some True then
        (let p = prev (h a); n = nxt (h a);
             h1 = set_next (set_prev h a null) a null
         in Some (set_prev (set_next h1 p n) n p))
      else None)"

text \<open>\<open>unlink\<close> asserts that the node is linked: a panic, not undefined behaviour.\<close>

definition unlink :: "heap \<Rightarrow> addr \<Rightarrow> (unit, heap) outcome option" where
  "unlink h a =
     (case linked h a of
        None \<Rightarrow> None
      | Some False \<Rightarrow> Some Panic
      | Some True \<Rightarrow> map_option Ok (unlink_unchecked h a))"

section \<open>Lists\<close>

definition list_pin :: "heap \<Rightarrow> addr \<Rightarrow> heap" where
  "list_pin h base = set_circular h base"

definition head :: "heap \<Rightarrow> addr \<Rightarrow> addr option" where
  "head h base = (let a = nxt (h base) in if linked h a = Some True then Some a else None)"

text \<open>The source reads \<open>base.next\<close> here as well.\<close>

definition tail :: "heap \<Rightarrow> addr \<Rightarrow> addr option" where
  "tail h base = (let a = nxt (h base) in if linked h a = Some True then Some a else None)"

definition is_empty :: "heap \<Rightarrow> addr \<Rightarrow> bool option" where
  "is_empty h base = map_option (\<lambda>a. base = a) (head h base)"

definition append_node :: "heap \<Rightarrow> addr \<Rightarrow> addr \<Rightarrow> heap" where
  "append_node h base a = set_ptrs h a (Some (prev (h base))) (Some base)"

definition remove_node :: "heap \<Rightarrow> addr \<Rightarrow> heap option" where
  "remove_node h a = unlink_unchecked h a"

definition pop_edge :: "heap \<Rightarrow> addr \<Rightarrow> addr \<Rightarrow> (addr option \<times> heap) option" where
  "pop_edge h base a =
     (case is_empty h base of
        None \<Rightarrow> None
      | Some True \<Rightarrow> Some (None, h)
      | Some False \<Rightarrow> map_option (Pair (Some a)) (remove_node h a))"

definition pop_front :: "heap \<Rightarrow> addr \<Rightarrow> (addr option \<times> heap) option" where
  "pop_front h base = (case head h base of None \<Rightarrow> None | Some a \<Rightarrow> pop_edge h base a)"

definition pop_back :: "heap \<Rightarrow> addr \<Rightarrow> (addr option \<times> heap) option" where
  "pop_back h base = (case tail h base of None \<Rightarrow> None | Some a \<Rightarrow> pop_edge h base a)"

definition move_elements :: "heap \<Rightarrow> addr \<Rightarrow> addr \<Rightarrow> heap option" where
  "move_elements h base other =
     (if is_empty h other = Some True then
        (case is_empty h base of
           None \<Rightarrow> None
         | Some True \<Rightarrow> Some h
         | Some False \<Rightarrow>
             (let p = prev (h base); n = nxt (h base)
              in Some (set_circular (set_ptrs h other (Some p) (Some n)) base)))
      else None)"

lemmas [xx_defs] = set_prev_def set_next_def set_ptrs_def set_circular_def linked_def
  unlink_unchecked_def list_pin_def head_def tail_def is_empty_def append_node_def
  remove_node_def pop_edge_def pop_front_def pop_back_def move_elements_def

section \<open>Reading a list off the heap\<close>

fun chain :: "heap \<Rightarrow> addr list \<Rightarrow> bool" where
  "chain h (a # b # as) = (nxt (h a) = b \<and> prev (h b) = a \<and> chain h (b # as))"
| "chain h _ = True"

definition list_at :: "heap \<Rightarrow> addr \<Rightarrow> addr list \<Rightarrow> bool" where
  "list_at h base as \<longleftrightarrow>
     distinct (base # as) \<and> null \<notin> set (base # as) \<and> chain h (base # as @ [base])"

lemma chain_join:
  assumes "as \<noteq> []" "bs \<noteq> []"
  shows "chain h (as @ bs) \<longleftrightarrow> chain h as \<and> chain h bs \<and>
    nxt (h (last as)) = hd bs \<and> prev (h (hd bs)) = last as"
  using assms(1)
proof (induction as rule: list_nonempty_induct)
  case (single a)
  obtain b bs' where "bs = b # bs'" using assms(2) by (cases bs) auto
  then show ?case by auto
next
  case (cons a as)
  then obtain b as' where "as = b # as'" by (cases as) auto
  with cons.IH show ?case by auto
qed

lemma chain_cong_next_prev:
  assumes "\<And>a. a \<in> set (butlast as) \<Longrightarrow> nxt (h' a) = nxt (h a)"
    and "\<And>a. a \<in> set (tl as) \<Longrightarrow> prev (h' a) = prev (h a)"
  shows "chain h' as = chain h as"
  using assms
proof (induction as rule: induct_list012)
  case (3 a b as)
  have "chain h' (b # as) = chain h (b # as)"
    by (rule "3.IH"(2)) (use "3.prems" in \<open>auto dest: list.set_sel(2)\<close>)
  with "3.prems" show ?case by auto
qed auto

lemma list_atD:
  assumes "list_at h base as"
  shows "distinct (base # as)" "base \<noteq> null" "null \<notin> set as" "chain h (base # as @ [base])"
  using assms by (auto simp: list_at_def)

lemma list_at_split:
  "list_at h base (us @ x # vs) \<longleftrightarrow>
     distinct (base # us @ x # vs) \<and> null \<notin> set (base # us @ x # vs) \<and>
     chain h (base # us) \<and> chain h (vs @ [base]) \<and>
     nxt (h (last (base # us))) = x \<and> prev (h x) = last (base # us) \<and>
     nxt (h x) = hd (vs @ [base]) \<and> prev (h (hd (vs @ [base]))) = x"
proof -
  have "chain h (base # (us @ x # vs) @ [base]) = chain h ((base # us) @ (x # (vs @ [base])))"
    by simp
  also have "\<dots> \<longleftrightarrow> chain h (base # us) \<and> chain h (x # (vs @ [base])) \<and>
      nxt (h (last (base # us))) = x \<and> prev (h x) = last (base # us)"
    by (subst chain_join) auto
  also have "chain h (x # (vs @ [base])) \<longleftrightarrow> chain h (vs @ [base]) \<and>
      nxt (h x) = hd (vs @ [base]) \<and> prev (h (hd (vs @ [base]))) = x"
    using chain_join[of "[x]" "vs @ [base]" h] by auto
  finally show ?thesis unfolding list_at_def by auto
qed

lemma list_at_bind:
  "list_at h base as \<longleftrightarrow>
     distinct (base # as) \<and> null \<notin> set (base # as) \<and> chain h (base # as) \<and>
     nxt (h (last (base # as))) = base \<and> prev (h base) = last (base # as)"
  unfolding list_at_def using chain_join[of "base # as" "[base]" h] by auto

lemma list_at_head: "list_at h base as \<Longrightarrow> nxt (h base) = hd (as @ [base])"
  by (cases as) (auto simp: list_at_def)

lemma list_at_neighbours:
  assumes "list_at h base as" "a \<in> set (base # as)"
  shows "prev (h a) \<in> set (base # as)" "nxt (h a) \<in> set (base # as)"
proof -
  have "prev (h a) \<in> set (base # as) \<and> nxt (h a) \<in> set (base # as)"
  proof (cases "a = base")
    case True
    have "prev (h base) = last (base # as)" "nxt (h base) = hd (as @ [base])"
      using assms(1) list_at_head by (blast dest: list_at_bind[THEN iffD1])+
    moreover have "hd (as @ [base]) \<in> set (base # as)" by (cases as) simp_all
    moreover have "last (base # as) \<in> set (base # as)" by (rule last_in_set) simp
    ultimately show ?thesis by (simp only: True)
  next
    case False
    with assms(2) obtain us vs where as: "as = us @ a # vs" by (auto dest: split_list)
    have "prev (h a) = last (base # us)" "nxt (h a) = hd (vs @ [base])"
      using assms(1) unfolding as list_at_split by blast+
    moreover have "last (base # us) \<in> set (base # as)"
      using last_in_set[of "base # us"] unfolding as by auto
    moreover have "hd (vs @ [base]) \<in> set (base # as)" unfolding as by (cases vs) simp_all
    ultimately show ?thesis by simp
  qed
  then show "prev (h a) \<in> set (base # as)" "nxt (h a) \<in> set (base # as)" by auto
qed

lemma list_at_linked: "list_at h base as \<Longrightarrow> a \<in> set (base # as) \<Longrightarrow> linked h a = Some True"
  using list_at_neighbours[of h base as a]
  by (auto simp: linked_def list_at_def)

lemma chain_unique:
  "chain h (x # as @ [b]) \<Longrightarrow> chain h (x # bs @ [b]) \<Longrightarrow> b \<notin> set as \<Longrightarrow> b \<notin> set bs \<Longrightarrow> as = bs"
proof (induction as arbitrary: x bs)
  case Nil
  then show ?case by (cases bs) auto
next
  case (Cons a as)
  then show ?case by (cases bs) auto
qed

lemma list_at_unique: "list_at h base as \<Longrightarrow> list_at h base bs \<Longrightarrow> as = bs"
  using chain_unique[of h base as base bs] by (auto simp: list_at_def)

section \<open>Operations on the list read off the heap\<close>

lemma chain_update_other:
  "a \<notin> set as \<Longrightarrow> chain (h(a := n)) as = chain h as"
  by (rule chain_cong_next_prev) (auto dest: in_set_butlastD in_set_tlD)

lemma chain_set_next_last:
  "distinct as \<Longrightarrow> a \<notin> set (butlast as) \<Longrightarrow> chain (set_next h a n) as = chain h as"
  by (rule chain_cong_next_prev) (auto simp: set_next_def)

lemma chain_set_prev_first:
  "a \<notin> set (tl as) \<Longrightarrow> chain (set_prev h a p) as = chain h as"
  by (rule chain_cong_next_prev) (auto simp: set_prev_def)

lemma list_at_pin: "base \<noteq> null \<Longrightarrow> list_at (list_pin h base) base []"
  by (auto simp: list_at_def xx_defs)

lemma list_at_cong:
  assumes "list_at h base as" "\<And>a. a \<in> set (base # as) \<Longrightarrow> h' a = h a"
  shows "list_at h' base as"
  using assms chain_cong_next_prev[of "base # as @ [base]" h' h]
  by (auto simp: list_at_def dest: in_set_butlastD)

lemma is_empty_list_at: "list_at h base as \<Longrightarrow> is_empty h base = Some (as = [])"
proof -
  assume l: "list_at h base as"
  have "hd (as @ [base]) \<in> set (base # as)" by (cases as) simp_all
  then have "linked h (nxt (h base)) = Some True"
    using list_at_linked[OF l] list_at_head[OF l] by simp
  moreover have "hd (as @ [base]) = base \<longleftrightarrow> as = []"
    using l by (cases as) (auto simp: list_at_def)
  ultimately show ?thesis
    using list_at_head[OF l] by (auto simp: is_empty_def head_def Let_def)
qed

lemma head_list_at: "list_at h base as \<Longrightarrow> head h base = Some (hd (as @ [base]))"
proof -
  assume l: "list_at h base as"
  have "hd (as @ [base]) \<in> set (base # as)" by (cases as) simp_all
  then show ?thesis
    using list_at_linked[OF l] list_at_head[OF l] by (simp add: head_def Let_def)
qed

lemma append_list_at:
  assumes l: "list_at h base as" and a: "a \<notin> set (base # as)" "a \<noteq> null"
  shows "list_at (append_node h base a) base (as @ [a])"
proof -
  let ?p = "prev (h base)"
  have p: "?p = last (base # as)" and d: "distinct (base # as)" and n: "null \<notin> set (base # as)"
    and c: "chain h (base # as)" using l unfolding list_at_bind by blast+
  have pin: "?p \<in> set (base # as)" unfolding p by (rule last_in_set) simp
  have pa: "?p \<noteq> a" using pin a by metis
  let ?h = "append_node h base a"
  have h': "?h = (\<lambda>x. \<lparr>prev = (if x = a then ?p else if x = base then a else prev (h x)),
      nxt = (if x = ?p then a else if x = a then base else nxt (h x))\<rparr>)"
    using a pa by (auto simp: append_node_def set_ptrs_def set_prev_def set_next_def Let_def fun_eq_iff)
  have "chain ?h (base # as) = chain h (base # as)"
  proof (rule chain_cong_next_prev)
    fix x assume "x \<in> set (butlast (base # as))"
    moreover have "?p \<notin> set (butlast (base # as))"
      unfolding p using d by (rule last_notin_butlast) simp
    moreover have "x \<noteq> a" using calculation(1) a(1) in_set_butlastD by fast
    ultimately show "nxt (?h x) = nxt (h x)" by (auto simp: h')
  next
    fix x assume "x \<in> set (tl (base # as))"
    then show "prev (?h x) = prev (h x)" using a d by (auto simp: h')
  qed
  with c have "chain ?h (base # as)" by simp
  moreover have "last (base # as) = ?p" using p by simp
  ultimately show ?thesis
    unfolding list_at_split[where vs = "[]", simplified] using d n a pa pin
    by (auto simp: h')
qed

lemma unlink_list_at:
  assumes l: "list_at h base (us @ x # vs)"
  obtains h' where "unlink_unchecked h x = Some h'" "list_at h' base (us @ vs)"
    "prev (h' x) = null" "nxt (h' x) = null"
    "\<And>a. a \<notin> set (base # us @ x # vs) \<Longrightarrow> h' a = h a"
proof -
  let ?p = "last (base # us)" and ?n = "hd (vs @ [base])"
  let ?h = "\<lambda>a. \<lparr>prev = (if a = x then null else if a = ?n then ?p else prev (h a)),
      nxt = (if a = x then null else if a = ?p then ?n else nxt (h a))\<rparr>"
  have d: "distinct (base # us @ x # vs)" and n: "null \<notin> set (base # us @ x # vs)"
    and c1: "chain h (base # us)" and c2: "chain h (vs @ [base])"
    and px: "prev (h x) = ?p" and nx: "nxt (h x) = ?n"
    using l unfolding list_at_split by blast+
  have pin: "?p \<in> set (base # us)" by (rule last_in_set) simp
  have nin: "?n \<in> set (vs @ [base])" by (rule hd_in_set) simp
  have px_ne: "?p \<noteq> x" "?n \<noteq> x" using pin nin d by (auto simp del: last.simps)
  have "linked h x = Some True" using list_at_linked[OF l] by simp
  then have "unlink_unchecked h x =
      Some (set_prev (set_next (set_next (set_prev h x null) x null) ?p ?n) ?n ?p)"
    by (simp add: unlink_unchecked_def Let_def px nx del: last.simps)
  also have "set_prev (set_next (set_next (set_prev h x null) x null) ?p ?n) ?n ?p = ?h"
  proof
    fix a
    show "set_prev (set_next (set_next (set_prev h x null) x null) ?p ?n) ?n ?p a = ?h a"
      using px_ne by (cases "a = x"; cases "a = ?n"; cases "a = ?p")
        (simp_all add: set_prev_def set_next_def del: last.simps)
  qed
  finally have un: "unlink_unchecked h x = Some ?h" .
  have pb: "?p \<notin> set (butlast (base # us))"
    by (rule last_notin_butlast) (use d in auto)
  have nt: "?n \<notin> set (tl (vs @ [base]))" using d by (cases vs) auto
  have "chain ?h (base # us) = chain h (base # us)"
    by (rule chain_cong_next_prev) (use d nin pb in \<open>auto dest: in_set_butlastD simp del: last.simps butlast.simps\<close>)
  moreover have "chain ?h (vs @ [base]) = chain h (vs @ [base])"
  proof (rule chain_cong_next_prev)
    fix a assume "a \<in> set (tl (vs @ [base]))"
    then have "a \<in> set (vs @ [base])" "a \<noteq> ?n" using nt by (auto dest: in_set_tlD)
    then show "prev (?h a) = prev (h a)" using d by auto
  qed (use d pin in \<open>auto simp del: last.simps\<close>)
  ultimately have "chain ?h ((base # us) @ (vs @ [base]))"
    using c1 c2 px_ne by (subst chain_join) (auto simp del: last.simps)
  then have "list_at ?h base (us @ vs)" using d n by (auto simp: list_at_def)
  moreover have "?h a = h a" if "a \<notin> set (base # us @ x # vs)" for a
    using that pin nin by (auto simp del: last.simps)
  ultimately show thesis using that[of ?h] un by auto
qed

lemma pop_front_list_at:
  assumes l: "list_at h base as"
  shows "as = [] \<Longrightarrow> pop_front h base = Some (None, h)"
    and "as = x # vs \<Longrightarrow> \<exists>h'. pop_front h base = Some (Some x, h') \<and> list_at h' base vs \<and>
      linked h' x = Some False \<and> (\<forall>a. a \<notin> set (base # as) \<longrightarrow> h' a = h a)"
proof -
  assume "as = []"
  then show "pop_front h base = Some (None, h)"
    using head_list_at[OF l] is_empty_list_at[OF l] by (simp add: pop_front_def pop_edge_def)
next
  assume as: "as = x # vs"
  obtain h' where "unlink_unchecked h x = Some h'" "list_at h' base vs"
      "prev (h' x) = null" "nxt (h' x) = null" "\<And>a. a \<notin> set (base # x # vs) \<Longrightarrow> h' a = h a"
    using unlink_list_at[of h base "[]" x vs] l as by auto
  then show "\<exists>h'. pop_front h base = Some (Some x, h') \<and> list_at h' base vs \<and>
      linked h' x = Some False \<and> (\<forall>a. a \<notin> set (base # as) \<longrightarrow> h' a = h a)"
    using head_list_at[OF l] is_empty_list_at[OF l] as
    by (auto simp: pop_front_def pop_edge_def remove_node_def linked_def)
qed

lemma pop_back_is_pop_front: "pop_back h base = pop_front h base"
  by (simp add: pop_back_def pop_front_def tail_def head_def)

lemma move_elements_list_at:
  assumes l: "list_at h base as" and o: "list_at h other []" and ne: "other \<notin> set (base # as)"
  obtains h' where "move_elements h base other = Some h'" "list_at h' base []" "list_at h' other as"
    "\<And>a. a \<notin> set (base # other # as) \<Longrightarrow> h' a = h a"
proof (cases as)
  case Nil
  then have "move_elements h base other = Some h"
    using is_empty_list_at[OF l] is_empty_list_at[OF o] by (simp add: move_elements_def)
  with Nil l o show thesis using that by blast
next
  case (Cons x xs)
  let ?p = "last as" and ?n = "hd as"
  let ?h1 = "set_ptrs h other (Some ?p) (Some ?n)"
  let ?h2 = "set_circular ?h1 base"
  have d: "distinct (base # as)" and n: "null \<notin> set (base # as)" and c: "chain h (base # as)"
    and pb: "prev (h base) = last (base # as)" using l unfolding list_at_bind by blast+
  have pb': "prev (h base) = ?p" using pb Cons by simp
  have nb: "nxt (h base) = ?n" using list_at_head[OF l] Cons by simp
  have on: "other \<noteq> null" using o by (simp add: list_at_def)
  have m: "move_elements h base other = Some ?h2"
    using is_empty_list_at[OF l] is_empty_list_at[OF o] Cons
    by (simp add: move_elements_def pb' nb del: last.simps)
  have pin: "?p \<in> set as" and nin: "?n \<in> set as" using Cons by auto
  have h2: "?h2 a = \<lparr>prev = (if a = base then base else if a = other then ?p
        else if a = ?n then other else prev (h a)),
      nxt = (if a = base then base else if a = other then ?n
        else if a = ?p then other else nxt (h a))\<rparr>" for a
  proof -
    have "?p \<noteq> base" "?n \<noteq> base" "?p \<noteq> other" "?n \<noteq> other" "base \<noteq> other"
      using pin nin d ne by auto
    then show ?thesis
      by (cases "a = base"; cases "a = other"; cases "a = ?n"; cases "a = ?p")
        (simp_all add: set_circular_def set_ptrs_def set_prev_def set_next_def)
  qed
  have "chain ?h2 as = chain h as"
  proof (rule chain_cong_next_prev)
    fix a assume a: "a \<in> set (butlast as)"
    moreover have "?p \<notin> set (butlast as)"
      by (rule last_notin_butlast) (use d Cons in auto)
    ultimately have "a \<noteq> ?p" "a \<noteq> base" "a \<noteq> other"
      using d ne by (auto dest: in_set_butlastD)
    then show "nxt (?h2 a) = nxt (h a)" by (simp add: h2)
  next
    fix a assume a: "a \<in> set (tl as)"
    then have "a \<noteq> ?n" "a \<noteq> base" "a \<noteq> other" using d ne Cons by auto
    then show "prev (?h2 a) = prev (h a)" by (simp add: h2)
  qed
  moreover have "chain h as" using c Cons by simp
  ultimately have ca: "chain ?h2 as" by simp
  have "other \<noteq> base" "?p \<noteq> base" "?n \<noteq> base" "other \<noteq> ?p" "other \<noteq> ?n"
    using ne d pin nin by auto
  then have lk: "nxt (?h2 other) = ?n" "prev (?h2 ?n) = other" "nxt (?h2 ?p) = other"
      "prev (?h2 other) = ?p" unfolding h2 by simp_all
  have "chain ?h2 (other # as)" using ca lk(1,2) Cons by simp
  moreover have "last (other # as) = ?p" using Cons by simp
  ultimately have "list_at ?h2 other as"
    unfolding list_at_bind using d n ne on lk(3,4) by simp
  moreover have "list_at ?h2 base []" using n by (simp add: list_at_def h2)
  moreover have "?h2 a = h a" if "a \<notin> set (base # other # as)" for a
    using that pin nin by (auto simp: h2)
  ultimately show thesis using that m by blast
qed

section \<open>The list provides the queue contract\<close>

definition free_node :: "heap \<Rightarrow> addr \<Rightarrow> bool" where
  "free_node h a \<longleftrightarrow> a \<noteq> null \<and> linked h a = Some False"

lemma free_node_new: "a \<noteq> null \<Longrightarrow> free_node (h(a := node_new)) a"
  by (simp add: free_node_def linked_def node_new_def)

lemma linked_cong: "h' a = h a \<Longrightarrow> linked h' a = linked h a"
  by (simp add: linked_def)

lemma unlink_frees:
  assumes l: "list_at h base (us @ x # vs)"
  shows "\<exists>h'. unlink_unchecked h x = Some h' \<and> list_at h' base (us @ vs) \<and> free_node h' x \<and>
    (\<forall>b. free_node h b \<longrightarrow> free_node h' b)"
proof -
  obtain h' where h': "unlink_unchecked h x = Some h'" "list_at h' base (us @ vs)"
      "prev (h' x) = null" "nxt (h' x) = null"
      "\<And>a. a \<notin> set (base # us @ x # vs) \<Longrightarrow> h' a = h a"
    by (rule unlink_list_at[OF l]) blast
  have "x \<noteq> null" using l by (auto simp: list_at_def)
  moreover have "free_node h' b" if b: "free_node h b" for b
  proof -
    have "b \<notin> set (base # us @ x # vs)"
      using b list_at_linked[OF l, of b] by (auto simp: free_node_def)
    with b h'(5)[of b] linked_cong[of h' b h] show ?thesis by (simp add: free_node_def)
  qed
  ultimately show ?thesis using h' by (auto simp: free_node_def linked_def)
qed

interpretation ll: node_queue list_at free_node append_node pop_front unlink_unchecked
proof
  fix h base as a
  assume l: "list_at h base as"
  show "distinct as" using l by (simp add: list_at_def)
  show "a \<in> set as \<Longrightarrow> \<not> free_node h a"
    using list_at_linked[OF l, of a] by (auto simp: free_node_def)
  assume "free_node h a"
  then show "list_at (append_node h base a) base (as @ [a])"
    using append_list_at[OF l, of a] list_at_linked[OF l, of a] by (auto simp: free_node_def)
next
  fix h base assume "list_at h base []"
  then show "pop_front h base = Some (None, h)" by (rule pop_front_list_at(1)) simp
next
  fix h base a as assume l: "list_at h base (a # as)"
  obtain h' where "unlink_unchecked h a = Some h'" "list_at h' base as" "free_node h' a"
      "\<forall>b. free_node h b \<longrightarrow> free_node h' b"
    using unlink_frees[of h base "[]" a as] l by auto
  moreover have "pop_front h base = map_option (Pair (Some a)) (unlink_unchecked h a)"
    using head_list_at[OF l] is_empty_list_at[OF l]
    by (simp add: pop_front_def pop_edge_def remove_node_def)
  ultimately show "\<exists>h'. pop_front h base = Some (Some a, h') \<and> list_at h' base as \<and>
      free_node h' a \<and> (\<forall>b. free_node h b \<longrightarrow> free_node h' b)" by auto
next
  fix h base as a bs assume "list_at h base (as @ a # bs)"
  then show "\<exists>h'. unlink_unchecked h a = Some h' \<and> list_at h' base (as @ bs) \<and> free_node h' a \<and>
      (\<forall>b. free_node h b \<longrightarrow> free_node h' b)" by (rule unlink_frees)
qed

section \<open>Properties\<close>

definition two_nodes :: heap where
  "two_nodes = append_node (append_node (list_pin (\<lambda>_. node_new) 1) 1 2) 1 3"

lemma two_nodes_at: "list_at two_nodes 1 [2, 3]"
proof -
  have 0: "list_at (list_pin (\<lambda>_. node_new) 1) 1 []" by (simp add: list_at_pin null_def)
  have "free_node (list_pin (\<lambda>_. node_new) 1) 2" by (simp add: free_node_def linked_def null_def node_new_def
    list_pin_def set_circular_def set_ptrs_def set_prev_def set_next_def)
  from ll.push_at[OF 0 this] have 1: "list_at (append_node (list_pin (\<lambda>_. node_new) 1) 1 2) 1 [2]" by simp
  have "free_node (append_node (list_pin (\<lambda>_. node_new) 1) 1 2) 3"
    by (simp add: free_node_def linked_def null_def node_new_def append_node_def
      list_pin_def set_circular_def set_ptrs_def set_prev_def set_next_def Let_def)
  from ll.push_at[OF 1 this] show ?thesis by (simp add: two_nodes_def)
qed

text \<open>Pop_back removes and returns the first node of the list, not the last one, because tail reads
  the base node's next pointer.\<close>

theorem pop_back_takes_the_front:
  assumes "list_at h base (x # xs)"
  shows "\<exists>h'. pop_back h base = Some (Some x, h') \<and> list_at h' base xs"
  using pop_front_list_at(2)[OF assms refl] by (auto simp: pop_back_is_pop_front)

theorem pop_back_takes_the_front_witness:
  "\<exists>h'. pop_back two_nodes 1 = Some (Some 2, h') \<and> list_at h' 1 [3]"
  using pop_back_takes_the_front[OF two_nodes_at] .

text \<open>C33: Nodes leave an intrusive list in the order they were appended, whichever of them unlinked
  itself in between: after unlinking any member and appending a free node, popping until the list is
  empty returns the other members in order and then the new node.\<close>

theorem list_is_fifo_with_unlink:
  assumes "list_at h base as" "x \<in> set as" "free_node h y" "length as < k"
  shows "\<exists>h1 h2. unlink_unchecked h x = Some h1 \<and>
    pop_all (\<lambda>h. pop_front h base) k (append_node h1 base y) = Some (remove1 x as @ [y], h2) \<and>
    list_at h2 base []"
proof -
  obtain h1 where h1: "unlink_unchecked h x = Some h1" "list_at h1 base (remove1 x as)" "free_node h1 y"
    using ll.erase_in[OF assms(1,2)] assms(3) by blast
  have "length (remove1 x as) + 1 < k" using assms(2,4) by (simp add: length_remove1)
      (metis One_nat_def Suc_pred length_pos_if_in_set)
  from ll.push_pop_all[OF h1(2,3) this] h1(1) show ?thesis by blast
qed

theorem list_is_fifo_with_unlink_witness:
  "\<exists>h1 h2. unlink_unchecked two_nodes 2 = Some h1 \<and>
    pop_all (\<lambda>h. pop_front h 1) 3 (append_node h1 1 4) = Some ([3, 4], h2) \<and> list_at h2 1 []"
proof -
  have "free_node two_nodes 4"
    by (simp add: two_nodes_def free_node_def linked_def null_def node_new_def append_node_def
      list_pin_def set_circular_def set_ptrs_def set_prev_def set_next_def Let_def)
  from list_is_fifo_with_unlink[OF two_nodes_at _ this, of 2 3] show ?thesis by simp
qed

end
