(* ===== verification/Wait_List.thy ===== *)
theory Wait_List
  imports Linked_List "HOL-Library.Multiset"
begin

text \<open>
  The wait lists of \<open>src/src/async_std/sync/wait_list.rs\<close>. \<open>RawWaitList\<close> is used by one thread; the
  operations of \<open>ThreadSafeWaitList\<close> hold its spin lock, so each critical section is one step here.
  A waiter is a node of the intrusive list with a request; completing a request calls back the
  suspended task, which is recorded in \<open>wl_done\<close>. A payload is \<open>None\<close> where the source delivers the
  panic of \<open>value.clone()\<close> (\<open>MaybePanic\<close>); \<open>clone\<close> is the payload type's own code, a parameter.
\<close>

datatype wait_error = Cancelled | Closed

type_synonym request = nat
type_synonym 't maybe_panic = "'t option"
type_synonym 't wait_result = "wait_error + 't maybe_panic"

section \<open>State\<close>

record 't waitlist =
  wl_heap :: heap
  wl_base :: addr
  wl_request :: "addr \<Rightarrow> request"
  wl_count :: usize
  wl_closed :: bool
  wl_done :: "(request \<times> 't wait_result) list"

text \<open>\<open>new\<close> followed by the \<open>pin\<close> it asks for; \<open>base\<close> is where the list's base node lives.\<close>

definition raw_new :: "addr \<Rightarrow> 't waitlist" where
  "raw_new base = \<lparr>wl_heap = list_pin (\<lambda>_. node_new) base, wl_base = base,
     wl_request = (\<lambda>_. 0), wl_count = 0, wl_closed = False, wl_done = []\<rparr>"

section \<open>RawWaitList\<close>

text \<open>The result of running a future: \<open>Done\<close> at once, or \<open>Pending\<close> until the request completes.\<close>

datatype 'o progress = Done 'o | Pending

definition complete_node :: "'t waitlist \<Rightarrow> addr \<Rightarrow> 't wait_result \<Rightarrow> 't waitlist" where
  "complete_node w a v = w\<lparr>wl_done := wl_done w @ [(wl_request w a, v)]\<rparr>"

definition raw_suspend :: "'t waitlist \<Rightarrow> addr \<Rightarrow> request \<Rightarrow> 't waitlist" where
  "raw_suspend w a r =
     w\<lparr>wl_request := (wl_request w)(a := r), wl_heap := append_node (wl_heap w) (wl_base w) a\<rparr>"

definition raw_cancel :: "'t waitlist \<Rightarrow> addr \<Rightarrow> 't waitlist option" where
  "raw_cancel w a =
     (case unlink_unchecked (wl_heap w) a of
        None \<Rightarrow> None
      | Some h \<Rightarrow> Some (complete_node (w\<lparr>wl_heap := h\<rparr>) a (Inl Cancelled)))"

text \<open>
  \<open>wait\<close> up to the point where the task suspends, and what runs when it is resumed with a result.
  The waiter is built at address \<open>a\<close>, a fresh place on the task's stack.
\<close>

definition raw_wait :: "bool \<Rightarrow> 't waitlist \<Rightarrow> addr \<Rightarrow> request \<Rightarrow> 't wait_result progress \<times> 't waitlist" where
  "raw_wait interrupted w a r =
     (if wl_closed w then (Done (Inl Closed), w)
      else if interrupted then (Done (Inl Cancelled), w)
      else (let w1 = w\<lparr>wl_count := wl_count w + 1, wl_heap := (wl_heap w)(a := node_new)\<rparr>
            in (Pending, raw_suspend w1 a r)))"

definition raw_wait_return :: "'t waitlist \<Rightarrow> 't waitlist" where
  "raw_wait_return w = w\<lparr>wl_count := wl_count w - 1\<rparr>"

definition raw_wake_one :: "'t waitlist \<Rightarrow> 't \<Rightarrow> (bool \<times> 't waitlist) option" where
  "raw_wake_one w v =
     (case pop_front (wl_heap w) (wl_base w) of
        None \<Rightarrow> None
      | Some (None, h) \<Rightarrow> Some (False, w\<lparr>wl_heap := h\<rparr>)
      | Some (Some a, h) \<Rightarrow> Some (True, complete_node (w\<lparr>wl_heap := h\<rparr>) a (Inr (Some v))))"

text \<open>
  The loop of \<open>wake_all\<close> over the list at \<open>base\<close>: the last waiter gets the value itself, every other
  one a clone. One unit of fuel per waiter, and one for the pop that finds the list empty.
\<close>

fun wake_loop :: "('t \<Rightarrow> 't maybe_panic) \<Rightarrow> 't \<Rightarrow> nat \<Rightarrow> addr \<Rightarrow> 't waitlist \<Rightarrow> 't waitlist option" where
  "wake_loop clone v 0 base w = None"
| "wake_loop clone v (Suc k) base w =
     (case pop_front (wl_heap w) base of
        None \<Rightarrow> None
      | Some (None, h) \<Rightarrow> Some (w\<lparr>wl_heap := h\<rparr>)
      | Some (Some a, h) \<Rightarrow>
          (case is_empty h base of
             None \<Rightarrow> None
           | Some True \<Rightarrow> Some (complete_node (w\<lparr>wl_heap := h\<rparr>) a (Inr (Some v)))
           | Some False \<Rightarrow>
               wake_loop clone v k base (complete_node (w\<lparr>wl_heap := h\<rparr>) a (Inr (clone v)))))"

text \<open>\<open>tmp\<close> is the address of the local list the waiters are moved to.\<close>

definition raw_wake_all ::
  "('t \<Rightarrow> 't maybe_panic) \<Rightarrow> nat \<Rightarrow> addr \<Rightarrow> 't waitlist \<Rightarrow> 't \<Rightarrow> (usize \<times> 't waitlist) option" where
  "raw_wake_all clone k tmp w v =
     (case move_elements (list_pin ((wl_heap w)(tmp := node_new)) tmp) (wl_base w) tmp of
        None \<Rightarrow> None
      | Some h \<Rightarrow> map_option (Pair (wl_count w)) (wake_loop clone v k tmp (w\<lparr>wl_heap := h\<rparr>)))"

definition raw_close ::
  "('t \<Rightarrow> 't maybe_panic) \<Rightarrow> nat \<Rightarrow> addr \<Rightarrow> 't waitlist \<Rightarrow> 't \<Rightarrow> (usize \<times> 't waitlist) option" where
  "raw_close clone k tmp w v = raw_wake_all clone k tmp (w\<lparr>wl_closed := True\<rparr>) v"

section \<open>What the operations do to the queue of waiters\<close>

definition waiting :: "'t waitlist \<Rightarrow> addr list \<Rightarrow> bool" where
  "waiting w as \<longleftrightarrow> list_at (wl_heap w) (wl_base w) as"

text \<open>The completions of a \<open>wake_all\<close>: clones for all but the last waiter.\<close>

fun broadcast_results :: "('t \<Rightarrow> 't maybe_panic) \<Rightarrow> 't \<Rightarrow> request list \<Rightarrow> (request \<times> 't wait_result) list" where
  "broadcast_results clone v [] = []"
| "broadcast_results clone v [r] = [(r, Inr (Some v))]"
| "broadcast_results clone v (r # rs) = (r, Inr (clone v)) # broadcast_results clone v rs"

lemma map_fst_broadcast [simp]: "map fst (broadcast_results clone v rs) = rs"
  by (induction clone v rs rule: broadcast_results.induct) auto

lemma complete_node_simps [simp]:
  "wl_heap (complete_node w a v) = wl_heap w" "wl_base (complete_node w a v) = wl_base w"
  "wl_request (complete_node w a v) = wl_request w" "wl_count (complete_node w a v) = wl_count w"
  "wl_closed (complete_node w a v) = wl_closed w"
  "wl_done (complete_node w a v) = wl_done w @ [(wl_request w a, v)]"
  by (simp_all add: complete_node_def)

lemma waiting_new: "base \<noteq> null \<Longrightarrow> waiting (raw_new base) []"
  by (simp add: waiting_def raw_new_def list_at_pin)

lemma waiting_wait:
  assumes "waiting w as" "a \<notin> set (wl_base w # as)" "a \<noteq> null"
    and "raw_wait interrupted w a r = (Pending, w')"
  shows "waiting w' (as @ [a])" "wl_request w' a = r" "wl_done w' = wl_done w"
    "wl_base w' = wl_base w"
    "\<And>b. b \<noteq> a \<Longrightarrow> wl_request w' b = wl_request w b"
proof -
  let ?h = "(wl_heap w)(a := node_new)"
  have "list_at ?h (wl_base w) as"
    by (rule list_at_cong[of "wl_heap w"]) (use assms in \<open>auto simp: waiting_def\<close>)
  then have "list_at (append_node ?h (wl_base w) a) (wl_base w) (as @ [a])"
    using assms(3) free_node_new by (blast intro: ll.push_at)
  then show "waiting w' (as @ [a])" "wl_request w' a = r" "wl_done w' = wl_done w"
    "wl_base w' = wl_base w" "\<And>b. b \<noteq> a \<Longrightarrow> wl_request w' b = wl_request w b"
    using assms(4) by (auto simp: raw_wait_def raw_suspend_def waiting_def split: if_splits)
qed

lemma waiting_cancel:
  assumes "waiting w as" "a \<in> set as"
  shows "\<exists>w'. raw_cancel w a = Some w' \<and> waiting w' (remove1 a as) \<and>
    wl_done w' = wl_done w @ [(wl_request w a, Inl Cancelled)] \<and>
    wl_request w' = wl_request w \<and> wl_base w' = wl_base w"
  using ll.erase_in[of "wl_heap w" "wl_base w" as a] assms
  by (auto simp: waiting_def raw_cancel_def)

lemma waiting_wake_one:
  assumes "waiting w as"
  shows "\<exists>w'. raw_wake_one w v = Some (as \<noteq> [], w') \<and> waiting w' (tl as) \<and>
    wl_done w' = wl_done w @ (case as of [] \<Rightarrow> [] | a # _ \<Rightarrow> [(wl_request w a, Inr (Some v))]) \<and>
    wl_request w' = wl_request w \<and> wl_base w' = wl_base w \<and> wl_closed w' = wl_closed w"
proof (cases as)
  case Nil
  with assms show ?thesis using ll.pop_empty[of "wl_heap w" "wl_base w"]
    by (simp add: waiting_def raw_wake_one_def)
next
  case (Cons a bs)
  with assms show ?thesis using ll.pop_at[of "wl_heap w" "wl_base w" a bs]
    by (auto simp: waiting_def raw_wake_one_def)
qed

lemma wake_loop_at:
  assumes "list_at (wl_heap w) base as" "length as < k"
  shows "\<exists>h. wake_loop clone v k base w =
      Some (w\<lparr>wl_heap := h, wl_done := wl_done w @ broadcast_results clone v (map (wl_request w) as)\<rparr>) \<and>
    list_at h base [] \<and> (\<forall>a. a \<notin> set (base # as) \<longrightarrow> h a = wl_heap w a)"
  using assms
proof (induction as arbitrary: w k)
  case Nil
  then obtain k' where "k = Suc k'" by (cases k) auto
  with Nil ll.pop_empty[OF Nil.prems(1)] show ?case by (auto intro!: exI[of _ "wl_heap w"])
next
  case (Cons a as)
  then obtain k' where k: "k = Suc k'" "length as < k'" by (cases k) auto
  obtain h1 where h1: "pop_front (wl_heap w) base = Some (Some a, h1)" "list_at h1 base as"
      "\<And>b. b \<notin> set (base # a # as) \<Longrightarrow> h1 b = wl_heap w b"
    using pop_front_list_at(2)[OF Cons.prems(1) refl] by auto
  have e: "is_empty h1 base = Some (as = [])" by (rule is_empty_list_at[OF h1(2)])
  show ?case
  proof (cases as)
    case Nil
    then show ?thesis using k h1 e by (auto simp: complete_node_def)
  next
    case (Cons b bs)
    let ?w1 = "complete_node (w\<lparr>wl_heap := h1\<rparr>) a (Inr (clone v))"
    obtain h where h: "wake_loop clone v k' base ?w1 =
        Some (?w1\<lparr>wl_heap := h,
          wl_done := wl_done ?w1 @ broadcast_results clone v (map (wl_request ?w1) as)\<rparr>)"
        "list_at h base []" "\<And>c. c \<notin> set (base # as) \<Longrightarrow> h c = h1 c"
      using Cons.IH[of ?w1 k'] h1(2) k(2) by auto
    then show ?thesis using k h1 e Cons by (auto simp: complete_node_def)
  qed
qed

lemma waiting_wake_all:
  assumes "waiting w as" "tmp \<notin> set (wl_base w # as)" "tmp \<noteq> null" "length as < k"
  shows "\<exists>w'. raw_wake_all clone k tmp w v = Some (wl_count w, w') \<and> waiting w' [] \<and>
    wl_done w' = wl_done w @ broadcast_results clone v (map (wl_request w) as) \<and>
    wl_request w' = wl_request w \<and> wl_base w' = wl_base w \<and> wl_closed w' = wl_closed w"
proof -
  let ?h = "list_pin ((wl_heap w)(tmp := node_new)) tmp"
  have "list_at ?h (wl_base w) as"
    by (rule list_at_cong[of "wl_heap w"])
      (use assms(1,2) in \<open>auto simp: waiting_def list_pin_def set_circular_def set_ptrs_def
        set_prev_def set_next_def\<close>)
  moreover have "list_at ?h tmp []" using assms(3) by (rule list_at_pin)
  ultimately obtain h' where h': "move_elements ?h (wl_base w) tmp = Some h'"
      "list_at h' (wl_base w) []" "list_at h' tmp as"
    using move_elements_list_at assms(2) by blast
  obtain h where h: "wake_loop clone v k tmp (w\<lparr>wl_heap := h'\<rparr>) =
      Some (w\<lparr>wl_heap := h, wl_done := wl_done w @ broadcast_results clone v (map (wl_request w) as)\<rparr>)"
      "\<And>a. a \<notin> set (tmp # as) \<Longrightarrow> h a = h' a"
    using wake_loop_at[of "w\<lparr>wl_heap := h'\<rparr>" tmp as k clone v] h'(3) assms(4) by auto
  have "wl_base w \<notin> set (tmp # as)" using assms(1,2) by (auto simp: waiting_def list_at_def)
  then have "list_at h (wl_base w) []" using list_at_cong[OF h'(2)] h(2) by auto
  then show ?thesis using h'(1) h(1) by (auto simp: raw_wake_all_def waiting_def)
qed

section \<open>ThreadSafeWaitList\<close>

text \<open>
  The same list behind a spin lock, with an \<open>empty\<close> flag that lets a waker skip the lock. These
  definitions are the critical sections run alone; \<open>Wait_Race\<close> interleaves them. \<open>should_block\<close> is
  the value of the callback, evaluated under the lock. \<open>None\<close> is a violated list precondition.
\<close>

record 't ts_waitlist =
  ts_list :: "'t waitlist"
  ts_empty :: bool

definition ts_new :: "addr \<Rightarrow> 't ts_waitlist" where
  "ts_new base = \<lparr>ts_list = raw_new base, ts_empty = False\<rparr>"

definition ts_suspend ::
  "bool \<Rightarrow> 't ts_waitlist \<Rightarrow> addr \<Rightarrow> request \<Rightarrow> ('t wait_result progress \<times> 't ts_waitlist) option" where
  "ts_suspend should_block ts a r =
     (let w = (ts_list ts)\<lparr>wl_request := (wl_request (ts_list ts))(a := r)\<rparr>
      in if wl_closed w then Some (Done (Inl Closed), ts\<lparr>ts_list := w\<rparr>)
         else if \<not> should_block then
           map_option (\<lambda>e. (Done (Inl Cancelled), \<lparr>ts_list = w, ts_empty = e\<rparr>))
             (is_empty (wl_heap w) (wl_base w))
         else Some (Pending,
           \<lparr>ts_list = w\<lparr>wl_heap := append_node (wl_heap w) (wl_base w) a\<rparr>, ts_empty = False\<rparr>))"

text \<open>The canceller: the node may have been unlinked by a waker, and then it does nothing.\<close>

definition ts_cancel :: "'t ts_waitlist \<Rightarrow> addr \<Rightarrow> 't ts_waitlist option" where
  "ts_cancel ts a =
     (case linked (wl_heap (ts_list ts)) a of
        None \<Rightarrow> None
      | Some False \<Rightarrow> Some ts
      | Some True \<Rightarrow> map_option (\<lambda>w. ts\<lparr>ts_list := w\<rparr>) (raw_cancel (ts_list ts) a))"

definition ts_wait :: "bool \<Rightarrow> bool \<Rightarrow> 't ts_waitlist \<Rightarrow> addr \<Rightarrow> request \<Rightarrow>
    ('t wait_result progress \<times> 't ts_waitlist) option" where
  "ts_wait interrupted should_block ts a r =
     (if interrupted then Some (Done (Inl Cancelled), ts)
      else (let w = ts_list ts;
                w1 = w\<lparr>wl_count := wl_count w + 1, wl_heap := (wl_heap w)(a := node_new)\<rparr>
            in ts_suspend should_block (ts\<lparr>ts_list := w1\<rparr>) a r))"

definition ts_wait_return :: "'t ts_waitlist \<Rightarrow> 't ts_waitlist" where
  "ts_wait_return ts = ts\<lparr>ts_list := raw_wait_return (ts_list ts)\<rparr>"

definition ts_wake_one :: "'t ts_waitlist \<Rightarrow> 't \<Rightarrow> (bool \<times> 't ts_waitlist) option" where
  "ts_wake_one ts v =
     (if ts_empty ts then Some (False, ts)
      else map_option (\<lambda>(b, w). (b, ts\<lparr>ts_list := w\<rparr>)) (raw_wake_one (ts_list ts) v))"

text \<open>\<open>wake_all\<close> pops from the list itself, holding the lock throughout.\<close>

definition ts_wake_all ::
  "('t \<Rightarrow> 't maybe_panic) \<Rightarrow> nat \<Rightarrow> 't ts_waitlist \<Rightarrow> 't \<Rightarrow> (usize \<times> 't ts_waitlist) option" where
  "ts_wake_all clone k ts v =
     (if ts_empty ts then Some (0, ts)
      else map_option (\<lambda>w. (wl_count (ts_list ts), ts\<lparr>ts_list := w\<rparr>))
        (wake_loop clone v k (wl_base (ts_list ts)) (ts_list ts)))"

definition ts_is_closed :: "'t ts_waitlist \<Rightarrow> bool" where
  "ts_is_closed ts = wl_closed (ts_list ts)"

definition ts_close ::
  "('t \<Rightarrow> 't maybe_panic) \<Rightarrow> nat \<Rightarrow> 't ts_waitlist \<Rightarrow> 't \<Rightarrow> (usize \<times> 't ts_waitlist) option" where
  "ts_close clone k ts v = ts_wake_all clone k (ts\<lparr>ts_list := (ts_list ts)\<lparr>wl_closed := True\<rparr>\<rparr>) v"

text \<open>Well formed: the nodes in \<open>as\<close> wait, and the flag only claims emptiness of an empty list.\<close>

definition ts_waiting :: "'t ts_waitlist \<Rightarrow> addr list \<Rightarrow> bool" where
  "ts_waiting ts as \<longleftrightarrow> waiting (ts_list ts) as \<and> (ts_empty ts \<longrightarrow> as = [])"

lemma ts_waiting_new: "base \<noteq> null \<Longrightarrow> ts_waiting (ts_new base) []"
  by (simp add: ts_waiting_def ts_new_def waiting_new)

lemma ts_wait_cases:
  assumes "ts_waiting ts as" "a \<notin> set (wl_base (ts_list ts) # as)" "a \<noteq> null"
  shows "\<exists>p ts'. ts_wait interrupted should_block ts a r = Some (p, ts') \<and>
    p = (if interrupted then Done (Inl Cancelled) else if wl_closed (ts_list ts) then Done (Inl Closed)
         else if should_block then Pending else Done (Inl Cancelled)) \<and>
    ts_waiting ts' (if p = Pending then as @ [a] else as) \<and> wl_done (ts_list ts') = wl_done (ts_list ts) \<and>
    (p = Pending \<longrightarrow> wl_request (ts_list ts') a = r)"
proof -
  let ?h = "(wl_heap (ts_list ts))(a := node_new)" and ?b = "wl_base (ts_list ts)"
  have l: "list_at ?h ?b as"
    by (rule list_at_cong[of "wl_heap (ts_list ts)"]) (use assms in \<open>auto simp: ts_waiting_def waiting_def\<close>)
  moreover have "list_at (append_node ?h ?b a) ?b (as @ [a])"
    using l assms(3) free_node_new by (blast intro: ll.push_at)
  moreover have "is_empty ?h ?b = Some (as = [])" by (rule is_empty_list_at[OF l])
  ultimately show ?thesis using assms(1)
    by (auto simp: ts_wait_def ts_suspend_def ts_waiting_def waiting_def Let_def)
qed

lemma ts_cancel_queued:
  assumes "ts_waiting ts as" "a \<in> set as"
  shows "\<exists>ts'. ts_cancel ts a = Some ts' \<and> ts_waiting ts' (remove1 a as) \<and>
    wl_done (ts_list ts') = wl_done (ts_list ts) @ [(wl_request (ts_list ts) a, Inl Cancelled)]"
proof -
  have "linked (wl_heap (ts_list ts)) a = Some True"
    using assms list_at_linked by (fastforce simp: ts_waiting_def waiting_def)
  with waiting_cancel[of "ts_list ts" as a] assms show ?thesis
    by (auto simp: ts_cancel_def ts_waiting_def)
qed

lemma ts_wake_all_queued:
  assumes "ts_waiting ts as" "length as < k"
  shows "\<exists>ts'. ts_wake_all clone k ts v = Some (if ts_empty ts then 0 else wl_count (ts_list ts), ts') \<and>
    ts_waiting ts' [] \<and> wl_closed (ts_list ts') = wl_closed (ts_list ts) \<and>
    wl_done (ts_list ts') = wl_done (ts_list ts) @
      broadcast_results clone v (map (wl_request (ts_list ts)) as)"
proof -
  obtain h where "wake_loop clone v k (wl_base (ts_list ts)) (ts_list ts) =
      Some ((ts_list ts)\<lparr>wl_heap := h, wl_done := wl_done (ts_list ts) @
        broadcast_results clone v (map (wl_request (ts_list ts)) as)\<rparr>)"
      "list_at h (wl_base (ts_list ts)) []"
    using wake_loop_at[of "ts_list ts" "wl_base (ts_list ts)" as k clone v] assms
    by (auto simp: ts_waiting_def waiting_def)
  with assms show ?thesis by (auto simp: ts_wake_all_def ts_waiting_def waiting_def)
qed

lemma ts_wake_one_queued:
  assumes "ts_waiting ts as"
  shows "\<exists>ts'. ts_wake_one ts v = Some (as \<noteq> [], ts') \<and> ts_waiting ts' (tl as) \<and>
    ts_is_closed ts' = ts_is_closed ts"
  using waiting_wake_one[of "ts_list ts" as v] assms
  by (auto simp: ts_wake_one_def ts_waiting_def ts_is_closed_def)

lemma ts_close_queued:
  assumes "ts_waiting ts as" "length as < k"
  shows "\<exists>n ts'. ts_close clone k ts v = Some (n, ts') \<and> ts_waiting ts' [] \<and> ts_is_closed ts'"
proof -
  have "ts_waiting (ts\<lparr>ts_list := (ts_list ts)\<lparr>wl_closed := True\<rparr>\<rparr>) as"
    using assms(1) by (simp add: ts_waiting_def waiting_def)
  from ts_wake_all_queued[OF this assms(2), of clone v] show ?thesis
    by (auto simp: ts_close_def ts_is_closed_def)
qed

section \<open>Notify\<close>

text \<open>
  \<open>src/src/async_std/sync/notify.rs\<close>: \<open>RawNotify\<close> and \<open>RcNotify\<close> over the raw list, \<open>Notify\<close> over the
  thread safe one. Errors of the wait become the crate's error, kept here as the wait error.
\<close>

definition raw_notify_wait :: "bool \<Rightarrow> 't waitlist \<Rightarrow> addr \<Rightarrow> request \<Rightarrow> 't wait_result progress \<times> 't waitlist" where
  "raw_notify_wait interrupted w a r = raw_wait interrupted w a r"

definition raw_notify ::
  "('t \<Rightarrow> 't maybe_panic) \<Rightarrow> nat \<Rightarrow> addr \<Rightarrow> 't waitlist \<Rightarrow> 't \<Rightarrow> (usize \<times> 't waitlist) option" where
  "raw_notify clone k tmp w v = raw_wake_all clone k tmp w v"

definition ts_notify_wait :: "bool \<Rightarrow> 't ts_waitlist \<Rightarrow> addr \<Rightarrow> request \<Rightarrow>
    ('t wait_result progress \<times> 't ts_waitlist) option" where
  "ts_notify_wait interrupted ts a r = ts_wait interrupted True ts a r"

definition ts_notify ::
  "('t \<Rightarrow> 't maybe_panic) \<Rightarrow> nat \<Rightarrow> 't ts_waitlist \<Rightarrow> 't \<Rightarrow> (usize \<times> 't ts_waitlist) option" where
  "ts_notify clone k ts v = ts_wake_all clone k ts v"

section \<open>Runs: every request is completed at most once\<close>

text \<open>
  The calls a wait list sees, each with the address its waiter is built at. A call whose
  precondition fails (cancelling a waiter that is not queued) is no step.
\<close>

inductive wl_step :: "('t \<Rightarrow> 't maybe_panic) \<Rightarrow> 't waitlist \<times> request list \<Rightarrow> 't waitlist \<times> request list \<Rightarrow> bool"
  for clone where
  step_wait: "raw_wait i w a r = (Pending, w') \<Longrightarrow> a \<noteq> null \<Longrightarrow> waiting w as \<Longrightarrow>
    a \<notin> set (wl_base w # as) \<Longrightarrow> r \<notin> set rs \<Longrightarrow> wl_step clone (w, rs) (w', rs @ [r])"
| step_cancel: "waiting w as \<Longrightarrow> a \<in> set as \<Longrightarrow> raw_cancel w a = Some w' \<Longrightarrow> wl_step clone (w, rs) (w', rs)"
| step_wake_one: "raw_wake_one w v = Some (b, w') \<Longrightarrow> wl_step clone (w, rs) (w', rs)"
| step_wake_all: "raw_wake_all clone k tmp w v = Some (n, w') \<Longrightarrow> waiting w as \<Longrightarrow>
    tmp \<notin> set (wl_base w # as) \<Longrightarrow> tmp \<noteq> null \<Longrightarrow> length as < k \<Longrightarrow> wl_step clone (w, rs) (w', rs)"
| step_close: "raw_close clone k tmp w v = Some (n, w') \<Longrightarrow> waiting w as \<Longrightarrow>
    tmp \<notin> set (wl_base w # as) \<Longrightarrow> tmp \<noteq> null \<Longrightarrow> length as < k \<Longrightarrow> wl_step clone (w, rs) (w', rs)"

text \<open>The requests made are those completed and those of the queued waiters, each once.\<close>

definition wl_conserved :: "'t waitlist \<times> request list \<Rightarrow> bool" where
  "wl_conserved = (\<lambda>(w, rs). distinct rs \<and> (\<exists>as. waiting w as \<and>
     mset rs = mset (map fst (wl_done w)) + mset (map (wl_request w) as)))"

lemma waiting_unique: "waiting w as \<Longrightarrow> waiting w bs \<Longrightarrow> as = bs"
  unfolding waiting_def by (rule list_at_unique)

lemma wl_conservedI:
  "distinct rs \<Longrightarrow> waiting w as \<Longrightarrow>
   mset rs = mset (map fst (wl_done w)) + mset (map (wl_request w) as) \<Longrightarrow> wl_conserved (w, rs)"
  by (auto simp: wl_conserved_def)

lemma wl_conservedD:
  assumes "wl_conserved (w, rs)" "waiting w as"
  shows "distinct rs" "mset rs = mset (map fst (wl_done w)) + mset (map (wl_request w) as)"
  using assms by (auto simp: wl_conserved_def dest: waiting_unique)

lemma wl_conserved_step:
  assumes "wl_step clone s t" "wl_conserved s"
  shows "wl_conserved t"
  using assms
proof (induction rule: wl_step.induct)
  case (step_wait i w a r w' as rs)
  note w = waiting_wait[OF \<open>waiting w as\<close> \<open>a \<notin> _\<close> \<open>a \<noteq> null\<close> \<open>raw_wait i w a r = _\<close>]
  have "map (wl_request w') as = map (wl_request w) as"
    by (rule map_cong[OF refl], rule w(5)) (use step_wait.hyps(4) in auto)
  then have "mset (map (wl_request w') (as @ [a])) = add_mset r (mset (map (wl_request w) as))"
    using w(2) by (simp only: map_append mset_append) simp
  with wl_conservedD[OF step_wait.prems step_wait.hyps(3)] step_wait.hyps(5) w show ?case
    by (intro wl_conservedI[of _ _ "as @ [a]"]) (simp_all del: mset_map)
next
  case (step_cancel w as a w' rs)
  have "mset (map (wl_request w) as) = add_mset (wl_request w a) (mset (map (wl_request w) (remove1 a as)))"
    using step_cancel.hyps(2) by (simp flip: image_mset_add_mset)
  with wl_conservedD[OF step_cancel.prems step_cancel.hyps(1)] step_cancel.hyps(3)
    waiting_cancel[OF step_cancel.hyps(1,2)] show ?case
    by (intro wl_conservedI[of _ _ "remove1 a as"]) (auto simp del: mset_map)
next
  case (step_wake_one w v b w' rs)
  then obtain as where as: "distinct rs" "waiting w as"
    "mset rs = mset (map fst (wl_done w)) + mset (map (wl_request w) as)"
    by (auto simp: wl_conserved_def)
  with waiting_wake_one[OF as(2), of v] step_wake_one.hyps show ?case
    by (intro wl_conservedI[of _ _ "tl as"]) (auto split: list.splits)
next
  case (step_wake_all k tmp w v n w' as rs)
  with waiting_wake_all[OF step_wake_all.hyps(2-5), of clone v]
    wl_conservedD[OF step_wake_all.prems step_wake_all.hyps(2)] show ?case
    by (intro wl_conservedI[of _ _ "[]"]) (auto simp flip: map_map)
next
  case (step_close k tmp w v n w' as rs)
  let ?w = "w\<lparr>wl_closed := True\<rparr>"
  have "waiting ?w as" using step_close.hyps(2) by (simp add: waiting_def)
  with waiting_wake_all[of ?w as tmp k clone v] step_close.hyps
    wl_conservedD[OF step_close.prems step_close.hyps(2)] show ?case
    by (intro wl_conservedI[of _ _ "[]"]) (auto simp: raw_close_def simp flip: map_map)
qed

interpretation wl_run: transition_invariant
  "\<lambda>s. \<exists>base. base \<noteq> null \<and> s = (raw_new base, [])" "wl_step clone" wl_conserved
proof
  fix s :: "'a waitlist \<times> request list"
  assume "\<exists>base. base \<noteq> null \<and> s = (raw_new base, [])"
  then show "wl_conserved s"
    by (auto intro!: wl_conservedI[of _ _ "[]"] waiting_new) (simp add: raw_new_def)
next
  fix s t :: "'a waitlist \<times> request list"
  assume "wl_conserved s" "wl_step clone s t"
  then show "wl_conserved t" by (rule wl_conserved_step[rotated])
qed

section \<open>Properties\<close>



text \<open>Wake_all empties the list and completes every queued request with Ok, in queue order: all but
  the last get a clone of the value, or the panic of that clone, and the last gets the value itself.
  One unit of fuel per waiter and one more suffices.\<close>

theorem wake_all_wakes_everyone:
  assumes "waiting w as" "tmp \<notin> set (wl_base w # as)" "tmp \<noteq> null" "length as < k"
  shows "\<exists>w'. raw_wake_all clone k tmp w v = Some (wl_count w, w') \<and> waiting w' [] \<and>
    wl_done w' = wl_done w @ broadcast_results clone v (map (wl_request w) as)"
  using waiting_wake_all[OF assms, of clone v] by blast

theorem wake_all_wakes_everyone_witness:
  "\<exists>w w'. raw_wait False (raw_new 1) 2 9 = (Pending, w) \<and>
    raw_wake_all Some 2 3 w (7 :: nat) = Some (1, w') \<and> wl_done w' = [(9, Inr (Some 7))]"
proof -
  obtain w :: "nat waitlist" where w: "raw_wait False (raw_new 1) 2 9 = (Pending, w)"
    by (simp add: raw_wait_def raw_new_def Let_def)
  have c: "wl_count w = 1" using w by (auto simp: raw_wait_def raw_new_def raw_suspend_def Let_def)
  have "waiting (raw_new 1 :: nat waitlist) []" by (simp add: waiting_new null_def)
  from waiting_wait[OF this _ _ w]
  have "waiting w [2]" "wl_request w 2 = 9" "wl_done w = []" "wl_base w = 1"
    by (simp_all add: raw_new_def null_def)
  with wake_all_wakes_everyone[of w "[2]" 3 2 Some 7] w c show ?thesis by (auto simp: null_def)
qed

end
