(* ===== verification/Sync.thy ===== *)
theory Sync
  imports Xx_Prelude
begin

text \<open>
  The blocking primitives of \<open>src/src/sync/\<close>: the exponential \<open>Backoff\<close> that every retry loop of the
  crate uses, the \<open>SpinLock\<close> with the guard of \<open>SpinMutex\<close>, and the poison flag.
\<close>

section \<open>Backoff (\<open>backoff.rs\<close>)\<close>

definition SPIN_LIMIT :: u16 where
  "SPIN_LIMIT = 6"

definition YIELD_LIMIT :: u16 where
  "YIELD_LIMIT = 10"

record backoff =
  bo_step :: u16

definition backoff_new :: backoff where
  "backoff_new = \<lparr>bo_step = 0\<rparr>"

definition backoff_reset :: "backoff \<Rightarrow> backoff" where
  "backoff_reset b = b\<lparr>bo_step := 0\<rparr>"

text \<open>The number of \<open>spin_loop\<close> hints: \<open>1 << step.min(SPIN_LIMIT)\<close>, an \<open>i32\<close> range.\<close>

definition spin_internal :: "backoff \<Rightarrow> nat" where
  "spin_internal b = 2 ^ unat (min (bo_step b) SPIN_LIMIT)"

definition backoff_spin :: "backoff \<Rightarrow> nat \<times> backoff" where
  "backoff_spin b =
     (spin_internal b, if bo_step b \<le> SPIN_LIMIT then b\<lparr>bo_step := bo_step b + 1\<rparr> else b)"

text \<open>\<open>Inl\<close> the spins, or \<open>Inr ()\<close> for yielding the thread.\<close>

definition backoff_snooze :: "backoff \<Rightarrow> (nat + unit) \<times> backoff" where
  "backoff_snooze b =
     (if bo_step b < SPIN_LIMIT then Inl (spin_internal b) else Inr (),
      if bo_step b \<le> YIELD_LIMIT then b\<lparr>bo_step := bo_step b + 1\<rparr> else b)"

definition backoff_is_completed :: "backoff \<Rightarrow> bool" where
  "backoff_is_completed b \<longleftrightarrow> bo_step b > YIELD_LIMIT"

lemmas backoff_defs = backoff_new_def backoff_reset_def spin_internal_def backoff_spin_def
  backoff_snooze_def backoff_is_completed_def SPIN_LIMIT_def YIELD_LIMIT_def

lemma u16_of_nat_le: "n < 65536 \<Longrightarrow> m < 65536 \<Longrightarrow> (of_nat n :: u16) \<le> of_nat m \<longleftrightarrow> n \<le> m"
  by (simp add: word_le_nat_alt unat_of_nat take_bit_eq_mod)

lemma snooze_steps: "((snd \<circ> backoff_snooze) ^^ n) backoff_new = \<lparr>bo_step = of_nat (min n 11)\<rparr>"
proof (induction n)
  case (Suc n)
  show ?case
  proof (cases "n \<le> 10")
    case True
    then have "(of_nat n :: u16) \<le> 10" using u16_of_nat_le[of n 10] by simp
    with Suc True show ?thesis by (simp add: backoff_defs)
  next
    case False
    then have "min n 11 = 11" "min (Suc n) 11 = 11" by auto
    with Suc show ?thesis by (simp add: backoff_defs)
  qed
qed (simp add: backoff_defs)

lemma spin_steps: "((snd \<circ> backoff_spin) ^^ n) backoff_new = \<lparr>bo_step = of_nat (min n 7)\<rparr>"
proof (induction n)
  case (Suc n)
  show ?case
  proof (cases "n \<le> 6")
    case True
    then have "(of_nat n :: u16) \<le> 6" using u16_of_nat_le[of n 6] by simp
    with Suc True show ?thesis by (simp add: backoff_defs)
  next
    case False
    then have "min n 7 = 7" "min (Suc n) 7 = 7" by auto
    with Suc show ?thesis by (simp add: backoff_defs)
  qed
qed (simp add: backoff_defs)

lemma snooze_completed:
  "backoff_is_completed (((snd \<circ> backoff_snooze) ^^ n) backoff_new) \<longleftrightarrow> 11 \<le> n"
proof -
  have "(of_nat (min n 11) :: u16) \<le> 10 \<longleftrightarrow> min n 11 \<le> 10"
    using u16_of_nat_le[of "min n 11" 10] by simp
  then show ?thesis unfolding snooze_steps by (auto simp: backoff_defs not_le[symmetric])
qed

lemma spin_not_completed: "\<not> backoff_is_completed (((snd \<circ> backoff_spin) ^^ n) backoff_new)"
proof -
  have "(of_nat (min n 7) :: u16) \<le> 10 \<longleftrightarrow> min n 7 \<le> 10"
    using u16_of_nat_le[of "min n 7" 10] by simp
  then show ?thesis unfolding spin_steps by (auto simp: backoff_defs not_le[symmetric])
qed

section \<open>SpinLock (\<open>spin_lock.rs\<close>, \<open>spin_mutex.rs\<close>)\<close>

text \<open>
  The lock is one atomic flag. A thread that wants it is at a place of the code: about to try, in
  the loop of \<open>try_spin_lock\<close> with so many loads left, about to try after a load that saw it free,
  or holding it (a \<open>SpinMutexGuard\<close> is alive).
\<close>

datatype spin_pc = SpTry | SpLoop nat | SpRetry | SpHeld

definition spin_try_lock :: "bool \<Rightarrow> bool \<times> bool" where
  "spin_try_lock locked = (if locked then (False, True) else (True, True))"

definition spin_unlock :: "bool \<Rightarrow> bool" where
  "spin_unlock locked = False"

definition SPIN_TRIES :: nat where
  "SPIN_TRIES = 97"

text \<open>One access of a thread inside \<open>lock\<close>; a lap that ran out of loads yields and starts again.\<close>

fun spin_lock_step :: "bool \<Rightarrow> spin_pc \<Rightarrow> bool \<times> spin_pc" where
  "spin_lock_step locked SpTry =
     (let (ok, l) = spin_try_lock locked in (l, if ok then SpHeld else SpLoop SPIN_TRIES))"
| "spin_lock_step locked (SpLoop 0) = (locked, SpLoop SPIN_TRIES)"
| "spin_lock_step locked (SpLoop (Suc n)) = (locked, if locked then SpLoop n else SpRetry)"
| "spin_lock_step locked SpRetry =
     (let (ok, l) = spin_try_lock locked in (l, if ok then SpHeld else SpLoop SPIN_TRIES))"
| "spin_lock_step locked SpHeld = (locked, SpHeld)"

text \<open>Any number of threads: \<open>None\<close> is a thread that is not using the lock.\<close>

record spin_sys =
  sp_locked :: bool
  sp_pc :: "nat \<Rightarrow> spin_pc option"

definition spin_start :: "spin_sys \<Rightarrow> bool" where
  "spin_start s \<longleftrightarrow> \<not> sp_locked s \<and> sp_pc s = (\<lambda>_. None)"

inductive spin_step :: "spin_sys \<Rightarrow> spin_sys \<Rightarrow> bool" where
  spin_call: "sp_pc s t = None \<Longrightarrow> spin_step s (s\<lparr>sp_pc := (sp_pc s)(t := Some SpTry)\<rparr>)"
| spin_try: "sp_pc s t = None \<Longrightarrow> spin_try_lock (sp_locked s) = (ok, l) \<Longrightarrow>
    spin_step s (s\<lparr>sp_locked := l, sp_pc := (sp_pc s)(t := if ok then Some SpHeld else None)\<rparr>)"
| spin_go: "sp_pc s t = Some p \<Longrightarrow> spin_lock_step (sp_locked s) p = (l, p') \<Longrightarrow>
    spin_step s (s\<lparr>sp_locked := l, sp_pc := (sp_pc s)(t := Some p')\<rparr>)"
| spin_drop: "sp_pc s t = Some SpHeld \<Longrightarrow>
    spin_step s (s\<lparr>sp_locked := spin_unlock (sp_locked s), sp_pc := (sp_pc s)(t := None)\<rparr>)"

definition spin_inv :: "spin_sys \<Rightarrow> bool" where
  "spin_inv s \<longleftrightarrow> (sp_locked s \<longleftrightarrow> (\<exists>t. sp_pc s t = Some SpHeld)) \<and>
     (\<forall>t u. sp_pc s t = Some SpHeld \<and> sp_pc s u = Some SpHeld \<longrightarrow> t = u)"

text \<open>What one access of \<open>lock\<close> does: it takes a free lock, or leaves the lock as it was.\<close>

lemma spin_lock_step_cases:
  assumes "spin_lock_step locked p = (l, p')"
  obtains "p \<noteq> SpHeld" "\<not> locked" "l" "p' = SpHeld"
  | "l = locked" "p' = SpHeld \<longleftrightarrow> p = SpHeld"
  using assms by (induction locked p rule: spin_lock_step.induct)
    (auto simp: spin_try_lock_def split: if_splits)

lemma spin_inv_take:
  "spin_inv s \<Longrightarrow> \<not> sp_locked s \<Longrightarrow> spin_inv (s\<lparr>sp_locked := True, sp_pc := (sp_pc s)(t := Some SpHeld)\<rparr>)"
  by (auto simp: spin_inv_def)

lemma spin_inv_keep:
  "spin_inv s \<Longrightarrow> (p = Some SpHeld \<longleftrightarrow> sp_pc s t = Some SpHeld) \<Longrightarrow>
   spin_inv (s\<lparr>sp_locked := sp_locked s, sp_pc := (sp_pc s)(t := p)\<rparr>)"
  unfolding spin_inv_def by (simp add: fun_upd_def) metis

lemma spin_inv_step: "spin_inv s \<Longrightarrow> spin_step s s' \<Longrightarrow> spin_inv s'"
proof -
  assume i: "spin_inv s" and "spin_step s s'"
  from this(2) show "spin_inv s'"
  proof cases
    case (spin_call t)
    then show ?thesis using spin_inv_keep[OF i, of "Some SpTry" t] by simp
  next
    case (spin_try t ok l)
    show ?thesis
    proof (cases "sp_locked s")
      case True
      with spin_try have "l = sp_locked s" "\<not> ok" by (auto simp: spin_try_lock_def)
      with spin_try show ?thesis using spin_inv_keep[OF i, of None t] by (simp del: fun_upd_apply)
    next
      case False
      with spin_try have "l" "ok" by (auto simp: spin_try_lock_def)
      with spin_try False show ?thesis using spin_inv_take[OF i] by simp
    qed
  next
    case (spin_go t p l p')
    from spin_go(3) show ?thesis
    proof (cases rule: spin_lock_step_cases)
      case 1
      with spin_go show ?thesis using spin_inv_take[OF i] by simp
    next
      case 2
      with spin_go show ?thesis using spin_inv_keep[OF i, of "Some p'" t] by simp
    qed
  next
    case (spin_drop t)
    then show ?thesis using i by (auto simp: spin_inv_def spin_unlock_def)
  qed
qed

interpretation spin: mutual_exclusion spin_start spin_step spin_inv "\<lambda>s t. sp_pc s t = Some SpHeld"
proof
  show "spin_start s \<Longrightarrow> spin_inv s" for s by (simp add: spin_start_def spin_inv_def)
  show "spin_inv s \<Longrightarrow> sp_pc s t = Some SpHeld \<Longrightarrow> sp_pc s u = Some SpHeld \<Longrightarrow> t = u" for s t u
    by (auto simp: spin_inv_def)
qed (rule spin_inv_step)

text \<open>A thread that runs alone takes a free lock after at most four of its own accesses.\<close>

lemma spin_free_acquires:
  "((\<lambda>(l, p). spin_lock_step l p) ^^ 4) (False, p) = (True, SpHeld) \<or> p = SpHeld"
proof (cases p)
  case (SpLoop n)
  then show ?thesis
    by (cases n) (simp_all add: numeral_eq_Suc spin_try_lock_def SPIN_TRIES_def)
qed (simp_all add: numeral_eq_Suc spin_try_lock_def)

text \<open>\<open>try_lock\<close> of \<open>SpinMutex\<close>: a guard, or \<open>WouldBlock\<close>.\<close>

datatype try_lock_error = TryLockWouldBlock

definition spin_mutex_try_lock :: "bool \<Rightarrow> (try_lock_error, unit) outcome \<times> bool" where
  "spin_mutex_try_lock locked =
     (let (ok, l) = spin_try_lock locked in (if ok then Ok () else Err TryLockWouldBlock, l))"

section \<open>PoisonFlag (\<open>poison.rs\<close>, with unwinding panics)\<close>

record poison_guard =
  pg_panicking :: bool

text \<open>\<open>panicking\<close> is whether the thread is unwinding when the function runs.\<close>

definition poison_guard_new :: "bool \<Rightarrow> poison_guard" where
  "poison_guard_new panicking = \<lparr>pg_panicking = panicking\<rparr>"

definition poison_finish :: "poison_guard \<Rightarrow> bool \<Rightarrow> bool \<Rightarrow> bool" where
  "poison_finish g panicking failed = (if \<not> pg_panicking g \<and> panicking then True else failed)"

definition poison_clear :: "bool \<Rightarrow> bool" where
  "poison_clear failed = False"

text \<open>\<open>map\<close>: the guard, inside the poison error when the flag is set.\<close>

definition poison_map :: "bool \<Rightarrow> 'g \<Rightarrow> ('g, 'g) outcome" where
  "poison_map failed g = (case failed of False \<Rightarrow> Ok g | True \<Rightarrow> Err g)"

text \<open>
  A critical section: guard on entry, \<open>finish\<close> on exit. It poisons exactly when the panic started
  inside it.
\<close>

lemma poison_section:
  "poison_finish (poison_guard_new entry) exit failed = (failed \<or> (\<not> entry \<and> exit))"
  by (auto simp: poison_finish_def poison_guard_new_def)

section \<open>Properties\<close>

text \<open>Two threads never hold the spin lock (a SpinMutexGuard) at the same time, and a thread that runs
  alone on a free lock holds it after at most four of its own accesses.\<close>

theorem spin_lock_excludes:
  assumes "reach spin_start spin_step s"
  shows "(sp_pc s t = Some SpHeld \<longrightarrow> sp_pc s u = Some SpHeld \<longrightarrow> t = u) \<and>
    (sp_pc s t = Some p \<longrightarrow> p \<noteq> SpHeld \<longrightarrow> \<not> sp_locked s \<longrightarrow>
      ((\<lambda>(l, p). spin_lock_step l p) ^^ 4) (sp_locked s, p) = (True, SpHeld))"
  using spin.reach_excl[OF assms] spin_free_acquires[of p] by auto

theorem spin_lock_excludes_witness:
  "((\<lambda>(l, p). spin_lock_step l p) ^^ 4) (False, SpTry) = (True, SpHeld)"
proof -
  let ?s = "\<lparr>sp_locked = False, sp_pc = (\<lambda>_. None)\<rparr>"
  have "reach spin_start spin_step ?s" by (rule reach.reach_start) (simp add: spin_start_def)
  from reach.reach_step[OF this spin_call[of ?s 0]]
  have "reach spin_start spin_step (?s\<lparr>sp_pc := (\<lambda>_. None)(0 := Some SpTry)\<rparr>)" by simp
  from spin_lock_excludes[OF this, of 0 0 SpTry] show ?thesis by simp
qed

text \<open>A retry loop that snoozes is told to stop spinning after exactly eleven snoozes, and one that
  only spins never is; the u16 step counter never overflows in either.\<close>

theorem backoff_completes_by_snoozing:
  "(backoff_is_completed (((snd \<circ> backoff_snooze) ^^ n) backoff_new) \<longleftrightarrow> 11 \<le> n) \<and>
   \<not> backoff_is_completed (((snd \<circ> backoff_spin) ^^ n) backoff_new) \<and>
   unat (bo_step (((snd \<circ> backoff_snooze) ^^ n) backoff_new)) = min n 11"
  using snooze_completed[of n] spin_not_completed[of n]
  by (simp add: snooze_steps unat_of_nat take_bit_eq_mod min_def)

end
