(* ===== verification/Async_Mutex.thy ===== *)
theory Async_Mutex
  imports Wait_List Sync
begin

text \<open>
  The async mutex of \<open>src/src/async_std/sync/mutex.rs\<close>: a three valued state word, a thread safe wait
  list, and a poison flag. Tasks and blocking threads take the same path, so one kind of thread
  stands for both. A step is one access to the state word, to the list's \<open>empty\<close> flag or to its
  spin lock (the list itself is only touched by the lock's holder). Shown: mutual exclusion, and that
  a sleeping thread always has somebody who will wake it.
\<close>

section \<open>The state word\<close>

datatype mutex_state = Unlocked | Locked | Contended

definition try_lock_internal :: "mutex_state \<Rightarrow> bool \<times> mutex_state" where
  "try_lock_internal st = (if st = Unlocked then (True, Locked) else (False, st))"

text \<open>\<open>unlock\<close>: the new state, and whether a waiter has to be woken.\<close>

definition mutex_unlock :: "mutex_state \<Rightarrow> mutex_state \<times> bool" where
  "mutex_unlock st = (Unlocked, st = Contended)"

text \<open>
  Where a thread is: outside, in the loads of \<open>try_spin_lock\<close>, about to swap in \<open>Contended\<close>, past a
  \<open>try_spin_lock\<close> that did not get the lock, inside the critical section of \<open>wait\<close> (list locked, \<open>empty\<close>
  cleared, told to block, told not to, about to unlock the list), asleep, holding the mutex, in
  \<open>unlock\<close> before the \<open>empty\<close> check, and past it.
\<close>

datatype mx_pc = MIdle | MSpin nat | MSwap | MFailed | MList | MFlag | MBlock | MPass | MUnlist
  | MAsleep | MHeld | MWake | MWant

definition MUTEX_TRIES :: nat where
  "MUTEX_TRIES = 97"

definition spin_load :: "mutex_state \<Rightarrow> nat \<Rightarrow> mx_pc" where
  "spin_load st n =
     (case n of
        0 \<Rightarrow> MSwap
      | Suc m \<Rightarrow> (case st of Unlocked \<Rightarrow> MSwap | Locked \<Rightarrow> MSpin m | Contended \<Rightarrow> MFailed))"

definition spin_swap :: "mutex_state \<Rightarrow> mx_pc \<times> mutex_state" where
  "spin_swap st = (if st = Unlocked then MHeld else MFailed, Contended)"

text \<open>The guard's poison status on a successful lock, and the error of a failed one.\<close>

datatype 'g lock_error = Poisoned 'g | LockWouldBlock

definition lock_result :: "bool \<Rightarrow> bool \<Rightarrow> 'g \<Rightarrow> ('g lock_error, 'g) outcome" where
  "lock_result locked failed g =
     (if locked then (case poison_map failed g of Ok g \<Rightarrow> Ok g | Err g \<Rightarrow> Err (Poisoned g) | Panic \<Rightarrow> Panic)
      else Err LockWouldBlock)"

section \<open>Threads\<close>

record mx_sys =
  mx_state :: mutex_state
  mx_list :: "nat option"
  mx_empty :: bool
  mx_queue :: "nat list"
  mx_pc :: "nat \<Rightarrow> mx_pc"

definition mx_initial :: mx_sys where
  "mx_initial = \<lparr>mx_state = Unlocked, mx_list = None, mx_empty = False, mx_queue = [], mx_pc = (\<lambda>_. MIdle)\<rparr>"

definition goto :: "nat \<Rightarrow> mx_pc \<Rightarrow> mx_sys \<Rightarrow> mx_sys" where
  "goto t p s = s\<lparr>mx_pc := (mx_pc s)(t := p)\<rparr>"

inductive mx_step :: "mx_sys \<Rightarrow> mx_sys \<Rightarrow> bool" where
  mx_try: "mx_pc s t = MIdle \<Longrightarrow> try_lock_internal (mx_state s) = (ok, st) \<Longrightarrow>
    mx_step s (goto t (if ok then MHeld else MIdle) (s\<lparr>mx_state := st\<rparr>))"
| mx_lock: "mx_pc s t = MIdle \<Longrightarrow> try_lock_internal (mx_state s) = (ok, st) \<Longrightarrow>
    mx_step s (goto t (if ok then MHeld else MSpin MUTEX_TRIES) (s\<lparr>mx_state := st\<rparr>))"
| mx_spin: "mx_pc s t = MSpin n \<Longrightarrow> mx_step s (goto t (spin_load (mx_state s) n) s)"
| mx_swap: "mx_pc s t = MSwap \<Longrightarrow> spin_swap (mx_state s) = (p, st) \<Longrightarrow>
    mx_step s (goto t p (s\<lparr>mx_state := st\<rparr>))"
| mx_interrupted: "mx_pc s t = MFailed \<Longrightarrow> mx_step s (goto t MIdle s)"
| mx_wait_interrupted: "mx_pc s t = MFailed \<Longrightarrow> mx_step s (goto t (MSpin MUTEX_TRIES) s)"
| mx_wait: "mx_pc s t = MFailed \<Longrightarrow> mx_list s = None \<Longrightarrow> mx_step s (goto t MList (s\<lparr>mx_list := Some t\<rparr>))"
| mx_flag: "mx_pc s t = MList \<Longrightarrow> mx_step s (goto t MFlag (s\<lparr>mx_empty := False\<rparr>))"
| mx_check: "mx_pc s t = MFlag \<Longrightarrow>
    mx_step s (goto t (if mx_state s = Contended then MBlock else MPass) s)"
| mx_pass: "mx_pc s t = MPass \<Longrightarrow> mx_step s (goto t MUnlist (s\<lparr>mx_empty := (mx_queue s = [])\<rparr>))"
| mx_unlist: "mx_pc s t = MUnlist \<Longrightarrow> mx_step s (goto t (MSpin MUTEX_TRIES) (s\<lparr>mx_list := None\<rparr>))"
| mx_sleep: "mx_pc s t = MBlock \<Longrightarrow>
    mx_step s (goto t MAsleep (s\<lparr>mx_queue := mx_queue s @ [t], mx_list := None\<rparr>))"
| mx_cancel: "mx_pc s t = MAsleep \<Longrightarrow> mx_list s = None \<Longrightarrow>
    mx_step s (goto t (MSpin MUTEX_TRIES) (s\<lparr>mx_queue := remove1 t (mx_queue s)\<rparr>))"
| mx_unlock: "mx_pc s t = MHeld \<Longrightarrow> mutex_unlock (mx_state s) = (st, wake) \<Longrightarrow>
    mx_step s (goto t (if wake then MWake else MIdle) (s\<lparr>mx_state := st\<rparr>))"
| mx_empty: "mx_pc s t = MWake \<Longrightarrow> mx_step s (goto t (if mx_empty s then MIdle else MWant) s)"
| mx_wake_none: "mx_pc s t = MWant \<Longrightarrow> mx_list s = None \<Longrightarrow> mx_queue s = [] \<Longrightarrow> mx_step s (goto t MIdle s)"
| mx_wake_one: "mx_pc s t = MWant \<Longrightarrow> mx_list s = None \<Longrightarrow> mx_queue s = u # us \<Longrightarrow>
    mx_step s (goto u (MSpin MUTEX_TRIES) (goto t MIdle (s\<lparr>mx_queue := us\<rparr>)))"

section \<open>Invariants\<close>

definition on_list :: "mx_pc \<Rightarrow> bool" where
  "on_list p \<longleftrightarrow> p \<in> {MList, MFlag, MBlock, MPass, MUnlist}"

text \<open>The threads that will still wake somebody or mark the mutex contended.\<close>

definition responsible :: "mx_pc \<Rightarrow> bool" where
  "responsible p \<longleftrightarrow> p \<in> {MSwap, MWake, MWant} \<or> (\<exists>n. p = MSpin n)"

definition mx_list_inv :: "mx_sys \<Rightarrow> bool" where
  "mx_list_inv s \<longleftrightarrow> locked_by on_list (mx_pc s) (mx_list s)"

definition mx_queue_inv :: "mx_sys \<Rightarrow> bool" where
  "mx_queue_inv s \<longleftrightarrow> distinct (mx_queue s) \<and> (\<forall>t. t \<in> set (mx_queue s) \<longleftrightarrow> mx_pc s t = MAsleep)"

definition mx_empty_inv :: "mx_sys \<Rightarrow> bool" where
  "mx_empty_inv s \<longleftrightarrow> (mx_empty s \<longrightarrow> mx_queue s = [] \<and> (\<forall>t. mx_pc s t \<notin> {MFlag, MBlock, MPass}))"

definition mx_held_inv :: "mx_sys \<Rightarrow> bool" where
  "mx_held_inv s \<longleftrightarrow> (mx_state s = Unlocked \<longleftrightarrow> (\<forall>t. mx_pc s t \<noteq> MHeld)) \<and>
     (\<forall>t u. mx_pc s t = MHeld \<longrightarrow> mx_pc s u = MHeld \<longrightarrow> t = u)"

definition mx_wake_inv :: "mx_sys \<Rightarrow> bool" where
  "mx_wake_inv s \<longleftrightarrow> mx_state s = Contended \<or> (\<forall>t. mx_pc s t \<notin> {MBlock, MAsleep}) \<or>
     (\<exists>t. responsible (mx_pc s t))"

definition mx_inv :: "mx_sys \<Rightarrow> bool" where
  "mx_inv s \<longleftrightarrow> mx_list_inv s \<and> mx_queue_inv s \<and> mx_empty_inv s \<and> mx_held_inv s \<and> mx_wake_inv s"

lemma goto_simps [simp]:
  "mx_state (goto t p s) = mx_state s" "mx_list (goto t p s) = mx_list s" "mx_empty (goto t p s) = mx_empty s"
  "mx_queue (goto t p s) = mx_queue s" "mx_pc (goto t p s) = (mx_pc s)(t := p)"
  by (simp_all add: goto_def)

lemma on_list_simps [simp]:
  "on_list MList" "on_list MFlag" "on_list MBlock" "on_list MPass" "on_list MUnlist" "\<not> on_list MIdle"
  "\<not> on_list (MSpin n)" "\<not> on_list MSwap" "\<not> on_list MFailed" "\<not> on_list MAsleep" "\<not> on_list MHeld"
  "\<not> on_list MWake" "\<not> on_list MWant"
  by (simp_all add: on_list_def)

lemma responsible_simps [simp]:
  "responsible (MSpin n)" "responsible MSwap" "responsible MWake" "responsible MWant"
  "\<not> responsible MIdle" "\<not> responsible MFailed" "\<not> responsible MList" "\<not> responsible MFlag"
  "\<not> responsible MBlock" "\<not> responsible MPass" "\<not> responsible MUnlist" "\<not> responsible MAsleep"
  "\<not> responsible MHeld"
  by (simp_all add: responsible_def)

lemma spin_load_cases:
  obtains "spin_load st n = MSwap" | m where "spin_load st n = MSpin m"
  | "spin_load st n = MFailed" "st = Contended"
  by (cases n; cases st) (auto simp: spin_load_def)

lemma spin_load_pc [simp]: "spin_load st n \<noteq> MHeld" "\<not> on_list (spin_load st n)" "spin_load st n \<noteq> MAsleep"
  "spin_load st n \<noteq> MFlag" "spin_load st n \<noteq> MBlock" "spin_load st n \<noteq> MPass"
  by (rule spin_load_cases[of st n]; simp)+

lemma mx_list_keep:
  assumes "mx_list_inv s" "mx_pc s' = (mx_pc s)(t := p)" "mx_list s' = mx_list s" "on_list p = on_list (mx_pc s t)"
  shows "mx_list_inv s'"
  using assms by (auto simp: mx_list_inv_def locked_by_def)

lemma mx_list_take:
  assumes "mx_list_inv s" "mx_pc s' = (mx_pc s)(t := p)" "mx_list s = None" "mx_list s' = Some t" "on_list p"
  shows "mx_list_inv s'"
  using assms by (auto simp: mx_list_inv_def locked_by_def)

lemma mx_list_drop:
  assumes "mx_list_inv s" "mx_pc s' = (mx_pc s)(t := p)" "on_list (mx_pc s t)" "mx_list s' = None" "\<not> on_list p"
  shows "mx_list_inv s'"
  using assms by (auto simp: mx_list_inv_def locked_by_def)

lemma mx_list_step:
  assumes st: "mx_step s s'" and i: "mx_list_inv s" and q: "mx_queue_inv s"
  shows "mx_list_inv s'"
proof -
  note k = mx_list_keep[OF i] and tk = mx_list_take[OF i] and dr = mx_list_drop[OF i]
  show ?thesis using st
  proof cases
    case (mx_try t ok st)
    then show ?thesis by (intro k[of _ t "if ok then MHeld else MIdle"]) auto
  next
    case (mx_lock t ok st)
    then show ?thesis by (intro k[of _ t "if ok then MHeld else MSpin MUTEX_TRIES"]) auto
  next
    case (mx_spin t n)
    then show ?thesis by (intro k[of _ t "spin_load (mx_state s) n"]) auto
  next
    case (mx_swap t p st)
    then show ?thesis by (intro k[of _ t p]) (auto simp: spin_swap_def split: if_splits)
  next
    case (mx_wait t)
    then show ?thesis by (intro tk[of _ t MList]) auto
  next
    case (mx_check t)
    then show ?thesis by (intro k[of _ t "if mx_state s = Contended then MBlock else MPass"]) auto
  next
    case (mx_unlist t)
    then show ?thesis by (intro dr[of _ t "MSpin MUTEX_TRIES"]) auto
  next
    case (mx_sleep t)
    then show ?thesis by (intro dr[of _ t MAsleep]) auto
  next
    case (mx_unlock t st wake)
    then show ?thesis by (intro k[of _ t "if wake then MWake else MIdle"]) auto
  next
    case (mx_empty t)
    then show ?thesis by (intro k[of _ t "if mx_empty s then MIdle else MWant"]) auto
  next
    case (mx_wake_one t u us)
    then have "mx_pc s u = MAsleep" using q unfolding mx_queue_inv_def by (metis list.set_intros(1))
    moreover have "mx_list_inv (goto t MIdle (s\<lparr>mx_queue := us\<rparr>))" using mx_wake_one by (intro k[of _ t MIdle]) auto
    ultimately show ?thesis
      using mx_list_keep[of "goto t MIdle (s\<lparr>mx_queue := us\<rparr>)" s' u "MSpin MUTEX_TRIES"] mx_wake_one by auto
  next
    case (mx_interrupted t)
    then show ?thesis by (intro k[of _ t "MIdle"]) auto
  next
    case (mx_wait_interrupted t)
    then show ?thesis by (intro k[of _ t "MSpin MUTEX_TRIES"]) auto
  next
    case (mx_flag t)
    then show ?thesis by (intro k[of _ t "MFlag"]) auto
  next
    case (mx_pass t)
    then show ?thesis by (intro k[of _ t "MUnlist"]) auto
  next
    case (mx_cancel t)
    then show ?thesis by (intro k[of _ t "MSpin MUTEX_TRIES"]) auto
  next
    case (mx_wake_none t)
    then show ?thesis by (intro k[of _ t "MIdle"]) auto
  qed
qed

lemma mx_queue_keep:
  "mx_queue_inv s \<Longrightarrow> mx_pc s t \<noteq> MAsleep \<Longrightarrow> p \<noteq> MAsleep \<Longrightarrow> mx_queue s' = mx_queue s \<Longrightarrow>
   mx_pc s' = (mx_pc s)(t := p) \<Longrightarrow> mx_queue_inv s'"
  by (auto simp: mx_queue_inv_def)

lemma mx_queue_step:
  assumes st: "mx_step s s'" and i: "mx_queue_inv s"
  shows "mx_queue_inv s'"
proof -
  note k = mx_queue_keep[OF i]
  show ?thesis using st
  proof cases
    case (mx_sleep t)
    then show ?thesis using i by (auto simp: mx_queue_inv_def)
  next
    case (mx_cancel t)
    then show ?thesis using i by (auto simp: mx_queue_inv_def)
  next
    case (mx_wake_one t u us)
    then show ?thesis using i by (auto simp: mx_queue_inv_def)
  next
    case (mx_try t ok st)
    then show ?thesis by (intro k[of t "if ok then MHeld else MIdle"]) auto
  next
    case (mx_lock t ok st)
    then show ?thesis by (intro k[of t "if ok then MHeld else MSpin MUTEX_TRIES"]) auto
  next
    case (mx_spin t n)
    then show ?thesis by (intro k[of t "spin_load (mx_state s) n"]) auto
  next
    case (mx_swap t p st)
    then show ?thesis by (intro k[of t p]) (auto simp: spin_swap_def split: if_splits)
  next
    case (mx_check t)
    then show ?thesis by (intro k[of t "if mx_state s = Contended then MBlock else MPass"]) auto
  next
    case (mx_unlock t st wake)
    then show ?thesis by (intro k[of t "if wake then MWake else MIdle"]) auto
  next
    case (mx_empty t)
    then show ?thesis by (intro k[of t "if mx_empty s then MIdle else MWant"]) auto
  qed (use i in \<open>auto simp: mx_queue_inv_def\<close>)
qed

lemma mx_empty_keep:
  assumes "mx_empty_inv s" "mx_empty s' \<Longrightarrow> mx_empty s" "mx_queue s = [] \<Longrightarrow> mx_queue s' = []"
    and "mx_pc s' = (mx_pc s)(t := p)" "p \<in> {MFlag, MBlock, MPass} \<Longrightarrow> mx_empty s \<Longrightarrow> mx_pc s t \<in> {MFlag, MBlock, MPass}"
  shows "mx_empty_inv s'"
  using assms unfolding mx_empty_inv_def by (auto split: if_splits)

lemma mx_empty_step:
  assumes st: "mx_step s s'" and i: "mx_empty_inv s" and l: "mx_list_inv s"
  shows "mx_empty_inv s'"
proof -
  note k = mx_empty_keep[OF i]
  show ?thesis using st
  proof cases
    case (mx_pass t)
    have "mx_pc s u \<notin> {MFlag, MBlock, MPass}" if "u \<noteq> t" for u
      using locked_by_only[OF l[unfolded mx_list_inv_def], of t u] mx_pass that by auto
    then show ?thesis using mx_pass by (auto simp: mx_empty_inv_def)
  next
    case (mx_wake_one t u us)
    then show ?thesis using i by (auto simp: mx_empty_inv_def)
  next
    case (mx_flag t)
    then show ?thesis by (auto simp: mx_empty_inv_def)
  next
    case (mx_swap t p st)
    then show ?thesis by (intro k[of _ t p]) (auto simp: spin_swap_def split: if_splits)
  next
    case (mx_spin t n)
    then show ?thesis by (intro k[of _ t "spin_load (mx_state s) n"]) auto
  next
    case (mx_check t)
    then show ?thesis by (intro k[of _ t "if mx_state s = Contended then MBlock else MPass"]) auto
  next
    case (mx_sleep t)
    then show ?thesis using i by (auto simp: mx_empty_inv_def)
  qed (auto intro: k split: if_splits)
qed

lemma mx_held_keep:
  assumes "mx_held_inv s" "mx_pc s' = (mx_pc s)(t := p)" "p \<noteq> MHeld" "mx_pc s t \<noteq> MHeld"
    "mx_state s' = Unlocked \<longleftrightarrow> mx_state s = Unlocked"
  shows "mx_held_inv s'"
  using assms unfolding mx_held_inv_def by (auto split: if_splits)

lemma mx_held_take:
  assumes "mx_held_inv s" "mx_pc s' = (mx_pc s)(t := MHeld)" "mx_state s = Unlocked" "mx_state s' \<noteq> Unlocked"
  shows "mx_held_inv s'"
  using assms unfolding mx_held_inv_def by (auto split: if_splits)

lemma mx_held_release:
  assumes "mx_held_inv s" "mx_pc s' = (mx_pc s)(t := p)" "mx_pc s t = MHeld" "p \<noteq> MHeld" "mx_state s' = Unlocked"
  shows "mx_held_inv s'"
  using assms unfolding mx_held_inv_def by (auto split: if_splits)

lemma mx_held_step:
  assumes st: "mx_step s s'" and i: "mx_held_inv s" and q: "mx_queue_inv s"
  shows "mx_held_inv s'"
proof -
  note k = mx_held_keep[OF i] and tk = mx_held_take[OF i] and rl = mx_held_release[OF i]
  show ?thesis using st
  proof cases
    case (mx_try t ok st)
    then show ?thesis by (cases ok) (auto simp: try_lock_internal_def split: if_splits intro: k tk)
  next
    case (mx_lock t ok st)
    then show ?thesis by (cases ok) (auto simp: try_lock_internal_def split: if_splits intro: k tk)
  next
    case (mx_swap t p st)
    then show ?thesis by (auto simp: spin_swap_def split: if_splits intro: k tk)
  next
    case (mx_unlock t st wake)
    then show ?thesis by (intro rl[of _ t "if wake then MWake else MIdle"]) (auto simp: mutex_unlock_def)
  next
    case (mx_wake_one t u us)
    then have "mx_pc s u = MAsleep" using q unfolding mx_queue_inv_def by (metis list.set_intros(1))
    moreover have "mx_held_inv (goto t MIdle (s\<lparr>mx_queue := us\<rparr>))" using mx_wake_one by (intro k[of _ t MIdle]) auto
    ultimately show ?thesis
      using mx_held_keep[of "goto t MIdle (s\<lparr>mx_queue := us\<rparr>)" s' u "MSpin MUTEX_TRIES"] mx_wake_one by auto
  next
    case (mx_spin t n)
    then show ?thesis by (intro k[of _ t "spin_load (mx_state s) n"]) auto
  qed (auto intro: k split: if_splits)
qed

lemma mx_wake_keep:
  assumes i: "mx_wake_inv s" and pc: "mx_pc s' = (mx_pc s)(t := p)"
    and c: "mx_state s = Contended \<Longrightarrow> mx_state s' = Contended \<or> responsible p"
    and b: "p \<in> {MBlock, MAsleep} \<Longrightarrow> mx_pc s t \<in> {MBlock, MAsleep} \<or> mx_state s' = Contended"
    and r: "responsible (mx_pc s t) \<Longrightarrow> responsible p \<or> mx_state s' = Contended"
  shows "mx_wake_inv s'"
proof -
  consider "mx_state s = Contended" | "\<And>u. mx_pc s u \<notin> {MBlock, MAsleep}" | u where "responsible (mx_pc s u)"
    using i unfolding mx_wake_inv_def by blast
  then show ?thesis
  proof cases
    case 1
    with c have "mx_state s' = Contended \<or> responsible (mx_pc s' t)" by (simp add: pc)
    then show ?thesis unfolding mx_wake_inv_def by blast
  next
    case 2
    with b[THEN disjE] have "mx_state s' = Contended \<or> (\<forall>u. mx_pc s' u \<notin> {MBlock, MAsleep})"
      by (auto simp: pc)
    then show ?thesis unfolding mx_wake_inv_def by blast
  next
    case (3 u)
    with r have "mx_state s' = Contended \<or> responsible (mx_pc s' u)" by (auto simp: pc)
    then show ?thesis unfolding mx_wake_inv_def by blast
  qed
qed

lemma mx_wake_none:
  "(\<And>t. mx_pc s t \<notin> {MBlock, MAsleep}) \<Longrightarrow> mx_wake_inv s"
  unfolding mx_wake_inv_def by blast

lemma mx_no_sleeper: "mx_queue_inv s \<Longrightarrow> mx_queue s = [] \<Longrightarrow> mx_pc s t \<noteq> MAsleep"
  by (auto simp: mx_queue_inv_def)

lemma mx_wake_step:
  assumes st: "mx_step s s'" and i: "mx_wake_inv s" and l: "mx_list_inv s" and q: "mx_queue_inv s"
    and e: "mx_empty_inv s"
  shows "mx_wake_inv s'"
proof -
  note k = mx_wake_keep[OF i]
  show ?thesis using st
  proof cases
    case (mx_empty t)
    show ?thesis
    proof (cases "mx_empty s")
      case True
      then have "mx_pc s u \<notin> {MBlock, MAsleep}" for u
        using e mx_no_sleeper[OF q, of u] by (simp add: mx_empty_inv_def)
      then show ?thesis using mx_empty True by (intro mx_wake_none) auto
    next
      case False
      then show ?thesis using mx_empty by (intro k[of _ t MWant]) auto
    qed
  next
    case (mx_wake_none t)
    have "mx_pc s u \<noteq> MBlock" for u
      using locked_byD[OF l[unfolded mx_list_inv_def], of u] mx_wake_none by auto
    then show ?thesis using mx_wake_none mx_no_sleeper[OF q] by (intro Async_Mutex.mx_wake_none) auto
  next
    case (mx_wake_one t u us)
    then have "responsible (mx_pc s' u)" by simp
    then show ?thesis unfolding mx_wake_inv_def by blast
  next
    case (mx_spin t n)
    show ?thesis
      by (rule spin_load_cases[of "mx_state s" n]; intro k[of _ t "spin_load (mx_state s) n"]; use mx_spin in auto)
  next
    case (mx_swap t p st)
    then show ?thesis by (intro k[of _ t p]) (auto simp: spin_swap_def)
  next
    case (mx_try t ok st)
    then show ?thesis
      by (intro k[of _ t "if ok then MHeld else MIdle"]) (auto simp: try_lock_internal_def split: if_splits)
  next
    case (mx_lock t ok st)
    then show ?thesis
      by (intro k[of _ t "if ok then MHeld else MSpin MUTEX_TRIES"]) (auto simp: try_lock_internal_def split: if_splits)
  next
    case (mx_check t)
    then show ?thesis by (intro k[of _ t "if mx_state s = Contended then MBlock else MPass"]) (auto split: if_splits)
  next
    case (mx_unlock t st wake)
    then show ?thesis by (intro k[of _ t "if wake then MWake else MIdle"]) (auto simp: mutex_unlock_def)
  next
    case (mx_sleep t)
    then show ?thesis by (intro k[of _ t MAsleep]) auto
  next
    case (mx_interrupted t)
    then show ?thesis by (intro k[of _ t "MIdle"]) auto
  next
    case (mx_wait_interrupted t)
    then show ?thesis by (intro k[of _ t "MSpin MUTEX_TRIES"]) auto
  next
    case (mx_flag t)
    then show ?thesis by (intro k[of _ t "MFlag"]) auto
  next
    case (mx_pass t)
    then show ?thesis by (intro k[of _ t "MUnlist"]) auto
  next
    case (mx_cancel t)
    then show ?thesis by (intro k[of _ t "MSpin MUTEX_TRIES"]) auto
  next
    case (mx_wait t)
    then show ?thesis by (intro k[of _ t "MList"]) auto
  next
    case (mx_unlist t)
    then show ?thesis by (intro k[of _ t "MSpin MUTEX_TRIES"]) auto
  qed
qed

interpretation mutex: mutual_exclusion "\<lambda>s. s = mx_initial" mx_step mx_inv "\<lambda>s t. mx_pc s t = MHeld"
proof
  show "s = mx_initial \<Longrightarrow> mx_inv s" for s
    by (simp add: mx_initial_def mx_inv_def mx_list_inv_def mx_queue_inv_def mx_empty_inv_def mx_held_inv_def
      mx_wake_inv_def locked_by_def)
  show "mx_inv s \<Longrightarrow> mx_step s t \<Longrightarrow> mx_inv t" for s t
    unfolding mx_inv_def
    using mx_list_step mx_queue_step mx_empty_step mx_held_step mx_wake_step by blast
  show "mx_inv s \<Longrightarrow> mx_pc s t = MHeld \<Longrightarrow> mx_pc s u = MHeld \<Longrightarrow> t = u" for s t u
    unfolding mx_inv_def mx_held_inv_def by blast
qed

section \<open>Properties\<close>

text \<open>C3: The async mutex excludes: in every interleaving of lock, try_lock, unlock, waits, cancellations
  and interrupts, at most one thread holds a guard, and the state word says Unlocked exactly when
  nobody does.\<close>

theorem mutex_excludes:
  assumes "mx_step\<^sup>*\<^sup>* mx_initial s"
  shows "(mx_pc s t = MHeld \<longrightarrow> mx_pc s u = MHeld \<longrightarrow> t = u) \<and>
    (mx_state s = Unlocked \<longleftrightarrow> (\<forall>t. mx_pc s t \<noteq> MHeld))"
proof -
  have "mx_inv s" using mutex.steps_inv[OF _ assms] mutex.start_inv by blast
  then show ?thesis unfolding mx_inv_def mx_held_inv_def by blast
qed

text \<open>C8: No wake-up of the async mutex is lost: whenever a thread sleeps on it, either the word says
  Contended, so that a holder exists whose unlock will wake a sleeper, or some thread is on its way
  to wake one or to mark the mutex contended. In particular nobody sleeps on a free mutex with no
  such thread around.\<close>

theorem mutex_wakeups_are_not_lost:
  assumes "mx_step\<^sup>*\<^sup>* mx_initial s" "mx_pc s t = MAsleep"
  shows "(mx_state s = Contended \<and> (\<exists>h. mx_pc s h = MHeld)) \<or> (\<exists>u. responsible (mx_pc s u))"
proof -
  have i: "mx_inv s" using mutex.steps_inv[OF _ assms(1)] mutex.start_inv by blast
  then have "mx_state s = Contended \<or> (\<exists>u. responsible (mx_pc s u))"
    using assms(2) unfolding mx_inv_def mx_wake_inv_def by blast
  moreover have "mx_state s = Contended \<Longrightarrow> \<exists>h. mx_pc s h = MHeld"
    using i unfolding mx_inv_def mx_held_inv_def by (metis mutex_state.distinct(3))
  ultimately show ?thesis by blast
qed

text \<open>Thread 0 holds the mutex and thread 1 sleeps on it.\<close>

definition mx_two :: "mutex_state \<Rightarrow> nat option \<Rightarrow> nat list \<Rightarrow> mx_pc \<Rightarrow> mx_pc \<Rightarrow> mx_sys" where
  "mx_two st l q p0 p1 = \<lparr>mx_state = st, mx_list = l, mx_empty = False, mx_queue = q,
     mx_pc = (\<lambda>t. if t = 0 then p0 else if t = 1 then p1 else MIdle)\<rparr>"

lemma mx_two_simps [simp]:
  "mx_state (mx_two st l q p0 p1) = st" "mx_list (mx_two st l q p0 p1) = l" "mx_empty (mx_two st l q p0 p1) = False"
  "mx_queue (mx_two st l q p0 p1) = q" "mx_pc (mx_two st l q p0 p1) 0 = p0" "mx_pc (mx_two st l q p0 p1) (Suc 0) = p1"
  "(mx_two st l q p0 p1)\<lparr>mx_state := st'\<rparr> = mx_two st' l q p0 p1"
  "(mx_two st l q p0 p1)\<lparr>mx_list := l'\<rparr> = mx_two st l' q p0 p1"
  "(mx_two st l q p0 p1)\<lparr>mx_empty := False\<rparr> = mx_two st l q p0 p1"
  "(mx_two st l q p0 p1)\<lparr>mx_queue := q'\<rparr> = mx_two st l q' p0 p1"
  "goto 0 p (mx_two st l q p0 p1) = mx_two st l q p p1"
  "goto (Suc 0) p (mx_two st l q p0 p1) = mx_two st l q p0 p"
  by (auto simp: mx_two_def goto_def)

lemma mx_two_spin:
  assumes "mx_step\<^sup>*\<^sup>* mx_initial (mx_two Locked None [] MHeld (MSpin n))"
  shows "mx_step\<^sup>*\<^sup>* mx_initial (mx_two Locked None [] MHeld MSwap)"
  using assms
proof (induction n)
  case 0
  from rtranclp.rtrancl_into_rtrancl[OF 0 mx_spin[of _ "Suc 0" 0]] show ?case by (simp add: spin_load_def)
next
  case (Suc n)
  from rtranclp.rtrancl_into_rtrancl[OF Suc.prems mx_spin[of _ "Suc 0" "Suc n"]]
  have "mx_step\<^sup>*\<^sup>* mx_initial (mx_two Locked None [] MHeld (MSpin n))" by (simp add: spin_load_def)
  then show ?case by (rule Suc.IH)
qed

lemma mx_two_asleep: "mx_step\<^sup>*\<^sup>* mx_initial (mx_two Contended None [Suc 0] MHeld MAsleep)"
proof -
  note go = rtranclp.rtrancl_into_rtrancl[of mx_step]
  have "mx_step\<^sup>*\<^sup>* mx_initial mx_initial" by simp
  moreover have "mx_initial = mx_two Unlocked None [] MIdle MIdle" by (auto simp: mx_initial_def mx_two_def)
  ultimately have "mx_step\<^sup>*\<^sup>* mx_initial (mx_two Unlocked None [] MIdle MIdle)" by simp
  from go[OF this mx_lock[of _ 0 True Locked]]
  have "mx_step\<^sup>*\<^sup>* mx_initial (mx_two Locked None [] MHeld MIdle)" by (simp add: try_lock_internal_def)
  from go[OF this mx_lock[of _ "Suc 0" False Locked]]
  have "mx_step\<^sup>*\<^sup>* mx_initial (mx_two Locked None [] MHeld (MSpin MUTEX_TRIES))" by (simp add: try_lock_internal_def)
  from go[OF mx_two_spin[OF this] mx_swap[of _ "Suc 0" MFailed Contended]]
  have "mx_step\<^sup>*\<^sup>* mx_initial (mx_two Contended None [] MHeld MFailed)" by (simp add: spin_swap_def)
  from go[OF this mx_wait[of _ "Suc 0"]] have "mx_step\<^sup>*\<^sup>* mx_initial (mx_two Contended (Some (Suc 0)) [] MHeld MList)" by simp
  from go[OF this mx_flag[of _ "Suc 0"]] have "mx_step\<^sup>*\<^sup>* mx_initial (mx_two Contended (Some (Suc 0)) [] MHeld MFlag)" by simp
  from go[OF this mx_check[of _ "Suc 0"]] have "mx_step\<^sup>*\<^sup>* mx_initial (mx_two Contended (Some (Suc 0)) [] MHeld MBlock)" by simp
  from go[OF this mx_sleep[of _ "Suc 0"]] show ?thesis by simp
qed

theorem mutex_excludes_witness:
  "mx_state (mx_two Contended None [Suc 0] MHeld MAsleep) \<noteq> Unlocked"
  using mutex_excludes[OF mx_two_asleep, of 0 0] by force

theorem mutex_wakeups_are_not_lost_witness:
  "\<exists>h. mx_pc (mx_two Contended None [Suc 0] MHeld MAsleep) h = MHeld"
  using mutex_wakeups_are_not_lost[OF mx_two_asleep, of "Suc 0"] by (auto simp: mx_two_def split: if_splits)

end
