(* ===== verification/Atomic_Waiter.thy ===== *)
theory Atomic_Waiter
  imports Wait_List
begin

text \<open>
  \<open>AtomicWaiter\<close> of \<open>src/src/async_std/sync/wait_list.rs\<close>: one atomic pointer that is null, the
  request of the single waiter, or the closed mark. Each atomic access is one definition, the calls
  are their composition run alone, and \<open>aw_step\<close> interleaves the accesses of any number of
  concurrent waiters, wakers and cancellers. The requests are distinct pointers.
\<close>

datatype waiter_slot = AwNull | AwRequest request | AwClosed

section \<open>Atomic accesses\<close>

text \<open>\<open>fetch_update\<close>: the previous pointer, and the new one unless the waiter is closed.\<close>

definition set_waiter :: "waiter_slot \<Rightarrow> waiter_slot \<Rightarrow> waiter_slot \<times> waiter_slot" where
  "set_waiter cur new = (cur, if cur \<noteq> AwClosed then new else cur)"

definition cancel_wait :: "waiter_slot \<Rightarrow> request \<Rightarrow> bool \<times> waiter_slot" where
  "cancel_wait cur r = (if cur = AwRequest r then (True, AwNull) else (False, cur))"

section \<open>Calls run alone\<close>

record 't atomic_waiter =
  aw_slot :: waiter_slot
  aw_done :: "(request \<times> (wait_error + 't)) list"

definition aw_new :: "'t atomic_waiter" where
  "aw_new = \<lparr>aw_slot = AwNull, aw_done = []\<rparr>"

definition aw_complete :: "'t atomic_waiter \<Rightarrow> request \<Rightarrow> wait_error + 't \<Rightarrow> 't atomic_waiter" where
  "aw_complete w r v = w\<lparr>aw_done := aw_done w @ [(r, v)]\<rparr>"

text \<open>The error of a suspension that does not block, from the cancelled check and the old pointer.\<close>

definition suspend_error :: "bool \<Rightarrow> bool \<Rightarrow> wait_error option" where
  "suspend_error was_closed cancelled =
     (if was_closed then Some Closed else if cancelled then Some Cancelled else None)"

definition aw_suspend ::
  "bool \<Rightarrow> 't atomic_waiter \<Rightarrow> request \<Rightarrow> (wait_error + 't) progress \<times> 't atomic_waiter" where
  "aw_suspend should_block w r =
     (let (old, s1) = set_waiter (aw_slot w) (AwRequest r);
          (cancelled, s2) = (if should_block then (False, s1) else cancel_wait s1 r);
          w1 = w\<lparr>aw_slot := s2\<rparr>;
          w2 = (case old of AwRequest p \<Rightarrow> aw_complete w1 p (Inl Cancelled) | _ \<Rightarrow> w1)
      in case suspend_error (old = AwClosed) cancelled of
           None \<Rightarrow> (Pending, w2)
         | Some e \<Rightarrow> (Done (Inl e), w2))"

definition aw_cancel :: "'t atomic_waiter \<Rightarrow> request \<Rightarrow> 't atomic_waiter" where
  "aw_cancel w r =
     (let (ok, s) = cancel_wait (aw_slot w) r; w1 = w\<lparr>aw_slot := s\<rparr>
      in if ok then aw_complete w1 r (Inl Cancelled) else w1)"

definition aw_wait ::
  "bool \<Rightarrow> bool \<Rightarrow> 't atomic_waiter \<Rightarrow> request \<Rightarrow> (wait_error + 't) progress \<times> 't atomic_waiter" where
  "aw_wait interrupted should_block w r =
     (if interrupted then (Done (Inl Cancelled), w) else aw_suspend should_block w r)"

definition aw_wake_internal :: "waiter_slot \<Rightarrow> 't atomic_waiter \<Rightarrow> 't \<Rightarrow> bool \<times> 't atomic_waiter" where
  "aw_wake_internal new w v =
     (let (old, s) = set_waiter (aw_slot w) new; w1 = w\<lparr>aw_slot := s\<rparr>
      in case old of AwRequest p \<Rightarrow> (True, aw_complete w1 p (Inr v)) | _ \<Rightarrow> (False, w1))"

definition aw_wake :: "'t atomic_waiter \<Rightarrow> 't \<Rightarrow> bool \<times> 't atomic_waiter" where
  "aw_wake w v = aw_wake_internal AwNull w v"

definition aw_close :: "'t atomic_waiter \<Rightarrow> 't \<Rightarrow> bool \<times> 't atomic_waiter" where
  "aw_close w v = aw_wake_internal AwClosed w v"

definition aw_is_closed :: "'t atomic_waiter \<Rightarrow> bool" where
  "aw_is_closed w \<longleftrightarrow> aw_slot w = AwClosed"

lemmas aw_defs = aw_new_def aw_complete_def aw_suspend_def aw_cancel_def aw_wait_def
  aw_wake_internal_def aw_wake_def aw_close_def aw_is_closed_def set_waiter_def cancel_wait_def
  suspend_error_def

lemma aw_closed_stays:
  assumes "aw_is_closed w"
  shows "aw_suspend b w r = (Done (Inl Closed), w)" "aw_wake w v = (False, w)"
    "aw_close w v = (False, w)" "aw_cancel w r = w"
  using assms by (auto simp: aw_defs)

section \<open>Interleavings\<close>

text \<open>
  Where a waiting call stands: it swapped its pointer in (and saw the waiter closed or not), it ran
  the \<open>should_block\<close> check, it sleeps, or it returned an error without sleeping.
\<close>

datatype aw_pc = AwIdle | AwSwapped bool | AwChecked bool bool | AwAsleep | AwReturned wait_error

text \<open>
  \<open>ai_owned\<close> are the completions whose sender has taken the request out of the pointer but has not
  sent yet: in the source the sender's next accesses; here they may be sent at any later time.
\<close>

record 't aw_sys =
  ai_slot :: waiter_slot
  ai_pc :: "request \<Rightarrow> aw_pc"
  ai_owned :: "(request \<times> (wait_error + 't)) multiset"
  ai_done :: "(request \<times> (wait_error + 't)) multiset"

definition aw_start :: "'t aw_sys \<Rightarrow> bool" where
  "aw_start s \<longleftrightarrow> s = \<lparr>ai_slot = AwNull, ai_pc = (\<lambda>_. AwIdle), ai_owned = {#}, ai_done = {#}\<rparr>"

definition took :: "waiter_slot \<Rightarrow> (wait_error + 't) \<Rightarrow> (request \<times> (wait_error + 't)) multiset" where
  "took old v = (case old of AwRequest p \<Rightarrow> {#(p, v)#} | _ \<Rightarrow> {#})"

inductive aw_step :: "'t aw_sys \<Rightarrow> 't aw_sys \<Rightarrow> bool" where
  aws_swap: "ai_pc s r = AwIdle \<Longrightarrow> set_waiter (ai_slot s) (AwRequest r) = (old, new) \<Longrightarrow>
    aw_step s (s\<lparr>ai_slot := new, ai_pc := (ai_pc s)(r := AwSwapped (old = AwClosed)),
      ai_owned := ai_owned s + took old (Inl Cancelled)\<rparr>)"
| aws_block: "ai_pc s r = AwSwapped c \<Longrightarrow> aw_step s (s\<lparr>ai_pc := (ai_pc s)(r := AwChecked c False)\<rparr>)"
| aws_no_block: "ai_pc s r = AwSwapped c \<Longrightarrow> cancel_wait (ai_slot s) r = (ok, new) \<Longrightarrow>
    aw_step s (s\<lparr>ai_slot := new, ai_pc := (ai_pc s)(r := AwChecked c ok)\<rparr>)"
| aws_finish: "ai_pc s r = AwChecked c k \<Longrightarrow>
    aw_step s (s\<lparr>ai_pc := (ai_pc s)(r := (case suspend_error c k of
      None \<Rightarrow> AwAsleep | Some e \<Rightarrow> AwReturned e))\<rparr>)"
| aws_cancel: "ai_pc s r = AwAsleep \<Longrightarrow> cancel_wait (ai_slot s) r = (ok, new) \<Longrightarrow>
    aw_step s (s\<lparr>ai_slot := new,
      ai_owned := ai_owned s + (if ok then {#(r, Inl Cancelled)#} else {#})\<rparr>)"
| aws_wake: "new \<in> {AwNull, AwClosed} \<Longrightarrow> set_waiter (ai_slot s) new = (old, new') \<Longrightarrow>
    aw_step s (s\<lparr>ai_slot := new', ai_owned := ai_owned s + took old (Inr v)\<rparr>)"
| aws_send: "x \<in># ai_owned s \<Longrightarrow>
    aw_step s (s\<lparr>ai_owned := ai_owned s - {#x#}, ai_done := ai_done s + {#x#}\<rparr>)"

inductive_cases aw_step_cases: "aw_step s t"

text \<open>Where the answer to a request is: exactly one place once the call has started.\<close>

definition self_answer :: "aw_pc \<Rightarrow> bool" where
  "self_answer pc = (case pc of AwSwapped c \<Rightarrow> c | AwChecked c k \<Rightarrow> c \<or> k | AwReturned _ \<Rightarrow> True | _ \<Rightarrow> False)"

definition tokens :: "'t aw_sys \<Rightarrow> request \<Rightarrow> nat" where
  "tokens s r = of_bool (ai_slot s = AwRequest r) + count (image_mset fst (ai_owned s)) r +
     count (image_mset fst (ai_done s)) r + of_bool (self_answer (ai_pc s r))"

definition aw_inv :: "'t aw_sys \<Rightarrow> bool" where
  "aw_inv s \<longleftrightarrow> (\<forall>r. tokens s r = of_bool (ai_pc s r \<noteq> AwIdle))"

lemma count_took [simp]: "count (image_mset fst (took old v)) q = of_bool (old = AwRequest q)"
  by (auto simp: took_def split: waiter_slot.splits)

lemma tokens_send:
  "x \<in># ai_owned s \<Longrightarrow>
   tokens (s\<lparr>ai_owned := ai_owned s - {#x#}, ai_done := ai_done s + {#x#}\<rparr>) r = tokens s r"
  by (auto simp: tokens_def dest!: multi_member_split)

lemma self_answer_simps [simp]:
  "\<not> self_answer AwIdle" "self_answer (AwSwapped c) = c" "self_answer (AwChecked c k) = (c \<or> k)"
  "\<not> self_answer AwAsleep" "self_answer (AwReturned e)"
  by (simp_all add: self_answer_def)

lemma tokens_step:
  assumes st: "aw_step s t" and q: "tokens s q = of_bool (ai_pc s q \<noteq> AwIdle)"
  shows "tokens t q = of_bool (ai_pc t q \<noteq> AwIdle)"
  using st
proof cases
  case (aws_swap r old new)
  with q show ?thesis
    by (cases "q = r"; cases "ai_pc s q = AwIdle") (auto simp: tokens_def set_waiter_def split: if_splits)
next
  case (aws_block r c)
  then show ?thesis using q by (cases "q = r"; cases "ai_pc s q = AwIdle") (auto simp: tokens_def)
next
  case (aws_no_block r c ok new)
  with q show ?thesis
    by (cases "q = r"; cases "ai_pc s q = AwIdle") (auto simp: tokens_def cancel_wait_def split: if_splits)
next
  case (aws_finish r c k)
  then show ?thesis using q by (cases "q = r"; cases "ai_pc s q = AwIdle") (auto simp: tokens_def suspend_error_def)
next
  case (aws_cancel r ok new)
  then show ?thesis using q
    by (cases "q = r"; cases "ai_pc s q = AwIdle") (auto simp: tokens_def cancel_wait_def split: if_splits)
next
  case (aws_wake new old new' v)
  then show ?thesis using q
    by (cases "ai_pc s q = AwIdle") (auto simp: tokens_def set_waiter_def split: if_splits)
next
  case (aws_send x)
  then show ?thesis using q tokens_send[OF aws_send(2)] by simp
qed

lemma aw_inv_step: "aw_inv s \<Longrightarrow> aw_step s t \<Longrightarrow> aw_inv t"
  unfolding aw_inv_def using tokens_step by blast

interpretation aw: transition_invariant aw_start aw_step aw_inv
proof
  show "aw_start s \<Longrightarrow> aw_inv s" for s :: "'a aw_sys"
    by (simp add: aw_start_def aw_inv_def tokens_def self_answer_def)
qed (rule aw_inv_step)

text \<open>The answers a request has got: a completion sent to it, or the error its call returned.\<close>

definition answers :: "'t aw_sys \<Rightarrow> request \<Rightarrow> nat" where
  "answers s r = count (image_mset fst (ai_done s)) r + of_bool (\<exists>e. ai_pc s r = AwReturned e)"

lemma answers_le_tokens: "answers s r \<le> tokens s r"
  by (auto simp: answers_def tokens_def self_answer_def)

lemma tokens_le_1: "reach aw_start aw_step s \<Longrightarrow> tokens s r \<le> 1"
  using aw.reach_inv[of s] by (auto simp: aw_inv_def)

lemma asleep_tokens: "reach aw_start aw_step s \<Longrightarrow> ai_pc s r = AwAsleep \<Longrightarrow> tokens s r = 1"
  using aw.reach_inv[of s] by (auto simp: aw_inv_def)

section \<open>Properties\<close>

text \<open>C13: Under every interleaving of waits, wakes, closes and cancellations of an AtomicWaiter, a
  request gets at most one answer: at most one completion is ever sent to it, and none if its call
  returned an error by itself.\<close>

theorem atomic_waiter_answers_once:
  assumes "reach aw_start aw_step s"
  shows "answers s r \<le> 1"
  using answers_le_tokens[of s r] tokens_le_1[OF assms, of r] by linarith

text \<open>C14: A sleeping request of an AtomicWaiter is never forgotten: it is still in the pointer, or a
  thread that took it out is about to complete it, or it has been completed.\<close>

theorem atomic_waiter_never_forgets:
  assumes "reach aw_start aw_step s" "ai_pc s r = AwAsleep"
  shows "ai_slot s = AwRequest r \<or> (\<exists>v. (r, v) \<in># ai_owned s) \<or> (\<exists>v. (r, v) \<in># ai_done s)"
proof -
  have *: "\<exists>v. (r, v) \<in># M" if "count (image_mset fst M) r \<noteq> 0" for M :: "(request \<times> (wait_error + 'a)) multiset"
  proof -
    have "r \<in># image_mset fst M" using that by (simp add: count_eq_zero_iff del: in_image_mset)
    then show ?thesis by auto
  qed
  have t: "tokens s r = 1" by (rule asleep_tokens[OF assms])
  show ?thesis
  proof (rule ccontr)
    assume n: "\<not> ?thesis"
    then have "count (image_mset fst (ai_owned s)) r = 0" "count (image_mset fst (ai_done s)) r = 0"
      using *[of "ai_owned s"] *[of "ai_done s"] by blast+
    with t n assms(2) show False by (simp add: tokens_def)
  qed
qed

definition aw_one :: "nat aw_sys" where
  "aw_one = \<lparr>ai_slot = AwRequest 5, ai_pc = (\<lambda>_. AwIdle)(5 := AwAsleep), ai_owned = {#}, ai_done = {#}\<rparr>"

lemma aw_one_reach: "reach aw_start aw_step aw_one"
proof -
  let ?s = "\<lparr>ai_slot = AwNull, ai_pc = (\<lambda>_. AwIdle), ai_owned = {#}, ai_done = {#}\<rparr> :: nat aw_sys"
  have "reach aw_start aw_step ?s" by (rule reach.reach_start) (simp add: aw_start_def)
  from reach.reach_step[OF this aws_swap[of ?s 5 AwNull "AwRequest 5"]]
  have "reach aw_start aw_step (?s\<lparr>ai_slot := AwRequest 5, ai_pc := (\<lambda>_. AwIdle)(5 := AwSwapped False)\<rparr>)"
    by (simp add: set_waiter_def took_def)
  from reach.reach_step[OF this aws_block[of _ 5 False]]
  have "reach aw_start aw_step (?s\<lparr>ai_slot := AwRequest 5, ai_pc := (\<lambda>_. AwIdle)(5 := AwChecked False False)\<rparr>)"
    by simp
  from reach.reach_step[OF this aws_finish[of _ 5 False False]]
  show ?thesis by (simp add: suspend_error_def aw_one_def)
qed

theorem atomic_waiter_answers_once_witness: "answers aw_one 5 \<le> 1"
  by (rule atomic_waiter_answers_once[OF aw_one_reach])

theorem atomic_waiter_never_forgets_witness:
  "ai_slot aw_one = AwRequest 5 \<or> (\<exists>v. (5, v) \<in># ai_owned aw_one) \<or> (\<exists>v. (5, v) \<in># ai_done aw_one)"
  by (rule atomic_waiter_never_forgets[OF aw_one_reach]) (simp add: aw_one_def)

end
