(* ===== verification/Block_On.thy ===== *)
theory Block_On
  imports Wait_List
begin

text \<open>
  Blocking a thread on a future: \<open>src/src/future/block_on.rs\<close> over the futex \<open>Notify\<close> of \<open>src/src/os/futex.rs\<close>. The thread that blocks and the one that completes the future
  take one step per access to the futex word or call of the kernel. The kernel's \<open>FUTEX_WAIT\<close> sleeps only if the word has the expected value, and returns when it is
  woken or interrupted; its other errors, on which the code aborts, are not modelled. \<open>None\<close> is a broken \<open>unreachable_unchecked\<close> promise.
  Shown: no notification is lost and the thread returns with the future's value.
\<close>

section \<open>The word and the value\<close>

definition PARKED :: u32 where "PARKED = 0"
definition IDLE :: u32 where "IDLE = 1"
definition NOTIFIED :: u32 where "NOTIFIED = 2"

lemmas notify_states = PARKED_def IDLE_def NOTIFIED_def

datatype 'o block_state = BlockPending | BlockDone 'o

fun block_complete :: "'o \<Rightarrow> 'o block_state \<Rightarrow> 'o block_state option" where
  "block_complete v BlockPending = Some (BlockDone v)"
| "block_complete v (BlockDone _) = None"

fun block_output :: "'o block_state \<Rightarrow> 'o option" where
  "block_output (BlockDone v) = Some v"
| "block_output BlockPending = None"

text \<open>\<open>block_on\<close> for a future that completes when it is run, or pends; \<open>after\<close> is the state when \<open>block\<close> returns.\<close>

definition block_on :: "'o progress \<Rightarrow> 'o block_state \<Rightarrow> 'o option" where
  "block_on p after = (case p of Done v \<Rightarrow> Some v | Pending \<Rightarrow> block_output after)"

section \<open>Two threads\<close>

text \<open>
  The blocking thread: at the top of the loop, past the \<open>fetch_sub\<close> that found the word idle, asleep in the kernel, past the kernel call, and out of the
  loop. The completing thread: before the completion, between its swap and the wake-up it owes, and done.
\<close>

datatype block_pc = LoopTop | Subtracted | Asleep | Returned | Out
datatype notify_pc = NotYet | OwesWake | Notified

record 'o blocking =
  bk_word :: u32
  bk_state :: "'o block_state"
  bk_pc :: block_pc
  bk_notifier :: notify_pc
  bk_cancel :: bool
  bk_cancels :: nat

definition block_start :: "'o blocking" where
  "block_start = \<lparr>bk_word = IDLE, bk_state = BlockPending, bk_pc = LoopTop, bk_notifier = NotYet, bk_cancel = True, bk_cancels = 0\<rparr>"

text \<open>The cancel that the loop of \<open>block_on_sync\<close> takes when \<open>should_cancel\<close> says so.\<close>

definition block_take_cancel :: "bool \<Rightarrow> 'o blocking \<Rightarrow> 'o blocking" where
  "block_take_cancel should_cancel s =
     (if bk_cancel s \<and> should_cancel then s\<lparr>bk_cancel := False, bk_cancels := bk_cancels s + 1\<rparr> else s)"

definition notify_wait_sub :: "'o blocking \<Rightarrow> 'o blocking" where
  "notify_wait_sub s =
     s\<lparr>bk_word := bk_word s - 1, bk_pc := (if bk_word s = NOTIFIED then Out else Subtracted)\<rparr>"

definition futex_wait :: "'o blocking \<Rightarrow> 'o blocking" where
  "futex_wait s = s\<lparr>bk_pc := (if bk_word s = PARKED then Asleep else Returned)\<rparr>"

definition notify_wait_swap :: "'o blocking \<Rightarrow> 'o blocking" where
  "notify_wait_swap s = s\<lparr>bk_word := IDLE, bk_pc := (if bk_word s = NOTIFIED then Out else LoopTop)\<rparr>"

text \<open>\<open>block_resume\<close> and \<open>Notify::notify\<close>: the value is stored, then the word is swapped.\<close>

definition resume_swap :: "'o \<Rightarrow> 'o blocking \<Rightarrow> 'o blocking option" where
  "resume_swap v s =
     map_option (\<lambda>b. s\<lparr>bk_state := b, bk_word := NOTIFIED, bk_notifier := (if bk_word s = PARKED then OwesWake else Notified)\<rparr>)
       (block_complete v (bk_state s))"

definition futex_wake :: "'o blocking \<Rightarrow> 'o blocking" where
  "futex_wake s = s\<lparr>bk_pc := (if bk_pc s = Asleep then Returned else bk_pc s), bk_notifier := Notified\<rparr>"

inductive block_step :: "'o blocking \<Rightarrow> 'o blocking \<Rightarrow> bool" where
  loop_cancel: "bk_pc s = LoopTop \<Longrightarrow> block_step s (block_take_cancel should_cancel s)"
| loop_sub: "bk_pc s = LoopTop \<Longrightarrow> block_step s (notify_wait_sub s)"
| loop_futex: "bk_pc s = Subtracted \<Longrightarrow> block_step s (futex_wait s)"
| loop_signal: "bk_pc s = Asleep \<Longrightarrow> block_step s (s\<lparr>bk_pc := Returned\<rparr>)"
| loop_swap: "bk_pc s = Returned \<Longrightarrow> block_step s (notify_wait_swap s)"
| future_completes: "bk_notifier s = NotYet \<Longrightarrow> resume_swap v s = Some t \<Longrightarrow> block_step s t"
| notifier_wakes: "bk_notifier s = OwesWake \<Longrightarrow> block_step s (futex_wake s)"

text \<open>What the blocking thread does next by itself.\<close>

definition block_own :: "'o blocking \<Rightarrow> 'o blocking" where
  "block_own s =
     (case bk_pc s of LoopTop \<Rightarrow> notify_wait_sub s | Subtracted \<Rightarrow> futex_wait s | Returned \<Rightarrow> notify_wait_swap s | _ \<Rightarrow> s)"

definition block_ok :: "'o blocking \<Rightarrow> bool" where
  "block_ok s \<longleftrightarrow>
     (bk_notifier s = NotYet \<longrightarrow> bk_state s = BlockPending \<and>
        bk_word s = (if bk_pc s = LoopTop then IDLE else PARKED) \<and> bk_pc s \<noteq> Out) \<and>
     (bk_notifier s \<noteq> NotYet \<longrightarrow> (\<exists>v. bk_state s = BlockDone v) \<and> (bk_pc s \<noteq> Out \<longrightarrow> bk_word s = NOTIFIED)) \<and>
     (bk_notifier s = Notified \<longrightarrow> bk_pc s \<noteq> Asleep) \<and>
     bk_cancels s + (if bk_cancel s then 1 else 0) = 1"

lemma word_states: "IDLE - 1 = PARKED" "NOTIFIED - 1 = IDLE" "IDLE \<noteq> NOTIFIED" "PARKED \<noteq> NOTIFIED" "NOTIFIED \<noteq> PARKED" "NOTIFIED \<noteq> IDLE"
  by (simp_all add: notify_states)

lemma block_step_ok:
  assumes "block_step s t" "block_ok s"
  shows "block_ok t"
  using assms(1)
proof cases
  case (loop_cancel should_cancel)
  then show ?thesis using assms(2) by (simp add: block_ok_def block_take_cancel_def split: if_splits)
next
  case loop_sub
  then show ?thesis using assms(2)
    by (cases "bk_notifier s = NotYet") (simp_all add: block_ok_def notify_wait_sub_def word_states)
next
  case loop_futex
  then show ?thesis using assms(2)
    by (cases "bk_notifier s = NotYet") (simp_all add: block_ok_def futex_wait_def word_states)
next
  case loop_signal
  then show ?thesis using assms(2) by (simp add: block_ok_def)
next
  case loop_swap
  then show ?thesis using assms(2)
    by (cases "bk_notifier s = NotYet") (simp_all add: block_ok_def notify_wait_swap_def word_states)
next
  case (future_completes v)
  then have b: "bk_state s = BlockPending" "bk_pc s \<noteq> Out" "bk_word s = (if bk_pc s = LoopTop then IDLE else PARKED)"
    using assms(2) by (simp_all add: block_ok_def)
  then have "t = s\<lparr>bk_state := BlockDone v, bk_word := NOTIFIED, bk_notifier := (if bk_word s = PARKED then OwesWake else Notified)\<rparr>"
    using future_completes(2) by (simp add: resume_swap_def)
  then show ?thesis using assms(2) b by (auto simp: block_ok_def notify_states)
next
  case notifier_wakes
  then show ?thesis using assms(2) by (simp add: block_ok_def futex_wake_def)
qed

interpretation blocking: transition_invariant "\<lambda>s. s = block_start" block_step block_ok
proof
  show "block_ok s" if "s = block_start" for s :: "'o blocking" unfolding that by (simp add: block_ok_def block_start_def)
  show "block_ok t" if "block_ok s" "block_step s t" for s t :: "'o blocking" using that by (rule block_step_ok[rotated])
qed

text \<open>C15: A thread blocked on a future leaves its loop only when the future has completed, and then returns its value; the future completes, and
  is cancelled, at most once; and once the completing thread is done, the blocked one is not asleep, whatever the interleaving and the
  signals, and is out of the loop within two further steps of its own.\<close>

theorem blocked_thread_returns_the_value:
  assumes "reach (\<lambda>s. s = block_start) block_step s"
  shows "(bk_pc s = Out \<longrightarrow> (\<exists>v. bk_state s = BlockDone v \<and> block_on Pending (bk_state s) = Some v)) \<and>
    (bk_notifier s = NotYet \<longrightarrow> resume_swap v s \<noteq> None) \<and> bk_cancels s \<le> 1 \<and>
    (bk_notifier s = Notified \<longrightarrow> bk_pc s \<noteq> Asleep \<and> bk_pc (block_own (block_own s)) = Out)"
proof -
  have ok: "block_ok s" by (rule blocking.reach_inv[OF assms])
  have own: "bk_pc (block_own (block_own s)) = Out" if n: "bk_notifier s = Notified"
  proof -
    have w: "bk_pc s \<noteq> Out \<longrightarrow> bk_word s = NOTIFIED" "bk_pc s \<noteq> Asleep" using ok n by (simp_all add: block_ok_def)
    show ?thesis
      by (cases "bk_pc s")
        (use w in \<open>simp_all add: block_own_def notify_wait_sub_def futex_wait_def notify_wait_swap_def word_states\<close>)
  qed
  have out: "\<exists>v. bk_state s = BlockDone v \<and> block_on Pending (bk_state s) = Some v" if "bk_pc s = Out"
  proof -
    have "bk_notifier s \<noteq> NotYet" using ok that unfolding block_ok_def by blast
    then obtain w where "bk_state s = BlockDone w" using ok unfolding block_ok_def by blast
    then show ?thesis by (simp add: block_on_def)
  qed
  show ?thesis
  proof (intro conjI impI)
    show "resume_swap v s \<noteq> None" if "bk_notifier s = NotYet"
      using ok that by (simp add: block_ok_def resume_swap_def)
    show "bk_cancels s \<le> 1" using ok unfolding block_ok_def by linarith
    show "bk_pc s \<noteq> Asleep" if "bk_notifier s = Notified" using ok that unfolding block_ok_def by blast
  qed (fact out own)+
qed

text \<open>The thread falls asleep, the future completes, and its thread has yet to wake it.\<close>

definition woken_blocking :: "nat blocking" where
  "woken_blocking = \<lparr>bk_word = NOTIFIED, bk_state = BlockDone 9, bk_pc = Returned, bk_notifier = Notified, bk_cancel = True, bk_cancels = 0\<rparr>"

lemma woken_reach: "reach (\<lambda>s. s = block_start) block_step woken_blocking"
proof -
  let ?a = "block_start\<lparr>bk_word := PARKED, bk_pc := Subtracted\<rparr> :: nat blocking"
  let ?b = "?a\<lparr>bk_pc := Asleep\<rparr>"
  let ?c = "?b\<lparr>bk_word := NOTIFIED, bk_state := BlockDone 9, bk_notifier := OwesWake\<rparr>"
  have "reach (\<lambda>s. s = block_start) block_step block_start" by (rule reach_start) simp
  moreover have "block_step block_start ?a"
    using loop_sub[of block_start] by (simp add: block_start_def notify_wait_sub_def notify_states)
  moreover have "block_step ?a ?b" using loop_futex[of ?a] by (simp add: block_start_def futex_wait_def)
  moreover have "block_step ?b ?c"
    by (rule future_completes[of _ 9]) (simp_all add: block_start_def resume_swap_def notify_states)
  moreover have "block_step ?c woken_blocking"
    using notifier_wakes[of ?c] by (simp add: block_start_def futex_wake_def woken_blocking_def)
  ultimately show ?thesis by (blast intro: reach_step)
qed

theorem blocked_thread_returns_the_value_witness:
  "bk_pc (block_own (block_own woken_blocking)) = Out \<and> bk_state woken_blocking = BlockDone 9"
  using blocked_thread_returns_the_value[OF woken_reach] by (simp add: woken_blocking_def)

end
