(* ===== verification/Branch.thy ===== *)
theory Branch
  imports Wait_List
begin

text \<open>
  Running two futures together: \<open>src/src/coroutines/branch.rs\<close> with \<open>select.rs\<close> and \<open>join.rs\<close>. A future is
  what it does when it is run (a \<open>progress\<close>, whose result is \<open>None\<close> for a panic) and what its cancel does (complete it from within
  the call or not, and what the call returns), which are parameters. The callbacks of the two futures are \<open>complete_one\<close>, with the
  call they may make of the other's cancel, from which the other's callback can be called again. \<open>None\<close> is a broken
  \<open>unreachable_unchecked\<close> promise. Shown: from a \<open>run\<close> that returned pending, in any order of
  completions and cancellations, exactly one result is delivered, when both futures finished, and it names the one that finished first.
\<close>

section \<open>Handles\<close>

datatype 'o handle = HReady | HPending | HDone "'o maybe_panic" | HEmpty

fun handle_done :: "'o handle \<Rightarrow> bool" where
  "handle_done (HDone _) = True"
| "handle_done _ = False"

definition take_cancel :: "'o handle \<Rightarrow> bool \<times> 'o handle" where
  "take_cancel h = (if h = HPending then (True, HEmpty) else (False, h))"

definition handle_complete :: "'o handle \<Rightarrow> 'o maybe_panic \<Rightarrow> 'o handle option" where
  "handle_complete h r = (if handle_done h then None else Some (HDone r))"

fun handle_result :: "'o handle \<Rightarrow> ('o maybe_panic \<times> 'o handle) option" where
  "handle_result (HDone r) = Some (r, HEmpty)"
| "handle_result _ = None"

text \<open>\<open>FutureHandle::run\<close>: taking the future out, and storing what became of it.\<close>

definition handle_start :: "'o handle \<Rightarrow> 'o handle option" where
  "handle_start h = (if h = HReady then Some HEmpty else None)"

fun handle_started :: "'o maybe_panic progress \<Rightarrow> 'o handle \<Rightarrow> ('o maybe_panic option \<times> 'o handle) option" where
  "handle_started Pending h = Some (None, HPending)"
| "handle_started (Done r) h = map_option (\<lambda>h'. (Some r, h')) (handle_complete h r)"

section \<open>The branch\<close>

type_synonym 'o branch_output = "bool \<times> 'o maybe_panic option \<times> 'o maybe_panic option"

record 'o branch =
  bh_first :: "'o handle"
  bh_second :: "'o handle"
  bh_interrupt :: bool
  bh_output :: "'o branch_output list"

definition branch_new :: "'o branch" where
  "branch_new = \<lparr>bh_first = HReady, bh_second = HReady, bh_interrupt = False, bh_output = []\<rparr>"

definition handle_of :: "bool \<Rightarrow> 'o branch \<Rightarrow> 'o handle" where
  "handle_of is_first b = (if is_first then bh_first b else bh_second b)"

definition set_handle :: "bool \<Rightarrow> 'o handle \<Rightarrow> 'o branch \<Rightarrow> 'o branch" where
  "set_handle is_first h b = (if is_first then b\<lparr>bh_first := h\<rparr> else b\<lparr>bh_second := h\<rparr>)"

text \<open>A cancel: the value the future completes with from within the call, if it does, and what the call returns.\<close>

datatype ('e, 'o) canceller = Canceller (completes: "'o option") (returns: "('e, unit) outcome")

definition complete_single ::
  "(bool \<Rightarrow> 'o branch \<Rightarrow> 'o branch option) \<Rightarrow> bool \<Rightarrow> bool \<Rightarrow> 'o branch \<Rightarrow> 'o branch option" where
  "complete_single cancel is_first should_cancel b =
     (if bh_interrupt b then Some (b\<lparr>bh_interrupt := False\<rparr>)
      else if handle_done (bh_first b) \<and> handle_done (bh_second b) then
        (case (handle_result (bh_first b), handle_result (bh_second b)) of
           (Some (r1, h1), Some (r2, h2)) \<Rightarrow>
             Some (b\<lparr>bh_first := h1, bh_second := h2, bh_output := bh_output b @ [(\<not> is_first, Some r1, Some r2)]\<rparr>)
         | _ \<Rightarrow> None)
      else if \<not> should_cancel then Some b
      else cancel (\<not> is_first) b)"

text \<open>\<open>run_cancel\<close> on a branch: what the cancel of one future does to it.\<close>

definition run_cancel ::
  "(bool \<Rightarrow> 'o \<Rightarrow> 'o branch \<Rightarrow> 'o branch option) \<Rightarrow> (bool \<Rightarrow> ('e, 'o) canceller) \<Rightarrow> bool \<Rightarrow> 'o branch \<Rightarrow> 'o branch option" where
  "run_cancel callback cs i b = (case completes (cs i) of None \<Rightarrow> Some b | Some v \<Rightarrow> callback i v b)"

definition handle_cancel ::
  "(bool \<Rightarrow> 'o \<Rightarrow> 'o branch \<Rightarrow> 'o branch option) \<Rightarrow> (bool \<Rightarrow> ('e, 'o) canceller) \<Rightarrow> bool \<Rightarrow> 'o branch \<Rightarrow> 'o branch option" where
  "handle_cancel callback cs i b =
     (case take_cancel (handle_of i b) of
        (True, h) \<Rightarrow> run_cancel callback cs i (set_handle i h b)
      | (False, _) \<Rightarrow> None)"

text \<open>\<open>complete_first\<close> and \<open>complete_second\<close>, with a bound on how deep callbacks nest in cancels.\<close>

primrec complete_one ::
  "nat \<Rightarrow> (bool \<Rightarrow> ('e, 'o) canceller) \<Rightarrow> (bool \<Rightarrow> 'o maybe_panic \<Rightarrow> bool) \<Rightarrow> bool \<Rightarrow> 'o \<Rightarrow> 'o branch \<Rightarrow> 'o branch option" where
  "complete_one 0 cs sc i v b = None"
| "complete_one (Suc n) cs sc i v b =
     (case handle_complete (handle_of i b) (Some v) of
        None \<Rightarrow> None
      | Some h \<Rightarrow>
          complete_single (handle_cancel (complete_one n cs sc) cs) i (sc i (Some v)) (set_handle i h b))"

definition callback ::
  "(bool \<Rightarrow> ('e, 'o) canceller) \<Rightarrow> (bool \<Rightarrow> 'o maybe_panic \<Rightarrow> bool) \<Rightarrow> bool \<Rightarrow> 'o \<Rightarrow> 'o branch \<Rightarrow> 'o branch option" where
  "callback = complete_one 2"

text \<open>The errors of the two cancels: the first error, unless one of them panicked.\<close>

fun collect_cancels :: "('e, unit) outcome \<Rightarrow> ('e, unit) outcome list \<Rightarrow> ('e, unit) outcome" where
  "collect_cancels result [] = result"
| "collect_cancels result (Panic # rs) = Panic"
| "collect_cancels result (r # rs) = collect_cancels (if is_ok result then r else result) rs"

definition cancel_all ::
  "(bool \<Rightarrow> ('e, 'o) canceller) \<Rightarrow> (bool \<Rightarrow> 'o maybe_panic \<Rightarrow> bool) \<Rightarrow> 'o branch \<Rightarrow> (('e, unit) outcome \<times> 'o branch) option" where
  "cancel_all cs sc b =
     (let (t1, h1) = take_cancel (bh_first b);
          (t2, h2) = take_cancel (bh_second b);
          b1 = b\<lparr>bh_first := h1, bh_second := h2, bh_interrupt := bh_interrupt b \<or> (t1 \<and> t2)\<rparr>
      in case (if t1 then run_cancel (callback cs sc) cs True b1 else Some b1) of
           None \<Rightarrow> None
         | Some b2 \<Rightarrow>
             (case (if t2 then run_cancel (callback cs sc) cs False b2 else Some b2) of
                None \<Rightarrow> None
              | Some b3 \<Rightarrow>
                  Some (collect_cancels (Ok ()) ((if t1 then [returns (cs True)] else []) @ (if t2 then [returns (cs False)] else [])), b3)))"

text \<open>
  \<open>Branch::run\<close>: \<open>p1\<close> and \<open>p2\<close> are what running the futures gives, and \<open>during\<close> the value the first future completes with while
  the second is being started, if it does.
\<close>

definition run_first :: "'o maybe_panic progress \<Rightarrow> 'o branch \<Rightarrow> ('o maybe_panic option \<times> 'o branch) option" where
  "run_first p1 b =
     (case handle_start (bh_first b) of
        None \<Rightarrow> None
      | Some h \<Rightarrow> map_option (\<lambda>(r, h'). (r, b\<lparr>bh_first := h'\<rparr>)) (handle_started p1 h))"

definition run_second ::
  "(bool \<Rightarrow> ('e, 'o) canceller) \<Rightarrow> (bool \<Rightarrow> 'o maybe_panic \<Rightarrow> bool) \<Rightarrow> 'o option \<Rightarrow> 'o maybe_panic progress \<Rightarrow> 'o branch \<Rightarrow>
    ('o maybe_panic option \<times> 'o branch) option" where
  "run_second cs sc during p2 b =
     (case handle_start (bh_second b) of
        None \<Rightarrow> None
      | Some h \<Rightarrow>
          (case (case during of None \<Rightarrow> Some (b\<lparr>bh_second := h\<rparr>) | Some v \<Rightarrow> callback cs sc True v (b\<lparr>bh_second := h\<rparr>)) of
             None \<Rightarrow> None
           | Some b1 \<Rightarrow> map_option (\<lambda>(r, h'). (r, b1\<lparr>bh_second := h'\<rparr>)) (handle_started p2 (bh_second b1))))"

definition branch_both_done :: "bool \<Rightarrow> 'o branch \<Rightarrow> ('o branch_output progress \<times> 'o branch) option" where
  "branch_both_done done b =
     (case (handle_result (bh_first b), handle_result (bh_second b)) of
        (Some (r1, h1), Some (r2, h2)) \<Rightarrow> Some (Done (done, Some r1, Some r2), b\<lparr>bh_first := h1, bh_second := h2\<rparr>)
      | _ \<Rightarrow> None)"

definition branch_run ::
  "(bool \<Rightarrow> ('e, 'o) canceller) \<Rightarrow> (bool \<Rightarrow> 'o maybe_panic \<Rightarrow> bool) \<Rightarrow> 'o maybe_panic progress \<Rightarrow> 'o option \<Rightarrow> 'o maybe_panic progress \<Rightarrow>
    'o branch \<Rightarrow> ('o branch_output progress \<times> 'o branch) option" where
  "branch_run cs sc p1 during p2 b =
     (case run_first p1 b of
        None \<Rightarrow> None
      | Some (r1, b1) \<Rightarrow>
          if (case r1 of None \<Rightarrow> False | Some r \<Rightarrow> sc True r) then
            map_option (\<lambda>(r, h). (Done (True, Some r, None), b1\<lparr>bh_first := h\<rparr>)) (handle_result (bh_first b1))
          else
            (case run_second cs sc during p2 b1 of
               None \<Rightarrow> None
             | Some (None, b2) \<Rightarrow> Some (Pending, b2)
             | Some (Some r, b2) \<Rightarrow>
                 if handle_done (bh_first b2) then branch_both_done True b2
                 else if sc False r then
                   (case handle_cancel (callback cs sc) cs True (b2\<lparr>bh_interrupt := True\<rparr>) of
                      None \<Rightarrow> None
                    | Some b3 \<Rightarrow>
                        if bh_interrupt b3 then Some (Pending, b3\<lparr>bh_interrupt := False\<rparr>)
                        else branch_both_done True b3)
                 else Some (Pending, b2)))"

section \<open>Select and join\<close>

datatype 'o select = First 'o "'o option" | Second 'o "'o option"

text \<open>\<open>runtime::join\<close> resumes a panic; the outer option is a broken promise.\<close>

definition resume :: "'o maybe_panic \<Rightarrow> (unit, 'o) outcome" where
  "resume r = (case r of None \<Rightarrow> Panic | Some v \<Rightarrow> Ok v)"

definition resume_opt :: "'o maybe_panic option \<Rightarrow> (unit, 'o option) outcome" where
  "resume_opt a = (case a of None \<Rightarrow> Ok None | Some r \<Rightarrow> map_outcome_ok Some (resume r))"

definition select_from_branch :: "'o branch_output \<Rightarrow> (unit, 'o select) outcome option" where
  "select_from_branch out =
     (case out of (is_first, a, b) \<Rightarrow>
        (case (resume_opt a, resume_opt b) of
           (Ok a', Ok b') \<Rightarrow>
             (if is_first then map_option (\<lambda>v. Ok (First v b')) a' else map_option (\<lambda>v. Ok (Second v a')) b')
         | _ \<Rightarrow> Some Panic))"

definition join_from_branch :: "'o branch_output \<Rightarrow> (unit, 'o \<times> 'o) outcome option" where
  "join_from_branch out =
     (case out of (_, a, b) \<Rightarrow>
        (if a = Some None \<or> b = Some None then Some Panic
         else case (a, b) of (Some (Some x), Some (Some y)) \<Rightarrow> Some (Ok (x, y)) | _ \<Rightarrow> None))"

fun select_progress :: "'o branch_output progress \<Rightarrow> (unit, 'o select) outcome option" where
  "select_progress (Done out) = select_from_branch out"
| "select_progress Pending = None"

definition flatten_result :: "'o maybe_panic maybe_panic option \<Rightarrow> 'o maybe_panic option" where
  "flatten_result r = map_option (\<lambda>m. Option.bind m id) r"

definition branch_flatten :: "'o maybe_panic branch_output \<Rightarrow> 'o branch_output" where
  "branch_flatten out = (case out of (f, a, b) \<Rightarrow> (f, flatten_result a, flatten_result b))"

definition select_cancels :: "bool \<Rightarrow> 'o maybe_panic \<Rightarrow> bool" where
  "select_cancels i r = True"

definition join_cancels :: "bool \<Rightarrow> 'o maybe_panic \<Rightarrow> bool" where
  "join_cancels i r = (r = None)"

definition select_flatten :: "('e, 'o) outcome select \<Rightarrow> ('e, 'o select) outcome" where
  "select_flatten s =
     (let first = (\<lambda>f a b. case a of
            Ok x \<Rightarrow> (case b of None \<Rightarrow> Ok (f x None) | Some (Ok y) \<Rightarrow> Ok (f x (Some y)) | Some (Err e) \<Rightarrow> Err e | Some Panic \<Rightarrow> Panic)
          | Err e \<Rightarrow> Err e
          | Panic \<Rightarrow> Panic)
      in case s of First a b \<Rightarrow> first First a b | Second a b \<Rightarrow> first Second a b)"

section \<open>The environment\<close>

text \<open>
  A branch that is pending, with the future that finished first. Futures finish while they are live, cancels behave in any way, and the
  branch itself is cancelled while it has not completed.
\<close>

record 'o pending_branch =
  pb_branch :: "'o branch"
  pb_order :: "bool option"

definition live :: "bool \<Rightarrow> 'o branch \<Rightarrow> bool" where
  "live i b \<longleftrightarrow> bh_output b = [] \<and> handle_of i b \<in> {HPending, HEmpty}"

definition finished_first :: "bool option \<Rightarrow> bool \<Rightarrow> bool option" where
  "finished_first order i = (case order of None \<Rightarrow> Some i | Some j \<Rightarrow> Some j)"

definition cancelled_first :: "(bool \<Rightarrow> ('e, 'o) canceller) \<Rightarrow> 'o branch \<Rightarrow> bool option \<Rightarrow> bool option" where
  "cancelled_first cs b order =
     (if bh_first b = HPending \<and> completes (cs True) \<noteq> None then finished_first order True
      else if bh_second b = HPending \<and> completes (cs False) \<noteq> None then finished_first order False
      else order)"

inductive branch_step :: "(bool \<Rightarrow> 'o maybe_panic \<Rightarrow> bool) \<Rightarrow> 'o pending_branch \<Rightarrow> 'o pending_branch \<Rightarrow> bool" for sc where
  branch_finish: "live i (pb_branch s) \<Longrightarrow> callback (cs :: bool \<Rightarrow> (unit, 'o) canceller) sc i v (pb_branch s) = Some b \<Longrightarrow>
    branch_step sc s \<lparr>pb_branch = b, pb_order = finished_first (pb_order s) i\<rparr>"
| branch_cancel: "bh_output (pb_branch s) = [] \<Longrightarrow> cancel_all (cs :: bool \<Rightarrow> (unit, 'o) canceller) sc (pb_branch s) = Some (r, b) \<Longrightarrow>
    branch_step sc s \<lparr>pb_branch = b, pb_order = cancelled_first cs (pb_branch s) (pb_order s)\<rparr>"

definition branch_start :: "(bool \<Rightarrow> 'o maybe_panic \<Rightarrow> bool) \<Rightarrow> 'o pending_branch \<Rightarrow> bool" where
  "branch_start sc s \<longleftrightarrow>
     (\<exists>(cs :: bool \<Rightarrow> (unit, 'o) canceller) p1 p2. branch_run cs sc p1 None p2 branch_new = Some (Pending, pb_branch s) \<and>
        pb_order s = (if p1 \<noteq> Pending then Some True else if p2 \<noteq> Pending then Some False else None))"


section \<open>The invariant\<close>

definition branch_shape :: "bool option \<Rightarrow> 'o branch \<Rightarrow> bool" where
  "branch_shape order b \<longleftrightarrow>
     (if bh_output b = [] then
        (case order of
           None \<Rightarrow> (if bh_interrupt b then bh_first b = HEmpty \<and> bh_second b = HEmpty
                    else bh_first b = HPending \<and> bh_second b = HPending)
         | Some i \<Rightarrow> handle_done (handle_of i b) \<and> handle_of (\<not> i) b \<in> {HPending, HEmpty} \<and> \<not> bh_interrupt b)
      else order \<noteq> None \<and> (\<exists>r1 r2. bh_output b = [(order = Some True, Some r1, Some r2)]))"

lemma handle_done_iff: "handle_done h \<longleftrightarrow> (\<exists>r. h = HDone r)"
  by (cases h) auto

lemmas branch_simps = callback_def numeral_2_eq_2 handle_complete_def complete_single_def handle_cancel_def run_cancel_def
  take_cancel_def handle_of_def set_handle_def

lemma callback_shape:
  assumes "branch_shape order b" "live i b"
  shows "\<exists>b'. callback cs sc i v b = Some b' \<and> branch_shape (finished_first order i) b'"
proof (cases order)
  case None
  show ?thesis
  proof (cases "completes (cs (\<not> i))")
    case None
    then show ?thesis using assms \<open>order = None\<close>
      by (cases i; cases "bh_interrupt b") (auto simp: branch_shape_def live_def branch_simps finished_first_def)
  next
    case (Some w)
    then show ?thesis using assms \<open>order = None\<close>
      by (cases i; cases "bh_interrupt b") (auto simp: branch_shape_def live_def branch_simps finished_first_def)
  qed
next
  case (Some j)
  then show ?thesis using assms
    by (cases i; cases j) (auto simp: branch_shape_def live_def branch_simps finished_first_def handle_done_iff)
qed

lemma cancel_all_shape:
  assumes "branch_shape order b" "bh_output b = []"
  shows "case cancel_all cs sc b of None \<Rightarrow> False | Some (r, b') \<Rightarrow> branch_shape (cancelled_first cs b order) b'"
proof (cases order)
  case None
  show ?thesis using assms None
    by (cases "bh_interrupt b"; cases "completes (cs True)"; cases "completes (cs False)")
      (auto simp: branch_shape_def cancel_all_def branch_simps cancelled_first_def finished_first_def)
next
  case (Some j)
  show ?thesis using assms Some
    by (cases j; cases "completes (cs (\<not> j))")
      (auto simp: branch_shape_def cancel_all_def branch_simps cancelled_first_def finished_first_def handle_done_iff)
qed

lemma run_shape:
  assumes "branch_run cs sc p1 None p2 branch_new = Some (Pending, b)"
  shows "branch_shape (if p1 \<noteq> Pending then Some True else if p2 \<noteq> Pending then Some False else None) b"
  using assms
  by (cases p1; cases p2; cases "completes (cs True)")
    (auto simp: branch_shape_def branch_run_def run_first_def run_second_def branch_both_done_def branch_new_def handle_start_def branch_simps
      split: if_splits)

interpretation branch: transition_invariant "branch_start sc" "branch_step sc" "\<lambda>s. branch_shape (pb_order s) (pb_branch s)"
  for sc :: "bool \<Rightarrow> 'o maybe_panic \<Rightarrow> bool"
proof
  show "branch_shape (pb_order s) (pb_branch s)" if start: "branch_start sc s" for s :: "'o pending_branch"
  proof -
    obtain cs :: "bool \<Rightarrow> (unit, 'o) canceller" and p1 p2 where
      "branch_run cs sc p1 None p2 branch_new = Some (Pending, pb_branch s)"
      "pb_order s = (if p1 \<noteq> Pending then Some True else if p2 \<noteq> Pending then Some False else None)"
      using start unfolding branch_start_def by (elim exE conjE) (rule that)
    then show ?thesis by (simp only: run_shape)
  qed
  show "branch_shape (pb_order t) (pb_branch t)" if "branch_shape (pb_order s) (pb_branch s)" "branch_step sc s t" for s t :: "'o pending_branch"
    using that(2,1)
  proof cases
    case (branch_finish i cs v b)
    then show ?thesis using callback_shape[OF that(1), of i cs sc v] by auto
  next
    case (branch_cancel cs r b)
    then show ?thesis using cancel_all_shape[OF that(1), of cs sc] by auto
  qed
qed


section \<open>Properties\<close>


text \<open>Both futures pend, the second completes first and the cancel of the first completes it from within.\<close>

definition instant :: "bool \<Rightarrow> (unit, nat) canceller" where
  "instant i = Canceller (Some 7) (Ok ())"

definition later :: "bool \<Rightarrow> (unit, nat) canceller" where
  "later i = Canceller None (Ok ())"

definition pending_pair :: "nat pending_branch" where
  "pending_pair = \<lparr>pb_branch = \<lparr>bh_first = HPending, bh_second = HPending, bh_interrupt = False, bh_output = []\<rparr>, pb_order = None\<rparr>"

lemma pending_pair_start: "branch_start select_cancels pending_pair"
  unfolding branch_start_def
  by (intro exI[of _ later] exI[of _ Pending])
    (simp add: pending_pair_def branch_run_def run_first_def run_second_def branch_new_def handle_start_def)

definition second_won :: "nat pending_branch" where
  "second_won = \<lparr>pb_branch = \<lparr>bh_first = HEmpty, bh_second = HEmpty, bh_interrupt = False, bh_output = [(False, Some (Some 7), Some (Some 5))]\<rparr>,
     pb_order = Some False\<rparr>"


text \<open>A select whose second future completes in \<open>run\<close>, and whose first then completes when it is cancelled, reports that the first
  one won, while the same race after \<open>run\<close> has returned reports the second.\<close>

theorem select_reports_the_wrong_winner:
  "map_option (\<lambda>(p, b). select_progress p)
      (branch_run instant select_cancels Pending None (Done (Some 5)) branch_new) = Some (Some (Ok (First 7 (Some 5)))) \<and>
    map_option (\<lambda>b. map select_from_branch (bh_output b))
      (callback instant select_cancels False 5 (pb_branch pending_pair)) = Some [Some (Ok (Second 5 (Some 7)))]"
  by code_simp

text \<open>A first future that completes while the second is being started makes a select cancel a future whose cancel is not yet known.\<close>

theorem select_cancels_a_future_being_started:
  "branch_run instant select_cancels Pending (Some 3) Pending branch_new = None"
  by code_simp

text \<open>Joining two futures that do not panic gives both results, whichever finishes first and wherever they finish; a result that is delivered
  is never missing a half.\<close>

theorem join_gives_both:
  assumes "reach (branch_start join_cancels) (branch_step join_cancels) s" "out \<in> set (bh_output (pb_branch s))"
  shows "\<exists>r1 r2. out = (pb_order s = Some True, Some r1, Some r2) \<and>
    join_from_branch out = Some (case (r1, r2) of (Some x, Some y) \<Rightarrow> Ok (x, y) | _ \<Rightarrow> Panic)"
proof -
  obtain r1 r2 where "out = (pb_order s = Some True, Some r1, Some r2)"
    using branch.reach_inv[OF assms(1)] assms(2) by (auto simp: branch_shape_def split: if_splits)
  then show ?thesis by (cases r1; cases r2) (simp_all add: join_from_branch_def)
qed

definition first_done :: "nat pending_branch" where
  "first_done = \<lparr>pb_branch = \<lparr>bh_first = HDone (Some 4), bh_second = HPending, bh_interrupt = False, bh_output = []\<rparr>, pb_order = Some True\<rparr>"

theorem join_gives_both_witness:
  "\<exists>out (s :: nat pending_branch). out \<in> set (bh_output (pb_branch s)) \<and> join_from_branch out = Some (Ok (4 :: nat, 5))"
proof -
  let ?t = "\<lparr>pb_branch = \<lparr>bh_first = HEmpty, bh_second = HEmpty, bh_interrupt = False, bh_output = [(True, Some (Some 4), Some (Some 5))]\<rparr>,
     pb_order = Some True\<rparr> :: nat pending_branch"
  have "reach (branch_start join_cancels) (branch_step join_cancels) first_done"
    by (rule reach_start, unfold branch_start_def, intro exI[of _ later] exI[of _ "Done (Some 4)"] exI[of _ Pending])
      (simp add: first_done_def branch_run_def run_first_def run_second_def branch_new_def handle_start_def handle_complete_def join_cancels_def)
  moreover have "branch_step join_cancels first_done ?t"
    using branch_finish[of False first_done later join_cancels 5 "pb_branch ?t"]
    by (simp add: live_def first_done_def branch_simps later_def join_cancels_def finished_first_def)
  ultimately have "reach (branch_start join_cancels) (branch_step join_cancels) ?t" by (rule reach_step)
  from join_gives_both[OF this, of "(True, Some (Some 4), Some (Some 5))"] show ?thesis
    by (intro exI[of _ "(True, Some (Some 4), Some (Some 5))"] exI[of _ ?t]) simp
qed

end
