(* ===== verification/Mp_Channel.thy ===== *)
theory Mp_Channel
  imports Wait_List Sync
begin

text \<open>
  The bounded channel of \<open>src/src/async_std/sync/channel/mp.rs\<close>: a ring of slots with sequence
  numbers, a head and a tail counter that wrap at \<open>2^64\<close>, and two wait lists. The operations are run
  alone here, so a compare-exchange succeeds and a retry loop that finds nothing changed would spin
  for ever: \<open>next_slot\<close> takes fuel, and \<open>None\<close> is the loop that does not end (or a violated list
  precondition of the wait lists). \<open>chan_at c q\<close> relates a channel to the queue of its values.
\<close>

section \<open>Slots\<close>

record 'a slot =
  slot_sequence :: usize
  slot_data :: "'a option"

text \<open>The least power of two that is at least \<open>n\<close>, if it fits \<open>usize\<close>.\<close>

definition checked_next_power_of_two :: "usize \<Rightarrow> nat option" where
  "checked_next_power_of_two n = find (\<lambda>p. unat n \<le> p) (map (\<lambda>k. 2 ^ k) [0..<64])"

definition create_slots :: "usize \<Rightarrow> (unit, 'a slot list) outcome" where
  "create_slots cap =
     (if cap = 0 then Panic
      else case checked_next_power_of_two cap of
        None \<Rightarrow> Panic
      | Some n \<Rightarrow> Ok (map (\<lambda>i. \<lparr>slot_sequence = of_nat i, slot_data = None\<rparr>) [0..<n]))"

text \<open>
  The search of \<open>next_slot\<close>: \<open>Inr\<close> the claimed slot index and the sequence to publish, \<open>Inl ()\<close> when
  the slot is a lap behind (full for a sender, empty for a receiver).
\<close>

fun next_slot :: "nat \<Rightarrow> 'a slot list \<Rightarrow> usize \<Rightarrow> (usize \<Rightarrow> usize \<times> usize) \<Rightarrow> (unit + nat \<times> usize) option" where
  "next_slot 0 slots pos mp = None"
| "next_slot (Suc k) slots pos mp =
     (let mask = (of_nat (length slots) :: usize) - 1;
          i = unat (pos AND mask);
          (expect, next_seq) = mp pos;
          diff = slot_sequence (slots ! i) - expect
      in if diff = 0 then Some (Inr (i, next_seq))
         else if diff <s 0 then Some (Inl ())
         else next_slot k slots pos mp)"

section \<open>The channel\<close>

record 'a channel =
  ch_head :: usize
  ch_tail :: usize
  ch_slots :: "'a slot list"
  ch_tx_waiters :: "unit ts_waitlist"
  ch_rx_waiters :: "unit ts_waitlist"
  ch_tx_count :: usize
  ch_rx_count :: usize

text \<open>\<open>tx\<close> and \<open>rx\<close> are where the base nodes of the two wait lists live.\<close>

definition chan_new :: "addr \<Rightarrow> addr \<Rightarrow> usize \<Rightarrow> (unit, 'a channel) outcome" where
  "chan_new tx rx cap =
     map_outcome_ok (\<lambda>slots. \<lparr>ch_head = 0, ch_tail = 0, ch_slots = slots,
       ch_tx_waiters = ts_new tx, ch_rx_waiters = ts_new rx, ch_tx_count = 0, ch_rx_count = 0\<rparr>)
       (create_slots cap)"

definition wake_recv :: "'a channel \<Rightarrow> 'a channel option" where
  "wake_recv c = map_option (\<lambda>(_, w). c\<lparr>ch_rx_waiters := w\<rparr>) (ts_wake_one (ch_rx_waiters c) ())"

definition wake_send :: "'a channel \<Rightarrow> 'a channel option" where
  "wake_send c = map_option (\<lambda>(_, w). c\<lparr>ch_tx_waiters := w\<rparr>) (ts_wake_one (ch_tx_waiters c) ())"

definition chan_try_send :: "nat \<Rightarrow> 'a channel \<Rightarrow> 'a \<Rightarrow> (('a, unit) outcome \<times> 'a channel) option" where
  "chan_try_send k c v =
     (case next_slot k (ch_slots c) (ch_tail c) (\<lambda>pos. (pos, pos + 1)) of
        None \<Rightarrow> None
      | Some (Inl _) \<Rightarrow> Some (Err v, c)
      | Some (Inr (i, next_seq)) \<Rightarrow>
          map_option (\<lambda>c1. (Ok (), c1\<lparr>ch_slots := (ch_slots c1)[i := \<lparr>slot_sequence = next_seq, slot_data = Some v\<rparr>]\<rparr>))
            (wake_recv (c\<lparr>ch_tail := ch_tail c + 1\<rparr>)))"

text \<open>\<open>assume_init_read\<close> moves the value out; reading a slot that holds none is undefined: \<open>None\<close>.\<close>

definition chan_try_recv :: "nat \<Rightarrow> 'a channel \<Rightarrow> ('a option \<times> 'a channel) option" where
  "chan_try_recv k c =
     (case next_slot k (ch_slots c) (ch_head c) (\<lambda>pos. (pos + 1, pos + of_nat (length (ch_slots c)))) of
        None \<Rightarrow> None
      | Some (Inl _) \<Rightarrow> Some (None, c)
      | Some (Inr (i, next_seq)) \<Rightarrow>
          (case slot_data (ch_slots c ! i) of
             None \<Rightarrow> None
           | Some v \<Rightarrow>
               map_option (\<lambda>c1. (Some v, c1\<lparr>ch_slots := (ch_slots c1)[i := \<lparr>slot_sequence = next_seq, slot_data = None\<rparr>]\<rparr>))
                 (wake_send (c\<lparr>ch_head := ch_head c + 1\<rparr>))))"

definition chan_len :: "'a channel \<Rightarrow> usize" where
  "chan_len c = ch_tail c - ch_head c"

definition chan_spare_capacity :: "'a channel \<Rightarrow> usize" where
  "chan_spare_capacity c = ch_head c + of_nat (length (ch_slots c)) - ch_tail c"

definition is_send_closed :: "'a channel \<Rightarrow> bool" where
  "is_send_closed c = ts_is_closed (ch_tx_waiters c)"

definition is_recv_closed :: "'a channel \<Rightarrow> bool" where
  "is_recv_closed c = ts_is_closed (ch_rx_waiters c)"

text \<open>Closing wakes every waiter of the list; a clone of \<open>()\<close> never panics. \<open>k\<close> bounds the waiters.\<close>

definition close_send :: "nat \<Rightarrow> 'a channel \<Rightarrow> 'a channel option" where
  "close_send k c = map_option (\<lambda>(_, w). c\<lparr>ch_tx_waiters := w\<rparr>) (ts_close Some k (ch_tx_waiters c) ())"

definition close_recv :: "nat \<Rightarrow> 'a channel \<Rightarrow> 'a channel option" where
  "close_recv k c = map_option (\<lambda>(_, w). c\<lparr>ch_rx_waiters := w\<rparr>) (ts_close Some k (ch_rx_waiters c) ())"

definition new_sender :: "'a channel \<Rightarrow> 'a channel" where
  "new_sender c = c\<lparr>ch_tx_count := ch_tx_count c + 1\<rparr>"

definition new_receiver :: "'a channel \<Rightarrow> 'a channel" where
  "new_receiver c = c\<lparr>ch_rx_count := ch_rx_count c + 1\<rparr>"

definition drop_sender :: "nat \<Rightarrow> 'a channel \<Rightarrow> 'a channel option" where
  "drop_sender k c =
     (let c1 = c\<lparr>ch_tx_count := ch_tx_count c - 1\<rparr>
      in if ch_tx_count c = 1 then close_recv k c1 else Some c1)"

definition drop_receiver :: "nat \<Rightarrow> 'a channel \<Rightarrow> 'a channel option" where
  "drop_receiver k c =
     (let c1 = c\<lparr>ch_rx_count := ch_rx_count c - 1\<rparr>
      in if ch_rx_count c = 1 then close_send k c1 else Some c1)"

text \<open>The conditions under which a sender or a receiver suspends, evaluated under the list's lock.\<close>

definition send_should_block :: "'a channel \<Rightarrow> bool" where
  "send_should_block c \<longleftrightarrow> chan_spare_capacity c = 0"

definition recv_should_block :: "'a channel \<Rightarrow> bool" where
  "recv_should_block c \<longleftrightarrow> chan_len c = 0"

text \<open>\<open>drop_all\<close>: the values dropped, in order. One unit of fuel per value, one for the last test.\<close>

fun drop_all :: "nat \<Rightarrow> 'a channel \<Rightarrow> ('a list \<times> 'a channel) option" where
  "drop_all 0 c = None"
| "drop_all (Suc k) c =
     (if ch_head c = ch_tail c then Some ([], c)
      else (let i = unat (ch_head c AND (of_nat (length (ch_slots c)) - 1)) in
        case slot_data (ch_slots c ! i) of
          None \<Rightarrow> None
        | Some v \<Rightarrow> map_option (\<lambda>(vs, c'). (v # vs, c'))
            (drop_all k (c\<lparr>ch_head := ch_head c + 1,
              ch_slots := (ch_slots c)[i := (ch_slots c ! i)\<lparr>slot_data := None\<rparr>]\<rparr>))))"

section \<open>Sender and Receiver\<close>

datatype recv_error = RecvEmpty | RecvClosed
datatype 'a send_error = SendFull 'a | SendClosed 'a

definition recv_error_new :: "bool \<Rightarrow> recv_error" where
  "recv_error_new closed = (if closed then RecvClosed else RecvEmpty)"

definition send_error_new :: "'a \<Rightarrow> bool \<Rightarrow> 'a send_error" where
  "send_error_new v closed = (if closed then SendClosed v else SendFull v)"

text \<open>What \<open>Receiver::try_recv\<close> makes of the channel's answer; the closed flag is read afterwards.\<close>

definition recv_result :: "'a option \<Rightarrow> 'a channel \<Rightarrow> (recv_error, 'a) outcome" where
  "recv_result r c = (case r of Some v \<Rightarrow> Ok v | None \<Rightarrow> Err (recv_error_new (is_recv_closed c)))"

definition receiver_try_recv :: "nat \<Rightarrow> 'a channel \<Rightarrow> ((recv_error, 'a) outcome \<times> 'a channel) option" where
  "receiver_try_recv k c = map_option (\<lambda>(r, c1). (recv_result r c1, c1)) (chan_try_recv k c)"

definition sender_try_send :: "nat \<Rightarrow> 'a channel \<Rightarrow> 'a \<Rightarrow> (('a send_error, unit) outcome \<times> 'a channel) option" where
  "sender_try_send k c v =
     (if is_send_closed c then Some (Err (SendClosed v), c)
      else map_option (\<lambda>(r, c1).
          (case r of Ok _ \<Rightarrow> Ok () | Err v \<Rightarrow> Err (send_error_new v (is_send_closed c1)) | Panic \<Rightarrow> Panic, c1))
        (chan_try_send k c v))"

text \<open>
  One lap of the \<open>recv\<close> and \<open>send\<close> loops after the attempt: return, suspend on the wait list and
  reset the backoff, or snooze and try again. \<open>budget\<close> is the answer of \<open>acquire_budget\<close>.
\<close>

datatype 'r lap = Return 'r | Suspend backoff | Snooze backoff

definition retry_lap :: "bool \<Rightarrow> backoff \<Rightarrow> 'r lap" where
  "retry_lap budget b =
     (if backoff_is_completed b \<or> \<not> budget then Suspend (backoff_reset b)
      else Snooze (snd (backoff_snooze b)))"

definition recv_lap :: "bool \<Rightarrow> bool \<Rightarrow> backoff \<Rightarrow> (recv_error, 'a) outcome \<Rightarrow> (recv_error, 'a) outcome lap" where
  "recv_lap interrupted budget b r =
     (if r \<noteq> Err RecvEmpty \<or> interrupted then Return r else retry_lap budget b)"

definition send_lap ::
  "bool \<Rightarrow> bool \<Rightarrow> backoff \<Rightarrow> ('a send_error, unit) outcome \<Rightarrow> ('a send_error, unit) outcome lap" where
  "send_lap interrupted budget b r =
     (case r of
        Ok _ \<Rightarrow> Return (Ok ())
      | Panic \<Rightarrow> Return Panic
      | Err (SendClosed v) \<Rightarrow> Return (Err (SendClosed v))
      | Err (SendFull v) \<Rightarrow> if interrupted then Return r else retry_lap budget b)"

definition receiver_close :: "nat \<Rightarrow> 'a channel \<Rightarrow> 'a channel option" where
  "receiver_close k c = close_send k c"

definition bounded :: "addr \<Rightarrow> addr \<Rightarrow> usize \<Rightarrow> (unit, 'a channel) outcome" where
  "bounded tx rx cap = map_outcome_ok (new_receiver \<circ> new_sender) (chan_new tx rx cap)"

lemmas chan_defs = chan_new_def wake_recv_def wake_send_def chan_len_def chan_spare_capacity_def
  is_send_closed_def is_recv_closed_def close_send_def close_recv_def new_sender_def new_receiver_def
  drop_sender_def drop_receiver_def send_should_block_def recv_should_block_def recv_error_new_def
  send_error_new_def recv_result_def receiver_try_recv_def sender_try_send_def bounded_def

section \<open>Positions and slots\<close>

definition slot_index :: "nat \<Rightarrow> usize \<Rightarrow> nat" where
  "slot_index n pos = unat (pos AND (of_nat n - 1))"

lemma slot_index_mod: "k < 64 \<Longrightarrow> slot_index (2 ^ k) pos = unat pos mod 2 ^ k"
proof -
  assume "k < 64"
  have "(of_nat (2 ^ k) :: usize) - 1 = mask k" by (simp add: mask_eq_exp_minus_1)
  then have "pos AND (of_nat (2 ^ k) - 1) = take_bit k pos" by (simp add: take_bit_eq_mask)
  moreover have "unat (take_bit k pos) = take_bit k (unat pos)" by (rule unsigned_take_bit_eq)
  ultimately show ?thesis by (simp add: slot_index_def take_bit_eq_mod)
qed

lemma slot_index_lt: "k < 64 \<Longrightarrow> slot_index (2 ^ k) pos < 2 ^ k"
  by (simp add: slot_index_mod)

lemma slot_index_add:
  assumes "k < 64"
  shows "slot_index (2 ^ k) (pos + of_nat j) = (unat pos + j) mod 2 ^ k"
proof -
  have "(2::nat) ^ k dvd 2 ^ 64" by (rule le_imp_power_dvd) (use assms in simp)
  then have "unat (pos + of_nat j) mod 2 ^ k = (unat pos + j) mod 2 ^ k"
    by (simp add: unat_word_ariths unat_of_nat take_bit_eq_mod mod_mod_cancel mod_simps)
  with assms show ?thesis by (simp add: slot_index_mod)
qed

lemma mod_add_inj:
  assumes "i < n" "j < n" "(a + i) mod n = (a + j) mod n"
  shows "i = (j::nat)"
proof -
  have "int (a + i) mod int n = int (a + j) mod int n"
    using assms(3) by (metis zmod_int)
  then have "int n dvd (int i - int j)" by (simp add: mod_eq_dvd_iff)
  with assms(1,2) show ?thesis
    using zdvd_imp_le[of "int n" "int i - int j"] zdvd_imp_le[of "int n" "int j - int i"]
      dvd_diff_commute[of "int n" "int i" "int j"]
    by (cases i j rule: linorder_cases) auto
qed

section \<open>The queue a channel holds\<close>

definition ring_at :: "'a slot list \<Rightarrow> usize \<Rightarrow> 'a list \<Rightarrow> bool" where
  "ring_at slots h q \<longleftrightarrow> (\<exists>k. 1 \<le> k \<and> k < 64 \<and> length slots = 2 ^ k) \<and> length q \<le> length slots \<and>
     (\<forall>j < length q. slots ! slot_index (length slots) (h + of_nat j) =
        \<lparr>slot_sequence = h + of_nat j + 1, slot_data = Some (q ! j)\<rparr>) \<and>
     (\<forall>j. length q \<le> j \<longrightarrow> j < length slots \<longrightarrow>
        slot_sequence (slots ! slot_index (length slots) (h + of_nat j)) = h + of_nat j)"

definition chan_at :: "'a channel \<Rightarrow> 'a list \<Rightarrow> bool" where
  "chan_at c q \<longleftrightarrow> ring_at (ch_slots c) (ch_head c) q \<and>
     ch_tail c = ch_head c + of_nat (length q) \<and>
     (\<exists>as. ts_waiting (ch_tx_waiters c) as) \<and> (\<exists>as. ts_waiting (ch_rx_waiters c) as)"

text \<open>Two positions less than a lap apart have different slots.\<close>

lemma slot_index_inj:
  assumes "k < 64" "i < 2 ^ k" "j < 2 ^ k"
  shows "slot_index (2 ^ k) (h + of_nat i) = slot_index (2 ^ k) (h + of_nat j) \<longleftrightarrow> i = j"
  using mod_add_inj[OF assms(2,3), of "unat h"] by (auto simp: slot_index_add assms(1))

lemma slot_index_lap: "k < 64 \<Longrightarrow> slot_index (2 ^ k) (h + of_nat (2 ^ k)) = slot_index (2 ^ k) h"
  using slot_index_add[of k h "2 ^ k"] by (simp add: slot_index_mod)

lemma next_slot_0: "slot_sequence (slots ! slot_index (length slots) pos) = fst (mp pos) \<Longrightarrow>
  next_slot (Suc k) slots pos mp = Some (Inr (slot_index (length slots) pos, snd (mp pos)))"
  by (simp add: slot_index_def Let_def split: prod.splits)

lemma next_slot_neg:
  "slot_sequence (slots ! slot_index (length slots) pos) - fst (mp pos) <s 0 \<Longrightarrow>
   next_slot (Suc k) slots pos mp = Some (Inl ())"
  by (auto simp: slot_index_def Let_def word_sless_alt split: prod.splits)

lemma lap_behind:
  assumes "1 \<le> k" "k < 64"
  shows "(1 - of_nat (2 ^ k) :: usize) <s 0"
proof -
  have "sint (word_of_int (1 - 2 ^ k) :: usize) = signed_take_bit 63 (1 - 2 ^ k)"
    using sint_sbintrunc'[of "1 - 2 ^ k", where 'a = 64] by simp
  also have "\<dots> = 1 - 2 ^ k"
  proof (rule signed_take_bit_int_eq_self)
    have "(2::int) ^ k \<le> 2 ^ 63" using assms(2) by (intro power_increasing) auto
    then show "- (2 ^ 63) \<le> 1 - (2::int) ^ k" by simp
    show "1 - (2::int) ^ k < 2 ^ 63" by (rule less_le_trans[of _ 1]) simp_all
  qed
  also have "\<dots> < 0" using assms(1) one_less_power[of "2::int" k] by simp
  finally show ?thesis by (simp add: word_sless_alt)
qed

lemma ring_at_send:
  assumes r: "ring_at slots h q" and n: "length q < length slots"
  defines "t \<equiv> h + of_nat (length q)"
  shows "slot_sequence (slots ! slot_index (length slots) t) = t"
    and "ring_at (slots[slot_index (length slots) t := \<lparr>slot_sequence = t + 1, slot_data = Some v\<rparr>]) h (q @ [v])"
proof -
  obtain k where k: "1 \<le> k" "k < 64" "length slots = 2 ^ k" using r by (auto simp: ring_at_def)
  show "slot_sequence (slots ! slot_index (length slots) t) = t"
    using r n by (simp add: ring_at_def t_def)
  have i: "slot_index (2 ^ k) (h + of_nat j) = slot_index (2 ^ k) t \<longleftrightarrow> j = length q" if "j < 2 ^ k" for j
    using slot_index_inj[OF k(2) that, of "length q" h] n k(3) by (simp add: t_def)
  have l: "slot_index (2 ^ k) t < 2 ^ k" by (rule slot_index_lt[OF k(2)])
  show "ring_at (slots[slot_index (length slots) t := \<lparr>slot_sequence = t + 1, slot_data = Some v\<rparr>]) h (q @ [v])"
    unfolding ring_at_def length_list_update
  proof (intro conjI allI impI)
    show "\<exists>k. 1 \<le> k \<and> k < 64 \<and> length slots = 2 ^ k" using k by blast
    show "length (q @ [v]) \<le> length slots" using n by simp
  next
    fix j assume j: "j < length (q @ [v])"
    then have "j < 2 ^ k" using n k(3) by simp
    note ij = i[OF this]
    show "slots[slot_index (length slots) t := \<lparr>slot_sequence = t + 1, slot_data = Some v\<rparr>] !
        slot_index (length slots) (h + of_nat j) = \<lparr>slot_sequence = h + of_nat j + 1, slot_data = Some ((q @ [v]) ! j)\<rparr>"
    proof (cases "j = length q")
      case True
      then have "h + of_nat j = t" by (simp add: t_def)
      with True l k(3) show ?thesis by simp
    next
      case False
      with j have "j < length q" by simp
      with False r ij k(3) show ?thesis
        unfolding ring_at_def by (metis nth_append nth_list_update_neq)
    qed
  next
    fix j assume j: "length (q @ [v]) \<le> j" "j < length slots"
    then have "j < 2 ^ k" using k(3) by simp
    from i[OF this] j r l k(3) show "slot_sequence (slots[slot_index (length slots) t := \<lparr>slot_sequence = t + 1, slot_data = Some v\<rparr>] !
        slot_index (length slots) (h + of_nat j)) = h + of_nat j"
      by (simp add: nth_list_update ring_at_def)
  qed
qed

lemma ring_at_full:
  assumes r: "ring_at slots h q" and n: "length q = length slots"
  shows "slot_sequence (slots ! slot_index (length slots) (h + of_nat (length q))) -
    (h + of_nat (length q)) <s 0"
proof -
  obtain k where k: "1 \<le> k" "k < 64" "length slots = 2 ^ k" using r by (auto simp: ring_at_def)
  have "0 < length q" using n k(3) by simp
  then have "slot_sequence (slots ! slot_index (length slots) (h + of_nat 0)) = h + of_nat 0 + 1"
    using r unfolding ring_at_def by (metis slot.select_convs(1))
  then have "slot_sequence (slots ! slot_index (length slots) (h + of_nat (length q))) = h + 1"
    using slot_index_lap[OF k(2)] k(3) n by simp
  then show ?thesis using lap_behind[OF k(1,2)] n k(3) by (simp add: algebra_simps)
qed

lemma ring_at_recv:
  assumes r: "ring_at slots h (v # q)"
  shows "slots ! slot_index (length slots) h = \<lparr>slot_sequence = h + 1, slot_data = Some v\<rparr>"
    and "ring_at (slots[slot_index (length slots) h := \<lparr>slot_sequence = h + of_nat (length slots), slot_data = d\<rparr>])
      (h + 1) q"
proof -
  obtain k where k: "1 \<le> k" "k < 64" "length slots = 2 ^ k" using r by (auto simp: ring_at_def)
  from r have "slots ! slot_index (length slots) (h + of_nat 0) = \<lparr>slot_sequence = h + of_nat 0 + 1, slot_data = Some ((v # q) ! 0)\<rparr>"
    unfolding ring_at_def by (metis length_greater_0_conv list.discI)
  then show "slots ! slot_index (length slots) h = \<lparr>slot_sequence = h + 1, slot_data = Some v\<rparr>" by simp
  let ?s = "slots[slot_index (2 ^ k) h := \<lparr>slot_sequence = h + of_nat (2 ^ k), slot_data = d\<rparr>]"
  have l: "slot_index (2 ^ k) h < 2 ^ k" by (rule slot_index_lt[OF k(2)])
  have other: "?s ! slot_index (2 ^ k) (h + 1 + of_nat j) = slots ! slot_index (2 ^ k) (h + of_nat (Suc j))"
    if "Suc j < 2 ^ k" for j
    using slot_index_inj[OF k(2) that, of 0 h] k(3)
    by (simp add: nth_list_update algebra_simps)
  have lap: "?s ! slot_index (2 ^ k) (h + 1 + of_nat j) = \<lparr>slot_sequence = h + 1 + of_nat j, slot_data = d\<rparr>"
    if "Suc j = 2 ^ k" for j
  proof -
    have e: "h + 1 + of_nat j = h + of_nat (2 ^ k)" unfolding that[symmetric] by simp
    show ?thesis unfolding e using slot_index_lap[OF k(2), of h] l k(3) by simp
  qed
  have "ring_at ?s (h + 1) q"
    unfolding ring_at_def length_list_update k(3)
  proof (intro conjI allI impI)
    show "\<exists>k'. 1 \<le> k' \<and> k' < 64 \<and> (2::nat) ^ k = 2 ^ k'" using k by blast
    show "length q \<le> 2 ^ k" using r k(3) by (simp add: ring_at_def)
  next
    fix j assume j: "j < length q"
    then have "Suc j < 2 ^ k" "Suc j < length (v # q)" using r k(3) by (auto simp: ring_at_def)
    then show "?s ! slot_index (2 ^ k) (h + 1 + of_nat j) =
        \<lparr>slot_sequence = h + 1 + of_nat j + 1, slot_data = Some (q ! j)\<rparr>"
      using r k(3) unfolding other[OF \<open>Suc j < 2 ^ k\<close>] ring_at_def
      by (metis (no_types, lifting) ab_semigroup_add_class.add_ac(1) nth_Cons_Suc of_nat_Suc)
  next
    fix j assume j: "length q \<le> j" "j < 2 ^ k"
    show "slot_sequence (?s ! slot_index (2 ^ k) (h + 1 + of_nat j)) = h + 1 + of_nat j"
    proof (cases "Suc j = 2 ^ k")
      case True
      then show ?thesis using lap by simp
    next
      case False
      then have "Suc j < 2 ^ k" using j by simp
      then show ?thesis using r k(3) j unfolding other[OF \<open>Suc j < 2 ^ k\<close>] ring_at_def
        by (metis (no_types, lifting) add.assoc length_Cons not_less_eq_eq of_nat_Suc Suc_le_mono)
    qed
  qed
  then show "ring_at (slots[slot_index (length slots) h := \<lparr>slot_sequence = h + of_nat (length slots), slot_data = d\<rparr>])
      (h + 1) q" by (simp add: k(3))
qed

lemma ring_at_empty:
  assumes "ring_at slots h []"
  shows "slot_sequence (slots ! slot_index (length slots) h) - (h + 1) <s 0"
proof -
  have "0 < length slots" using assms by (auto simp: ring_at_def)
  then have "slot_sequence (slots ! slot_index (length slots) (h + of_nat 0)) = h + of_nat 0"
    using assms unfolding ring_at_def by blast
  then show ?thesis by (simp add: word_sless_alt)
qed

section \<open>The channel implements a bounded queue\<close>

datatype 'a chan_op = OpSend 'a | OpRecv
datatype 'a chan_res = Sent | Full 'a | Got 'a | Nothing

fun queue_op :: "nat \<Rightarrow> 'a list \<Rightarrow> 'a chan_op \<Rightarrow> 'a chan_res \<times> 'a list" where
  "queue_op cap q (OpSend v) = (if length q < cap then (Sent, q @ [v]) else (Full v, q))"
| "queue_op cap [] OpRecv = (Nothing, [])"
| "queue_op cap (v # q) OpRecv = (Got v, q)"

text \<open>Running a list of operations, on the specification and on anything that can do one.\<close>

fun run_ops :: "('s \<Rightarrow> 'op \<Rightarrow> ('res \<times> 's) option) \<Rightarrow> 's \<Rightarrow> 'op list \<Rightarrow> ('res list \<times> 's) option" where
  "run_ops f s [] = Some ([], s)"
| "run_ops f s (x # xs) =
     (case f s x of
        None \<Rightarrow> None
      | Some (r, s') \<Rightarrow> map_option (\<lambda>(rs, s''). (r # rs, s'')) (run_ops f s' xs))"

locale bounded_fifo =
  fixes at :: "'c \<Rightarrow> 'a list \<Rightarrow> bool"
    and cap :: "'c \<Rightarrow> nat"
    and oper :: "'c \<Rightarrow> 'a chan_op \<Rightarrow> ('a chan_res \<times> 'c) option"
  assumes oper_at: "at c q \<Longrightarrow> \<exists>c'. oper c x = Some (fst (queue_op (cap c) q x), c') \<and>
      at c' (snd (queue_op (cap c) q x)) \<and> cap c' = cap c"
    and at_cap: "at c q \<Longrightarrow> length q \<le> cap c"
begin

lemma run_refines:
  "at c q \<Longrightarrow> \<exists>rs c' q'. run_ops oper c xs = Some (rs, c') \<and>
     run_ops (\<lambda>q x. Some (queue_op (cap c) q x)) q xs = Some (rs, q') \<and> at c' q' \<and> cap c' = cap c"
proof (induction xs arbitrary: c q)
  case (Cons x xs)
  obtain c1 where c1: "oper c x = Some (fst (queue_op (cap c) q x), c1)"
      "at c1 (snd (queue_op (cap c) q x))" "cap c1 = cap c"
    using oper_at[OF Cons.prems] by blast
  from Cons.IH[OF c1(2)] c1 show ?case by (auto split: prod.splits)
qed auto

text \<open>Values sent into an empty channel that fit are received in the order of the sends.\<close>

lemma spec_sends: "length q + length vs \<le> n \<Longrightarrow>
  run_ops (\<lambda>q x. Some (queue_op n q x)) q (map OpSend vs) = Some (map (\<lambda>_. Sent) vs, q @ vs)"
  by (induction vs arbitrary: q) auto

lemma spec_recvs: "run_ops (\<lambda>q x. Some (queue_op n q x)) (vs @ ws) (map (\<lambda>_. OpRecv) vs) = Some (map Got vs, ws)"
  by (induction vs) auto

lemma run_ops_append:
  "run_ops f s (xs @ ys) = (case run_ops f s xs of None \<Rightarrow> None
     | Some (rs, s') \<Rightarrow> map_option (\<lambda>(rs', s''). (rs @ rs', s'')) (run_ops f s' ys))"
proof (induction xs arbitrary: s)
  case Nil
  show ?case by (simp add: option.map_ident_strong split_beta)
next
  case (Cons x xs)
  then show ?case
    by (auto split: option.splits simp: option.map_comp intro!: option.map_cong)
qed

lemma sends_then_recvs:
  assumes "at c []" "length vs \<le> cap c"
  shows "\<exists>c'. run_ops oper c (map OpSend vs @ map (\<lambda>_. OpRecv) vs) =
    Some (map (\<lambda>_. Sent) vs @ map Got vs, c') \<and> at c' []"
proof -
  have "run_ops (\<lambda>q x. Some (queue_op (cap c) q x)) [] (map OpSend vs @ map (\<lambda>_. OpRecv) vs) =
      Some (map (\<lambda>_. Sent) vs @ map Got vs, [])"
    using spec_sends[of "[]" vs "cap c"] spec_recvs[of "cap c" vs "[]"] assms(2)
    by (simp add: run_ops_append)
  with run_refines[OF assms(1), of "map OpSend vs @ map (\<lambda>_. OpRecv) vs"] show ?thesis by auto
qed

end

definition chan_oper :: "nat \<Rightarrow> 'a channel \<Rightarrow> 'a chan_op \<Rightarrow> ('a chan_res \<times> 'a channel) option" where
  "chan_oper k c x =
     (case x of
        OpSend v \<Rightarrow> map_option (\<lambda>(r, c'). (case r of Ok _ \<Rightarrow> Sent | Err v \<Rightarrow> Full v | Panic \<Rightarrow> Nothing, c'))
          (chan_try_send k c v)
      | OpRecv \<Rightarrow> map_option (\<lambda>(r, c'). (case r of Some v \<Rightarrow> Got v | None \<Rightarrow> Nothing, c'))
          (chan_try_recv k c))"

lemma wake_recv_at:
  assumes "ts_waiting (ch_rx_waiters c) as"
  shows "\<exists>w. wake_recv c = Some (c\<lparr>ch_rx_waiters := w\<rparr>) \<and> ts_waiting w (tl as) \<and>
    ts_is_closed w = ts_is_closed (ch_rx_waiters c)"
  using assms ts_wake_one_queued[of "ch_rx_waiters c" _ "()"] by (fastforce simp: wake_recv_def)

lemma wake_send_at:
  assumes "\<exists>as. ts_waiting (ch_tx_waiters c) as"
  shows "\<exists>w. wake_send c = Some (c\<lparr>ch_tx_waiters := w\<rparr>) \<and> (\<exists>as. ts_waiting w as) \<and>
    ts_is_closed w = ts_is_closed (ch_tx_waiters c)"
  using assms ts_wake_one_queued[of "ch_tx_waiters c" _ "()"] by (fastforce simp: wake_send_def)

lemma chan_send_ok:
  assumes c: "chan_at c q" and n: "length q < length (ch_slots c)"
    and as: "ts_waiting (ch_rx_waiters c) as"
  shows "\<exists>c'. chan_try_send (Suc k) c v = Some (Ok (), c') \<and> chan_at c' (q @ [v]) \<and>
    length (ch_slots c') = length (ch_slots c) \<and> is_send_closed c' = is_send_closed c \<and>
    is_recv_closed c' = is_recv_closed c \<and> ts_waiting (ch_rx_waiters c') (tl as) \<and>
    ch_tx_count c' = ch_tx_count c"
proof -
  note r = c[unfolded chan_at_def, THEN conjunct1]
  obtain w where w: "wake_recv (c\<lparr>ch_tail := ch_tail c + 1\<rparr>) = Some (c\<lparr>ch_tail := ch_tail c + 1, ch_rx_waiters := w\<rparr>)"
      "ts_waiting w (tl as)" "ts_is_closed w = ts_is_closed (ch_rx_waiters c)"
    using wake_recv_at[of "c\<lparr>ch_tail := ch_tail c + 1\<rparr>" as] as by auto
  have "next_slot (Suc k) (ch_slots c) (ch_tail c) (\<lambda>pos. (pos, pos + 1)) =
      Some (Inr (slot_index (length (ch_slots c)) (ch_tail c), ch_tail c + 1))"
    using ring_at_send(1)[OF r n] c by (subst next_slot_0) (simp_all add: chan_at_def)
  with w ring_at_send(2)[OF r n, of v] c show ?thesis
    by (auto simp del: next_slot.simps simp: chan_try_send_def chan_at_def is_send_closed_def is_recv_closed_def
      algebra_simps)
qed

lemma chan_send_full:
  assumes c: "chan_at c q" and n: "length q = length (ch_slots c)"
  shows "chan_try_send (Suc k) c v = Some (Err v, c)"
  using ring_at_full[of "ch_slots c" "ch_head c" q] c n
  by (simp del: next_slot.simps add: chan_try_send_def chan_at_def next_slot_neg)

lemma chan_recv_ok:
  assumes c: "chan_at c (v # q)"
  shows "\<exists>c'. chan_try_recv (Suc k) c = Some (Some v, c') \<and> chan_at c' q \<and>
    length (ch_slots c') = length (ch_slots c) \<and> is_send_closed c' = is_send_closed c \<and>
    is_recv_closed c' = is_recv_closed c"
proof -
  note r = c[unfolded chan_at_def, THEN conjunct1]
  obtain w where w: "wake_send (c\<lparr>ch_head := ch_head c + 1\<rparr>) = Some (c\<lparr>ch_head := ch_head c + 1, ch_tx_waiters := w\<rparr>)"
      "\<exists>as. ts_waiting w as" "ts_is_closed w = ts_is_closed (ch_tx_waiters c)"
    using wake_send_at[of "c\<lparr>ch_head := ch_head c + 1\<rparr>"] c by (auto simp: chan_at_def)
  have "next_slot (Suc k) (ch_slots c) (ch_head c) (\<lambda>pos. (pos + 1, pos + of_nat (length (ch_slots c)))) =
      Some (Inr (slot_index (length (ch_slots c)) (ch_head c), ch_head c + of_nat (length (ch_slots c))))"
    using ring_at_recv(1)[OF r] by (subst next_slot_0) simp_all
  with w ring_at_recv(1)[OF r] ring_at_recv(2)[OF r, of None] c show ?thesis
    by (auto simp del: next_slot.simps simp: chan_try_recv_def chan_at_def is_send_closed_def is_recv_closed_def
      algebra_simps)
qed

lemma chan_recv_empty:
  assumes c: "chan_at c []"
  shows "chan_try_recv (Suc k) c = Some (None, c)"
  using ring_at_empty[of "ch_slots c" "ch_head c"] c
  by (simp del: next_slot.simps add: chan_try_recv_def chan_at_def next_slot_neg)

interpretation mp: bounded_fifo chan_at "\<lambda>c. length (ch_slots c)" "chan_oper (Suc k)"
proof
  fix c :: "'a channel" and q x
  assume c: "chan_at c q"
  show le: "length q \<le> length (ch_slots c)" using c by (simp add: chan_at_def ring_at_def)
  show "\<exists>c'. chan_oper (Suc k) c x = Some (fst (queue_op (length (ch_slots c)) q x), c') \<and>
      chan_at c' (snd (queue_op (length (ch_slots c)) q x)) \<and> length (ch_slots c') = length (ch_slots c)"
  proof (cases x)
    case (OpSend v)
    obtain as where as: "ts_waiting (ch_rx_waiters c) as" using c by (auto simp: chan_at_def)
    from OpSend chan_send_ok[OF c _ as, of k v] chan_send_full[OF c, of k v] le c show ?thesis
      by (cases "length q < length (ch_slots c)") (auto simp: chan_oper_def)
  next
    case OpRecv
    with chan_recv_ok[of c _ _ k] chan_recv_empty[of c k] c show ?thesis
      by (cases q) (fastforce simp: chan_oper_def)+
  qed
qed

lemma chan_len_at:
  assumes "chan_at c q"
  shows "unat (chan_len c) = length q" "unat (chan_spare_capacity c) = length (ch_slots c) - length q"
proof -
  obtain k where k: "1 \<le> k" "k < 64" "length (ch_slots c) = 2 ^ k" "length q \<le> 2 ^ k"
    using assms by (auto simp: chan_at_def ring_at_def)
  have "(2::nat) ^ k < 2 ^ 64" using k(2) by (intro power_strict_increasing) auto
  with k(4) have l: "length q < 2 ^ 64" "length (ch_slots c) < 2 ^ 64" using k(3) by linarith+
  show "unat (chan_len c) = length q"
    using assms l by (simp add: chan_len_def chan_at_def unat_of_nat take_bit_eq_mod)
  have "chan_spare_capacity c = of_nat (length (ch_slots c) - length q)"
    using assms k(3,4) by (simp add: chan_spare_capacity_def chan_at_def of_nat_diff)
  with l show "unat (chan_spare_capacity c) = length (ch_slots c) - length q"
    by (simp add: unat_of_nat take_bit_eq_mod)
qed

section \<open>Creation, closing and dropping\<close>

lemma find_map_upt:
  "i \<le> j \<Longrightarrow> j < n \<Longrightarrow> P (f j) \<Longrightarrow> (\<And>m. i \<le> m \<Longrightarrow> m < j \<Longrightarrow> \<not> P (f m)) \<Longrightarrow> find P (map f [i..<n]) = Some (f j)"
proof (induction "j - i" arbitrary: i)
  case 0
  then show ?case by (simp add: upt_conv_Cons)
next
  case (Suc d)
  then have "find P (map f [Suc i..<n]) = Some (f j)" by (intro Suc.hyps(1)) auto
  with Suc show ?case by (simp add: upt_conv_Cons)
qed

text \<open>The rounded size: the least power of two that is large enough.\<close>

lemma checked_next_power_of_two_least:
  assumes "unat n \<le> 2 ^ 63" "2 \<le> unat n"
  shows "\<exists>k. 1 \<le> k \<and> k < 64 \<and> checked_next_power_of_two n = Some (2 ^ k) \<and> unat n \<le> 2 ^ k \<and> 2 ^ k < 2 * unat n"
proof -
  define k where "k = (LEAST k. unat n \<le> 2 ^ k)"
  have k: "unat n \<le> 2 ^ k" unfolding k_def by (rule LeastI[of _ 63]) (rule assms(1))
  have k63: "k \<le> 63" unfolding k_def by (rule Least_le) (rule assms(1))
  have less: "\<not> unat n \<le> 2 ^ m" if "m < k" for m using that not_less_Least unfolding k_def by blast
  have k1: "1 \<le> k" using k assms(2) by (cases k) auto
  have "checked_next_power_of_two n = Some (2 ^ k)"
    unfolding checked_next_power_of_two_def
    by (rule find_map_upt) (use k k63 less in auto)
  moreover have "2 ^ k < 2 * unat n" using less[of "k - 1"] k1 by (cases k) auto
  ultimately show ?thesis using k k1 k63 by (intro exI[of _ k]) auto
qed

lemma chan_new_at:
  assumes "tx \<noteq> null" "rx \<noteq> null" "2 \<le> unat n" "unat n \<le> 2 ^ 63"
  shows "\<exists>c. chan_new tx rx n = Ok c \<and> chan_at c [] \<and> unat n \<le> length (ch_slots c) \<and>
    length (ch_slots c) < 2 * unat n"
proof -
  obtain k where k: "1 \<le> k" "k < 64" "checked_next_power_of_two n = Some (2 ^ k)" "unat n \<le> 2 ^ k"
      "2 ^ k < 2 * unat n"
    using checked_next_power_of_two_least[OF assms(4,3)] by blast
  let ?slots = "map (\<lambda>i. \<lparr>slot_sequence = of_nat i, slot_data = None\<rparr>) [0..<2 ^ k]"
  have lt: "(2::nat) ^ k \<le> 2 ^ 63" using k(2) by (intro power_increasing) auto
  have "slot_index (2 ^ k) (of_nat j) = j" if "j < 2 ^ k" for j
    using slot_index_add[OF k(2), of 0 j] that by simp
  then have "ring_at ?slots 0 []" using k(1,2) by (auto simp: ring_at_def intro!: exI[of _ k])
  moreover have "n \<noteq> 0" using assms(3) by auto
  ultimately show ?thesis using k ts_waiting_new assms(1,2)
    by (auto simp: chan_new_def create_slots_def chan_at_def)
qed

text \<open>Dropping the channel drops the values it holds, each once.\<close>

lemma ring_at_data: "ring_at slots h (v # q) \<Longrightarrow> slot_data (slots ! slot_index (length slots) h) = Some v"
  using ring_at_recv(1) by fastforce

definition data_at :: "'a slot list \<Rightarrow> usize \<Rightarrow> 'a list \<Rightarrow> bool" where
  "data_at slots h q \<longleftrightarrow> (\<exists>k. 1 \<le> k \<and> k < 64 \<and> length slots = 2 ^ k) \<and> length q \<le> length slots \<and>
     (\<forall>j < length q. slot_data (slots ! slot_index (length slots) (h + of_nat j)) = Some (q ! j))"

lemma data_at_step:
  assumes r: "data_at slots h (v # q)"
  shows "slot_data (slots ! slot_index (length slots) h) = Some v"
    and "data_at (slots[slot_index (length slots) h := s]) (h + 1) q"
proof -
  obtain k where k: "1 \<le> k" "k < 64" "length slots = 2 ^ k" using r by (auto simp: data_at_def)
  from r have "slot_data (slots ! slot_index (length slots) (h + of_nat 0)) = Some ((v # q) ! 0)"
    unfolding data_at_def by (metis length_greater_0_conv list.discI)
  then show "slot_data (slots ! slot_index (length slots) h) = Some v" by simp
  have "slot_data (slots[slot_index (2 ^ k) h := s] ! slot_index (2 ^ k) (h + 1 + of_nat j)) = Some (q ! j)"
    if j: "j < length q" for j
  proof -
    have lt: "Suc j < 2 ^ k" "Suc j < length (v # q)" using j r k(3) by (auto simp: data_at_def)
    have "slot_index (2 ^ k) h \<noteq> slot_index (2 ^ k) (h + of_nat (Suc j))"
      using slot_index_inj[OF k(2) _ lt(1), of 0 h] by simp
    then have "slots[slot_index (2 ^ k) h := s] ! slot_index (2 ^ k) (h + of_nat (Suc j)) =
        slots ! slot_index (2 ^ k) (h + of_nat (Suc j))" by simp
    moreover have "slot_data (slots ! slot_index (2 ^ k) (h + of_nat (Suc j))) = Some ((v # q) ! Suc j)"
      using r lt(2) k(3) unfolding data_at_def by metis
    ultimately show ?thesis by (simp add: algebra_simps)
  qed
  then show "data_at (slots[slot_index (length slots) h := s]) (h + 1) q"
    using r k(3) by (auto simp: data_at_def)
qed

lemma drop_all_data:
  "data_at (ch_slots c) (ch_head c) q \<Longrightarrow> ch_tail c = ch_head c + of_nat (length q) \<Longrightarrow> length q < k \<Longrightarrow>
   \<exists>c'. drop_all k c = Some (q, c') \<and> ch_head c' = ch_tail c' \<and> ch_tail c' = ch_tail c"
proof (induction q arbitrary: c k)
  case Nil
  then show ?case by (cases k) auto
next
  case (Cons v q)
  then obtain k' where k: "k = Suc k'" "length q < k'" by (cases k) auto
  obtain m where m: "m < 64" "length (ch_slots c) = 2 ^ m" "length (v # q) \<le> 2 ^ m"
    using Cons.prems(1) by (auto simp: data_at_def)
  have "(2::nat) ^ m < 2 ^ 64" using m(1) by (intro power_strict_increasing) auto
  then have "unat (of_nat (length (v # q)) :: usize) = length (v # q)"
    using m(3) by (intro unat_of_nat_usize) linarith
  then have "(of_nat (length (v # q)) :: usize) \<noteq> 0" by auto
  with Cons.prems(2) have ne: "ch_head c \<noteq> ch_tail c" by (metis add_cancel_left_right)
  let ?i = "slot_index (length (ch_slots c)) (ch_head c)"
  let ?c = "c\<lparr>ch_head := ch_head c + 1, ch_slots := (ch_slots c)[?i := (ch_slots c ! ?i)\<lparr>slot_data := None\<rparr>]\<rparr>"
  obtain c' where "drop_all k' ?c = Some (q, c')" "ch_head c' = ch_tail c'" "ch_tail c' = ch_tail ?c"
    using Cons.IH[of ?c k'] data_at_step(2)[OF Cons.prems(1)] Cons.prems(2) k(2) by (auto simp: algebra_simps)
  with k ne data_at_step(1)[OF Cons.prems(1)] show ?case
    by (auto simp: Let_def slot_index_def)
qed

lemma chan_at_data: "chan_at c q \<Longrightarrow> data_at (ch_slots c) (ch_head c) q"
  by (auto simp: chan_at_def ring_at_def data_at_def)

lemma close_recv_at:
  assumes "chan_at c q" "ts_waiting (ch_rx_waiters c) as" "length as < k"
  shows "\<exists>c'. close_recv k c = Some c' \<and> chan_at c' q \<and> is_recv_closed c' \<and>
    ts_waiting (ch_rx_waiters c') [] \<and> is_send_closed c' = is_send_closed c"
  using ts_close_queued[OF assms(2,3), of Some "()"] assms(1)
  by (fastforce simp: close_recv_def chan_at_def is_recv_closed_def is_send_closed_def)

lemma close_send_at:
  assumes "chan_at c q" "ts_waiting (ch_tx_waiters c) as" "length as < k"
  shows "\<exists>c'. close_send k c = Some c' \<and> chan_at c' q \<and> is_send_closed c' \<and>
    ts_waiting (ch_tx_waiters c') [] \<and> is_recv_closed c' = is_recv_closed c"
  using ts_close_queued[OF assms(2,3), of Some "()"] assms(1)
  by (fastforce simp: close_send_def chan_at_def is_recv_closed_def is_send_closed_def)

section \<open>Properties\<close>

text \<open>C1: A channel created with room for at least two values answers every sequence of try_send and
  try_recv calls exactly as a bounded FIFO queue whose capacity is the rounded size: same results,
  and the ring holds the values of that queue. One lap of the claim loop is always enough.\<close>

theorem channel_is_bounded_fifo:
  assumes "chan_new tx rx n = Ok c" "tx \<noteq> null" "rx \<noteq> null" "2 \<le> unat n" "unat n \<le> 2 ^ 63"
  shows "\<exists>rs c' q'. run_ops (chan_oper (Suc k)) c xs = Some (rs, c') \<and>
    run_ops (\<lambda>q x. Some (queue_op (length (ch_slots c)) q x)) [] xs = Some (rs, q') \<and> chan_at c' q'"
proof -
  have "\<exists>c' :: 'a channel. chan_new tx rx n = Ok c' \<and> chan_at c' []"
    using chan_new_at[OF assms(2-5)] by blast
  with assms(1) have "chan_at c []" by auto
  from mp.run_refines[OF this, of k xs] show ?thesis by blast
qed

lemma chan_new_4: "\<exists>c :: nat channel. chan_new 1 2 4 = Ok c \<and> 4 \<le> length (ch_slots c)"
  using chan_new_at[of 1 2 4] by (auto simp: null_def)

theorem channel_is_bounded_fifo_witness:
  "\<exists>c :: nat channel. chan_new 1 2 4 = Ok c \<and>
    (\<exists>c'. run_ops (chan_oper 1) c [OpSend 7, OpSend 8, OpRecv, OpRecv, OpRecv] =
      Some ([Sent, Sent, Got 7, Got 8, Nothing], c'))"
proof -
  obtain c :: "nat channel" where c: "chan_new 1 2 4 = Ok c" "4 \<le> length (ch_slots c)"
    using chan_new_4 by blast
  have "1 \<noteq> null" "2 \<noteq> null" "2 \<le> unat (4 :: usize)" "unat (4 :: usize) \<le> 2 ^ 63" by (simp_all add: null_def)
  moreover have "ch_slots c \<noteq> []" "1 < length (ch_slots c)" using c(2) by auto
  ultimately show ?thesis
    using channel_is_bounded_fifo[OF c(1), of 0 "[OpSend 7, OpSend 8, OpRecv, OpRecv, OpRecv]"] c(1)
    by auto
qed

text \<open>A channel created with capacity one accepts a second value over the first one before it is
  received, and from then on try_recv never returns: no amount of fuel ends its claim loop.\<close>

theorem bounded_one_overwrites_and_hangs:
  fixes v w :: 'a
  shows "\<exists>c c1 c2. bounded 1 2 1 = Ok c \<and> chan_try_send 1 c v = Some (Ok (), c1) \<and>
    chan_try_send 1 c1 w = Some (Ok (), c2) \<and> (\<forall>k. chan_try_recv k c2 = None)"
proof -
  let ?f = "\<lambda>pos :: usize. (pos + 1, pos + 1)"
  have hang: "next_slot k [\<lparr>slot_sequence = 2, slot_data = Some w\<rparr>] 0 ?f = None" for k
    by (induction k) (auto simp: word_sless_alt)
  obtain n where n: "checked_next_power_of_two 1 = Some n" "n = 1"
    by (simp add: checked_next_power_of_two_def upt_conv_Cons)
  have "(1::nat) \<noteq> null" "(2::nat) \<noteq> null" by (simp_all add: null_def)
  then obtain as bs where ts: "ts_waiting (ts_new 1 :: unit ts_waitlist) as" "ts_waiting (ts_new 2 :: unit ts_waitlist) bs"
    using ts_waiting_new by metis
  let ?c = "\<lparr>ch_head = 0, ch_tail = 0, ch_slots = [\<lparr>slot_sequence = 0, slot_data = None :: 'a option\<rparr>],
    ch_tx_waiters = ts_new 1, ch_rx_waiters = ts_new 2, ch_tx_count = 1, ch_rx_count = 1\<rparr>"
  have "bounded 1 2 1 = Ok ?c"
    using n by (simp add: chan_defs create_slots_def)
  moreover obtain u where u: "wake_recv (?c\<lparr>ch_tail := 1\<rparr>) = Some (?c\<lparr>ch_tail := 1, ch_rx_waiters := u\<rparr>)"
      "\<exists>as. ts_waiting u as"
    using wake_recv_at[of "?c\<lparr>ch_tail := 1\<rparr>"] ts by auto
  let ?c1 = "?c\<lparr>ch_tail := 1, ch_rx_waiters := u, ch_slots := [\<lparr>slot_sequence = 1, slot_data = Some v\<rparr>]\<rparr>"
  have "chan_try_send 1 ?c v = Some (Ok (), ?c1)"
    by (simp add: chan_try_send_def u(1)[simplified])
  moreover obtain u' where u': "wake_recv (?c1\<lparr>ch_tail := 2\<rparr>) = Some (?c1\<lparr>ch_tail := 2, ch_rx_waiters := u'\<rparr>)"
    using wake_recv_at[of "?c1\<lparr>ch_tail := 2\<rparr>"] u(2) by (auto simp del: One_nat_def)
  let ?c2 = "?c1\<lparr>ch_tail := 2, ch_rx_waiters := u', ch_slots := [\<lparr>slot_sequence = 2, slot_data = Some w\<rparr>]\<rparr>"
  have "chan_try_send 1 ?c1 w = Some (Ok (), ?c2)"
    by (simp add: chan_try_send_def u'[simplified])
  moreover have "chan_try_recv k ?c2 = None" for k
    using hang[of k] by (simp add: chan_try_recv_def)
  ultimately show ?thesis by blast
qed

text \<open>Try_recv reads the closed flag after it found the ring empty. When the last sender sends and
  is dropped in between, the receiver is told Closed although the value sent is still in the ring,
  where a further try_recv finds it.\<close>

theorem recv_reports_closed_with_a_value_left:
  assumes "chan_at c []" "ts_waiting (ch_rx_waiters c) []" "ch_tx_count c = 1" "\<not> is_send_closed c"
  shows "chan_try_recv 1 c = Some (None, c) \<and>
    (\<exists>c1 c2 c3. sender_try_send 1 c v = Some (Ok (), c1) \<and> drop_sender 1 c1 = Some c2 \<and>
      recv_result None c2 = Err RecvClosed \<and> receiver_try_recv 1 c2 = Some (Ok v, c3))"
proof -
  have "length [] < length (ch_slots c)" using assms(1) by (auto simp: chan_at_def ring_at_def)
  from chan_send_ok[OF assms(1) this assms(2), of 0 v] assms(3)
  obtain c1 where c1: "chan_try_send 1 c v = Some (Ok (), c1)" "chan_at c1 [v]"
      "ts_waiting (ch_rx_waiters c1) []" "ch_tx_count c1 = 1" "is_send_closed c1 = is_send_closed c"
    by auto
  let ?c1 = "c1\<lparr>ch_tx_count := ch_tx_count c1 - 1\<rparr>"
  have "chan_at ?c1 [v]" "ts_waiting (ch_rx_waiters ?c1) []" using c1 by (simp_all add: chan_at_def)
  from close_recv_at[OF this, of 1]
  obtain c2 where c2: "drop_sender 1 c1 = Some c2" "chan_at c2 [v]" "is_recv_closed c2"
    using c1(4) by (auto simp: drop_sender_def)
  obtain c3 where "chan_try_recv 1 c2 = Some (Some v, c3)" using chan_recv_ok[OF c2(2), of 0] by auto
  with c1(1) c2 assms(4) chan_recv_empty[OF assms(1), of 0] show ?thesis
    by (simp add: sender_try_send_def receiver_try_recv_def recv_result_def recv_error_new_def)
qed

lemma bounded_fresh:
  assumes "2 \<le> unat n" "unat n \<le> 2 ^ 63"
  shows "\<exists>c :: 'a channel. bounded 1 2 n = Ok c \<and> chan_at c [] \<and> ts_waiting (ch_rx_waiters c) [] \<and>
    ts_waiting (ch_tx_waiters c) [] \<and> ch_tx_count c = 1 \<and> ch_rx_count c = 1 \<and> \<not> is_send_closed c \<and>
    \<not> is_recv_closed c"
proof -
  have nn: "(1 :: nat) \<noteq> null" "(2 :: nat) \<noteq> null" by (simp_all add: null_def)
  obtain c :: "'a channel" where c: "chan_new 1 2 n = Ok c" "chan_at c []"
    using chan_new_at[OF nn assms] by blast
  then have "ch_tx_waiters c = ts_new 1" "ch_rx_waiters c = ts_new 2" "ch_tx_count c = 0" "ch_rx_count c = 0"
    by (cases "create_slots n :: (unit, 'a slot list) outcome"; auto simp: chan_new_def)+
  with c nn ts_waiting_new[of 1] ts_waiting_new[of 2] show ?thesis
    by (auto simp: bounded_def new_sender_def new_receiver_def chan_at_def is_send_closed_def is_recv_closed_def
      ts_is_closed_def ts_new_def raw_new_def)
qed

lemma bounded_fresh_send:
  assumes "2 \<le> unat n" "unat n \<le> 2 ^ 63"
  shows "\<exists>c c1. bounded 1 2 n = Ok c \<and> chan_try_send 1 c v = Some (Ok (), c1) \<and> chan_at c1 [v]"
proof -
  obtain c :: "'a channel" where c: "bounded 1 2 n = Ok c" "chan_at c []" "ts_waiting (ch_rx_waiters c) []"
    using bounded_fresh[OF assms] by blast
  have "length [] < length (ch_slots c)" using c(2) by (auto simp: chan_at_def ring_at_def)
  from chan_send_ok[OF c(2) this c(3), of 0 v] c(1) show ?thesis by auto
qed

theorem recv_reports_closed_with_a_value_left_witness:
  "\<exists>c c1 c2 c3. bounded 1 2 2 = Ok c \<and> chan_try_recv 1 c = Some (None, c) \<and>
    sender_try_send 1 c (5 :: nat) = Some (Ok (), c1) \<and> drop_sender 1 c1 = Some c2 \<and>
    recv_result None c2 = Err RecvClosed \<and> receiver_try_recv 1 c2 = Some (Ok 5, c3)"
proof -
  obtain c :: "nat channel" where c: "bounded 1 2 2 = Ok c" "chan_at c []" "ts_waiting (ch_rx_waiters c) []"
      "ch_tx_count c = 1" "\<not> is_send_closed c"
    using bounded_fresh[of 2] by auto
  from recv_reports_closed_with_a_value_left[OF c(2-5), of 5] c(1) show ?thesis by blast
qed

text \<open>Dropping the channel drops exactly the values it still holds, each once and in order, and the
  loop ends after one lap per value.\<close>

theorem drop_all_drops_what_is_left:
  assumes "chan_at c q"
  shows "\<exists>c'. drop_all (Suc (length q)) c = Some (q, c') \<and> ch_head c' = ch_tail c'"
  using drop_all_data[OF chan_at_data[OF assms], of "Suc (length q)"] assms
  unfolding chan_at_def by blast

theorem drop_all_drops_what_is_left_witness:
  "\<exists>c c1 c2. bounded 1 2 4 = Ok c \<and> chan_try_send 1 c (5 :: nat) = Some (Ok (), c1) \<and>
    drop_all 2 c1 = Some ([5], c2)"
proof -
  have "2 \<le> unat (4 :: usize)" "unat (4 :: usize) \<le> 2 ^ 63" by simp_all
  from bounded_fresh_send[OF this, of "5 :: nat"]
  obtain c c1 :: "nat channel" where c: "bounded 1 2 4 = Ok c" "chan_try_send 1 c 5 = Some (Ok (), c1)"
      "chan_at c1 [5]" by blast
  from drop_all_drops_what_is_left[OF c(3)] obtain c2 where "drop_all (Suc (length [5 :: nat])) c1 = Some ([5], c2)"
    by blast
  moreover have "Suc (length [5 :: nat]) = 2" by simp
  ultimately have "drop_all 2 c1 = Some ([5], c2)" by (simp only:)
  with c show ?thesis by blast
qed

text \<open>Dropping the last sender marks the receiving side closed and completes every waiting receiver,
  without losing a queued value; dropping one of several senders changes nothing else.\<close>

theorem last_sender_closes:
  assumes "chan_at c q" "ts_waiting (ch_rx_waiters c) as" "length as < k"
  shows "\<exists>c'. drop_sender k c = Some c' \<and> chan_at c' q \<and> ch_tx_count c' = ch_tx_count c - 1 \<and>
    (if ch_tx_count c = 1 then is_recv_closed c' \<and> ts_waiting (ch_rx_waiters c') []
     else ch_rx_waiters c' = ch_rx_waiters c)"
proof -
  let ?c = "c\<lparr>ch_tx_count := ch_tx_count c - 1\<rparr>"
  have "chan_at ?c q" "ts_waiting (ch_rx_waiters ?c) as" using assms(1,2) by (simp_all add: chan_at_def)
  from close_recv_at[OF this assms(3)] \<open>chan_at ?c q\<close> show ?thesis
    by (auto simp: drop_sender_def close_recv_def Let_def)
qed

theorem last_sender_closes_witness:
  "\<exists>c c' :: nat channel. bounded 1 2 4 = Ok c \<and> drop_sender 1 c = Some c' \<and> is_recv_closed c'"
proof -
  obtain c :: "nat channel" where c: "bounded 1 2 4 = Ok c" "chan_at c []" "ts_waiting (ch_rx_waiters c) []"
      "ch_tx_count c = 1"
    using bounded_fresh[of 4] by auto
  from last_sender_closes[OF c(2,3), of 1] c(1,4) show ?thesis by auto
qed

end
