(* ===== verification/Broadcast.thy ===== *)
theory Broadcast
  imports Mp_Channel
begin

text \<open>
  The broadcast channel of \<open>src/src/async_std/sync/broadcast.rs\<close>: every receiver has its own position in
  one ring of slots; a slot has the sequence number of its last message and the number of receivers that
  have yet to take it. The two accesses of a receive under the slot's read lock, and the two halves of a send
  (claiming an index, and filling the slot under its write lock), are operations of their own, so that calls
  can be interleaved; run alone they compose to \<open>try_recv\<close> and \<open>send\<close>. A value that is read when there is
  none is \<open>None\<close>. Shown: run alone, the channel is a shared log that every receiver reads in order or is told how
  many messages it lost.
\<close>

section \<open>The channel\<close>

record 'a bslot =
  bs_sequence :: usize
  bs_remaining :: usize
  bs_data :: "'a option"

record 'a bcast =
  bc_tail :: usize
  bc_slots :: "'a bslot list"
  bc_tx_count :: usize
  bc_rx_count :: usize
  bc_rx_waiters :: "unit ts_waitlist"

definition bc_new :: "addr \<Rightarrow> usize \<Rightarrow> (unit, 'a bcast) outcome" where
  "bc_new base cap =
     (if cap = 0 then Panic
      else case checked_next_power_of_two cap of
        None \<Rightarrow> Panic
      | Some n \<Rightarrow> Ok \<lparr>bc_tail = 0,
          bc_slots = map (\<lambda>i. \<lparr>bs_sequence = of_nat i, bs_remaining = 0, bs_data = None\<rparr>) [0..<n],
          bc_tx_count = 0, bc_rx_count = 0, bc_rx_waiters = ts_new base\<rparr>)"

definition bc_mask :: "'a bcast \<Rightarrow> usize" where
  "bc_mask c = of_nat (length (bc_slots c)) - 1"

definition bc_slot_of :: "'a bcast \<Rightarrow> usize \<Rightarrow> nat" where
  "bc_slot_of c pos = unat (pos AND bc_mask c)"

text \<open>\<open>drop_all\<close>: the values dropped.\<close>

definition bc_drop_all :: "'a bcast \<Rightarrow> 'a option list \<times> 'a bcast" where
  "bc_drop_all c =
     (map bs_data (filter (\<lambda>s. bs_remaining s \<noteq> 0) (bc_slots c)),
      c\<lparr>bc_slots := map (\<lambda>s. if bs_remaining s \<noteq> 0 then s\<lparr>bs_remaining := 0, bs_data := None\<rparr> else s) (bc_slots c)\<rparr>)"

section \<open>Receivers\<close>

datatype bc_error = BcEmpty | BcClosed | BcLagged usize

text \<open>\<open>Receiver::new\<close>: the position of the new receiver.\<close>

definition bc_receiver_new :: "'a bcast \<Rightarrow> usize \<times> 'a bcast" where
  "bc_receiver_new c = (bc_tail c, c\<lparr>bc_rx_count := bc_rx_count c + 1\<rparr>)"

definition bc_synchronize :: "'a bcast \<Rightarrow> usize" where
  "bc_synchronize c = bc_tail c"

text \<open>A receiver that found its message: the last expected one moves the value out, the others clone it.\<close>

datatype bc_claim = TakeValue nat | CloneValue nat

definition bc_recv_begin :: "'a bcast \<Rightarrow> usize \<Rightarrow> (bc_error, bc_claim) outcome \<times> usize \<times> 'a bcast" where
  "bc_recv_begin c pos =
     (let i = bc_slot_of c pos;
          s = bc_slots c ! i;
          next_pos = pos + 1;
          diff = bs_sequence s - next_pos
      in if diff = 0 then
           (Ok (if bs_remaining s = 1 then TakeValue i else CloneValue i), next_pos,
            c\<lparr>bc_slots := (bc_slots c)[i := s\<lparr>bs_remaining := bs_remaining s - 1\<rparr>]\<rparr>)
         else if diff <s 0 then (Err (if ts_is_closed (bc_rx_waiters c) then BcClosed else BcEmpty), pos, c)
         else (let head = bc_tail c - of_nat (length (bc_slots c)) in (Err (BcLagged (head - pos)), head, c)))"

definition bc_recv_finish :: "'a bcast \<Rightarrow> bc_claim \<Rightarrow> ('a \<times> 'a bcast) option" where
  "bc_recv_finish c claim =
     (case claim of
        TakeValue i \<Rightarrow> map_option (\<lambda>v. (v, c\<lparr>bc_slots := (bc_slots c)[i := (bc_slots c ! i)\<lparr>bs_data := None\<rparr>]\<rparr>))
          (bs_data (bc_slots c ! i))
      | CloneValue i \<Rightarrow> map_option (\<lambda>v. (v, c)) (bs_data (bc_slots c ! i)))"

definition bc_try_recv :: "'a bcast \<Rightarrow> usize \<Rightarrow> ((bc_error, 'a) outcome \<times> usize \<times> 'a bcast) option" where
  "bc_try_recv c pos =
     (case bc_recv_begin c pos of
        (Ok claim, pos1, c1) \<Rightarrow> map_option (\<lambda>(v, c2). (Ok v, pos1, c2)) (bc_recv_finish c1 claim)
      | (Err e, pos1, c1) \<Rightarrow> Some (Err e, pos1, c1)
      | (Panic, pos1, c1) \<Rightarrow> Some (Panic, pos1, c1))"

definition bc_drop_receiver :: "'a bcast \<Rightarrow> 'a bcast" where
  "bc_drop_receiver c = c\<lparr>bc_rx_count := bc_rx_count c - 1\<rparr>"

definition bc_should_block :: "'a bcast \<Rightarrow> usize \<Rightarrow> bool" where
  "bc_should_block c pos \<longleftrightarrow> bc_tail c = pos"

text \<open>One lap of the loops of \<open>recv\<close> and \<open>blocking_recv_cancellable\<close>, after its \<open>try_recv\<close>.\<close>

definition bc_recv_lap :: "bool \<Rightarrow> bool \<Rightarrow> backoff \<Rightarrow> (bc_error, 'a) outcome \<Rightarrow> (bc_error, 'a) outcome lap" where
  "bc_recv_lap stop budget b r =
     (if r \<noteq> Err BcEmpty \<or> stop then Return r else retry_lap budget b)"

section \<open>Senders\<close>

definition bc_sender_new :: "'a bcast \<Rightarrow> 'a bcast" where
  "bc_sender_new c = c\<lparr>bc_tx_count := bc_tx_count c + 1\<rparr>"

definition bc_send_claim :: "'a bcast \<Rightarrow> usize \<times> usize \<times> 'a bcast" where
  "bc_send_claim c = (bc_tail c, bc_rx_count c, c\<lparr>bc_tail := bc_tail c + 1\<rparr>)"

text \<open>Filling the slot: the result, the value it replaced, and the channel. \<open>k\<close> bounds the waiters.\<close>

definition bc_send_commit :: "nat \<Rightarrow> 'a bcast \<Rightarrow> usize \<Rightarrow> usize \<Rightarrow> 'a \<Rightarrow> (('a, unit) outcome \<times> 'a option \<times> 'a bcast) option" where
  "bc_send_commit k c index receivers v =
     (let i = bc_slot_of c index;
          s = bc_slots c ! i;
          (previous, kept) = (if bs_remaining s \<noteq> 0 then (bs_data s, None) else (None, bs_data s))
      in if receivers = 0 then
           Some (Err v, previous,
             c\<lparr>bc_slots := (bc_slots c)[i := \<lparr>bs_sequence = index + 1, bs_remaining = receivers, bs_data = kept\<rparr>]\<rparr>)
         else
           map_option (\<lambda>(_, w). (Ok (), previous,
               c\<lparr>bc_slots := (bc_slots c)[i := \<lparr>bs_sequence = index + 1, bs_remaining = receivers, bs_data = Some v\<rparr>],
                 bc_rx_waiters := w\<rparr>))
             (ts_wake_all Some k (bc_rx_waiters c) ()))"

definition bc_send :: "nat \<Rightarrow> 'a bcast \<Rightarrow> 'a \<Rightarrow> (('a, unit) outcome \<times> 'a option \<times> 'a bcast) option" where
  "bc_send k c v = (let (index, receivers, c1) = bc_send_claim c in bc_send_commit k c1 index receivers v)"

definition bc_drop_sender :: "nat \<Rightarrow> 'a bcast \<Rightarrow> 'a bcast option" where
  "bc_drop_sender k c =
     (let c1 = c\<lparr>bc_tx_count := bc_tx_count c - 1\<rparr>
      in if bc_tx_count c = 1 then map_option (\<lambda>(_, w). c1\<lparr>bc_rx_waiters := w\<rparr>) (ts_close Some k (bc_rx_waiters c1) ())
         else Some c1)"

definition bc_channel :: "addr \<Rightarrow> usize \<Rightarrow> (unit, usize \<times> 'a bcast) outcome" where
  "bc_channel base cap = map_outcome_ok (\<lambda>c. bc_receiver_new (bc_sender_new c)) (bc_new base cap)"

section \<open>The log\<close>

text \<open>\<open>bcast_at c h rs\<close>: the channel \<open>c\<close> after the messages \<open>h\<close>, with receivers that have read up to the positions \<open>rs\<close>.\<close>

definition slot_for :: "'a list \<Rightarrow> nat list \<Rightarrow> nat \<Rightarrow> 'a bslot \<Rightarrow> bool" where
  "slot_for h rs i s \<longleftrightarrow> bs_sequence s = of_nat (i + 1) \<and>
     length (filter (\<lambda>r. r \<le> i) rs) \<le> unat (bs_remaining s) \<and> (bs_remaining s \<noteq> 0 \<longrightarrow> bs_data s = Some (h ! i))"

definition ring_for :: "'a bslot list \<Rightarrow> 'a list \<Rightarrow> nat list \<Rightarrow> bool" where
  "ring_for slots h rs \<longleftrightarrow> (\<exists>k<64. length slots = 2 ^ k) \<and>
     (\<forall>i<length h. length h \<le> i + length slots \<longrightarrow> slot_for h rs i (slots ! (i mod length slots))) \<and>
     (\<forall>j<length slots. length h \<le> j \<longrightarrow> bs_sequence (slots ! j) = of_nat j \<and> bs_remaining (slots ! j) = 0)"

definition bcast_at :: "nat \<Rightarrow> 'a bcast \<Rightarrow> 'a list \<Rightarrow> nat list \<Rightarrow> bool" where
  "bcast_at k c h rs \<longleftrightarrow> ring_for (bc_slots c) h rs \<and> bc_tail c = of_nat (length h) \<and>
     bc_rx_count c = of_nat (length rs) \<and> length rs < 2 ^ 63 \<and> length h < 2 ^ 63 \<and> length (bc_slots c) < 2 ^ 62 \<and>
     (\<forall>r \<in> set rs. r \<le> length h) \<and> (\<exists>as. ts_waiting (bc_rx_waiters c) as \<and> length as < k)"

lemma slot_of_nat: "length (bc_slots c) = 2 ^ k \<Longrightarrow> k < 64 \<Longrightarrow> i < 2 ^ 64 \<Longrightarrow>
  bc_slot_of c (of_nat i) = i mod length (bc_slots c)"
  using slot_index_mod[of k "of_nat i"] by (simp add: bc_slot_of_def bc_mask_def slot_index_def unat_of_nat_usize)

lemma sint_small:
  assumes "- (2 ^ 63) \<le> (d :: int)" "d < 2 ^ 63"
  shows "sint (word_of_int d :: usize) = d"
  using sint_sbintrunc'[of d, where 'a = 64] signed_take_bit_int_eq_self[of 63 d] assms by simp

text \<open>The difference a receiver at \<open>p\<close> sees in a slot with sequence \<open>q\<close>.\<close>

lemma sequence_diff:
  assumes "p < 2 ^ 63" "q < 2 ^ 63"
  shows "(of_nat q - (of_nat p + 1) :: usize) = 0 \<longleftrightarrow> q = p + 1"
    and "(of_nat q - (of_nat p + 1) :: usize) <s 0 \<longleftrightarrow> q < p + 1"
proof -
  have "(of_nat q - (of_nat p + 1) :: usize) = word_of_int (int q - (int p + 1))" by simp
  then have s: "sint (of_nat q - (of_nat p + 1) :: usize) = int q - (int p + 1)"
    using sint_small[of "int q - (int p + 1)"] assms by simp
  show "(of_nat q - (of_nat p + 1) :: usize) <s 0 \<longleftrightarrow> q < p + 1"
    unfolding word_sless_alt s by (simp, linarith)
  have "(of_nat q - (of_nat p + 1) :: usize) = 0 \<longleftrightarrow> sint (of_nat q - (of_nat p + 1) :: usize) = 0"
    by (metis sint_0 signed_word_eqI)
  then show "(of_nat q - (of_nat p + 1) :: usize) = 0 \<longleftrightarrow> q = p + 1" unfolding s by linarith
qed

lemma mod_differs:
  assumes "i < m" "m < i + (n :: nat)"
  shows "i mod n \<noteq> m mod n"
proof
  assume "i mod n = m mod n"
  then have "n dvd m - i" using assms(1) by (metis less_imp_le mod_eq_dvd_iff_nat)
  then have "n \<le> m - i" using assms(1) by (intro dvd_imp_le) auto
  with assms show False by linarith
qed

text \<open>The slot of a position that was overtaken holds a later message.\<close>

lemma overtaken_by:
  assumes "0 < n" "p + n < (m :: nat)"
  shows "\<exists>i. p < i \<and> i < m \<and> m \<le> i + n \<and> i mod n = p mod n"
proof -
  let ?i = "p + n * ((m - 1 - p) div n)"
  have d: "n * ((m - 1 - p) div n) + (m - 1 - p) mod n = m - 1 - p" by simp
  have "(m - 1 - p) mod n < n" using assms(1) by simp
  then have "?i < m" "m \<le> ?i + n" using d assms(2) by linarith+
  moreover have "1 \<le> (m - 1 - p) div n" using div_le_mono[of n "m - 1 - p" n] assms by simp
  then have "p < ?i" using assms(1) by simp
  ultimately show ?thesis by (intro exI[of _ ?i]) simp
qed

lemma ring_length: "ring_for slots h rs \<Longrightarrow> 0 < length slots"
  by (auto simp: ring_for_def)

lemma ringD:
  assumes "ring_for slots h rs"
  shows "i < length h \<Longrightarrow> length h \<le> i + length slots \<Longrightarrow> slot_for h rs i (slots ! (i mod length slots))"
    and "j < length slots \<Longrightarrow> length h \<le> j \<Longrightarrow> bs_sequence (slots ! j) = of_nat j \<and> bs_remaining (slots ! j) = 0"
  using assms by (auto simp: ring_for_def)

text \<open>What the slot of a position says, by how far the position is behind.\<close>

lemma slot_at_end:
  assumes "ring_for slots h rs"
  shows "\<exists>q \<le> length h. bs_sequence (slots ! (length h mod length slots)) = of_nat q"
proof (cases "length slots \<le> length h")
  case True
  let ?i = "length h - length slots"
  have "0 < length slots" by (rule ring_length[OF assms])
  then have "?i < length h" "length h \<le> ?i + length slots" using True by linarith+
  moreover have "?i mod length slots = length h mod length slots" using True by (simp add: le_mod_geq)
  ultimately have "bs_sequence (slots ! (length h mod length slots)) = of_nat (?i + 1)"
    using ringD(1)[OF assms, of ?i] by (simp add: slot_for_def)
  then show ?thesis using \<open>?i < length h\<close> by (intro exI[of _ "?i + 1"]) simp
next
  case False
  then show ?thesis using ringD(2)[OF assms, of "length h"] by auto
qed

section \<open>Operations on the log\<close>

lemma ring_send:
  assumes "ring_for slots h rs" "\<forall>r \<in> set rs. r \<le> length h"
    "bs_sequence s = of_nat (length h + 1)" "length rs \<le> unat (bs_remaining s)"
    "bs_remaining s \<noteq> 0 \<longrightarrow> bs_data s = Some v"
  shows "ring_for (slots[length h mod length slots := s]) (h @ [v]) rs"
proof -
  let ?n = "length slots" and ?m = "length h"
  have n: "0 < ?n" "?m mod ?n < ?n" using ring_length[OF assms(1)] by simp_all
  have new: "slot_for (h @ [v]) rs ?m s"
  proof -
    have "filter (\<lambda>r. r \<le> ?m) rs = rs" using assms(2) by simp
    then show ?thesis using assms(3-5) by (simp add: slot_for_def)
  qed
  have old: "slot_for (h @ [v]) rs i (slots[?m mod ?n := s] ! (i mod ?n))" if "i < ?m" "?m + 1 \<le> i + ?n" for i
  proof -
    have "i mod ?n \<noteq> ?m mod ?n" using that by (intro mod_differs) auto
    then show ?thesis using ringD(1)[OF assms(1), of i] that by (auto simp: slot_for_def nth_append)
  qed
  have rest: "slots[?m mod ?n := s] ! j = slots ! j" if "j < ?n" "?m + 1 \<le> j" for j
    using that by (intro nth_list_update_neq) simp
  show ?thesis
    unfolding ring_for_def length_list_update
  proof (intro conjI allI impI)
    show "\<exists>k<64. ?n = 2 ^ k" using assms(1) by (simp add: ring_for_def)
    fix i assume "i < length (h @ [v])" "length (h @ [v]) \<le> i + ?n"
    then show "slot_for (h @ [v]) rs i (slots[?m mod ?n := s] ! (i mod ?n))"
      using new n old[of i] by (cases "i = ?m") auto
  next
    fix j assume "j < ?n" "length (h @ [v]) \<le> j"
    then show "bs_sequence (slots[?m mod ?n := s] ! j) = of_nat j" "bs_remaining (slots[?m mod ?n := s] ! j) = 0"
      using rest ringD(2)[OF assms(1), of j] by auto
  qed
qed

lemma ring_readers:
  assumes "ring_for slots h rs" "\<And>i. i < length h \<Longrightarrow> length h \<le> i + length slots \<Longrightarrow>
    length (filter (\<lambda>r. r \<le> i) rs') \<le> length (filter (\<lambda>r. r \<le> i) rs)"
  shows "ring_for slots h rs'"
  using assms by (auto simp: ring_for_def slot_for_def intro: le_trans)

lemma filter_update_less:
  assumes "r < length rs"
  shows "length (filter P (rs[r := x])) = length (filter P rs) + (if P x then 1 else 0) - (if P (rs ! r) then 1 else 0)"
  using assms
proof (induction rs arbitrary: r)
  case (Cons a rs)
  show ?case
  proof (cases r)
    case (Suc q)
    have "P (rs ! q) \<Longrightarrow> 1 \<le> length (filter P rs)"
      using Cons.prems Suc by (metis One_nat_def Suc_leI filter_empty_conv length_greater_0_conv length_Cons not_less_eq nth_mem)
    with Cons.IH[of q] Cons.prems Suc show ?thesis by auto
  qed auto
qed simp

lemma ring_take:
  assumes "ring_for slots h rs" "r < length rs" "rs ! r = p" "p < length h" "length h \<le> p + length slots"
    "s = slots ! (p mod length slots)"
    "s' = s\<lparr>bs_remaining := bs_remaining s - 1, bs_data := d\<rparr>" "bs_remaining s \<noteq> 1 \<longrightarrow> d = bs_data s"
  shows "ring_for (slots[p mod length slots := s']) h (rs[r := p + 1]) \<and> bs_data s = Some (h ! p)"
proof -
  let ?n = "length slots"
  have n: "0 < ?n" "p mod ?n < ?n" using ring_length[OF assms(1)] by simp_all
  have sp: "slot_for h rs p s" using ringD(1)[OF assms(1,4,5)] assms(6) by simp
  have "p \<in> set (filter (\<lambda>r. r \<le> p) rs)" using assms(2,3) by (auto simp: in_set_conv_nth)
  then have "1 \<le> length (filter (\<lambda>r. r \<le> p) rs)" by (metis One_nat_def Suc_leI length_pos_if_in_set)
  then have rem: "1 \<le> unat (bs_remaining s)" using sp by (simp add: slot_for_def)
  then have nz: "bs_remaining s \<noteq> 0" by auto
  have um: "unat (bs_remaining s - 1) = unat (bs_remaining s) - 1" using nz by (simp add: unat_minus_one)
  have data: "bs_data s = Some (h ! p)" using sp nz by (simp add: slot_for_def)
  have cnt: "length (filter (\<lambda>r. r \<le> p) (rs[r := p + 1])) = length (filter (\<lambda>r. r \<le> p) rs) - 1"
    using filter_update_less[OF assms(2), of "\<lambda>r. r \<le> p" "p + 1"] assms(3) by simp
  have "bs_remaining s - 1 \<noteq> 0 \<longrightarrow> d = Some (h ! p)" using assms(8) data by auto
  then have d: "bs_remaining s' \<noteq> 0 \<longrightarrow> bs_data s' = Some (h ! p)" unfolding assms(7) by simp
  have new: "slot_for h (rs[r := p + 1]) p s'"
    unfolding slot_for_def
  proof (intro conjI)
    show "bs_sequence s' = of_nat (p + 1)" using sp unfolding assms(7) slot_for_def by simp
    have "length (filter (\<lambda>r. r \<le> p) rs) \<le> unat (bs_remaining s)" using sp by (simp add: slot_for_def)
    moreover have "unat (bs_remaining s') = unat (bs_remaining s) - 1" unfolding assms(7) using um by simp
    ultimately show "length (filter (\<lambda>r. r \<le> p) (rs[r := p + 1])) \<le> unat (bs_remaining s')"
      unfolding cnt by (simp only: diff_le_mono)
    show "bs_remaining s' \<noteq> 0 \<longrightarrow> bs_data s' = Some (h ! p)" by (rule d)
  qed
  have other: "slot_for h (rs[r := p + 1]) i (slots[p mod ?n := s'] ! (i mod ?n))"
    if "i < length h" "length h \<le> i + ?n" "i \<noteq> p" for i
  proof -
    have "i mod ?n \<noteq> p mod ?n"
      using mod_differs[of i p ?n] mod_differs[of p i ?n] that assms(4,5) by (cases i p rule: linorder_cases) auto
    moreover have "length (filter (\<lambda>r. r \<le> i) (rs[r := p + 1])) = length (filter (\<lambda>r. r \<le> i) rs)"
      using filter_update_less[OF assms(2), of "\<lambda>r. r \<le> i" "p + 1"] assms(3) that(3) by auto
    ultimately show ?thesis using ringD(1)[OF assms(1) that(1,2)] by (simp add: slot_for_def)
  qed
  have "ring_for (slots[p mod ?n := s']) h (rs[r := p + 1])"
    unfolding ring_for_def length_list_update
  proof (intro conjI allI impI)
    show "\<exists>k<64. ?n = 2 ^ k" using assms(1) by (simp add: ring_for_def)
    fix i assume "i < length h" "length h \<le> i + ?n"
    then show "slot_for h (rs[r := p + 1]) i (slots[p mod ?n := s'] ! (i mod ?n))"
      using new n other[of i] by (cases "i = p") auto
  next
    fix j assume j: "j < ?n" "length h \<le> j"
    then have "p mod ?n \<noteq> j" using assms(4) mod_less_eq_dividend[of p ?n] by linarith
    then show "bs_sequence (slots[p mod ?n := s'] ! j) = of_nat j" "bs_remaining (slots[p mod ?n := s'] ! j) = 0"
      using ringD(2)[OF assms(1) j] by auto
  qed
  with data show ?thesis by blast
qed

lemma unat_count: "n < 2 ^ 63 \<Longrightarrow> unat (of_nat n :: usize) = n"
  by (rule unat_of_nat_usize) simp

lemma ring_slot:
  assumes "bcast_at k c h rs" "p < 2 ^ 63"
  shows "bc_slot_of c (of_nat p) = p mod length (bc_slots c)"
proof -
  obtain e where "e < 64" "length (bc_slots c) = 2 ^ e" using assms(1) by (auto simp: bcast_at_def ring_for_def)
  then show ?thesis using slot_of_nat[of c e p] assms(2) by simp
qed

lemma send_at:
  assumes "bcast_at k c h rs" "length h + 1 < 2 ^ 63" "0 < k"
  shows "\<exists>prev c'. bc_send k c v = Some (if rs = [] then Err v else Ok (), prev, c') \<and>
    bcast_at k c' (h @ [v]) rs"
proof -
  let ?m = "length h" and ?slots = "bc_slots c"
  let ?c1 = "c\<lparr>bc_tail := bc_tail c + 1\<rparr>" and ?s = "?slots ! (?m mod length ?slots)"
  have at: "ring_for ?slots h rs" "bc_tail c = of_nat ?m" "bc_rx_count c = of_nat (length rs)" "length rs < 2 ^ 63"
    "\<forall>r \<in> set rs. r \<le> ?m" "length ?slots < 2 ^ 62" using assms(1) by (auto simp: bcast_at_def)
  obtain as where w: "ts_waiting (bc_rx_waiters c) as" "length as < k" using assms(1) by (auto simp: bcast_at_def)
  have i: "bc_slot_of ?c1 (bc_tail c) = ?m mod length ?slots"
    using ring_slot[OF assms(1), of ?m] assms(2) at(2) by (simp add: bc_slot_of_def bc_mask_def)
  have rc1: "unat (bc_rx_count c) = length rs" unfolding at(3) by (rule unat_count[OF at(4)])
  then have rc: "unat (bc_rx_count c) = length rs" "bc_rx_count c = 0 \<longleftrightarrow> rs = []" by (simp, metis unat_0 unat_eq_zero length_0_conv)
  show ?thesis
  proof (cases "rs = []")
    case True
    let ?s' = "\<lparr>bs_sequence = bc_tail c + 1, bs_remaining = bc_rx_count c, bs_data = if bs_remaining ?s \<noteq> 0 then None else bs_data ?s\<rparr>"
    have "ring_for (?slots[?m mod length ?slots := ?s']) (h @ [v]) rs"
      by (rule ring_send[OF at(1)]) (use at True rc in auto)
    then have "bcast_at k (?c1\<lparr>bc_slots := ?slots[?m mod length ?slots := ?s']\<rparr>) (h @ [v]) rs"
      using assms w at True by (auto simp: bcast_at_def)
    then show ?thesis using True rc(2) i
      by (cases "bs_remaining ?s = 0") (auto simp: bc_send_def bc_send_claim_def bc_send_commit_def Let_def)
  next
    case False
    let ?s' = "\<lparr>bs_sequence = bc_tail c + 1, bs_remaining = bc_rx_count c, bs_data = Some v\<rparr>"
    obtain ts' where t: "ts_wake_all Some k (bc_rx_waiters c) () =
        Some (if ts_empty (bc_rx_waiters c) then 0 else wl_count (ts_list (bc_rx_waiters c)), ts')" "ts_waiting ts' []"
      using ts_wake_all_queued[OF w] by blast
    have "ring_for (?slots[?m mod length ?slots := ?s']) (h @ [v]) rs"
      by (rule ring_send[OF at(1)]) (use at rc in auto)
    then have "bcast_at k (?c1\<lparr>bc_slots := ?slots[?m mod length ?slots := ?s'], bc_rx_waiters := ts'\<rparr>) (h @ [v]) rs"
      using assms t(2) at by (auto simp: bcast_at_def)
    then show ?thesis using False rc(2) i t(1)
      by (cases "bs_remaining ?s = 0") (auto simp: bc_send_def bc_send_claim_def bc_send_commit_def Let_def)
  qed
qed

lemma bs_keep: "bs_data s = d \<Longrightarrow> s\<lparr>bs_remaining := n, bs_data := d\<rparr> = s\<lparr>bs_remaining := n\<rparr>"
  by (cases s) simp

text \<open>What a receiver at \<open>p\<close> gets, and its new position.\<close>

definition log_recv :: "nat \<Rightarrow> bool \<Rightarrow> 'a list \<Rightarrow> nat \<Rightarrow> (bc_error, 'a) outcome \<times> nat" where
  "log_recv cap closed h p =
     (if p = length h then (Err (if closed then BcClosed else BcEmpty), p)
      else if length h \<le> p + cap then (Ok (h ! p), p + 1)
      else (Err (BcLagged (of_nat (length h - cap - p))), length h - cap))"

lemma recv_at:
  assumes "bcast_at k c h rs" "r < length rs"
  shows "\<exists>c'. bc_try_recv c (of_nat (rs ! r)) =
      Some (fst (log_recv (length (bc_slots c)) (ts_is_closed (bc_rx_waiters c)) h (rs ! r)),
        of_nat (snd (log_recv (length (bc_slots c)) (ts_is_closed (bc_rx_waiters c)) h (rs ! r))), c') \<and>
    bcast_at k c' h (rs[r := snd (log_recv (length (bc_slots c)) (ts_is_closed (bc_rx_waiters c)) h (rs ! r))]) \<and>
    length (bc_slots c') = length (bc_slots c) \<and> bc_rx_waiters c' = bc_rx_waiters c"
proof -
  let ?p = "rs ! r" and ?m = "length h" and ?slots = "bc_slots c" and ?n = "length (bc_slots c)"
  let ?s = "?slots ! (?p mod ?n)"
  have at: "ring_for ?slots h rs" "bc_tail c = of_nat ?m" "?m < 2 ^ 63" "?n < 2 ^ 62" "\<forall>r \<in> set rs. r \<le> ?m"
    using assms(1) by (auto simp: bcast_at_def)
  have p: "?p \<le> ?m" "?p < 2 ^ 63" using at assms(2) nth_mem[OF assms(2)] by (auto intro: le_less_trans)
  have n: "0 < ?n" by (rule ring_length[OF at(1)])
  have i: "bc_slot_of c (of_nat ?p) = ?p mod ?n" by (rule ring_slot[OF assms(1) p(2)])
  show ?thesis
  proof (cases "?p = ?m")
    case True
    obtain q where q: "q \<le> ?m" "bs_sequence ?s = of_nat q" using slot_at_end[OF at(1)] True by auto
    have "of_nat q - (of_nat ?p + 1 :: usize) <s 0" "of_nat q - (of_nat ?p + 1 :: usize) \<noteq> 0"
      using sequence_diff[of ?p q] p(2) q(1) at(3) True by auto
    then have "bc_recv_begin c (of_nat ?p) = (Err (if ts_is_closed (bc_rx_waiters c) then BcClosed else BcEmpty), of_nat ?p, c)"
      using i q(2) by (simp add: bc_recv_begin_def Let_def)
    moreover have "rs[r := ?m] = rs" using True by (metis list_update_id)
    ultimately show ?thesis using True assms by (simp add: bc_try_recv_def log_recv_def)
  next
    case False
    then have lt: "?p < ?m" using p(1) by simp
    show ?thesis
    proof (cases "?m \<le> ?p + ?n")
      case True
      have sq: "bs_sequence ?s = of_nat (?p + 1)" using ringD(1)[OF at(1) lt True] by (simp add: slot_for_def)
      let ?s1 = "?s\<lparr>bs_remaining := bs_remaining ?s - 1\<rparr>"
      let ?cl = "if bs_remaining ?s = 1 then TakeValue (?p mod ?n) else CloneValue (?p mod ?n)"
      have b: "bc_recv_begin c (of_nat ?p) = (Ok ?cl, of_nat ?p + 1, c\<lparr>bc_slots := ?slots[?p mod ?n := ?s1]\<rparr>)"
        using i sq by (simp add: bc_recv_begin_def Let_def)
      let ?d = "if bs_remaining ?s = 1 then None else bs_data ?s"
      let ?s2 = "?s\<lparr>bs_remaining := bs_remaining ?s - 1, bs_data := ?d\<rparr>"
      have t: "ring_for (?slots[?p mod ?n := ?s2]) h (rs[r := ?p + 1])" "bs_data ?s = Some (h ! ?p)"
        using ring_take[OF at(1) assms(2) refl lt True refl refl, of ?d] by auto
      have f: "bc_recv_finish (c\<lparr>bc_slots := ?slots[?p mod ?n := ?s1]\<rparr>) ?cl =
          Some (h ! ?p, c\<lparr>bc_slots := ?slots[?p mod ?n := ?s2]\<rparr>)"
      proof (cases "bs_remaining ?s = 1")
        case last: True
        then show ?thesis using t(2) n by (simp add: bc_recv_finish_def)
      next
        case more: False
        then have e: "?s2 = ?s1" using bs_keep[OF refl, of ?s] by (simp only: if_False)
        show ?thesis unfolding e using more t(2) n by (simp add: bc_recv_finish_def)
      qed
      have "\<forall>x \<in> set (rs[r := ?p + 1]). x \<le> ?m" using at(5) lt set_update_subset_insert[of rs r "?p + 1"] by auto
      then have "bcast_at k (c\<lparr>bc_slots := ?slots[?p mod ?n := ?s2]\<rparr>) h (rs[r := ?p + 1])"
        using assms(1) t(1) by (simp add: bcast_at_def)
      then show ?thesis using b f False True by (simp add: bc_try_recv_def log_recv_def)
    next
      case behind: False
      then obtain q where q: "?p < q" "q < ?m" "?m \<le> q + ?n" "q mod ?n = ?p mod ?n"
        using overtaken_by[OF n, of ?p ?m] by auto
      have sq: "bs_sequence ?s = of_nat (q + 1)" using ringD(1)[OF at(1) q(2,3)] q(4) by (simp add: slot_for_def)
      have "\<not> of_nat (q + 1) - (of_nat ?p + 1 :: usize) <s 0" "of_nat (q + 1) - (of_nat ?p + 1 :: usize) \<noteq> 0"
        using sequence_diff[of ?p "q + 1"] p(2) q(1,2) at(3) by auto
      moreover have "bc_tail c - of_nat ?n = (of_nat (?m - ?n) :: usize)" using behind at(2) by (simp add: of_nat_diff)
      moreover have "(of_nat (?m - ?n) :: usize) - of_nat ?p = of_nat (?m - ?n - ?p)" using behind by (simp add: of_nat_diff)
      ultimately have b: "bc_recv_begin c (of_nat ?p) = (Err (BcLagged (of_nat (?m - ?n - ?p))), of_nat (?m - ?n), c)"
        using i sq by (simp only: bc_recv_begin_def Let_def if_False)
      have "ring_for ?slots h (rs[r := ?m - ?n])"
      proof (rule ring_readers[OF at(1)])
        fix x assume x: "x < ?m" "?m \<le> x + ?n"
        have "?m - ?n \<le> x" "?p \<le> x" using x behind by linarith+
        then show "length (filter (\<lambda>r. r \<le> x) (rs[r := ?m - ?n])) \<le> length (filter (\<lambda>r. r \<le> x) rs)"
          using filter_update_less[OF assms(2), of "\<lambda>r. r \<le> x" "?m - ?n"] by simp
      qed
      moreover have "\<forall>x \<in> set (rs[r := ?m - ?n]). x \<le> ?m"
        using at(5) set_update_subset_insert[of rs r "?m - ?n"] by auto
      ultimately have "bcast_at k c h (rs[r := ?m - ?n])" using assms(1) by (simp add: bcast_at_def)
      then show ?thesis using b False behind by (simp add: bc_try_recv_def log_recv_def)
    qed
  qed
qed

lemma subscribe_at:
  assumes "bcast_at k c h rs" "length rs + 1 < 2 ^ 63"
  shows "\<exists>c'. bc_receiver_new c = (of_nat (length h), c') \<and> bcast_at k c' h (rs @ [length h])"
proof -
  have "ring_for (bc_slots c) h (rs @ [length h])"
    by (rule ring_readers[of _ _ rs]) (use assms(1) in \<open>auto simp: bcast_at_def\<close>)
  with assms show ?thesis by (auto simp: bc_receiver_new_def bcast_at_def)
qed

lemma synchronize_at:
  assumes "bcast_at k c h rs" "r < length rs"
  shows "bc_synchronize c = of_nat (length h) \<and> bcast_at k c h (rs[r := length h])"
proof -
  have "ring_for (bc_slots c) h (rs[r := length h])"
  proof (rule ring_readers[of _ _ rs])
    show "ring_for (bc_slots c) h rs" using assms(1) by (simp add: bcast_at_def)
    fix i assume "i < length h" "length h \<le> i + length (bc_slots c)"
    then show "length (filter (\<lambda>x. x \<le> i) (rs[r := length h])) \<le> length (filter (\<lambda>x. x \<le> i) rs)"
      using filter_update_less[OF assms(2), of "\<lambda>x. x \<le> i" "length h"] by simp
  qed
  moreover have "\<forall>x \<in> set (rs[r := length h]). x \<le> length h"
    using assms(1) set_update_subset_insert[of rs r "length h"] by (auto simp: bcast_at_def)
  ultimately show ?thesis using assms(1) by (simp add: bcast_at_def bc_synchronize_def)
qed

lemma unsubscribe_at:
  assumes "bcast_at k c h rs" "r < length rs"
  shows "bcast_at k (bc_drop_receiver c) h (take r rs @ drop (Suc r) rs)"
proof -
  let ?rs = "take r rs @ drop (Suc r) rs"
  have f: "length (filter P ?rs) \<le> length (filter P rs)" for P
  proof -
    have "rs = take r rs @ rs ! r # drop (Suc r) rs" by (rule id_take_nth_drop[OF assms(2)])
    then have "filter P rs = filter P (take r rs) @ filter P (rs ! r # drop (Suc r) rs)" by (metis filter_append)
    then show ?thesis by simp
  qed
  have "ring_for (bc_slots c) h ?rs"
    by (rule ring_readers[of _ _ rs]) (use assms(1) f in \<open>auto simp: bcast_at_def simp del: filter_append\<close>)
  moreover have "set ?rs \<subseteq> set rs" by (auto dest: in_set_takeD in_set_dropD)
  moreover have "of_nat (length rs) - 1 = (of_nat (length ?rs) :: usize)" using assms(2) by (simp add: of_nat_diff)
  ultimately show ?thesis using assms by (auto simp: bcast_at_def bc_drop_receiver_def)
qed

section \<open>Runs\<close>

datatype 'a bop = BSend 'a | BRecv nat | BSubscribe | BSynchronize nat | BUnsubscribe nat
datatype 'a bres = BSent | BRefused 'a | BGot 'a | BNothing | BLost usize | BDone

text \<open>A channel with the positions of its receivers, and a log with as many readers; naming no receiver does nothing.\<close>

fun bcast_oper :: "nat \<Rightarrow> 'a bcast \<times> usize list \<Rightarrow> 'a bop \<Rightarrow> ('a bres \<times> 'a bcast \<times> usize list) option" where
  "bcast_oper k (c, ps) (BSend v) =
     map_option (\<lambda>(r, _, c1). (case r of Err v \<Rightarrow> BRefused v | _ \<Rightarrow> BSent, c1, ps)) (bc_send k c v)"
| "bcast_oper k (c, ps) (BRecv r) =
     (if r < length ps then
        map_option (\<lambda>(q, p, c1). (case q of Ok v \<Rightarrow> BGot v | Err (BcLagged n) \<Rightarrow> BLost n | _ \<Rightarrow> BNothing, c1, ps[r := p]))
          (bc_try_recv c (ps ! r))
      else Some (BDone, c, ps))"
| "bcast_oper k (c, ps) BSubscribe = (let (p, c1) = bc_receiver_new c in Some (BDone, c1, ps @ [p]))"
| "bcast_oper k (c, ps) (BSynchronize r) = Some (BDone, c, ps[r := bc_synchronize c])"
| "bcast_oper k (c, ps) (BUnsubscribe r) =
     (if r < length ps then Some (BDone, bc_drop_receiver c, take r ps @ drop (Suc r) ps) else Some (BDone, c, ps))"

fun log_oper :: "nat \<Rightarrow> 'a list \<times> nat list \<Rightarrow> 'a bop \<Rightarrow> 'a bres \<times> 'a list \<times> nat list" where
  "log_oper cap (h, rs) (BSend v) = (if rs = [] then BRefused v else BSent, h @ [v], rs)"
| "log_oper cap (h, rs) (BRecv r) =
     (if r < length rs then
        (if rs ! r = length h then (BNothing, h, rs)
         else if length h \<le> rs ! r + cap then (BGot (h ! (rs ! r)), h, rs[r := rs ! r + 1])
         else (BLost (of_nat (length h - cap - rs ! r)), h, rs[r := length h - cap]))
      else (BDone, h, rs))"
| "log_oper cap (h, rs) BSubscribe = (BDone, h, rs @ [length h])"
| "log_oper cap (h, rs) (BSynchronize r) = (BDone, h, rs[r := length h])"
| "log_oper cap (h, rs) (BUnsubscribe r) =
     (if r < length rs then (BDone, h, take r rs @ drop (Suc r) rs) else (BDone, h, rs))"

definition bcast_sys :: "nat \<Rightarrow> nat \<Rightarrow> 'a bcast \<times> usize list \<Rightarrow> 'a list \<times> nat list \<Rightarrow> bool" where
  "bcast_sys k cap s t \<longleftrightarrow> bcast_at k (fst s) (fst t) (snd t) \<and> length (bc_slots (fst s)) = cap \<and>
     snd s = map of_nat (snd t)"

lemma bcast_oper_refines:
  assumes "bcast_sys k cap s t" "0 < k" "length (fst t) + 1 < 2 ^ 63" "length (snd t) + 1 < 2 ^ 63"
  shows "\<exists>s'. bcast_oper k s x = Some (fst (log_oper cap t x), s') \<and> bcast_sys k cap s' (snd (log_oper cap t x)) \<and>
    length (fst (snd (log_oper cap t x))) \<le> length (fst t) + 1 \<and> length (snd (snd (log_oper cap t x))) \<le> length (snd t) + 1"
proof -
  obtain c ps h rs where st: "s = (c, ps)" "t = (h, rs)" by fastforce
  have at: "bcast_at k c h rs" "length (bc_slots c) = cap" "ps = map of_nat rs"
    using assms(1) st by (auto simp: bcast_sys_def)
  show ?thesis
  proof (cases x)
    case (BSend v)
    obtain prev c' where r: "bc_send k c v = Some (if rs = [] then Err v else Ok (), prev, c')" "bcast_at k c' (h @ [v]) rs"
      using send_at[OF at(1) _ assms(2), of v] assms(3) st by auto
    have "length (bc_slots c') = cap"
      using r(1) at(2) by (auto simp: bc_send_def bc_send_claim_def bc_send_commit_def Let_def split: if_splits)
    then show ?thesis using r at BSend st by (auto simp: bcast_sys_def)
  next
    case (BRecv r)
    show ?thesis
    proof (cases "r < length rs")
      case True
      from recv_at[OF at(1) True] at(2) obtain c' where
        c: "bc_try_recv c (of_nat (rs ! r)) = Some (fst (log_recv cap (ts_is_closed (bc_rx_waiters c)) h (rs ! r)),
            of_nat (snd (log_recv cap (ts_is_closed (bc_rx_waiters c)) h (rs ! r))), c')"
        "bcast_at k c' h (rs[r := snd (log_recv cap (ts_is_closed (bc_rx_waiters c)) h (rs ! r))])"
        "length (bc_slots c') = cap" by auto
      have "rs[r := length h] = rs" if "rs ! r = length h" using that by (metis list_update_id)
      moreover have "(map of_nat rs)[r := of_nat (length h)] = (map of_nat rs :: usize list)" if "rs ! r = length h"
        using that True by (metis length_map list_update_id nth_map)
      ultimately show ?thesis using c at(3) True BRecv st by (auto simp: bcast_sys_def log_recv_def map_update)
    next
      case False
      then show ?thesis using at BRecv st by (auto simp: bcast_sys_def)
    qed
  next
    case BSubscribe
    then show ?thesis using subscribe_at[OF at(1)] assms(4) at st
      by (auto simp: bcast_sys_def bc_receiver_new_def)
  next
    case (BSynchronize r)
    show ?thesis
    proof (cases "r < length rs")
      case True
      then show ?thesis using synchronize_at[OF at(1) True] at BSynchronize st by (auto simp: bcast_sys_def map_update)
    next
      case False
      then show ?thesis using at BSynchronize st by (auto simp: bcast_sys_def list_update_beyond)
    qed
  next
    case (BUnsubscribe r)
    show ?thesis
    proof (cases "r < length rs")
      case True
      have "length (bc_slots (bc_drop_receiver c)) = cap" using at(2) by (simp add: bc_drop_receiver_def)
      then show ?thesis using True unsubscribe_at[OF at(1) True] at BUnsubscribe st
        by (auto simp: bcast_sys_def take_map drop_map)
    next
      case False
      then show ?thesis using at BUnsubscribe st by (auto simp: bcast_sys_def)
    qed
  qed
qed

lemma bcast_new_at:
  assumes "bc_new base cap = Ok c" "base \<noteq> null" "0 < k" "length (bc_slots c) < 2 ^ 62"
  shows "bcast_at k c [] []"
proof -
  obtain n where n: "checked_next_power_of_two cap = Some n"
    "c = \<lparr>bc_tail = 0, bc_slots = map (\<lambda>i. \<lparr>bs_sequence = of_nat i, bs_remaining = 0, bs_data = None\<rparr>) [0..<n],
          bc_tx_count = 0, bc_rx_count = 0, bc_rx_waiters = ts_new base\<rparr>"
    using assms(1) by (auto simp: bc_new_def split: if_splits option.splits)
  obtain e where "n = 2 ^ e" "e < 64"
    using n(1) by (auto simp: checked_next_power_of_two_def find_Some_iff)
  then have "ring_for (bc_slots c) [] []" using n(2) by (auto simp: ring_for_def)
  then show ?thesis using n(2) assms ts_waiting_new[OF assms(2)] by (auto simp: bcast_at_def)
qed


lemma bcast_2: "\<exists>c :: nat bcast. bc_new 1 2 = Ok c \<and> length (bc_slots c) = 2"
proof -
  have "checked_next_power_of_two 2 = Some 2" by (simp add: checked_next_power_of_two_def upt_conv_Cons)
  then show ?thesis by (simp add: bc_new_def)
qed

definition sample_ops :: "nat bop list" where
  "sample_ops = [BSubscribe, BSend 10, BSend 11, BSend 12, BRecv 0, BRecv 0, BRecv 0]"

definition sample_results :: "nat bres list" where
  "sample_results = [BDone, BSent, BSent, BSent, BLost 1, BGot 11, BGot 12]"

lemma sample_log:
  "map_option fst (run_ops (\<lambda>t x. Some (log_oper 2 t x)) ([], []) sample_ops) = Some sample_results"
  by code_simp


section \<open>Interleaved calls\<close>

text \<open>Two slots, one sender that is preempted between claiming its index and filling its slot.\<close>

definition bcast_two :: "nat \<Rightarrow> nat bcast" where
  "bcast_two receivers =
     \<lparr>bc_tail = 0, bc_slots = [\<lparr>bs_sequence = 0, bs_remaining = 0, bs_data = None\<rparr>,
        \<lparr>bs_sequence = 1, bs_remaining = 0, bs_data = None\<rparr>],
      bc_tx_count = 2, bc_rx_count = of_nat receivers, bc_rx_waiters = (ts_new 1)\<lparr>ts_empty := True\<rparr>\<rparr>"

definition late_commit :: "(nat option \<times> bool \<times> (bc_error, nat) outcome) option" where
  "late_commit =
     (let (i0, n0, c0) = bc_send_claim (bcast_two 1)
      in case bc_send 1 c0 11 of None \<Rightarrow> None
       | Some (_, _, c1) \<Rightarrow> (case bc_send 1 c1 12 of None \<Rightarrow> None
       | Some (_, _, c2) \<Rightarrow> (case bc_send_commit 1 c2 i0 n0 10 of None \<Rightarrow> None
       | Some (_, lost, c3) \<Rightarrow> map_option (\<lambda>(r, p, c4). (lost, bc_should_block c4 p, r)) (bc_try_recv c3 2))))"

text \<open>A sender that is overtaken by a whole lap between claiming its index and filling its slot overwrites the newer
  message with its own and turns the slot's sequence back: the newer message is lost without any receiver being
  told, and a receiver waiting for it finds the channel empty but is never allowed to sleep.\<close>

theorem overtaken_sender_loses_a_message:
  "late_commit = Some (Some 12, False, Err BcEmpty)"
  by code_simp

definition clone_race :: "((nat \<times> nat bcast) option \<times> (nat \<times> nat bcast) option) option" where
  "clone_race =
     (case bc_send 1 (bcast_two 2) 7 of None \<Rightarrow> None
      | Some (_, _, c1) \<Rightarrow>
          (case bc_recv_begin c1 0 of
             (Ok first, _, c2) \<Rightarrow>
               (case bc_recv_begin c2 0 of
                  (Ok second, _, c3) \<Rightarrow>
                    (case bc_recv_finish c3 second of None \<Rightarrow> None
                     | Some (v, c4) \<Rightarrow> Some (Some (v, c4), bc_recv_finish c4 first))
                | _ \<Rightarrow> None)
           | _ \<Rightarrow> None))"

text \<open>The count of pending receivers is decremented before the value is cloned, so the last receiver can move the value
  out while an earlier one, holding the same read lock, is still about to clone it and reads a value that is gone.\<close>

theorem last_receiver_moves_value_being_cloned:
  "map_option (\<lambda>(a, b). (map_option fst a, map_option fst b)) clone_race = Some (Some 7, None)"
  by code_simp

end
