(* ===== verification/Io_Base.thy ===== *)
theory Io_Base
  imports Error_Codes
begin

text \<open>
  Byte streams. A reader is the \<open>read\<close> of an implementation of the crate's \<open>Read\<close> trait: from its state
  and the destination buffer it gives the result, the buffer afterwards and its new state; a writer
  likewise. Both are parameters, since the traits are implemented by any code. The locales state what
  a well-behaved reader and writer promise; the provided methods of \<open>src/src/async_std/io/read.rs\<close> and
  \<open>src/src/async_std/io/write.rs\<close> are proved against them, and so are the helpers of
  \<open>src/src/async_std/io/mod.rs\<close> and \<open>src/src/io/mod.rs\<close>. \<open>intr s\<close> is whether the task is interrupted in state
  \<open>s\<close> of the world; an error is represented by its kind. Loops take fuel: \<open>None\<close> is running out of it.
\<close>

type_synonym 's reader = "'s \<Rightarrow> byte list \<Rightarrow> (error_kind, nat) outcome \<times> byte list \<times> 's"
type_synonym 's writer = "'s \<Rightarrow> byte list \<Rightarrow> (error_kind, nat) outcome \<times> 's"

section \<open>Helpers\<close>

text \<open>The bytes copied, and the destination afterwards.\<close>

definition read_into_slice :: "byte list \<Rightarrow> byte list \<Rightarrow> nat \<times> byte list" where
  "read_into_slice dest src =
     (let len = min (length dest) (length src) in (len, take len src @ drop len dest))"

definition check_interrupt_if_zero :: "bool \<Rightarrow> nat \<Rightarrow> (error_kind, nat) outcome" where
  "check_interrupt_if_zero interrupted len =
     (if len = 0 \<and> interrupted then Err Interrupted else Ok len)"

definition length_check :: "byte list \<Rightarrow> nat \<Rightarrow> (error_kind, nat) outcome" where
  "length_check buf len = (if len \<le> length buf then Ok len else Panic)"

definition short_io_error_unless_interrupt :: "bool \<Rightarrow> error_kind" where
  "short_io_error_unless_interrupt interrupted = (if interrupted then Interrupted else UnexpectedEof)"

text \<open>\<open>advance_slices\<close>: the slices left after \<open>amount\<close> bytes, or a panic when there are not that many.\<close>

fun advance_slices :: "byte list list \<Rightarrow> nat \<Rightarrow> (unit, byte list list) outcome" where
  "advance_slices [] amount = (if amount = 0 then Ok [] else Panic)"
| "advance_slices (b # bs) amount =
     (if length b \<le> amount then advance_slices bs (amount - length b) else Ok (drop amount b # bs))"

text \<open>\<open>UninitBuf<SIZE>\<close>: the filled part of a fixed array. It is a writer that never fails.\<close>

record uninit_buf =
  ub_size :: nat
  ub_filled :: "byte list"

definition ub_new :: "nat \<Rightarrow> uninit_buf" where
  "ub_new n = \<lparr>ub_size = n, ub_filled = []\<rparr>"

definition ub_spare_capacity :: "uninit_buf \<Rightarrow> nat" where
  "ub_spare_capacity b = ub_size b - length (ub_filled b)"

definition ub_extend_from_slice :: "uninit_buf \<Rightarrow> byte list \<Rightarrow> nat \<times> uninit_buf" where
  "ub_extend_from_slice b buf =
     (let len = min (ub_spare_capacity b) (length buf)
      in (len, b\<lparr>ub_filled := ub_filled b @ take len buf\<rparr>))"

definition ub_write :: "uninit_buf writer" where
  "ub_write b buf = (let (n, b') = ub_extend_from_slice b buf in (Ok n, b'))"

fun ub_write_vectored :: "uninit_buf \<Rightarrow> byte list list \<Rightarrow> nat \<times> uninit_buf" where
  "ub_write_vectored b [] = (0, b)"
| "ub_write_vectored b (buf # bufs) =
     (let (n, b1) = ub_extend_from_slice b buf
      in if n = 0 then (0, b1) else (let (m, b2) = ub_write_vectored b1 bufs in (n + m, b2)))"

section \<open>Provided methods of \<open>Read\<close>\<close>

text \<open>The loop of \<open>try_read_fully\<close>: \<open>Ok\<close> the bytes read so far, the buffer, the reader.\<close>

fun try_read_loop ::
  "'s reader \<Rightarrow> nat \<Rightarrow> 's \<Rightarrow> byte list \<Rightarrow> nat \<Rightarrow> ((error_kind, nat) outcome \<times> byte list \<times> 's) option" where
  "try_read_loop rd 0 s buf read = None"
| "try_read_loop rd (Suc k) s buf read =
     (if read < length buf then
        (case rd s (drop read buf) of
           (Ok n, av, s1) \<Rightarrow>
             if n = 0 then Some (Ok read, take read buf @ av, s1)
             else (case length_check (drop read buf) n of
                 Ok m \<Rightarrow> try_read_loop rd k s1 (take read buf @ av) (read + m)
               | _ \<Rightarrow> Some (Panic, take read buf @ av, s1))
         | (Err e, av, s1) \<Rightarrow>
             Some (if e = Interrupted then Ok read else Err e, take read buf @ av, s1)
         | (Panic, av, s1) \<Rightarrow> Some (Panic, take read buf @ av, s1))
      else Some (Ok read, buf, s))"

definition try_read_fully ::
  "'s reader \<Rightarrow> ('s \<Rightarrow> bool) \<Rightarrow> nat \<Rightarrow> 's \<Rightarrow> byte list \<Rightarrow> ((error_kind, nat) outcome \<times> byte list \<times> 's) option" where
  "try_read_fully rd intr k s buf =
     (if buf = [] then Some (Ok 0, buf, s)
      else map_option (\<lambda>(r, buf1, s1).
          (case r of Ok n \<Rightarrow> check_interrupt_if_zero (intr s1) n | Err e \<Rightarrow> Err e | Panic \<Rightarrow> Panic, buf1, s1))
        (try_read_loop rd k s buf 0))"

definition read_fully ::
  "'s reader \<Rightarrow> ('s \<Rightarrow> bool) \<Rightarrow> nat \<Rightarrow> 's \<Rightarrow> byte list \<Rightarrow> ((error_kind, nat) outcome \<times> byte list \<times> 's) option" where
  "read_fully rd intr k s buf =
     (if buf = [] then Some (Ok 0, buf, s)
      else map_option (\<lambda>(r, buf1, s1).
          (case r of
             Ok n \<Rightarrow> if length buf < n then Panic
               else if n \<noteq> length buf then Err (short_io_error_unless_interrupt (intr s1)) else Ok n
           | Err e \<Rightarrow> Err e | Panic \<Rightarrow> Panic, buf1, s1))
        (try_read_fully rd intr k s buf))"

text \<open>
  \<open>read_to_end\<close>: the vector is its bytes and its capacity; \<open>grow cap needed\<close> is the allocator's choice of
  a new capacity. \<open>data\<close> is longer than \<open>len\<close> while it is padded for the next read.
\<close>

definition reserve :: "(nat \<Rightarrow> nat \<Rightarrow> nat) \<Rightarrow> nat \<Rightarrow> nat \<Rightarrow> nat" where
  "reserve grow cap needed = (if cap < needed then grow cap needed else cap)"

fun read_to_end_loop :: "'s reader \<Rightarrow> ('s \<Rightarrow> bool) \<Rightarrow> (nat \<Rightarrow> nat \<Rightarrow> nat) \<Rightarrow> nat \<Rightarrow> 's \<Rightarrow> byte list \<Rightarrow> nat \<Rightarrow> nat \<Rightarrow>
    ((error_kind, nat) outcome \<times> byte list \<times> 's) option" where
  "read_to_end_loop rd intr grow 0 s data len cap = None"
| "read_to_end_loop rd intr grow (Suc k) s data len cap =
     (if intr s then Some (Ok len, data, s)
      else
        (let cap1 = (if len = cap then reserve grow cap (length data + 32) else cap);
             data1 = data @ replicate (cap1 - length data) 0
         in case rd s (drop len data1) of
              (Err e, av, s1) \<Rightarrow> Some (if e = Interrupted then Ok len else Err e, take len data1 @ av, s1)
            | (Panic, av, s1) \<Rightarrow> Some (Panic, take len data1 @ av, s1)
            | (Ok n, av, s1) \<Rightarrow>
                (let data2 = take len data1 @ av
                 in if n = 0 then Some (Ok len, data2, s1)
                    else if length av < n then Some (Panic, data2, s1)
                    else if len + n < cap1 then read_to_end_loop rd intr grow k s1 data2 (len + n) cap1
                    else (case rd s1 (replicate 32 0) of
                        (Err e, p, s2) \<Rightarrow> Some (if e = Interrupted then Ok (len + n) else Err e, data2, s2)
                      | (Panic, p, s2) \<Rightarrow> Some (Panic, data2, s2)
                      | (Ok m, p, s2) \<Rightarrow>
                          if m = 0 then Some (Ok (len + n), data2, s2)
                          else if 32 < m then Some (Panic, data2, s2)
                          else (let data3 = data2 @ take m p
                                in read_to_end_loop rd intr grow k s2 data3 (length data3)
                                     (reserve grow cap1 (length data3)))))))"

definition read_to_end :: "'s reader \<Rightarrow> ('s \<Rightarrow> bool) \<Rightarrow> (nat \<Rightarrow> nat \<Rightarrow> nat) \<Rightarrow> nat \<Rightarrow> 's \<Rightarrow> byte list \<Rightarrow> nat \<Rightarrow>
    ((error_kind, nat) outcome \<times> byte list \<times> 's) option" where
  "read_to_end rd intr grow k s buf cap =
     map_option (\<lambda>(r, data, s1).
         (case r of
            Ok len \<Rightarrow> (check_interrupt_if_zero (intr s1) (len - length buf), take len data, s1)
          | Err e \<Rightarrow> (Err e, data, s1)
          | Panic \<Rightarrow> (Panic, data, s1)))
       (read_to_end_loop rd intr grow k s buf (length buf) cap)"

text \<open>The default \<open>read_vectored\<close> and \<open>write_vectored\<close> use the first buffer that is not empty.\<close>

fun read_vectored :: "'s reader \<Rightarrow> 's \<Rightarrow> byte list list \<Rightarrow> (error_kind, nat) outcome \<times> byte list list \<times> 's" where
  "read_vectored rd s [] = (Ok 0, [], s)"
| "read_vectored rd s (b # bs) =
     (if b = [] then (let (r, bs', s') = read_vectored rd s bs in (r, b # bs', s'))
      else (let (r, b', s') = rd s b in (r, b' # bs, s')))"

text \<open>
  \<open>default_read_vectored\<close>: the bytes read, whether all buffers are exhausted, and the contents of the
  buffers one after the other; \<open>filled\<close> is the memory already advanced over.
\<close>

fun default_read_vectored :: "'s reader \<Rightarrow> nat \<Rightarrow> 's \<Rightarrow> byte list list \<Rightarrow> byte list \<Rightarrow> nat \<Rightarrow>
    ((error_kind, nat \<times> bool) outcome \<times> byte list \<times> 's) option" where
  "default_read_vectored rd 0 s bufs filled acc = None"
| "default_read_vectored rd (Suc k) s bufs filled acc =
     (if bufs = [] then Some (Ok (acc, True), filled, s)
      else
        (case read_vectored rd s bufs of
           (Ok n, bufs1, s1) \<Rightarrow>
             if n = 0 then Some (Ok (acc, False), filled @ concat bufs1, s1)
             else (case advance_slices bufs1 n of
                 Ok bufs2 \<Rightarrow> default_read_vectored rd k s1 bufs2
                   (filled @ take (length (concat bufs1) - length (concat bufs2)) (concat bufs1)) (acc + n)
               | _ \<Rightarrow> Some (Panic, filled @ concat bufs1, s1))
         | (Err e, bufs1, s1) \<Rightarrow>
             Some (if e = Interrupted then Ok (acc, False) else Err e, filled @ concat bufs1, s1)
         | (Panic, bufs1, s1) \<Rightarrow> Some (Panic, filled @ concat bufs1, s1)))"

definition try_read_fully_vectored ::
  "'s reader \<Rightarrow> nat \<Rightarrow> 's \<Rightarrow> byte list list \<Rightarrow> ((error_kind, nat) outcome \<times> byte list \<times> 's) option" where
  "try_read_fully_vectored rd k s bufs =
     map_option (\<lambda>(r, mem, s1). (map_outcome_ok fst r, mem, s1)) (default_read_vectored rd k s bufs [] 0)"

definition read_fully_vectored ::
  "'s reader \<Rightarrow> ('s \<Rightarrow> bool) \<Rightarrow> nat \<Rightarrow> 's \<Rightarrow> byte list list \<Rightarrow> ((error_kind, nat) outcome \<times> byte list \<times> 's) option" where
  "read_fully_vectored rd intr k s bufs =
     map_option (\<lambda>(r, mem, s1).
         (case r of
            Ok (n, True) \<Rightarrow> Ok n
          | Ok (n, False) \<Rightarrow> Err (short_io_error_unless_interrupt (intr s1))
          | Err e \<Rightarrow> Err e | Panic \<Rightarrow> Panic, mem, s1))
       (default_read_vectored rd k s bufs [] 0)"

section \<open>Provided methods of \<open>Write\<close>\<close>

fun try_write_loop ::
  "'s writer \<Rightarrow> nat \<Rightarrow> 's \<Rightarrow> byte list \<Rightarrow> nat \<Rightarrow> ((error_kind, nat) outcome \<times> 's) option" where
  "try_write_loop wr 0 s buf wrote = None"
| "try_write_loop wr (Suc k) s buf wrote =
     (if wrote < length buf then
        (case wr s (drop wrote buf) of
           (Ok n, s1) \<Rightarrow>
             if n = 0 then Some (Ok wrote, s1)
             else (case length_check (drop wrote buf) n of
                 Ok m \<Rightarrow> try_write_loop wr k s1 buf (wrote + m)
               | _ \<Rightarrow> Some (Panic, s1))
         | (Err e, s1) \<Rightarrow> Some (if e = Interrupted then Ok wrote else Err e, s1)
         | (Panic, s1) \<Rightarrow> Some (Panic, s1))
      else Some (Ok wrote, s))"

definition try_write_all ::
  "'s writer \<Rightarrow> ('s \<Rightarrow> bool) \<Rightarrow> nat \<Rightarrow> 's \<Rightarrow> byte list \<Rightarrow> ((error_kind, nat) outcome \<times> 's) option" where
  "try_write_all wr intr k s buf =
     (if buf = [] then Some (Ok 0, s)
      else map_option (\<lambda>(r, s1).
          (case r of Ok n \<Rightarrow> check_interrupt_if_zero (intr s1) n | Err e \<Rightarrow> Err e | Panic \<Rightarrow> Panic, s1))
        (try_write_loop wr k s buf 0))"

definition write_all ::
  "'s writer \<Rightarrow> ('s \<Rightarrow> bool) \<Rightarrow> nat \<Rightarrow> 's \<Rightarrow> byte list \<Rightarrow> ((error_kind, nat) outcome \<times> 's) option" where
  "write_all wr intr k s buf =
     (if buf = [] then Some (Ok 0, s)
      else map_option (\<lambda>(r, s1).
          (case r of
             Ok n \<Rightarrow> if length buf < n then Panic
               else if n < length buf then Err (short_io_error_unless_interrupt (intr s1)) else Ok n
           | Err e \<Rightarrow> Err e | Panic \<Rightarrow> Panic, s1))
        (try_write_all wr intr k s buf))"

fun write_vectored :: "'s writer \<Rightarrow> 's \<Rightarrow> byte list list \<Rightarrow> (error_kind, nat) outcome \<times> 's" where
  "write_vectored wr s [] = (Ok 0, s)"
| "write_vectored wr s (b # bs) = (if b = [] then write_vectored wr s bs else wr s b)"

text \<open>
  \<open>default_write_vectored\<close>: the bytes written and whether all buffers are exhausted. The vectored write
  is the trait's default.
\<close>

fun default_write_vectored ::
  "'s writer \<Rightarrow> nat \<Rightarrow> 's \<Rightarrow> byte list list \<Rightarrow> nat \<Rightarrow> ((error_kind, nat \<times> bool) outcome \<times> 's) option" where
  "default_write_vectored wr 0 s bufs acc = None"
| "default_write_vectored wr (Suc k) s bufs acc =
     (if bufs = [] then Some (Ok (acc, True), s)
      else
        (case write_vectored wr s bufs of
           (Ok n, s1) \<Rightarrow>
             if n = 0 then Some (Ok (acc, False), s1)
             else (case advance_slices bufs n of
                 Ok bufs1 \<Rightarrow> default_write_vectored wr k s1 bufs1 (acc + n)
               | _ \<Rightarrow> Some (Panic, s1))
         | (Err e, s1) \<Rightarrow> Some (if e = Interrupted then Ok (acc, False) else Err e, s1)
         | (Panic, s1) \<Rightarrow> Some (Panic, s1)))"

definition write_all_vectored ::
  "'s writer \<Rightarrow> ('s \<Rightarrow> bool) \<Rightarrow> nat \<Rightarrow> 's \<Rightarrow> byte list list \<Rightarrow> ((error_kind, nat) outcome \<times> 's) option" where
  "write_all_vectored wr intr k s bufs =
     map_option (\<lambda>(r, s1).
         (case r of
            Ok (n, True) \<Rightarrow> Ok n
          | Ok (n, False) \<Rightarrow> Err (short_io_error_unless_interrupt (intr s1))
          | Err e \<Rightarrow> Err e | Panic \<Rightarrow> Panic, s1))
       (default_write_vectored wr k s bufs 0)"

definition try_write_all_vectored ::
  "'s writer \<Rightarrow> nat \<Rightarrow> 's \<Rightarrow> byte list list \<Rightarrow> ((error_kind, nat) outcome \<times> 's) option" where
  "try_write_all_vectored wr k s bufs =
     map_option (\<lambda>(r, s1). (map_outcome_ok fst r, s1)) (default_write_vectored wr k s bufs 0)"

section \<open>What a reader and a writer promise\<close>

text \<open>
  \<open>rest s\<close> is what the stream still holds. A read returns a prefix of it, and nothing only at its end
  (or for an empty buffer); an error consumes nothing; \<open>ok\<close> is the implementation's invariant.
\<close>

locale byte_stream =
  fixes rd :: "'s reader"
    and rest :: "'s \<Rightarrow> byte list"
    and ok :: "'s \<Rightarrow> bool"
  assumes rd_inv: "ok s \<Longrightarrow> rd s buf = (r, buf', s') \<Longrightarrow> ok s' \<and> length buf' = length buf \<and> r \<noteq> Panic"
    and rd_ok: "ok s \<Longrightarrow> rd s buf = (Ok n, buf', s') \<Longrightarrow> n \<le> length buf \<and> n \<le> length (rest s) \<and>
      take n buf' = take n (rest s) \<and> rest s' = drop n (rest s)"
    and rd_eof: "ok s \<Longrightarrow> rd s buf = (Ok 0, buf', s') \<Longrightarrow> buf \<noteq> [] \<Longrightarrow> rest s = []"
    and rd_err: "ok s \<Longrightarrow> rd s buf = (Err e, buf', s') \<Longrightarrow> rest s' = rest s"
begin

text \<open>What the loop has read is what the stream lost, whatever ends it.\<close>

lemma try_read_loop_spec:
  assumes "ok s" "n \<le> length buf" "length buf - n < k"
  shows "\<exists>r buf' s' m. try_read_loop rd k s buf n = Some (r, buf', s') \<and> ok s' \<and> length buf' = length buf \<and>
    m \<le> length (rest s) \<and> n + m \<le> length buf \<and> take (n + m) buf' = take n buf @ take m (rest s) \<and>
    rest s' = drop m (rest s) \<and> r \<noteq> Panic \<and>
    (\<forall>j. r = Ok j \<longrightarrow> j = n + m \<and> (j < length buf \<longrightarrow> rest s' = [] \<or> (\<exists>s1 av. fst (rd s1 av) = Err Interrupted)))"
  using assms
proof (induction k arbitrary: s buf n)
  case (Suc k)
  show ?case
  proof (cases "n < length buf")
    case False
    then show ?thesis using Suc.prems by (auto intro!: exI[of _ 0])
  next
    case True
    obtain r av s1 where rd: "rd s (drop n buf) = (r, av, s1)" by (metis prod_cases3)
    have i: "ok s1" "length av = length buf - n" "r \<noteq> Panic" using rd_inv[OF Suc.prems(1) rd] by auto
    show ?thesis
    proof (cases r)
      case (Ok j)
      note o = rd_ok[OF Suc.prems(1) rd[unfolded Ok]]
      show ?thesis
      proof (cases "j = 0")
        case True
        then have "rest s = []" using rd_eof[OF Suc.prems(1)] rd Ok \<open>n < length buf\<close> by auto
        then show ?thesis using True rd Ok o i \<open>n < length buf\<close> by (auto intro!: exI[of _ 0])
      next
        case False
        let ?b = "take n buf @ av"
        have lb: "length ?b = length buf" using i(2) \<open>n < length buf\<close> by simp
        have "n + j \<le> length ?b" "length ?b - (n + j) < k" using o False Suc.prems lb by auto
        from Suc.IH[OF i(1) this]
        obtain r' b' s' m where ih: "try_read_loop rd k s1 ?b (n + j) = Some (r', b', s')" "ok s'"
            "length b' = length ?b" "m \<le> length (rest s1)" "n + j + m \<le> length ?b"
            "take (n + j + m) b' = take (n + j) ?b @ take m (rest s1)" "rest s' = drop m (rest s1)" "r' \<noteq> Panic"
            "\<And>l. r' = Ok l \<Longrightarrow> l = n + j + m \<and> (l < length ?b \<longrightarrow> rest s' = [] \<or> (\<exists>s1 av. fst (rd s1 av) = Err Interrupted))"
          by blast
        have "take (n + j) ?b = take n buf @ take j (rest s)" using o \<open>n < length buf\<close> by simp
        then have "take (n + (j + m)) b' = take n buf @ take (j + m) (rest s)"
          using ih(6) o by (simp add: take_add add.assoc)
        moreover have "try_read_loop rd (Suc k) s buf n = Some (r', b', s')"
          using rd Ok o False \<open>n < length buf\<close> ih(1) by (simp add: length_check_def)
        moreover have "rest s' = drop (j + m) (rest s)" using ih(7) o by (simp add: add.commute)
        moreover have "m \<le> length (rest s) - j" using ih(4) o by simp
        then have "j + m \<le> length (rest s)" using o by linarith
        ultimately show ?thesis using ih(2,3,5,8,9) lb
          by (intro exI[of _ r'] exI[of _ b'] exI[of _ s'] exI[of _ "j + m"]) (auto simp: add.assoc)
      qed
    next
      case (Err e)
      then show ?thesis using rd i rd_err[OF Suc.prems(1)] \<open>n < length buf\<close>
        by (cases "e = Interrupted")
          (auto intro!: exI[of _ 0] exI[of _ s] exI[of _ "drop n buf"])
    qed (use i in simp)
  qed
qed simp

lemma try_read_fully_spec:
  assumes "ok s"
  shows "\<exists>r buf' s' m. try_read_fully rd intr (Suc (length buf)) s buf = Some (r, buf', s') \<and> ok s' \<and>
    length buf' = length buf \<and> m \<le> length (rest s) \<and> m \<le> length buf \<and> take m buf' = take m (rest s) \<and>
    rest s' = drop m (rest s) \<and> r \<noteq> Panic \<and>
    (\<forall>j. r = Ok j \<longrightarrow> j = m \<and> (j < length buf \<longrightarrow> rest s' = [] \<or> (\<exists>s1 av. fst (rd s1 av) = Err Interrupted)))"
proof (cases "buf = []")
  case True
  then show ?thesis using assms by (auto simp: try_read_fully_def intro!: exI[of _ 0])
next
  case False
  have "0 \<le> length buf" "length buf - 0 < Suc (length buf)" by simp_all
  from try_read_loop_spec[OF assms this, unfolded take_0 add_0 append_Nil]
  obtain r b' s' m where l: "try_read_loop rd (Suc (length buf)) s buf 0 = Some (r, b', s')" "ok s'"
      "length b' = length buf" "m \<le> length (rest s)" "m \<le> length buf" "take m b' = take m (rest s)"
      "rest s' = drop m (rest s)" "r \<noteq> Panic"
      "\<And>j. r = Ok j \<Longrightarrow> j = m \<and> (j < length buf \<longrightarrow> rest s' = [] \<or> (\<exists>s1 av. fst (rd s1 av) = Err Interrupted))"
    by blast
  show ?thesis
  proof (cases r)
    case (Ok j)
    then show ?thesis using l False
      by (auto simp: try_read_fully_def check_interrupt_if_zero_def simp del: try_read_loop.simps
        intro!: exI[of _ m])
  next
    case (Err e)
    then show ?thesis using l False
      by (auto simp: try_read_fully_def simp del: try_read_loop.simps intro!: exI[of _ m])
  qed (use l in simp)
qed

lemma read_fully_spec:
  assumes "ok s"
  shows "\<exists>r buf' s'. read_fully rd intr (Suc (length buf)) s buf = Some (r, buf', s') \<and> ok s' \<and> r \<noteq> Panic \<and>
    (\<forall>n. r = Ok n \<longrightarrow> n = length buf \<and> length buf \<le> length (rest s) \<and> buf' = take (length buf) (rest s) \<and>
      rest s' = drop (length buf) (rest s))"
proof -
  obtain r b' s' m where l: "try_read_fully rd intr (Suc (length buf)) s buf = Some (r, b', s')" "ok s'"
      "length b' = length buf" "m \<le> length (rest s)" "m \<le> length buf" "take m b' = take m (rest s)"
      "rest s' = drop m (rest s)" "r \<noteq> Panic" "\<And>j. r = Ok j \<Longrightarrow> j = m"
    using try_read_fully_spec[OF assms, of intr buf] by blast
  show ?thesis
  proof (cases r)
    case (Ok j)
    then show ?thesis using l assms by (cases "buf = []") (auto simp: read_fully_def)
  next
    case (Err e)
    then show ?thesis using l assms by (cases "buf = []") (auto simp: read_fully_def)
  qed (use l in simp)
qed

text \<open>
  \<open>read_to_end\<close>: \<open>end_post s base\<close> holds of a result when the stream \<open>s\<close> lost some prefix, and a successful
  result has that prefix after \<open>base\<close>, and stopped at the end of the stream or for an interrupt.
\<close>

definition stopped :: "('s \<Rightarrow> bool) \<Rightarrow> 's \<Rightarrow> bool" where
  "stopped intr s \<longleftrightarrow> rest s = [] \<or> (\<exists>s1 av. fst (rd s1 av) = Err Interrupted) \<or> (\<exists>s1. intr s1)"

definition end_post ::
  "('s \<Rightarrow> bool) \<Rightarrow> 's \<Rightarrow> byte list \<Rightarrow> ((error_kind, nat) outcome \<times> byte list \<times> 's) option \<Rightarrow> bool" where
  "end_post intr s base res \<longleftrightarrow>
     (\<exists>r data' s' m. res = Some (r, data', s') \<and> ok s' \<and> m \<le> length (rest s) \<and> rest s' = drop m (rest s) \<and> r \<noteq> Panic \<and>
       (\<forall>j. r = Ok j \<longrightarrow> j = length base + m \<and> j \<le> length data' \<and> take j data' = base @ take m (rest s) \<and>
         stopped intr s'))"

lemma end_postE:
  assumes "end_post intr s base res"
  obtains r data' s' m where "res = Some (r, data', s')" "ok s'" "m \<le> length (rest s)" "rest s' = drop m (rest s)"
    "r \<noteq> Panic"
    "\<forall>j. r = Ok j \<longrightarrow> j = length base + m \<and> j \<le> length data' \<and> take j data' = base @ take m (rest s) \<and> stopped intr s'"
  using assms unfolding end_post_def by blast

lemma end_now:
  assumes "ok s'" "rest s' = rest s" "j = length base" "j \<le> length data'" "take j data' = base"
    "stopped intr s'"
  shows "end_post intr s base (Some (Ok j, data', s'))"
  unfolding end_post_def using assms by (intro exI[of _ "Ok j"] exI[of _ data'] exI[of _ s'] exI[of _ 0]) simp

lemma end_err: "ok s' \<Longrightarrow> rest s' = rest s \<Longrightarrow> end_post intr s base (Some (Err e, data', s'))"
  unfolding end_post_def by (intro exI[of _ "Err e"] exI[of _ data'] exI[of _ s'] exI[of _ 0]) simp

lemma end_chain:
  assumes "end_post intr s1 base1 res" "rest s1 = drop n (rest s)" "n \<le> length (rest s)"
    "base1 = base @ take n (rest s)"
  shows "end_post intr s base res"
proof -
  from assms(1) obtain r data' s' m where h: "res = Some (r, data', s')" "ok s'" "m \<le> length (rest s1)"
    "rest s' = drop m (rest s1)" "r \<noteq> Panic"
    "\<forall>j. r = Ok j \<longrightarrow> j = length base1 + m \<and> j \<le> length data' \<and> take j data' = base1 @ take m (rest s1) \<and>
       stopped intr s'" by (rule end_postE)
  have l: "length base1 + m = length base + (n + m)" using assms(3,4) by simp
  have t: "base1 @ take m (rest s1) = base @ take (n + m) (rest s)"
    using assms(2,4) by (simp add: take_add)
  show ?thesis
    unfolding end_post_def
  proof (intro exI conjI)
    show "res = Some (r, data', s')" "ok s'" "r \<noteq> Panic" by fact+
    show "n + m \<le> length (rest s)" using h(3) assms(2,3) by simp
    show "rest s' = drop (n + m) (rest s)" using h(4) assms(2) by (simp add: add.commute)
    show "\<forall>j. r = Ok j \<longrightarrow> j = length base + (n + m) \<and> j \<le> length data' \<and>
        take j data' = base @ take (n + m) (rest s) \<and> stopped intr s'"
      unfolding l[symmetric] t[symmetric] using h(6) by blast
  qed
qed

lemma interrupted_stops: "rd s av = (Err Interrupted, av', s1) \<Longrightarrow> stopped intr s'"
  unfolding stopped_def by (metis fst_conv)

text \<open>The probe of a full vector.\<close>

lemma probe_spec:
  assumes "ok s" "length data = len"
    and go: "\<And>s2 m p. rd s (replicate 32 0) = (Ok m, p, s2) \<Longrightarrow> 0 < m \<Longrightarrow> m \<le> 32 \<Longrightarrow> ok s2 \<Longrightarrow>
      length (rest s2) < length (rest s) \<Longrightarrow>
      end_post intr s2 (data @ take m p) (cont s2 (data @ take m p))"
  shows "end_post intr s data
    (case rd s (replicate 32 0) of
       (Err e, p, s2) \<Rightarrow> Some (if e = Interrupted then Ok len else Err e, data, s2)
     | (Panic, p, s2) \<Rightarrow> Some (Panic, data, s2)
     | (Ok m, p, s2) \<Rightarrow>
         if m = 0 then Some (Ok len, data, s2)
         else if 32 < m then Some (Panic, data, s2)
         else cont s2 (data @ take m p))"
proof -
  obtain r p s2 where rd: "rd s (replicate 32 0) = (r, p, s2)" by (metis prod_cases3)
  note i = rd_inv[OF assms(1) rd]
  show ?thesis
  proof (cases r)
    case (Err e)
    have e: "rest s2 = rest s" by (rule rd_err[OF assms(1) rd[unfolded Err]])
    show ?thesis
    proof (cases "e = Interrupted")
      case True
      have "stopped intr s2" using interrupted_stops rd Err True by blast
      then show ?thesis using rd Err True i e assms(2) by (simp add: end_now)
    next
      case False
      then show ?thesis using rd Err i e by (simp add: end_err)
    qed
  next
    case (Ok m)
    note o = rd_ok[OF assms(1) rd[unfolded Ok]]
    show ?thesis
    proof (cases "m = 0")
      case True
      have "rest s = []" using rd_eof[OF assms(1) rd[unfolded Ok True]] by simp
      then show ?thesis using rd Ok True i o assms(2) by (simp add: end_now stopped_def)
    next
      case False
      have "end_post intr s2 (data @ take m p) (cont s2 (data @ take m p))"
        by (rule go[OF rd[unfolded Ok]]) (use False o i in auto)
      then have "end_post intr s data (cont s2 (data @ take m p))"
        by (rule end_chain[of _ _ _ _ m]) (use o in auto)
      then show ?thesis using rd Ok False o by simp
    qed
  qed (use i in simp)
qed

lemma read_to_end_loop_spec:
  assumes "\<And>c n. n \<le> grow c n" "ok s" "len \<le> length data" "length data \<le> cap" "length (rest s) < k"
  shows "end_post intr s (take len data) (read_to_end_loop rd intr grow k s data len cap)"
  using assms(2-)
proof (induction k arbitrary: s data len cap)
  case (Suc k)
  show ?case
  proof (cases "intr s")
    case True
    then show ?thesis using Suc.prems by (auto intro!: end_now simp: stopped_def)
  next
    case False
    define cap1 where "cap1 = (if len = cap then reserve grow cap (length data + 32) else cap)"
    define data1 where "data1 = data @ replicate (cap1 - length data) 0"
    have cap1: "len < cap1" "length data \<le> cap1"
      using Suc.prems assms(1)[of "length data + 32" cap] by (auto simp: cap1_def reserve_def)
    have d1: "length data1 = cap1" "take len data1 = take len data" using cap1 Suc.prems by (auto simp: data1_def)
    obtain r av s1 where rd: "rd s (drop len data1) = (r, av, s1)" by (metis prod_cases3)
    have i: "ok s1" "length av = cap1 - len" "r \<noteq> Panic" using rd_inv[OF Suc.prems(1) rd] d1 by auto
    have lt: "length (take len data) = len" "len \<le> length (take len data1 @ av)" using d1 cap1 i Suc.prems by auto
    note step = read_to_end_loop.simps(2)[of rd intr grow k s data len cap, folded cap1_def,
        unfolded Let_def, folded data1_def, unfolded rd if_not_P[OF False] prod.case]
    show ?thesis
    proof (cases r)
      case (Err e)
      have e: "rest s1 = rest s" by (rule rd_err[OF Suc.prems(1) rd[unfolded Err]])
      show ?thesis
      proof (cases "e = Interrupted")
        case True
        have "stopped intr s1" using interrupted_stops rd Err True by blast
        then show ?thesis unfolding step Err using True e i lt d1 by (simp add: end_now)
      next
        case False
        then show ?thesis unfolding step Err using e i by (simp add: end_err)
      qed
    next
      case (Ok n)
      note o = rd_ok[OF Suc.prems(1) rd[unfolded Ok]]
      let ?d2 = "take len data1 @ av"
      have d2: "length ?d2 = cap1" "take (len + n) ?d2 = take len data @ take n (rest s)"
        using i o d1 cap1 Suc.prems by auto
      show ?thesis
      proof (cases "n = 0")
        case True
        have "drop len data1 \<noteq> []" using cap1 d1 by simp
        then have "rest s = []" by (rule rd_eof[OF Suc.prems(1) rd[unfolded Ok True]])
        then show ?thesis unfolding step Ok using True o i lt d1 by (simp add: end_now stopped_def)
      next
        case False
        have nl: "\<not> length av < n" "len + n \<le> cap1" using o i d1 cap1 by auto
        have rs: "rest s1 = drop n (rest s)" "n \<le> length (rest s)" "length (rest s1) < k"
          using o False Suc.prems(4) by auto
        note chain = end_chain[OF _ rs(1,2), of intr "take len data @ take n (rest s)" _ "take len data", OF _ refl]
        show ?thesis
        proof (cases "len + n < cap1")
          case True
          have "end_post intr s1 (take (len + n) ?d2) (read_to_end_loop rd intr grow k s1 ?d2 (len + n) cap1)"
            by (rule Suc.IH[OF i(1) _ _ rs(3)]) (use True d2 in auto)
          then show ?thesis unfolding step Ok d2(2) using False nl True by (simp add: chain del: read_to_end_loop.simps)
        next
          case full: False
          have d: "?d2 = take len data @ take n (rest s)" using d2 full by (metis le_antisym nl(2) not_less take_all_iff order_refl)
          have "end_post intr s1 ?d2
            (case rd s1 (replicate 32 0) of
                        (Err e, p, s2) \<Rightarrow> Some (if e = Interrupted then Ok (len + n) else Err e, ?d2, s2)
                      | (Panic, p, s2) \<Rightarrow> Some (Panic, ?d2, s2)
                      | (Ok m, p, s2) \<Rightarrow>
                          if m = 0 then Some (Ok (len + n), ?d2, s2)
                          else if 32 < m then Some (Panic, ?d2, s2)
                          else read_to_end_loop rd intr grow k s2 (?d2 @ take m p) (length (?d2 @ take m p))
                                     (reserve grow cap1 (length (?d2 @ take m p))))"
          proof (rule probe_spec[OF i(1)])
            show "length ?d2 = len + n" using d2(1) full nl(2) by linarith
            fix s2 m p assume "ok s2" "length (rest s2) < length (rest s1)"
            moreover have "length (?d2 @ take m p) \<le> reserve grow cap1 (length (?d2 @ take m p))"
              using assms(1)[of "length (?d2 @ take m p)" cap1] by (simp add: reserve_def)
            ultimately have "end_post intr s2 (take (length (?d2 @ take m p)) (?d2 @ take m p))
                (read_to_end_loop rd intr grow k s2 (?d2 @ take m p)
                  (length (?d2 @ take m p)) (reserve grow cap1 (length (?d2 @ take m p))))"
              using rs(3) by (intro Suc.IH order_refl) linarith+
            then show "end_post intr s2 (?d2 @ take m p) (read_to_end_loop rd intr grow k s2 (?d2 @ take m p)
                (length (?d2 @ take m p)) (reserve grow cap1 (length (?d2 @ take m p))))"
              unfolding take_all[OF order_refl] .
          qed
          from end_chain[OF this rs(1,2) d] show ?thesis
            unfolding step Ok prod.case outcome.case by (simp only: False nl(1) full if_False)
        qed
      qed
    qed (use i in simp)
  qed
qed simp

lemma read_to_end_spec:
  assumes "\<And>c n. n \<le> grow c n" "ok s" "length buf \<le> cap"
  shows "\<exists>r data' s'. read_to_end rd intr grow (Suc (length (rest s))) s buf cap = Some (r, data', s') \<and> ok s' \<and> r \<noteq> Panic \<and>
    (\<forall>n. r = Ok n \<longrightarrow> data' = buf @ take n (rest s) \<and> n \<le> length (rest s) \<and> rest s' = drop n (rest s) \<and> stopped intr s')"
proof -
  have "end_post intr s (take (length buf) buf)
      (read_to_end_loop rd intr grow (Suc (length (rest s))) s buf (length buf) cap)"
    using assms by (intro read_to_end_loop_spec) auto
  then obtain r data' s' m where h: "read_to_end_loop rd intr grow (Suc (length (rest s))) s buf (length buf) cap =
      Some (r, data', s')" "ok s'" "m \<le> length (rest s)" "rest s' = drop m (rest s)" "r \<noteq> Panic"
    "\<forall>j. r = Ok j \<longrightarrow> j = length buf + m \<and> j \<le> length data' \<and> take j data' = buf @ take m (rest s) \<and>
       stopped intr s'" unfolding take_all[OF order_refl] by (rule end_postE)
  show ?thesis
    using h by (cases r) (auto simp: read_to_end_def check_interrupt_if_zero_def simp del: read_to_end_loop.simps)
qed

end

text \<open>\<open>written s\<close> is everything accepted so far; an error may not have written part of the buffer.\<close>

locale byte_sink =
  fixes wr :: "'s writer"
    and written :: "'s \<Rightarrow> byte list"
    and ok :: "'s \<Rightarrow> bool"
  assumes wr_inv: "ok s \<Longrightarrow> wr s buf = (r, s') \<Longrightarrow> ok s' \<and> r \<noteq> Panic"
    and wr_ok: "ok s \<Longrightarrow> wr s buf = (Ok n, s') \<Longrightarrow> n \<le> length buf \<and> written s' = written s @ take n buf"
    and wr_err: "ok s \<Longrightarrow> wr s buf = (Err e, s') \<Longrightarrow> written s' = written s"
begin

lemma try_write_loop_spec:
  assumes "ok s" "n \<le> length buf" "length buf - n < k"
  shows "\<exists>r s' m. try_write_loop wr k s buf n = Some (r, s') \<and> ok s' \<and> n + m \<le> length buf \<and>
    written s' = written s @ take m (drop n buf) \<and> r \<noteq> Panic \<and> (\<forall>j. r = Ok j \<longrightarrow> j = n + m)"
  using assms
proof (induction k arbitrary: s n)
  case (Suc k)
  show ?case
  proof (cases "n < length buf")
    case False
    then show ?thesis using Suc.prems by (auto intro!: exI[of _ 0])
  next
    case True
    obtain r s1 where wr: "wr s (drop n buf) = (r, s1)" by fastforce
    have i: "ok s1" "r \<noteq> Panic" using wr_inv[OF Suc.prems(1) wr] by auto
    show ?thesis
    proof (cases r)
      case (Ok j)
      note o = wr_ok[OF Suc.prems(1) wr[unfolded Ok]]
      show ?thesis
      proof (cases "j = 0")
        case True
        then show ?thesis using wr Ok o i \<open>n < length buf\<close> by (auto intro!: exI[of _ 0])
      next
        case False
        have "n + j \<le> length buf" "length buf - (n + j) < k" using o False Suc.prems \<open>n < length buf\<close> by auto
        from Suc.IH[OF i(1) this] obtain r' s' m where ih: "try_write_loop wr k s1 buf (n + j) = Some (r', s')"
            "ok s'" "n + j + m \<le> length buf" "written s' = written s1 @ take m (drop (n + j) buf)" "r' \<noteq> Panic"
            "\<And>l. r' = Ok l \<Longrightarrow> l = n + j + m" by blast
        have "take j (drop n buf) @ take m (drop (n + j) buf) = take (j + m) (drop n buf)"
          by (simp add: take_add add.commute)
        with ih o have "written s' = written s @ take (j + m) (drop n buf)" by simp
        moreover have "try_write_loop wr (Suc k) s buf n = Some (r', s')"
          using wr Ok o False \<open>n < length buf\<close> ih(1) by (simp add: length_check_def)
        ultimately show ?thesis using ih(2,3,5,6)
          by (intro exI[of _ r'] exI[of _ s'] exI[of _ "j + m"]) (auto simp: add.assoc)
      qed
    next
      case (Err e)
      then show ?thesis using wr i wr_err[OF Suc.prems(1)] \<open>n < length buf\<close>
        by (cases "e = Interrupted") (auto intro!: exI[of _ 0])
    qed (use i in simp)
  qed
qed simp

lemma write_all_spec:
  assumes "ok s"
  shows "\<exists>r s' m. write_all wr intr (Suc (length buf)) s buf = Some (r, s') \<and> ok s' \<and> r \<noteq> Panic \<and>
    m \<le> length buf \<and> written s' = written s @ take m buf \<and>
    (\<forall>n. r = Ok n \<longrightarrow> n = length buf \<and> written s' = written s @ buf)"
proof (cases "buf = []")
  case True
  then show ?thesis using assms by (auto simp: write_all_def intro!: exI[of _ 0])
next
  case False
  have "0 \<le> length buf" "length buf - 0 < Suc (length buf)" by simp_all
  from try_write_loop_spec[OF assms this, unfolded add_0 drop_0]
  obtain r s' m where l: "try_write_loop wr (Suc (length buf)) s buf 0 = Some (r, s')" "ok s'" "m \<le> length buf"
      "written s' = written s @ take m buf" "r \<noteq> Panic" "\<And>j. r = Ok j \<Longrightarrow> j = m"
    by blast
  show ?thesis
  proof (cases r)
    case (Ok j)
    then show ?thesis using l False
      by (auto simp: write_all_def try_write_all_def check_interrupt_if_zero_def simp del: try_write_loop.simps
        intro!: exI[of _ m])
  next
    case (Err e)
    then show ?thesis using l False
      by (auto simp: write_all_def try_write_all_def simp del: try_write_loop.simps intro!: exI[of _ m])
  qed (use l in simp)
qed

end

interpretation ub: byte_sink ub_write ub_filled "\<lambda>b. length (ub_filled b) \<le> ub_size b"
proof
  fix s s' :: uninit_buf and buf :: "byte list" and r
  assume "length (ub_filled s) \<le> ub_size s" "ub_write s buf = (r, s')"
  then show "length (ub_filled s') \<le> ub_size s' \<and> r \<noteq> Panic"
    by (auto simp: ub_write_def ub_extend_from_slice_def ub_spare_capacity_def Let_def)
next
  fix s s' :: uninit_buf and buf :: "byte list" and n
  assume "length (ub_filled s) \<le> ub_size s" "ub_write s buf = (Ok n, s')"
  then show "n \<le> length buf \<and> ub_filled s' = ub_filled s @ take n buf"
    by (auto simp: ub_write_def ub_extend_from_slice_def Let_def)
next
  fix s s' :: uninit_buf and buf :: "byte list" and e
  assume "ub_write s buf = (Err e, s')"
  then show "ub_filled s' = ub_filled s" by (simp add: ub_write_def ub_extend_from_slice_def Let_def)
qed

end
