(* ===== verification/Uint_Ext.thy ===== *)
theory Uint_Ext
  imports Xx_Prelude
begin

text \<open>
  The signed differences of unsigned integers of \<open>src/src/impls/uint.rs\<close>, for any width: \<open>'a word\<close> is
  the unsigned type, and its signed companion is the same word read with \<open>sint\<close>. Each operation is
  related to the exact integer result.
\<close>

definition overflowing_signed_diff :: "'a::len word \<Rightarrow> 'a word \<Rightarrow> 'a word \<times> bool" where
  "overflowing_signed_diff a b = (let res = a - b in (res, (a \<ge> b) = (res <s 0)))"

definition signed_max :: "'a::len word" where
  "signed_max = mask (LENGTH('a) - 1)"

definition signed_min :: "'a::len word" where
  "signed_min = push_bit (LENGTH('a) - 1) 1"

definition saturating_signed_diff :: "'a::len word \<Rightarrow> 'a word \<Rightarrow> 'a word" where
  "saturating_signed_diff a b =
     (let (res, overflow) = overflowing_signed_diff a b
      in if \<not> overflow then res else if res <s 0 then signed_max else signed_min)"

definition checked_signed_diff :: "'a::len word \<Rightarrow> 'a word \<Rightarrow> 'a word option" where
  "checked_signed_diff a b =
     (let (res, overflow) = overflowing_signed_diff a b in if \<not> overflow then Some res else None)"

text \<open>\<open>overflowing_sub\<close> of the language: the wrapped difference and whether it borrowed.\<close>

definition overflowing_sub :: "'a::len word \<Rightarrow> 'a word \<Rightarrow> 'a word \<times> bool" where
  "overflowing_sub a b = (a - b, a < b)"

definition overflowing_sub_signed :: "'a::len word \<Rightarrow> 'a word \<Rightarrow> 'a word \<times> bool" where
  "overflowing_sub_signed a b = (let (res, overflow) = overflowing_sub a b in (res, overflow \<noteq> (b <s 0)))"

definition saturating_sub_signed :: "'a::len word \<Rightarrow> 'a word \<Rightarrow> 'a word" where
  "saturating_sub_signed a b =
     (let (res, overflow) = overflowing_sub_signed a b
      in if \<not> overflow then res else if b <s 0 then - 1 else 0)"

definition checked_sub_signed :: "'a::len word \<Rightarrow> 'a word \<Rightarrow> 'a word option" where
  "checked_sub_signed a b =
     (let (res, overflow) = overflowing_sub_signed a b in if \<not> overflow then Some res else None)"

definition wrapping_sub_signed :: "'a::len word \<Rightarrow> 'a word \<Rightarrow> 'a word" where
  "wrapping_sub_signed a b = a - b"

section \<open>Signed and unsigned readings\<close>

abbreviation half :: "'a::len itself \<Rightarrow> int" where
  "half t \<equiv> 2 ^ (LENGTH('a) - 1)"

lemma double_half: "2 * half TYPE('a::len) = 2 ^ LENGTH('a)"
  by (metis One_nat_def Suc_pred len_gt_0 power_Suc)

lemma sint_by_uint:
  "sint (w :: 'a::len word) = (if uint w < half TYPE('a) then uint w else uint w - 2 ^ LENGTH('a))"
proof -
  have r: "0 \<le> uint w" "uint w < 2 * half TYPE('a)"
    using double_half[where 'a = 'a] by simp_all
  have "sint w = signed_take_bit (LENGTH('a) - 1) (uint w)" by (simp add: sint_uint)
  also have "\<dots> = (uint w + half TYPE('a)) mod (2 * half TYPE('a)) - half TYPE('a)"
    by (simp only: signed_take_bit_eq_take_bit_shift take_bit_eq_mod power_Suc)
  also have "\<dots> = (if uint w < half TYPE('a) then uint w else uint w - 2 * half TYPE('a))"
  proof (cases "uint w < half TYPE('a)")
    case True
    then show ?thesis using r by simp
  next
    case False
    have "(uint w + half TYPE('a)) mod (2 * half TYPE('a)) =
        (uint w + half TYPE('a) - 2 * half TYPE('a)) mod (2 * half TYPE('a))"
      by (rule minus_mod_self2[symmetric])
    also have "\<dots> = uint w - half TYPE('a)" using False r by (subst mod_pos_pos_trivial) auto
    finally show ?thesis using False by simp
  qed
  finally show ?thesis unfolding double_half .
qed

lemma uint_diff:
  "uint ((a :: 'a::len word) - b) = (if uint b \<le> uint a then uint a - uint b else uint a - uint b + 2 ^ LENGTH('a))"
  by (simp add: uint_sub_if_size word_size)

lemma sint_range: "- half TYPE('a) \<le> sint (w :: 'a::len word)" "sint w < half TYPE('a)"
  using sint_greater_eq[of w] sint_less[of w] by simp_all

section \<open>Exactness\<close>

lemma overflow_iff:
  "snd (overflowing_signed_diff a b) \<longleftrightarrow> (uint b \<le> uint a) = (sint (a - b) < 0)"
  "snd (overflowing_sub_signed a b) \<longleftrightarrow> (uint a < uint b) \<noteq> (sint b < 0)"
  "fst (overflowing_signed_diff a b) = a - b" "fst (overflowing_sub_signed a b) = a - b"
  by (simp_all add: overflowing_signed_diff_def overflowing_sub_signed_def overflowing_sub_def Let_def
    word_sless_alt word_le_def word_less_def)

lemma signed_diff_exact:
  fixes a b :: "'a::len word"
  defines "d \<equiv> uint a - uint b"
  shows "snd (overflowing_signed_diff a b) \<longleftrightarrow> \<not> (- half TYPE('a) \<le> d \<and> d < half TYPE('a))"
    and "\<not> snd (overflowing_signed_diff a b) \<Longrightarrow> sint (a - b) = d"
    and "sint (a - b) < 0 \<Longrightarrow> snd (overflowing_signed_diff a b) \<Longrightarrow> 0 \<le> d"
proof -
  define A B N H where "A = uint a" and "B = uint b" and "N = (2::int) ^ LENGTH('a)" and "H = half TYPE('a)"
  have u: "0 \<le> A" "A < N" "0 \<le> B" "B < N" by (simp_all add: A_def B_def N_def)
  have h: "2 * H = N" unfolding H_def N_def by (rule double_half)
  have s: "sint (a - b) = (let u = if B \<le> A then A - B else A - B + N in if u < H then u else u - N)"
    unfolding sint_by_uint[of "a - b"] uint_diff by (simp add: A_def B_def N_def H_def)
  have o: "snd (overflowing_signed_diff a b) \<longleftrightarrow> (B \<le> A) = (sint (a - b) < 0)"
    unfolding overflow_iff A_def B_def ..
  have d: "d = A - B" by (simp add: d_def A_def B_def)
  show "snd (overflowing_signed_diff a b) \<longleftrightarrow> \<not> (- half TYPE('a) \<le> d \<and> d < half TYPE('a))"
    unfolding o s Let_def H_def[symmetric] d using u h by (auto split: if_splits)
  show "\<not> snd (overflowing_signed_diff a b) \<Longrightarrow> sint (a - b) = d"
    unfolding o s Let_def d using u h by (auto split: if_splits)
  show "sint (a - b) < 0 \<Longrightarrow> snd (overflowing_signed_diff a b) \<Longrightarrow> 0 \<le> d"
    unfolding o d by simp
qed

lemma sub_signed_exact:
  fixes a b :: "'a::len word"
  defines "d \<equiv> uint a - sint b"
  shows "snd (overflowing_sub_signed a b) \<longleftrightarrow> \<not> (0 \<le> d \<and> d < 2 ^ LENGTH('a))"
    and "\<not> snd (overflowing_sub_signed a b) \<Longrightarrow> uint (a - b) = d"
proof -
  define A B N H where "A = uint a" and "B = uint b" and "N = (2::int) ^ LENGTH('a)" and "H = half TYPE('a)"
  have u: "0 \<le> A" "A < N" "0 \<le> B" "B < N" by (simp_all add: A_def B_def N_def)
  have h: "2 * H = N" unfolding H_def N_def by (rule double_half)
  have s: "sint b = (if B < H then B else B - N)"
    unfolding sint_by_uint[of b] by (simp add: B_def N_def H_def)
  have ud: "uint (a - b) = (if B \<le> A then A - B else A - B + N)"
    unfolding uint_diff by (simp add: A_def B_def N_def)
  have o: "snd (overflowing_sub_signed a b) \<longleftrightarrow> (A < B) \<noteq> (sint b < 0)"
    unfolding overflow_iff A_def B_def ..
  have d: "d = A - sint b" by (simp add: d_def A_def)
  show "snd (overflowing_sub_signed a b) \<longleftrightarrow> \<not> (0 \<le> d \<and> d < 2 ^ LENGTH('a))"
    unfolding o d s N_def[symmetric] using u h by (auto split: if_splits)
  show "\<not> snd (overflowing_sub_signed a b) \<Longrightarrow> uint (a - b) = d"
    unfolding o d s ud using u h by (auto split: if_splits)
qed

lemma checked_signed_diff_cases:
  "checked_signed_diff a b = (if snd (overflowing_signed_diff a b) then None else Some (a - b))"
  "checked_sub_signed a b = (if snd (overflowing_sub_signed a b) then None else Some (a - b))"
  by (simp_all add: checked_signed_diff_def checked_sub_signed_def split_beta overflow_iff)

section \<open>Properties\<close>

text \<open>For every width, checked_signed_diff returns the exact difference of two unsigned numbers when
  the signed type can hold it and None otherwise, and checked_sub_signed the exact unsigned minus
  signed difference when the unsigned type can hold it.\<close>

theorem checked_diffs_are_exact:
  fixes a b :: "'a::len word"
  shows "(case checked_signed_diff a b of
      Some r \<Rightarrow> sint r = uint a - uint b
    | None \<Rightarrow> uint a - uint b < - half TYPE('a) \<or> half TYPE('a) \<le> uint a - uint b) \<and>
    (case checked_sub_signed a b of
      Some r \<Rightarrow> uint r = uint a - sint b
    | None \<Rightarrow> uint a - sint b < 0 \<or> 2 ^ LENGTH('a) \<le> uint a - sint b)"
proof
  show "case checked_signed_diff a b of
      Some r \<Rightarrow> sint r = uint a - uint b
    | None \<Rightarrow> uint a - uint b < - half TYPE('a) \<or> half TYPE('a) \<le> uint a - uint b"
  proof (cases "snd (overflowing_signed_diff a b)")
    case True
    then have "\<not> (- half TYPE('a) \<le> uint a - uint b \<and> uint a - uint b < half TYPE('a))"
      using signed_diff_exact(1) by blast
    with True show ?thesis unfolding checked_signed_diff_cases by (simp only: if_True option.case) linarith
  next
    case False
    with signed_diff_exact(2)[OF False] show ?thesis
      unfolding checked_signed_diff_cases by (simp only: if_False option.case)
  qed
  show "case checked_sub_signed a b of
      Some r \<Rightarrow> uint r = uint a - sint b
    | None \<Rightarrow> uint a - sint b < 0 \<or> 2 ^ LENGTH('a) \<le> uint a - sint b"
  proof (cases "snd (overflowing_sub_signed a b)")
    case True
    then have "\<not> (0 \<le> uint a - sint b \<and> uint a - sint b < 2 ^ LENGTH('a))"
      using sub_signed_exact(1) by blast
    with True show ?thesis unfolding checked_signed_diff_cases by (simp only: if_True option.case) linarith
  next
    case False
    with sub_signed_exact(2)[OF False] show ?thesis
      unfolding checked_signed_diff_cases by (simp only: if_False option.case)
  qed
qed

text \<open>The 64 bit difference on plain integers, as the seeking code uses it.\<close>

definition checked_diff_64 :: "nat \<Rightarrow> nat \<Rightarrow> int option" where
  "checked_diff_64 a b =
     (let d = int a - int b in if - (2 ^ 63) \<le> d \<and> d < 2 ^ 63 then Some d else None)"

lemma checked_diff_64_word:
  "checked_diff_64 (unat a) (unat b) = map_option sint (checked_signed_diff a (b :: u64))"
proof (cases "snd (overflowing_signed_diff a b)")
  case True
  then have "\<not> (- (2 ^ 63) \<le> uint a - uint b \<and> uint a - uint b < 2 ^ 63)"
    using signed_diff_exact(1)[of a b] by simp
  with True show ?thesis by (simp add: checked_signed_diff_cases checked_diff_64_def Let_def)
next
  case False
  then have "- (2 ^ 63) \<le> uint a - uint b \<and> uint a - uint b < 2 ^ 63"
    using signed_diff_exact(1)[of a b] by simp
  with False signed_diff_exact(2)[OF False] show ?thesis
    by (simp add: checked_signed_diff_cases checked_diff_64_def Let_def)
qed

end
