(* ===== verification/Seek.thy ===== *)
theory Seek
  imports Io_Base Uint_Ext
begin

text \<open>
  The provided methods of the \<open>Seek\<close> trait (\<open>src/src/async_std/io/seek.rs\<close>). Positions (\<open>u64\<close>) are
  naturals and offsets (\<open>i64\<close>) integers, with the range checks of the code written out; the casts
  that wrap are done on words. The implementation's \<open>seek\<close> is a parameter.
\<close>

datatype seek_from = SeekStart nat | SeekCurrent int | SeekEnd int

type_synonym 's seeker = "'s \<Rightarrow> seek_from \<Rightarrow> (error_kind, nat) outcome \<times> 's"

text \<open>What an implementor of \<open>Seek\<close> supplies or inherits: \<open>seek\<close>, \<open>stream_len\<close>, \<open>stream_position\<close>, the hints.\<close>

record 's seek_impl =
  sk_seek :: "'s seeker"
  sk_len :: "'s \<Rightarrow> (error_kind, nat) outcome \<times> 's"
  sk_pos :: "'s \<Rightarrow> (error_kind, nat) outcome \<times> 's"
  sk_len_fast :: bool
  sk_pos_fast :: bool

definition I64_MAX :: int where
  "I64_MAX = 2 ^ 63 - 1"

definition I64_MIN :: int where
  "I64_MIN = - (2 ^ 63)"

definition U64_LIMIT :: nat where
  "U64_LIMIT = 2 ^ 64"

definition default_stream_position :: "'s seeker \<Rightarrow> 's \<Rightarrow> (error_kind, nat) outcome \<times> 's" where
  "default_stream_position sk s = sk s (SeekCurrent 0)"

definition default_stream_len :: "'s seeker \<Rightarrow> 's \<Rightarrow> (error_kind, nat) outcome \<times> 's" where
  "default_stream_len sk s =
     (case default_stream_position sk s of
        (Ok old, s1) \<Rightarrow>
          (case sk s1 (SeekEnd 0) of
             (Ok len, s2) \<Rightarrow>
               if old \<noteq> len then
                 (case sk s2 (SeekStart old) of (Ok _, s3) \<Rightarrow> (Ok len, s3) | (Err e, s3) \<Rightarrow> (Err e, s3) | (Panic, s3) \<Rightarrow> (Panic, s3))
               else (Ok len, s2)
           | r \<Rightarrow> r)
      | r \<Rightarrow> r)"

definition rewind :: "'s seeker \<Rightarrow> 's \<Rightarrow> (error_kind, unit) outcome \<times> 's" where
  "rewind sk s = (let (r, s1) = sk s (SeekStart 0) in (map_outcome_ok (\<lambda>_. ()) r, s1))"

text \<open>\<open>-(i64::MIN).wrapping_add_unsigned(amount)\<close> negates the wrapped sum.\<close>

definition rewind_amount :: "'s seeker \<Rightarrow> 's \<Rightarrow> u64 \<Rightarrow> (error_kind, nat) outcome \<times> 's" where
  "rewind_amount sk s amount =
     (if uint amount \<le> I64_MAX then sk s (SeekCurrent (- uint amount))
      else (case sk s (SeekCurrent I64_MIN) of
          (Ok _, s1) \<Rightarrow> sk s1 (SeekCurrent (- sint (word_of_int I64_MIN + amount)))
        | r \<Rightarrow> r))"

text \<open>The loop of \<open>skip_amount\<close>; the source takes \<open>max\<close>, so the cast to \<open>i64\<close> can be negative.\<close>

fun skip_loop :: "'s seeker \<Rightarrow> nat \<Rightarrow> 's \<Rightarrow> u64 \<Rightarrow> ((error_kind, nat) outcome \<times> 's) option" where
  "skip_loop sk 0 s left = None"
| "skip_loop sk (Suc k) s left =
     (let amount = max left (word_of_int I64_MAX)
      in case sk s (SeekCurrent (sint amount)) of
           (Ok r, s1) \<Rightarrow> (let left1 = left - amount in if left1 = 0 then Some (Ok r, s1) else skip_loop sk k s1 left1)
         | (Err e, s1) \<Rightarrow> Some (Err e, s1)
         | (Panic, s1) \<Rightarrow> Some (Panic, s1))"

definition skip_amount :: "'s seeker \<Rightarrow> nat \<Rightarrow> 's \<Rightarrow> u64 \<Rightarrow> ((error_kind, nat) outcome \<times> 's) option" where
  "skip_amount sk k s amount =
     (if uint amount \<le> I64_MAX then Some (sk s (SeekCurrent (uint amount))) else skip_loop sk k s amount)"

section \<open>Properties\<close>

text \<open>A seeker that only moves a cursor without bounds, to read off the offsets a call asks for.\<close>

definition cursor :: "int seeker" where
  "cursor p f = (case f of SeekStart n \<Rightarrow> (Ok n, int n) | SeekCurrent d \<Rightarrow> (Ok (nat (p + d)), p + d) | SeekEnd d \<Rightarrow> (Ok (nat d), d))"

lemma min_plus_amount:
  assumes "I64_MAX < uint (amount :: u64)"
  shows "sint (word_of_int I64_MIN + amount) = uint amount - 2 ^ 63"
proof -
  have "word_of_int I64_MIN + amount = (word_of_int (uint amount - 2 ^ 63) :: u64)"
    by (simp add: I64_MIN_def)
  moreover have "sint (word_of_int (uint amount - 2 ^ 63) :: u64) = uint amount - 2 ^ 63"
  proof -
    have "0 \<le> uint amount - 2 ^ 63" "uint amount - 2 ^ 63 < 2 ^ 63"
      using assms uint_lt2p[of amount] by (auto simp: I64_MAX_def)
    then show ?thesis
      using sint_sbintrunc'[of "uint amount - 2 ^ 63", where 'a = 64] by (simp add: signed_take_bit_int_eq_self)
  qed
  ultimately show ?thesis by simp
qed

text \<open>Rewind_amount moves exactly the given number of bytes back for every u64 amount, in one relative
  seek or in two; the two offsets always fit i64.\<close>

theorem rewind_amount_moves_back:
  "rewind_amount cursor p amount = (Ok (nat (p - uint amount)), p - uint amount)"
  using min_plus_amount[of amount]
  by (auto simp: rewind_amount_def cursor_def I64_MIN_def)

text \<open>Skip_amount with an amount above i64::MAX seeks backwards: it makes a single relative seek by the
  negative offset amount - 2^64, because the loop takes the maximum where it needs the minimum.\<close>

theorem skip_amount_goes_backwards:
  assumes "I64_MAX < uint amount"
  shows "skip_amount sk 1 s amount =
      Some (case sk s (SeekCurrent (uint amount - 2 ^ 64)) of (r, s') \<Rightarrow> (r, s')) \<and>
    uint amount - 2 ^ 64 < 0"
proof -
  have u: "uint (word_of_int I64_MAX :: u64) = I64_MAX" by (simp add: I64_MAX_def)
  have "(word_of_int I64_MAX :: u64) \<le> amount" using assms u by (simp add: word_le_def)
  then have m: "max amount (word_of_int I64_MAX) = amount" by simp
  have s: "sint amount = uint amount - 2 ^ 64"
    using assms unfolding sint_by_uint[of amount] by (simp add: I64_MAX_def)
  have "skip_loop sk 1 s amount = Some (sk s (SeekCurrent (uint amount - 2 ^ 64)))"
    using m s by (simp add: Let_def split: prod.splits outcome.splits)
  with assms show ?thesis using uint_lt2p[of amount] by (simp add: skip_amount_def)
qed

theorem skip_amount_goes_backwards_witness:
  "skip_amount cursor 1 100 (2 ^ 64 - 10) = Some (Ok 90, 90)"
proof -
  have u: "uint (2 ^ 64 - 10 :: u64) = 2 ^ 64 - 10" by simp
  then have "I64_MAX < uint (2 ^ 64 - 10 :: u64)" by (simp add: I64_MAX_def)
  from skip_amount_goes_backwards[OF this, of cursor 100] u show ?thesis by (simp add: cursor_def)
qed

end
