(* ===== verification/Buf_Reader.thy ===== *)
theory Buf_Reader
  imports Seek
begin

text \<open>
  \<open>BufReader\<close> and \<open>BufReadHalf\<close> (\<open>src/src/async_std/io/buf_reader.rs\<close>), which share the macro
  \<open>impl_bufread\<close>. \<open>buffered\<close> is the range \<open>br_start..br_end\<close> of \<open>data\<close>; taking a slice outside the data
  panics. The inner reader and its \<open>Seek\<close> implementation are parameters. The main result: over a
  well-behaved reader the buffered reader is itself a well-behaved reader, of the buffered bytes followed by
  what the inner reader still holds.
\<close>

record 's buf_reader =
  br_data :: "byte list"
  br_start :: nat
  br_end :: nat
  br_reader :: 's

definition slice :: "nat \<Rightarrow> nat \<Rightarrow> 'a list \<Rightarrow> 'a list" where
  "slice lo hi xs = take (hi - lo) (drop lo xs)"

lemma length_slice [simp]: "length (slice lo hi xs) = min (hi - lo) (length xs - lo)"
  by (simp add: slice_def min.commute)

lemma slice_empty [simp]: "slice n n xs = []"
  by (simp add: slice_def)

section \<open>Construction\<close>

text \<open>\<open>from_parts\<close>: \<open>cap\<close> is the capacity of the vector, which its length does not exceed.\<close>

definition br_from_parts :: "'s \<Rightarrow> byte list \<Rightarrow> nat \<Rightarrow> nat \<Rightarrow> (unit, 's buf_reader) outcome" where
  "br_from_parts reader buf cap pos =
     (if pos \<le> length buf
      then Ok \<lparr>br_data = buf @ replicate (cap - length buf) 0, br_start = pos, br_end = length buf, br_reader = reader\<rparr>
      else Panic)"

definition br_with_capacity :: "'s \<Rightarrow> nat \<Rightarrow> (unit, 's buf_reader) outcome" where
  "br_with_capacity reader cap = br_from_parts reader [] cap 0"

definition br_into_parts :: "'s buf_reader \<Rightarrow> 's \<times> byte list \<times> nat" where
  "br_into_parts b = (br_reader b, take (br_end b) (br_data b), br_start b)"

section \<open>The buffer\<close>

definition br_buffer :: "'s buf_reader \<Rightarrow> byte list" where
  "br_buffer b = slice (br_start b) (br_end b) (br_data b)"

definition br_capacity :: "'s buf_reader \<Rightarrow> nat" where
  "br_capacity b = length (br_data b)"

definition br_spare_capacity :: "'s buf_reader \<Rightarrow> nat" where
  "br_spare_capacity b = length (br_data b) - br_end b"

definition br_discard :: "'s buf_reader \<Rightarrow> 's buf_reader" where
  "br_discard b = b\<lparr>br_start := 0, br_end := 0\<rparr>"

definition br_consume :: "nat \<Rightarrow> 's buf_reader \<Rightarrow> (unit, 's buf_reader) outcome" where
  "br_consume count b =
     (if count \<le> length (br_buffer b) then Ok (b\<lparr>br_start := br_start b + count\<rparr>) else Panic)"

definition br_unconsume :: "nat \<Rightarrow> 's buf_reader \<Rightarrow> (unit, 's buf_reader) outcome" where
  "br_unconsume count b =
     (if count \<le> br_start b then Ok (b\<lparr>br_start := br_start b - count\<rparr>) else Panic)"

definition br_read_into :: "'s buf_reader \<Rightarrow> byte list \<Rightarrow> nat \<times> byte list \<times> 's buf_reader" where
  "br_read_into b buf =
     (let (len, buf1) = read_into_slice buf (br_buffer b)
      in (len, buf1, b\<lparr>br_start := br_start b + len\<rparr>))"

definition move_data_to_beginning :: "'s buf_reader \<Rightarrow> 's buf_reader" where
  "move_data_to_beginning b =
     (if br_start b = 0 then b
      else
        (let len = length (br_buffer b)
         in if len = 0 then br_discard b
            else b\<lparr>br_data := br_buffer b @ drop len (br_data b), br_start := 0, br_end := len\<rparr>))"

section \<open>Filling and reading\<close>

definition fill_buf_range ::
  "'s reader \<Rightarrow> nat \<Rightarrow> nat \<Rightarrow> 's buf_reader \<Rightarrow> (error_kind, nat) outcome \<times> 's buf_reader" where
  "fill_buf_range rd lo hi b =
     (if lo \<le> hi \<and> hi \<le> length (br_data b) then
        (let (r, seg, s1) = rd (br_reader b) (slice lo hi (br_data b));
             b1 = b\<lparr>br_data := take lo (br_data b) @ seg @ drop hi (br_data b), br_reader := s1\<rparr>
         in case r of
              Ok n \<Rightarrow>
                if n = 0 then (Ok 0, b1)
                else (case length_check seg n of
                    Ok m \<Rightarrow> (Ok n, b1\<lparr>br_end := lo + m\<rparr>)
                  | _ \<Rightarrow> (Panic, b1))
            | Err e \<Rightarrow> (Err e, b1)
            | Panic \<Rightarrow> (Panic, b1))
      else (Panic, b))"

definition fill_buf :: "'s reader \<Rightarrow> 's buf_reader \<Rightarrow> (error_kind, nat) outcome \<times> 's buf_reader" where
  "fill_buf rd b =
     (case fill_buf_range rd 0 (length (br_data b)) b of
        (Ok n, b1) \<Rightarrow> (Ok n, if n \<noteq> 0 then b1\<lparr>br_start := 0\<rparr> else b1)
      | r \<Rightarrow> r)"

definition read_cold ::
  "'s reader \<Rightarrow> 's buf_reader \<Rightarrow> byte list \<Rightarrow> (error_kind, nat) outcome \<times> byte list \<times> 's buf_reader" where
  "read_cold rd b buf =
     (if br_capacity b \<le> length buf then
        (let (r, buf1, s1) = rd (br_reader b) buf in (r, buf1, b\<lparr>br_reader := s1\<rparr>))
      else
        (case fill_buf rd b of
           (Ok n, b1) \<Rightarrow>
             if n \<noteq> 0 then (let (len, buf1, b2) = br_read_into b1 buf in (Ok len, buf1, b2))
             else (Ok 0, buf, b1)
         | (Err e, b1) \<Rightarrow> (Err e, buf, b1)
         | (Panic, b1) \<Rightarrow> (Panic, buf, b1)))"

definition br_read :: "'s reader \<Rightarrow> 's buf_reader reader" where
  "br_read rd b buf =
     (if br_buffer b \<noteq> [] then (let (len, buf1, b1) = br_read_into b buf in (Ok len, buf1, b1))
      else read_cold rd b buf)"

text \<open>The end of \<open>fill_amount\<close>: read into \<open>start..hi\<close>, and reset the position when the data is new.\<close>

definition fill_from :: "'s reader \<Rightarrow> nat \<Rightarrow> nat \<Rightarrow> 's buf_reader \<Rightarrow> (error_kind, nat) outcome \<times> 's buf_reader" where
  "fill_from rd start hi b =
     (case fill_buf_range rd start hi b of
        (Ok n, b1) \<Rightarrow> (Ok n, if start = 0 \<and> n \<noteq> 0 then b1\<lparr>br_start := 0\<rparr> else b1)
      | r \<Rightarrow> r)"

definition fill_amount :: "'s reader \<Rightarrow> nat \<Rightarrow> 's buf_reader \<Rightarrow> (error_kind, nat) outcome \<times> 's buf_reader" where
  "fill_amount rd amount b =
     (if br_capacity b < amount then (Panic, b)
      else if br_start b + amount \<le> br_end b then (Ok 0, b)
      else if br_capacity b < br_start b + amount then
        (if br_end b \<le> br_start b then fill_from rd 0 amount b
         else
           (let b0 = move_data_to_beginning b
            in if br_spare_capacity b0 = 0 then (Ok 0, b0) else fill_from rd (br_end b0) amount b0))
      else fill_from rd (br_end b) (br_start b + amount) b)"

definition fill :: "'s reader \<Rightarrow> 's buf_reader \<Rightarrow> (error_kind, nat) outcome \<times> 's buf_reader" where
  "fill rd b = fill_amount rd (br_capacity b) b"

section \<open>Seeking\<close>

definition br_stream_position :: "'s seek_impl \<Rightarrow> 's buf_reader \<Rightarrow> (error_kind, nat) outcome \<times> 's buf_reader" where
  "br_stream_position sk b =
     (let (r, s1) = sk_pos sk (br_reader b); b1 = b\<lparr>br_reader := s1\<rparr>
      in case r of
           Ok pos \<Rightarrow> (if length (br_buffer b) \<le> pos then Ok (pos - length (br_buffer b)) else Panic, b1)
         | Err e \<Rightarrow> (Err e, b1)
         | Panic \<Rightarrow> (Panic, b1))"

text \<open>When the offset does not fit after the buffered bytes are taken off it, the code seeks twice.\<close>

definition br_seek_inner ::
  "'s seek_impl \<Rightarrow> seek_from \<Rightarrow> 's buf_reader \<Rightarrow> (error_kind, nat) outcome \<times> 's buf_reader" where
  "br_seek_inner sk seek b =
     (let last = (\<lambda>f b0. let (r, s1) = sk_seek sk (br_reader b0) f in (r, br_discard (b0\<lparr>br_reader := s1\<rparr>)))
      in case seek of
           SeekCurrent pos \<Rightarrow>
             (let remainder = int (length (br_buffer b))
              in if I64_MIN \<le> pos - remainder then last (SeekCurrent (pos - remainder)) b
                 else (case sk_seek sk (br_reader b) (SeekCurrent (- remainder)) of
                     (Ok _, s1) \<Rightarrow> last (SeekCurrent pos) (b\<lparr>br_reader := s1\<rparr>)
                   | (Err e, s1) \<Rightarrow> (Err e, b\<lparr>br_reader := s1\<rparr>)
                   | (Panic, s1) \<Rightarrow> (Panic, b\<lparr>br_reader := s1\<rparr>)))
         | _ \<Rightarrow> last seek b)"

definition br_seek_relative ::
  "'s seek_impl \<Rightarrow> int \<Rightarrow> 's buf_reader \<Rightarrow> (error_kind, nat) outcome \<times> 's buf_reader" where
  "br_seek_relative sk rel b =
     (let pos = rel + int (br_start b)
      in if pos \<le> I64_MAX \<and> 0 \<le> pos \<and> pos \<le> int (br_end b)
         then br_stream_position sk (b\<lparr>br_start := nat pos\<rparr>)
         else br_seek_inner sk (SeekCurrent rel) b)"

definition br_seek_abs ::
  "'s seek_impl \<Rightarrow> nat \<Rightarrow> seek_from \<Rightarrow> 's buf_reader \<Rightarrow> (error_kind, nat) outcome \<times> 's buf_reader" where
  "br_seek_abs sk pos seek b =
     (case br_stream_position sk b of
        (Ok stream_pos, b1) \<Rightarrow>
          (case checked_diff_64 pos stream_pos of
             Some rel \<Rightarrow> br_seek_relative sk rel b1
           | None \<Rightarrow> br_seek_inner sk seek b1)
      | r \<Rightarrow> r)"

definition br_seek :: "'s seek_impl \<Rightarrow> seek_from \<Rightarrow> 's buf_reader \<Rightarrow> (error_kind, nat) outcome \<times> 's buf_reader" where
  "br_seek sk seek b =
     (case seek of
        SeekCurrent pos \<Rightarrow> br_seek_relative sk pos b
      | _ \<Rightarrow>
        (if \<not> sk_pos_fast sk then br_seek_inner sk seek b
         else
           (case seek of
              SeekStart pos \<Rightarrow> br_seek_abs sk pos seek b
            | SeekCurrent pos \<Rightarrow> br_seek_relative sk pos b
            | SeekEnd pos \<Rightarrow>
                (if \<not> sk_len_fast sk then br_seek_inner sk seek b
                 else
                   (let (r, s1) = sk_len sk (br_reader b); b1 = b\<lparr>br_reader := s1\<rparr>
                    in case r of
                         Ok len \<Rightarrow>
                           (let new_pos = int len + pos
                            in if 0 \<le> new_pos \<and> nat new_pos < U64_LIMIT then br_seek_abs sk (nat new_pos) seek b1
                               else (Panic, b1))
                       | Err e \<Rightarrow> (Err e, b1)
                       | Panic \<Rightarrow> (Panic, b1))))))"

section \<open>The buffered reader is a reader\<close>

definition br_rest :: "('s \<Rightarrow> byte list) \<Rightarrow> 's buf_reader \<Rightarrow> byte list" where
  "br_rest rest b = br_buffer b @ rest (br_reader b)"

definition br_ok :: "('s \<Rightarrow> bool) \<Rightarrow> 's buf_reader \<Rightarrow> bool" where
  "br_ok ok b \<longleftrightarrow> br_start b \<le> br_end b \<and> br_end b \<le> length (br_data b) \<and> ok (br_reader b)"

lemma slice_alt: "slice lo hi xs = drop lo (take hi xs)"
  by (simp add: slice_def drop_take)

lemma slice_prefix: "b \<le> lo \<Longrightarrow> lo \<le> length xs \<Longrightarrow> slice a b (take lo xs @ ys) = slice a b xs"
  by (simp add: slice_alt min_def)

lemma slice_split:
  assumes "a \<le> b" "b \<le> c"
  shows "slice a c xs = slice a b xs @ slice b c xs"
  using take_add[of "b - a" "c - b" "drop a xs"] assms by (simp add: slice_def)

lemma br_buffer_empty: "br_ok ok b \<Longrightarrow> br_buffer b = [] \<longleftrightarrow> br_start b = br_end b"
  by (auto simp: br_ok_def br_buffer_def slice_def)

lemma br_buffer_length: "br_ok ok b \<Longrightarrow> length (br_buffer b) = br_end b - br_start b"
  by (auto simp: br_ok_def br_buffer_def)

lemma br_read_into_spec:
  assumes "br_ok ok b" "br_read_into b buf = (n, buf1, b1)"
  shows "br_ok ok b1" "length buf1 = length buf" "n = min (length buf) (length (br_buffer b))"
    "take n buf1 = take n (br_buffer b)" "br_buffer b1 = drop n (br_buffer b)" "br_reader b1 = br_reader b"
  using assms by (auto simp: br_read_into_def read_into_slice_def br_ok_def Let_def br_buffer_def slice_def
      drop_take min_def add.commute split: if_splits)

context byte_stream begin

text \<open>Filling \<open>lo..hi\<close> appends what was read when \<open>lo\<close> is the end of the buffered range, and replaces an
  empty range when \<open>lo\<close> is 0; the caller resets the start.\<close>

lemma fill_buf_range_spec:
  assumes "br_ok ok b" "lo \<le> hi" "hi \<le> length (br_data b)" "br_end b \<le> lo \<or> br_start b = br_end b"
  shows "\<exists>r b1. fill_buf_range rd lo hi b = (r, b1) \<and> length (br_data b1) = length (br_data b) \<and> ok (br_reader b1) \<and>
    r \<noteq> Panic \<and> br_start b1 = br_start b \<and>
    (r \<noteq> Ok 0 \<longrightarrow> is_ok r \<longrightarrow> br_end b1 \<le> hi \<and> lo \<le> br_end b1) \<and>
    (case r of
       Ok n \<Rightarrow>
         n \<le> hi - lo \<and> n \<le> length (rest (br_reader b)) \<and>
         rest (br_reader b1) = drop n (rest (br_reader b)) \<and>
         (n = 0 \<longrightarrow> br_end b1 = br_end b \<and> (lo < hi \<longrightarrow> rest (br_reader b) = []) \<and> br_buffer b1 = br_buffer b) \<and>
         (n \<noteq> 0 \<longrightarrow> br_end b1 = lo + n \<and> slice lo (lo + n) (br_data b1) = take n (rest (br_reader b)) \<and>
           take lo (br_data b1) = take lo (br_data b))
     | _ \<Rightarrow> br_end b1 = br_end b \<and> br_buffer b1 = br_buffer b \<and> rest (br_reader b1) = rest (br_reader b))"
proof -
  let ?sl = "slice lo hi (br_data b)"
  obtain r seg s1 where rd: "rd (br_reader b) ?sl = (r, seg, s1)" by (metis prod_cases3)
  have ok: "ok (br_reader b)" using assms(1) by (simp add: br_ok_def)
  have ls: "length ?sl = hi - lo" using assms(2,3) by simp
  note i = rd_inv[OF ok rd]
  let ?d = "take lo (br_data b) @ seg @ drop hi (br_data b)"
  have ld: "length ?d = length (br_data b)" using i ls assms(2,3) by simp
  have keep: "slice (br_start b) (br_end b) ?d = slice (br_start b) (br_end b) (br_data b)"
    using assms(2-4) by (auto simp: slice_prefix)
  show ?thesis
  proof (cases r)
    case (Ok n)
    note o = rd_ok[OF ok rd[unfolded Ok]]
    show ?thesis
    proof (cases "n = 0")
      case True
      have "lo < hi \<longrightarrow> rest (br_reader b) = []" using rd_eof[OF ok rd[unfolded Ok True]] ls by (metis length_0_conv zero_less_diff less_numeral_extra(3))
      then show ?thesis using True Ok rd i o ld keep assms(2,3) by (auto simp: fill_buf_range_def br_buffer_def)
    next
      case False
      have "slice lo (lo + n) ?d = take n (rest (br_reader b))"
        using o i ls assms(2,3) by (simp add: slice_def)
      then show ?thesis using False Ok rd i o ld ls assms(2,3) by (auto simp: fill_buf_range_def length_check_def)
    qed
  next
    case (Err e)
    then show ?thesis using rd i ld keep assms(2,3) rd_err[OF ok rd[unfolded Err]]
      by (auto simp: fill_buf_range_def br_buffer_def)
  qed (use i in simp)
qed

lemma fill_from_spec:
  assumes "br_ok ok b" "lo \<le> hi" "hi \<le> length (br_data b)" "lo = br_end b \<or> lo = 0 \<and> br_start b = br_end b"
  shows "\<exists>r b1. fill_from rd lo hi b = (r, b1) \<and> br_ok ok b1 \<and> length (br_data b1) = length (br_data b) \<and>
    r \<noteq> Panic \<and>
    (case r of
       Ok n \<Rightarrow>
         n \<le> hi - lo \<and> n \<le> length (rest (br_reader b)) \<and> (n = 0 \<longrightarrow> lo < hi \<longrightarrow> rest (br_reader b) = []) \<and>
         rest (br_reader b1) = drop n (rest (br_reader b)) \<and>
         br_buffer b1 = br_buffer b @ take n (rest (br_reader b))
     | _ \<Rightarrow> br_buffer b1 = br_buffer b \<and> rest (br_reader b1) = rest (br_reader b))"
proof -
  have "br_end b \<le> lo \<or> br_start b = br_end b" using assms(4) by auto
  from fill_buf_range_spec[OF assms(1-3) this] obtain r b1 where f: "fill_buf_range rd lo hi b = (r, b1)"
    "length (br_data b1) = length (br_data b)" "ok (br_reader b1)" "r \<noteq> Panic" "br_start b1 = br_start b"
    and c: "case r of
       Ok n \<Rightarrow>
         n \<le> hi - lo \<and> n \<le> length (rest (br_reader b)) \<and>
         rest (br_reader b1) = drop n (rest (br_reader b)) \<and>
         (n = 0 \<longrightarrow> br_end b1 = br_end b \<and> (lo < hi \<longrightarrow> rest (br_reader b) = []) \<and> br_buffer b1 = br_buffer b) \<and>
         (n \<noteq> 0 \<longrightarrow> br_end b1 = lo + n \<and> slice lo (lo + n) (br_data b1) = take n (rest (br_reader b)) \<and>
           take lo (br_data b1) = take lo (br_data b))
     | _ \<Rightarrow> br_end b1 = br_end b \<and> br_buffer b1 = br_buffer b \<and> rest (br_reader b1) = rest (br_reader b)" by blast
  have o: "br_start b \<le> br_end b" "br_end b \<le> length (br_data b)" using assms(1) by (auto simp: br_ok_def)
  show ?thesis
  proof (cases r)
    case (Ok n)
    show ?thesis
    proof (cases "n = 0")
      case True
      then show ?thesis using f c Ok o by (auto simp: fill_from_def br_ok_def)
    next
      case False
      let ?b = "if lo = 0 then b1\<lparr>br_start := 0\<rparr> else b1"
      have h: "br_end b1 = lo + n" "slice lo (lo + n) (br_data b1) = take n (rest (br_reader b))"
        "take lo (br_data b1) = take lo (br_data b)" "n \<le> hi - lo" using c Ok False by auto
      have "slice (br_start ?b) (lo + n) (br_data b1) =
          slice (br_start ?b) lo (br_data b) @ slice lo (lo + n) (br_data b1)"
      proof -
        have le: "br_start ?b \<le> lo" using f(5) o assms(4) by auto
        have "slice (br_start ?b) (lo + n) (br_data b1) =
            slice (br_start ?b) lo (br_data b1) @ slice lo (lo + n) (br_data b1)"
          by (rule slice_split[OF le]) simp
        then show ?thesis using h(3) by (simp add: slice_alt)
      qed
      moreover have "br_buffer ?b = slice (br_start ?b) (lo + n) (br_data b1)"
        using h(1) by (simp add: br_buffer_def)
      moreover have "slice (br_start ?b) lo (br_data b) = br_buffer b"
        using f(5) o assms(4) by (auto simp: br_buffer_def)
      ultimately have "br_buffer ?b = br_buffer b @ take n (rest (br_reader b))"
        using h(2) by simp
      moreover have "br_ok ok ?b" using f h o assms(2-4) by (auto simp: br_ok_def)
      moreover have "fill_from rd lo hi b = (Ok n, ?b)" using f Ok False by (simp add: fill_from_def)
      ultimately show ?thesis using c Ok f False by auto
    qed
  next
    case (Err e)
    then show ?thesis using f c o by (auto simp: fill_from_def br_ok_def)
  qed (use f in simp)
qed

lemma move_data_spec:
  assumes "br_ok ok b"
  shows "br_ok ok (move_data_to_beginning b)" "br_buffer (move_data_to_beginning b) = br_buffer b"
    "br_reader (move_data_to_beginning b) = br_reader b"
    "length (br_data (move_data_to_beginning b)) = length (br_data b)"
    "br_end (move_data_to_beginning b) = br_end b - br_start b"
  using assms by (auto simp: move_data_to_beginning_def br_ok_def br_buffer_def br_discard_def slice_def Let_def)

text \<open>\<open>fill_amount\<close> appends the next bytes of the inner reader, as many as it returns; nothing only when enough is
  buffered or the inner reader is at its end; and an error changes nothing.\<close>

lemma fill_amount_spec:
  assumes "br_ok ok b" "amount \<le> br_capacity b"
  shows "\<exists>r b1. fill_amount rd amount b = (r, b1) \<and> br_ok ok b1 \<and> br_capacity b1 = br_capacity b \<and> r \<noteq> Panic \<and>
    br_rest rest b1 = br_rest rest b \<and>
    (case r of
       Ok n \<Rightarrow> br_buffer b1 = br_buffer b @ take n (rest (br_reader b)) \<and> n \<le> length (rest (br_reader b)) \<and>
         (n \<noteq> 0 \<longrightarrow> length (br_buffer b1) \<le> amount) \<and>
         (n = 0 \<longrightarrow> length (br_buffer b) < amount \<longrightarrow> rest (br_reader b) = [])
     | _ \<Rightarrow> br_buffer b1 = br_buffer b)"
proof -
  have o: "br_start b \<le> br_end b" "br_end b \<le> length (br_data b)" using assms(1) by (auto simp: br_ok_def)
  have l: "length (br_buffer b) = br_end b - br_start b" by (rule br_buffer_length[OF assms(1)])
  have key: ?thesis if "br_ok ok b0" "lo \<le> hi" "hi \<le> length (br_data b0)"
      "lo = br_end b0 \<or> lo = 0 \<and> br_start b0 = br_end b0" "br_buffer b0 = br_buffer b" "br_reader b0 = br_reader b"
      "length (br_data b0) = length (br_data b)" "hi - lo \<le> amount - length (br_buffer b)"
      "length (br_buffer b) < amount \<longrightarrow> lo < hi" "length (br_buffer b) \<le> amount"
      "fill_amount rd amount b = fill_from rd lo hi b0" for b0 lo hi
  proof -
    from fill_from_spec[OF that(1-4)] obtain r b1 where f: "fill_from rd lo hi b0 = (r, b1)" "br_ok ok b1"
      "length (br_data b1) = length (br_data b0)" "r \<noteq> Panic" and
      c: "case r of
       Ok n \<Rightarrow>
         n \<le> hi - lo \<and> n \<le> length (rest (br_reader b0)) \<and> (n = 0 \<longrightarrow> lo < hi \<longrightarrow> rest (br_reader b0) = []) \<and>
         rest (br_reader b1) = drop n (rest (br_reader b0)) \<and>
         br_buffer b1 = br_buffer b0 @ take n (rest (br_reader b0))
     | _ \<Rightarrow> br_buffer b1 = br_buffer b0 \<and> rest (br_reader b1) = rest (br_reader b0)" by blast
    show ?thesis
      using f c that(5-11) by (cases r) (auto simp: br_rest_def br_capacity_def)
  qed
  consider "br_start b + amount \<le> br_end b" | "br_end b < br_start b + amount" "br_capacity b < br_start b + amount"
      "br_start b = br_end b"
    | "br_end b < br_start b + amount" "br_capacity b < br_start b + amount" "br_start b < br_end b"
    | "br_end b < br_start b + amount" "br_start b + amount \<le> br_capacity b" using o by linarith
  then show ?thesis
  proof cases
    case 1
    then show ?thesis using assms l by (auto simp: fill_amount_def)
  next
    case 2
    show ?thesis
      by (rule key[of b 0 amount]) (use 2 assms l o in \<open>auto simp: fill_amount_def br_capacity_def\<close>)
  next
    case 3
    note m = move_data_spec[OF assms(1)]
    have sp: "br_spare_capacity (move_data_to_beginning b) \<noteq> 0"
      using m(4,5) 3 o assms(2) by (auto simp: br_spare_capacity_def br_capacity_def)
    show ?thesis
      by (rule key[of "move_data_to_beginning b" "br_end (move_data_to_beginning b)" amount])
        (use 3 assms l o m sp in \<open>auto simp: fill_amount_def br_capacity_def Let_def\<close>)
  next
    case 4
    show ?thesis
      by (rule key[of b "br_end b" "br_start b + amount"])
        (use 4 assms l o in \<open>auto simp: fill_amount_def br_capacity_def\<close>)
  qed
qed

lemma fill_buf_eq: "fill_buf rd b = fill_from rd 0 (length (br_data b)) b"
  by (auto simp: fill_buf_def fill_from_def split: prod.splits outcome.splits)

lemma br_read_spec:
  assumes "br_ok ok b" "br_read rd b buf = (r, buf1, b1)"
  shows "br_ok ok b1 \<and> length buf1 = length buf \<and> r \<noteq> Panic"
    and "r = Ok n \<Longrightarrow> n \<le> length buf \<and> n \<le> length (br_rest rest b) \<and> take n buf1 = take n (br_rest rest b) \<and>
      br_rest rest b1 = drop n (br_rest rest b) \<and> (n = 0 \<longrightarrow> buf \<noteq> [] \<longrightarrow> br_rest rest b = [])"
    and "r = Err e \<Longrightarrow> br_rest rest b1 = br_rest rest b"
proof -
  have "(br_ok ok b1 \<and> length buf1 = length buf \<and> r \<noteq> Panic) \<and>
    (r = Ok n \<longrightarrow> n \<le> length buf \<and> n \<le> length (br_rest rest b) \<and> take n buf1 = take n (br_rest rest b) \<and>
      br_rest rest b1 = drop n (br_rest rest b) \<and> (n = 0 \<longrightarrow> buf \<noteq> [] \<longrightarrow> br_rest rest b = [])) \<and>
    (r = Err e \<longrightarrow> br_rest rest b1 = br_rest rest b)"
  proof -
    have into: ?thesis if "br_ok ok b0" "br_read_into b0 buf = (m, buf1, b1)" "r = Ok m"
      "br_buffer b0 \<noteq> []" "br_rest rest b0 = br_rest rest b" for b0 m
      unfolding that(5)[symmetric] using br_read_into_spec[OF that(1,2)] that(3,4)
      by (auto simp: br_rest_def min_def)
    consider "br_buffer b \<noteq> []" | "br_buffer b = []" "br_capacity b \<le> length buf"
      | "br_buffer b = []" "length buf < br_capacity b" by linarith
    then show ?thesis
    proof cases
      case 1
      then obtain m where "br_read_into b buf = (m, buf1, b1)" "r = Ok m"
        using assms(2) by (auto simp: br_read_def split: prod.splits)
      then show ?thesis using 1 by (intro into[OF assms(1)]) auto
    next
      case 2
      obtain r2 a s1 where rd: "rd (br_reader b) buf = (r2, a, s1)" by (metis prod_cases3)
      then have e: "r = r2" "buf1 = a" "b1 = b\<lparr>br_reader := s1\<rparr>" using 2 assms(2) by (auto simp: br_read_def read_cold_def)
      have ok: "ok (br_reader b)" using assms(1) by (simp add: br_ok_def)
      have b: "br_buffer b1 = []" using 2(1) by (simp add: e br_buffer_def)
      note i = rd_inv[OF ok rd]
      show ?thesis
        using e i b 2 assms(1) rd_ok[OF ok, of buf n a s1] rd_eof[OF ok, of buf a s1] rd_err[OF ok, of buf e a s1] rd
        by (auto simp: br_rest_def br_ok_def)
    next
      case 3
      have "br_start b = br_end b" using 3(1) br_buffer_empty[OF assms(1)] by simp
      then have "0 = br_end b \<or> 0 = (0::nat) \<and> br_start b = br_end b" by simp
      from fill_from_spec[OF assms(1) le0 order_refl this, unfolded diff_zero] obtain r2 b2 where
        f: "fill_buf rd b = (r2, b2)" "br_ok ok b2" "r2 \<noteq> Panic" and
        c: "case r2 of
       Ok n \<Rightarrow>
         n \<le> length (br_data b) \<and> n \<le> length (rest (br_reader b)) \<and>
         (n = 0 \<longrightarrow> 0 < length (br_data b) \<longrightarrow> rest (br_reader b) = []) \<and>
         rest (br_reader b2) = drop n (rest (br_reader b)) \<and>
         br_buffer b2 = br_buffer b @ take n (rest (br_reader b))
     | _ \<Rightarrow> br_buffer b2 = br_buffer b \<and> rest (br_reader b2) = rest (br_reader b)"
        unfolding fill_buf_eq by blast
      have rc: "br_read rd b buf = read_cold rd b buf" using 3 by (simp add: br_read_def)
      show ?thesis
      proof (cases r2)
        case (Ok k)
        show ?thesis
        proof (cases "k = 0")
          case True
          then show ?thesis using f c Ok 3 assms(2) rc
            by (auto simp: read_cold_def br_rest_def br_capacity_def)
        next
          case False
          then have "br_buffer b2 \<noteq> []" using c Ok 3 by auto
          moreover have "br_rest rest b2 = br_rest rest b" using c Ok 3 by (simp add: br_rest_def)
          moreover obtain m where "br_read_into b2 buf = (m, buf1, b1)" "r = Ok m"
            using f Ok False 3 assms(2) rc by (auto simp: read_cold_def split: prod.splits)
          ultimately show ?thesis by (intro into[OF f(2)])
        qed
      next
        case (Err e2)
        then show ?thesis using f c 3 assms(2) rc by (auto simp: read_cold_def br_rest_def)
      qed (use f in simp)
    qed
  qed
  then show "br_ok ok b1 \<and> length buf1 = length buf \<and> r \<noteq> Panic"
    and "r = Ok n \<Longrightarrow> n \<le> length buf \<and> n \<le> length (br_rest rest b) \<and> take n buf1 = take n (br_rest rest b) \<and>
      br_rest rest b1 = drop n (br_rest rest b) \<and> (n = 0 \<longrightarrow> buf \<noteq> [] \<longrightarrow> br_rest rest b = [])"
    and "r = Err e \<Longrightarrow> br_rest rest b1 = br_rest rest b" by blast+
qed

lemma buffered_stream: "byte_stream (br_read rd) (br_rest rest) (br_ok ok)"
proof
  fix s buf r buf' s'
  assume a: "br_ok ok s" "br_read rd s buf = (r, buf', s')"
  show "br_ok ok s' \<and> length buf' = length buf \<and> r \<noteq> Panic" by (rule br_read_spec(1)[OF a])
next
  fix s buf n buf' s'
  assume a: "br_ok ok s" "br_read rd s buf = (Ok n, buf', s')"
  show "n \<le> length buf \<and> n \<le> length (br_rest rest s) \<and> take n buf' = take n (br_rest rest s) \<and>
      br_rest rest s' = drop n (br_rest rest s)" using br_read_spec(2)[OF a refl] by blast
next
  fix s buf buf' s'
  assume a: "br_ok ok s" "br_read rd s buf = (Ok 0, buf', s')" "buf \<noteq> []"
  show "br_rest rest s = []" using br_read_spec(2)[OF a(1,2) refl] a(3) by blast
next
  fix s buf e buf' s'
  assume a: "br_ok ok s" "br_read rd s buf = (Err e, buf', s')"
  show "br_rest rest s' = br_rest rest s" using br_read_spec(3)[OF a refl] .
qed

end

end
