(* ===== verification/Buf_Read.thy ===== *)
theory Buf_Read
  imports Buf_Reader
begin

text \<open>
  The provided methods of \<open>BufRead\<close> and the lines iterator (\<open>src/src/async_std/io/read.rs\<close>) on
  \<open>BufReader\<close>, and its properties. \<open>memchr\<close> is a library function and a parameter; \<open>finds_first\<close> is what
  its documentation says. A \<open>String\<close> is its bytes. The concrete reader is \<open>Sequential\<close> of
  \<open>src/tests/src/async_tests/util/read.rs\<close>, which counts up to an end.
\<close>

section \<open>A concrete reader\<close>

definition seq_read :: "(nat \<times> nat) reader" where
  "seq_read s buf =
     (let (p, e) = s; m = min (length buf) (e - p)
      in (Ok m, map of_nat [p..<p + m] @ drop m buf, (p + m, e)))"

definition seq_seek :: "(nat \<times> nat) seeker" where
  "seq_seek s seek =
     (let (p, e) = s;
          q = (case seek of SeekStart n \<Rightarrow> int n | SeekCurrent d \<Rightarrow> int p + d | SeekEnd d \<Rightarrow> int e + d)
      in if 0 \<le> q \<and> q \<le> int e then (Ok (nat q), (nat q, e)) else (Panic, s))"

definition seq_impl :: "(nat \<times> nat) seek_impl" where
  "seq_impl = \<lparr>sk_seek = seq_seek, sk_len = default_stream_len seq_seek, sk_pos = default_stream_position seq_seek,
     sk_len_fast = False, sk_pos_fast = False\<rparr>"

definition seq_rest :: "nat \<times> nat \<Rightarrow> byte list" where
  "seq_rest s = map of_nat [fst s..<snd s]"

definition seq_ok :: "nat \<times> nat \<Rightarrow> bool" where
  "seq_ok s \<longleftrightarrow> fst s \<le> snd s"

interpretation seq: byte_stream seq_read seq_rest seq_ok
proof
  fix s buf r buf' s'
  assume "seq_ok s" "seq_read s buf = (r, buf', s')"
  then show "seq_ok s' \<and> length buf' = length buf \<and> r \<noteq> Panic"
    by (auto simp: seq_read_def seq_ok_def Let_def split: prod.splits)
next
  fix s buf n buf' s'
  assume "seq_ok s" "seq_read s buf = (Ok n, buf', s')"
  then show "n \<le> length buf \<and> n \<le> length (seq_rest s) \<and> take n buf' = take n (seq_rest s) \<and>
      seq_rest s' = drop n (seq_rest s)"
    by (auto simp: seq_read_def seq_ok_def seq_rest_def Let_def take_map drop_map split: prod.splits)
next
  fix s buf buf' s'
  assume "seq_ok s" "seq_read s buf = (Ok 0, buf', s')" "buf \<noteq> []"
  then show "seq_rest s = []"
    by (auto simp: seq_read_def seq_rest_def Let_def min_def split: prod.splits if_splits)
next
  fix s buf e buf' s'
  assume "seq_ok s" "seq_read s buf = (Err e, buf', s')"
  then show "seq_rest s' = seq_rest s" by (auto simp: seq_read_def Let_def split: prod.splits)
qed

section \<open>\<open>read_until\<close>\<close>

definition finds_first :: "(byte \<Rightarrow> byte list \<Rightarrow> nat option) \<Rightarrow> bool" where
  "finds_first memchr \<longleftrightarrow>
     (\<forall>b xs. case memchr b xs of
        Some i \<Rightarrow> i < length xs \<and> xs ! i = b \<and> b \<notin> set (take i xs)
      | None \<Rightarrow> b \<notin> set xs)"

fun read_until_loop :: "(byte \<Rightarrow> byte list \<Rightarrow> nat option) \<Rightarrow> 's reader \<Rightarrow> nat \<Rightarrow> byte \<Rightarrow> nat \<Rightarrow> 's buf_reader \<Rightarrow> byte list \<Rightarrow>
    ((error_kind, nat option) outcome \<times> byte list \<times> 's buf_reader) option" where
  "read_until_loop memchr rd 0 byte start_len b buf = None"
| "read_until_loop memchr rd (Suc k) byte start_len b buf =
     (let available = br_buffer b;
          (used, done) = (case memchr byte available of Some i \<Rightarrow> (i + 1, True) | None \<Rightarrow> (length available, False));
          buf1 = buf @ take used available
      in case br_consume used b of
           Ok b1 \<Rightarrow>
             (if done then Some (Ok (Some (length buf1 - start_len)), buf1, b1)
              else
                (case fill rd b1 of
                   (Ok n, b2) \<Rightarrow>
                     (if n = 0 then
                        Some (Ok (if length buf1 = start_len then None else Some (length buf1 - start_len)), buf1, b2)
                      else read_until_loop memchr rd k byte start_len b2 buf1)
                 | (Err e, b2) \<Rightarrow> Some (Err e, buf1, b2)
                 | (Panic, b2) \<Rightarrow> Some (Panic, buf1, b2)))
         | _ \<Rightarrow> Some (Panic, buf, b))"

definition read_until :: "(byte \<Rightarrow> byte list \<Rightarrow> nat option) \<Rightarrow> 's reader \<Rightarrow> nat \<Rightarrow> byte \<Rightarrow> 's buf_reader \<Rightarrow> byte list \<Rightarrow>
    ((error_kind, nat option) outcome \<times> byte list \<times> 's buf_reader) option" where
  "read_until memchr rd k byte b buf = read_until_loop memchr rd k byte (length buf) b buf"

section \<open>Strings\<close>

text \<open>Well-formed UTF-8, as \<open>from_utf8\<close> of the standard library checks it.\<close>

definition continuation :: "byte \<Rightarrow> bool" where
  "continuation b \<longleftrightarrow> 0x80 \<le> unat b \<and> unat b \<le> 0xBF"

fun utf8_valid :: "byte list \<Rightarrow> bool" where
  "utf8_valid [] = True"
| "utf8_valid (b # bs) =
     (let x = unat b
      in if x \<le> 0x7F then utf8_valid bs
         else if 0xC2 \<le> x \<and> x \<le> 0xDF then
           (case bs of c1 # r \<Rightarrow> continuation c1 \<and> utf8_valid r | [] \<Rightarrow> False)
         else if 0xE0 \<le> x \<and> x \<le> 0xEF then
           (case bs of
              c1 # c2 # r \<Rightarrow>
                (if x = 0xE0 then 0xA0 \<le> unat c1 \<and> unat c1 \<le> 0xBF
                 else if x = 0xED then 0x80 \<le> unat c1 \<and> unat c1 \<le> 0x9F
                 else continuation c1) \<and> continuation c2 \<and> utf8_valid r
            | _ \<Rightarrow> False)
         else if 0xF0 \<le> x \<and> x \<le> 0xF4 then
           (case bs of
              c1 # c2 # c3 # r \<Rightarrow>
                (if x = 0xF0 then 0x90 \<le> unat c1 \<and> unat c1 \<le> 0xBF
                 else if x = 0xF4 then 0x80 \<le> unat c1 \<and> unat c1 \<le> 0x8F
                 else continuation c1) \<and> continuation c2 \<and> continuation c3 \<and> utf8_valid r
            | _ \<Rightarrow> False)
         else False)"

text \<open>The guard truncates the string to its old length unless all of the new bytes are valid.\<close>

definition append_to_string :: "byte list \<Rightarrow>
    (byte list \<Rightarrow> ((error_kind, nat option) outcome \<times> byte list \<times> 's) option) \<Rightarrow>
    ((error_kind, nat option) outcome \<times> byte list \<times> 's) option" where
  "append_to_string buf read =
     map_option (\<lambda>(r, vec, s).
         (case r of
            Ok (Some n) \<Rightarrow>
              if utf8_valid (drop (length buf) vec) then (Ok (Some n), vec, s)
              else (Err InvalidData, take (length buf) vec, s)
          | Ok None \<Rightarrow> (Ok None, take (length buf) vec, s)
          | Err e \<Rightarrow> (Err e, take (length buf) vec, s)
          | Panic \<Rightarrow> (Panic, take (length buf) vec, s)))
       (read buf)"

definition strip_line_ending :: "byte list \<Rightarrow> byte list" where
  "strip_line_ending s =
     (if s \<noteq> [] \<and> last s = 10 then
        (let s1 = butlast s in if s1 \<noteq> [] \<and> last s1 = 13 then butlast s1 else s1)
      else s)"

definition read_line :: "(byte \<Rightarrow> byte list \<Rightarrow> nat option) \<Rightarrow> 's reader \<Rightarrow> nat \<Rightarrow> 's buf_reader \<Rightarrow> byte list \<Rightarrow>
    ((error_kind, nat option) outcome \<times> byte list \<times> 's buf_reader) option" where
  "read_line memchr rd k b buf =
     map_option (\<lambda>(r, s, b1). (r, if r = Panic then s else strip_line_ending s, b1))
       (append_to_string buf (read_until memchr rd k 10 b))"

text \<open>\<open>Lines::next\<close>: no item at the end of the stream.\<close>

definition lines_next :: "(byte \<Rightarrow> byte list \<Rightarrow> nat option) \<Rightarrow> 's reader \<Rightarrow> nat \<Rightarrow> 's buf_reader \<Rightarrow>
    ((error_kind, byte list) outcome option \<times> 's buf_reader) option" where
  "lines_next memchr rd k b =
     map_option (\<lambda>(r, line, b1).
         (case r of
            Ok None \<Rightarrow> None
          | Ok (Some n) \<Rightarrow> Some (Ok line)
          | Err e \<Rightarrow> Some (Err e)
          | Panic \<Rightarrow> Some Panic, b1))
       (read_line memchr rd k b [])"

section \<open>What \<open>read_until\<close> returns\<close>

text \<open>\<open>taken\<close> is what the call took off the stream; on every outcome it is what was appended to the vector.\<close>

definition until_post :: "byte \<Rightarrow> nat \<Rightarrow> byte list \<Rightarrow> byte list \<Rightarrow> byte list \<Rightarrow> (error_kind, nat option) outcome \<Rightarrow> bool" where
  "until_post byte start_len before taken left r \<longleftrightarrow>
     byte \<notin> set (butlast taken) \<and>
     (case r of
        Ok (Some n) \<Rightarrow> n = length before + length taken - start_len \<and>
          (taken \<noteq> [] \<and> last taken = byte \<or> left = [] \<and> byte \<notin> set taken \<and> length before + length taken \<noteq> start_len)
      | Ok None \<Rightarrow> left = [] \<and> byte \<notin> set taken \<and> length before + length taken = start_len
      | Err e \<Rightarrow> byte \<notin> set taken
      | Panic \<Rightarrow> False)"

context byte_stream begin

lemma read_until_loop_spec:
  assumes "finds_first memchr" "br_ok ok b" "0 < br_capacity b" "length (rest (br_reader b)) < k"
    "start_len \<le> length buf"
  shows "\<exists>r taken b1. read_until_loop memchr rd k byte start_len b buf = Some (r, buf @ taken, b1) \<and> br_ok ok b1 \<and>
    br_rest rest b = taken @ br_rest rest b1 \<and> until_post byte start_len buf taken (br_rest rest b1) r"
  using assms(2-)
proof (induction k arbitrary: b buf)
  case (Suc k)
  let ?av = "br_buffer b"
  have fm: "case memchr byte ?av of Some i \<Rightarrow> i < length ?av \<and> ?av ! i = byte \<and> byte \<notin> set (take i ?av)
      | None \<Rightarrow> byte \<notin> set ?av"
    using assms(1) unfolding finds_first_def by blast
  have adv: "br_ok ok (b\<lparr>br_start := br_start b + n\<rparr>)" "br_buffer (b\<lparr>br_start := br_start b + n\<rparr>) = drop n ?av"
    if "n \<le> length ?av" for n
    using that Suc.prems(1) by (auto simp: br_ok_def br_buffer_def slice_def drop_take add.commute split: if_splits)
  show ?case
  proof (cases "memchr byte ?av")
    case (Some i)
    with fm have i: "i < length ?av" "?av ! i = byte" "byte \<notin> set (take i ?av)" by auto
    let ?b = "b\<lparr>br_start := br_start b + Suc i\<rparr>"
    have t: "take (Suc i) ?av = take i ?av @ [byte]" using i by (simp add: take_Suc_conv_app_nth)
    have run: "read_until_loop memchr rd (Suc k) byte start_len b buf =
        Some (Ok (Some (length (buf @ take (Suc i) ?av) - start_len)), buf @ take (Suc i) ?av, ?b)"
      using Some i by (simp add: br_consume_def)
    have post: "until_post byte start_len buf (take (Suc i) ?av) (br_rest rest ?b)
        (Ok (Some (length (buf @ take (Suc i) ?av) - start_len)))"
      unfolding t using i by (simp add: until_post_def)
    have "br_ok ok ?b" "br_rest rest b = take (Suc i) ?av @ br_rest rest ?b"
      using i adv[of "Suc i"] by (auto simp: br_rest_def)
    with run post show ?thesis by (intro exI conjI)
  next
    case None
    with fm have n: "byte \<notin> set ?av" by simp
    let ?b = "b\<lparr>br_start := br_start b + length ?av\<rparr>" and ?buf = "buf @ ?av"
    have b: "br_ok ok ?b" "br_buffer ?b = []" using adv[of "length ?av"] by auto
    have cap: "br_capacity ?b = br_capacity b" by (simp add: br_capacity_def)
    have fe: "fill rd ?b = fill_amount rd (br_capacity b) ?b" by (simp add: fill_def cap)
    obtain r b2 where f: "fill rd ?b = (r, b2)" "br_ok ok b2" "br_capacity b2 = br_capacity b" "r \<noteq> Panic"
      "br_rest rest b2 = br_rest rest ?b" and
      c: "case r of
       Ok m \<Rightarrow> br_buffer b2 = br_buffer ?b @ take m (rest (br_reader ?b)) \<and> m \<le> length (rest (br_reader ?b)) \<and>
         (m \<noteq> 0 \<longrightarrow> length (br_buffer b2) \<le> br_capacity b) \<and>
         (m = 0 \<longrightarrow> length (br_buffer ?b) < br_capacity b \<longrightarrow> rest (br_reader ?b) = [])
     | _ \<Rightarrow> br_buffer b2 = br_buffer ?b"
      using fill_amount_spec[OF b(1) eq_refl[OF cap[symmetric]]] unfolding fe[symmetric] cap
      by (elim exE conjE) (rule that)
    have rb: "br_rest rest b = ?av @ br_rest rest b2" using f(5) b(2) by (simp add: br_rest_def)
    show ?thesis
    proof (cases r)
      case (Ok m)
      show ?thesis
      proof (cases "m = 0")
        case True
        then have e: "br_rest rest b2 = []" using c Ok b Suc.prems(2) f(5) cap by (simp add: br_rest_def)
        have run: "read_until_loop memchr rd (Suc k) byte start_len b buf = Some (Ok (if length ?buf = start_len then None
            else Some (length ?buf - start_len)), ?buf, b2)"
          using None f Ok True by (simp add: br_consume_def Let_def)
        have "until_post byte start_len buf ?av (br_rest rest b2) (Ok (if length ?buf = start_len then None
            else Some (length ?buf - start_len)))"
          using n e in_set_butlastD[of byte ?av] by (auto simp: until_post_def)
        with run f(2) rb show ?thesis by (intro exI conjI)
      next
        case False
        have "take m (rest (br_reader b)) @ rest (br_reader b2) = take m (rest (br_reader b)) @ drop m (rest (br_reader b))"
          using c Ok b f(5) by (simp add: br_rest_def)
        then have l: "rest (br_reader b2) = drop m (rest (br_reader b))" by (simp only: same_append_eq)
        have "m \<le> length (rest (br_reader b))" using c Ok by simp
        then have "length (rest (br_reader b2)) < k" unfolding l using False Suc.prems(3) by simp
        moreover have "0 < br_capacity b2" "start_len \<le> length ?buf" using Suc.prems f(3) by simp_all
        ultimately obtain r3 taken b3 where ih:
          "read_until_loop memchr rd k byte start_len b2 ?buf = Some (r3, ?buf @ taken, b3)" "br_ok ok b3"
          "br_rest rest b2 = taken @ br_rest rest b3" "until_post byte start_len ?buf taken (br_rest rest b3) r3"
          using Suc.IH[OF f(2)] by blast
        have run: "read_until_loop memchr rd (Suc k) byte start_len b buf = Some (r3, buf @ ?av @ taken, b3)"
          using None f Ok False ih(1) by (simp add: br_consume_def)
        have "until_post byte start_len buf (?av @ taken) (br_rest rest b3) r3"
          using ih(4) n in_set_butlastD[of byte ?av]
          by (cases r3) (auto simp: until_post_def butlast_append add.assoc split: option.splits)
        with run ih rb show ?thesis
          by (intro exI[of _ r3] exI[of _ "?av @ taken"] exI[of _ b3]) simp
      qed
    next
      case (Err e)
      have run: "read_until_loop memchr rd (Suc k) byte start_len b buf = Some (Err e, ?buf, b2)"
        using None f Err by (simp add: br_consume_def)
      have "until_post byte start_len buf ?av (br_rest rest b2) (Err e)"
        using n in_set_butlastD[of byte ?av] by (auto simp: until_post_def)
      with run f(2) rb show ?thesis by (intro exI conjI)
    qed (use f in simp)
  qed
qed simp

end

section \<open>Properties\<close>

text \<open>C9: over a well-behaved reader, \<open>BufReader\<close> is itself a well-behaved reader of the buffered bytes followed by
  what the inner reader still holds: reads lose, duplicate and reorder nothing, report the end only at the
  end, keep the buffered range inside the data, and change nothing on an error.\<close>

theorem buffered_reader_is_a_reader:
  assumes "byte_stream rd rest ok"
  shows "byte_stream (br_read rd) (br_rest rest) (br_ok ok)"
  by (rule byte_stream.buffered_stream[OF assms])

theorem buffered_reader_is_a_reader_witness:
  "byte_stream (br_read seq_read) (br_rest seq_rest) (br_ok seq_ok)"
  by (rule buffered_reader_is_a_reader[OF seq.byte_stream_axioms])

text \<open>\<open>fill_amount\<close> appends to the buffered bytes exactly as many bytes of the inner reader as it returns, never
  beyond the requested amount, drops none of the unconsumed ones even when it moves them, returns 0 only when
  enough is buffered or the inner reader is at its end, and changes nothing on an error.\<close>

theorem fill_amount_appends:
  assumes "byte_stream rd rest ok" "br_ok ok b" "amount \<le> br_capacity b"
  shows "\<exists>r b1. fill_amount rd amount b = (r, b1) \<and> br_ok ok b1 \<and> br_capacity b1 = br_capacity b \<and> r \<noteq> Panic \<and>
    br_rest rest b1 = br_rest rest b \<and>
    (case r of
       Ok n \<Rightarrow> br_buffer b1 = br_buffer b @ take n (rest (br_reader b)) \<and> n \<le> length (rest (br_reader b)) \<and>
         (n \<noteq> 0 \<longrightarrow> length (br_buffer b1) \<le> amount) \<and>
         (n = 0 \<longrightarrow> length (br_buffer b) < amount \<longrightarrow> rest (br_reader b) = [])
     | _ \<Rightarrow> br_buffer b1 = br_buffer b)"
  by (rule byte_stream.fill_amount_spec[OF assms])

definition sample_reader :: "(nat \<times> nat) buf_reader" where
  "sample_reader = \<lparr>br_data = [0, 1, 2, 3], br_start = 2, br_end = 4, br_reader = (4, 100)\<rparr>"

lemma buffered_stream_of_seq: "byte_stream (br_read seq_read) (br_rest seq_rest) (br_ok seq_ok)"
  by (rule seq.buffered_stream)

lemma sample_reader_ok: "br_ok seq_ok sample_reader" "br_capacity sample_reader = 4"
  by (simp_all add: sample_reader_def br_ok_def seq_ok_def br_capacity_def)

theorem fill_amount_appends_witness:
  "\<exists>b1. fill_amount seq_read 4 sample_reader = (Ok 2, b1) \<and> br_buffer b1 = [2, 3, 4, 5]"
proof -
  have f: "fill_amount seq_read 4 sample_reader =
      (Ok 2, \<lparr>br_data = [2, 3, 4, 5], br_start = 0, br_end = 4, br_reader = (6, 100)\<rparr>)"
    by code_simp
  have "4 \<le> br_capacity sample_reader" by (simp add: sample_reader_ok)
  from fill_amount_appends[OF seq.byte_stream_axioms sample_reader_ok(1) this] f
  have "br_buffer \<lparr>br_data = [2, 3, 4, 5], br_start = 0, br_end = 4, br_reader = (6 :: nat, 100 :: nat)\<rparr> =
      br_buffer sample_reader @ take 2 (seq_rest (br_reader sample_reader))" by auto
  also have "\<dots> = [2, 3, 4, 5]" by code_simp
  finally show ?thesis using f by blast
qed

text \<open>\<open>read_until\<close> terminates, and on every outcome, an error included, appends to the vector exactly what it takes
  off the stream; that is the bytes up to the first delimiter, or all of them when the stream has none;
  \<open>None\<close> means that the stream was at its end.\<close>

theorem read_until_takes_one_record:
  assumes "byte_stream rd rest ok" "finds_first memchr" "br_ok ok b" "0 < br_capacity b"
  shows "\<exists>r taken b1. read_until memchr rd (Suc (length (rest (br_reader b)))) byte b buf = Some (r, buf @ taken, b1) \<and>
    br_ok ok b1 \<and> br_rest rest b = taken @ br_rest rest b1 \<and>
    until_post byte (length buf) buf taken (br_rest rest b1) r"
  unfolding read_until_def
  by (rule byte_stream.read_until_loop_spec[OF assms]) simp_all

fun first_index :: "byte \<Rightarrow> byte list \<Rightarrow> nat option" where
  "first_index b [] = None"
| "first_index b (x # xs) = (if x = b then Some 0 else map_option Suc (first_index b xs))"

lemma first_index_finds: "finds_first first_index"
proof -
  have "case first_index b xs of Some i \<Rightarrow> i < length xs \<and> xs ! i = b \<and> b \<notin> set (take i xs) | None \<Rightarrow> b \<notin> set xs"
    for b xs by (induction xs) (auto split: option.splits)
  then show ?thesis unfolding finds_first_def by blast
qed

theorem read_until_takes_one_record_witness:
  "\<exists>r taken b1. read_until first_index seq_read 97 5 sample_reader [] = Some (r, taken, b1) \<and>
    taken @ br_rest seq_rest b1 = map of_nat [2..<100]"
proof -
  have c: "0 < br_capacity sample_reader" by (simp add: sample_reader_ok)
  have l: "length (seq_rest (br_reader sample_reader)) = 96" by (simp add: sample_reader_def seq_rest_def)
  have r: "br_rest seq_rest sample_reader = map of_nat [2..<100]" by code_simp
  show ?thesis
    using read_until_takes_one_record[OF seq.byte_stream_axioms first_index_finds sample_reader_ok(1) c, of 5 "[]"]
    unfolding l r by (metis append_Nil Suc_numeral semiring_norm(5) semiring_norm(8))
qed

text \<open>\<open>read_line\<close> at the end of the stream returns \<open>None\<close>, and still strips a line ending that was in the string
  before the call.\<close>

theorem read_line_strips_an_old_line_ending:
  assumes "finds_first memchr" "br_buffer b = []" "fill rd b = (Ok 0, b1)"
  shows "read_line memchr rd 1 b (s @ [10]) =
    Some (Ok None, if s \<noteq> [] \<and> last s = 13 then butlast s else s, b1)"
proof -
  have "case memchr 10 [] of Some i \<Rightarrow> i < length ([] :: byte list) | None \<Rightarrow> True"
    using assms(1)[unfolded finds_first_def, rule_format, of 10 "[]"] by (simp split: option.splits)
  then have "memchr 10 [] = None" by (simp split: option.splits)
  moreover have "br_consume 0 b = Ok b" by (simp add: br_consume_def)
  ultimately have "read_until memchr rd 1 10 b (s @ [10]) = Some (Ok None, s @ [10], b1)"
    using assms(2,3) by (simp add: read_until_def)
  then show ?thesis by (simp add: read_line_def append_to_string_def strip_line_ending_def Let_def)
qed

theorem read_line_strips_an_old_line_ending_witness:
  "map_option (\<lambda>(r, s, b1). (r, s)) (read_line first_index seq_read 1
      \<lparr>br_data = [0, 0], br_start = 0, br_end = 0, br_reader = (7, 7)\<rparr> [97, 10]) = Some (Ok None, [97])"
proof -
  let ?b = "\<lparr>br_data = [0, 0], br_start = 0, br_end = 0, br_reader = (7 :: nat, 7 :: nat)\<rparr>"
  have "br_buffer ?b = []" "fill seq_read ?b = (Ok 0, ?b)" by code_simp+
  from read_line_strips_an_old_line_ending[OF first_index_finds this, of "[97]"] show ?thesis by simp
qed

text \<open>\<open>from_parts\<close> after \<open>into_parts\<close> gives back a reader at the same position with the same unread bytes.\<close>

theorem parts_round_trip:
  assumes "br_ok ok b" "br_into_parts b = (reader, buf, pos)"
  shows "\<exists>b1. br_from_parts reader buf cap pos = Ok b1 \<and> br_ok ok b1 \<and> br_buffer b1 = br_buffer b \<and>
    br_rest rest b1 = br_rest rest b \<and> br_start b1 = br_start b"
  using assms by (auto simp: br_into_parts_def br_from_parts_def br_ok_def br_rest_def br_buffer_def slice_alt)

theorem parts_round_trip_witness:
  "\<exists>b1. br_from_parts (4 :: nat, 100 :: nat) [0, 1, 2, 3] 8 2 = Ok b1 \<and> br_buffer b1 = [2, 3]"
proof -
  have p: "br_into_parts sample_reader = ((4, 100), [0, 1, 2, 3], 2)" by code_simp
  have "br_buffer sample_reader = [2, 3]" by code_simp
  with parts_round_trip[OF sample_reader_ok(1) p, of 8] show ?thesis by auto
qed

section \<open>Seeking\<close>

text \<open>The buffer agrees with the stream it was read from: it holds the bytes just before the inner position.\<close>

definition coherent :: "(nat \<times> nat) buf_reader \<Rightarrow> bool" where
  "coherent b \<longleftrightarrow> br_ok seq_ok b \<and> br_end b \<le> fst (br_reader b) \<and>
     take (br_end b) (br_data b) = map of_nat [fst (br_reader b) - br_end b..<fst (br_reader b)]"

definition br_pos :: "(nat \<times> nat) buf_reader \<Rightarrow> nat" where
  "br_pos b = fst (br_reader b) - (br_end b - br_start b)"

lemma coherent_rest:
  assumes "coherent b"
  shows "br_rest seq_rest b = map of_nat [br_pos b..<snd (br_reader b)]"
proof -
  let ?p = "fst (br_reader b)"
  have c: "br_start b \<le> br_end b" "br_end b \<le> ?p" "?p \<le> snd (br_reader b)"
    "take (br_end b) (br_data b) = map of_nat [?p - br_end b..<?p]"
    using assms by (auto simp: coherent_def br_ok_def seq_ok_def)
  have "br_buffer b = map of_nat [br_pos b..<?p]"
    unfolding br_buffer_def slice_alt c(4) using c(1,2) by (simp add: drop_map br_pos_def)
  moreover have "[br_pos b..<snd (br_reader b)] = [br_pos b..<?p] @ [?p..<snd (br_reader b)]"
    using c upt_add_eq_append[of "br_pos b" ?p "snd (br_reader b) - ?p"] by (simp add: br_pos_def)
  ultimately show ?thesis by (simp add: br_rest_def seq_rest_def)
qed

lemma coherent_start: "p \<le> e \<Longrightarrow> coherent \<lparr>br_data = data, br_start = 0, br_end = 0, br_reader = (p, e)\<rparr>"
  by (simp add: coherent_def br_ok_def seq_ok_def)

text \<open>Reads smaller than the capacity keep the agreement.\<close>

lemma coherent_read:
  assumes "coherent b" "length buf < br_capacity b" "br_read seq_read b buf = (r, buf1, b1)"
  shows "coherent b1"
proof (cases "br_buffer b = []")
  case False
  then show ?thesis using assms
    by (auto simp: br_read_def br_read_into_def read_into_slice_def coherent_def br_ok_def br_buffer_def slice_def Let_def)
next
  case True
  obtain p e where r: "br_reader b = (p, e)" by fastforce
  let ?m = "min (length (br_data b)) (e - p)"
  let ?d = "map of_nat [p..<p + ?m] @ drop ?m (br_data b)"
  have t: "take ?m ?d = map of_nat [p..<p + ?m]" by simp
  have f: "fill_buf seq_read b = (Ok ?m, if ?m = 0 then b\<lparr>br_data := ?d, br_reader := (p, e)\<rparr>
      else b\<lparr>br_data := ?d, br_reader := (p + ?m, e), br_end := ?m, br_start := 0\<rparr>)"
    using r by (auto simp: fill_buf_def fill_buf_range_def seq_read_def slice_def length_check_def Let_def min_def
        split: if_splits)
  have c: "p \<le> e" using assms(1) r by (simp add: coherent_def br_ok_def seq_ok_def)
  show ?thesis
  proof (cases "?m = 0")
    case z: True
    then have "b1 = b\<lparr>br_data := ?d, br_reader := (p, e)\<rparr>" using f assms(2,3) True by (auto simp: br_read_def read_cold_def)
    then show ?thesis using z assms(1) r by (auto simp: coherent_def br_ok_def min_def split: if_splits)
  next
    case nz: False
    let ?b = "b\<lparr>br_data := ?d, br_reader := (p + ?m, e), br_end := ?m, br_start := 0\<rparr>"
    obtain n buf2 b2 where i: "br_read_into ?b buf = (n, buf2, b2)" by (metis prod_cases3)
    have "b1 = b2" using f nz assms(2,3) True i by (auto simp: br_read_def read_cold_def)
    then have "b1 = ?b\<lparr>br_start := n\<rparr>" "n \<le> ?m"
      using i t by (auto simp: br_read_into_def read_into_slice_def br_buffer_def Let_def slice_def)
    then show ?thesis using c t by (simp add: coherent_def br_ok_def seq_ok_def)
  qed
qed

lemma coherent_discard:
  "q \<le> e \<Longrightarrow> coherent (br_discard (b\<lparr>br_reader := (q, e)\<rparr>)) \<and> br_pos (br_discard (b\<lparr>br_reader := (q, e)\<rparr>)) = q"
  by (simp add: coherent_def br_discard_def br_ok_def seq_ok_def br_pos_def)

lemma seq_seek_ok: "0 \<le> q \<Longrightarrow> q \<le> int e \<Longrightarrow>
    (case f of SeekStart n \<Rightarrow> int n | SeekCurrent d \<Rightarrow> int p + d | SeekEnd d \<Rightarrow> int e + d) = q \<Longrightarrow>
    seq_seek (p, e) f = (Ok (nat q), (nat q, e))"
  by (simp add: seq_seek_def)

definition seek_target :: "(nat \<times> nat) buf_reader \<Rightarrow> seek_from \<Rightarrow> int" where
  "seek_target b f =
     (case f of SeekStart n \<Rightarrow> int n | SeekCurrent d \<Rightarrow> int (br_pos b) + d | SeekEnd d \<Rightarrow> int (snd (br_reader b)) + d)"

lemma seek_inner_target:
  assumes "coherent b" "0 \<le> seek_target b f" "seek_target b f \<le> int (snd (br_reader b))"
  shows "br_seek_inner seq_impl f b =
    (Ok (nat (seek_target b f)), br_discard (b\<lparr>br_reader := (nat (seek_target b f), snd (br_reader b))\<rparr>))"
proof -
  obtain p e where r: "br_reader b = (p, e)" by fastforce
  have c: "br_start b \<le> br_end b" "br_end b \<le> p" "p \<le> e" "length (br_buffer b) = br_end b - br_start b"
    using assms(1) r br_buffer_length by (auto simp: coherent_def br_ok_def seq_ok_def)
  let ?t = "seek_target b f"
  have t: "0 \<le> ?t" "?t \<le> int e" using assms(2,3) r by simp_all
  show ?thesis
  proof (cases f)
    case (SeekStart n)
    then show ?thesis using t r seq_seek_ok[OF t, where f = f and p = p]
      by (simp add: br_seek_inner_def seq_impl_def seek_target_def)
  next
    case (SeekEnd d)
    then show ?thesis using t r seq_seek_ok[OF t, where f = f and p = p]
      by (simp add: br_seek_inner_def seq_impl_def seek_target_def)
  next
    case (SeekCurrent d)
    have pos: "int (br_pos b) = int p - int (br_end b - br_start b)" using c r by (simp add: br_pos_def of_nat_diff)
    have t1: "seq_seek (p, e) (SeekCurrent (d - int (br_end b - br_start b))) = (Ok (nat ?t), (nat ?t, e))"
      using pos SeekCurrent by (intro seq_seek_ok[OF t]) (simp add: seek_target_def)
    have m: "seq_seek (p, e) (SeekCurrent (- int (br_end b - br_start b))) =
        (Ok (nat (int (br_pos b))), (nat (int (br_pos b)), e))"
      using pos c r by (intro seq_seek_ok) (auto simp: br_pos_def)
    have t2: "seq_seek (br_pos b, e) (SeekCurrent d) = (Ok (nat ?t), (nat ?t, e))"
      using SeekCurrent by (intro seq_seek_ok[OF t]) (simp add: seek_target_def)
    show ?thesis using SeekCurrent r c(4) t1 t2 m
      by (simp add: br_seek_inner_def seq_impl_def Let_def)
  qed
qed

text \<open>Over a stream whose bytes are known, seeking lands where asked for every form of seek, within the buffer or
  outside it: the position returned is the target and the bytes read next are those at the target.\<close>

theorem seek_lands_on_its_target:
  assumes "coherent b" "0 \<le> seek_target b f" "seek_target b f \<le> int (snd (br_reader b))"
  shows "\<exists>b1. br_seek seq_impl f b = (Ok (nat (seek_target b f)), b1) \<and> coherent b1 \<and>
    br_rest seq_rest b1 = map of_nat [nat (seek_target b f)..<snd (br_reader b)]"
proof -
  obtain p e where r: "br_reader b = (p, e)" by fastforce
  have c: "br_start b \<le> br_end b" "br_end b \<le> p" "p \<le> e" "br_end b \<le> length (br_data b)"
    "take (br_end b) (br_data b) = map of_nat [p - br_end b..<p]"
    using assms(1) r by (auto simp: coherent_def br_ok_def seq_ok_def)
  let ?t = "seek_target b f"
  let ?d = "br_discard (b\<lparr>br_reader := (nat ?t, snd (br_reader b))\<rparr>)"
  have d: "coherent ?d" "br_pos ?d = nat ?t" using coherent_discard[of "nat ?t" e b] assms(2,3) r by auto
  have i: "br_seek_inner seq_impl f b = (Ok (nat ?t), ?d)" by (rule seek_inner_target[OF assms])
  have inner: ?thesis if "br_seek seq_impl f b = br_seek_inner seq_impl f b"
    using that i d coherent_rest[OF d(1)] by (simp add: br_discard_def)
  show ?thesis
  proof (cases f)
    case (SeekCurrent rel)
    let ?q = "rel + int (br_start b)"
    show ?thesis
    proof (cases "?q \<le> I64_MAX \<and> 0 \<le> ?q \<and> ?q \<le> int (br_end b)")
      case False
      then show ?thesis by (intro inner) (auto simp: SeekCurrent br_seek_def br_seek_relative_def Let_def)
    next
      case True
      let ?b = "b\<lparr>br_start := nat ?q\<rparr>"
      have q: "nat ?q \<le> br_end b" using True by linarith
      then have b: "coherent ?b" using c r by (simp add: coherent_def br_ok_def seq_ok_def)
      have l: "length (br_buffer ?b) = br_end b - nat ?q" using q c by (simp add: br_buffer_def)
      have "int (br_pos ?b) = int p - (int (br_end b) - ?q)" "int (br_pos b) = int p - (int (br_end b) - int (br_start b))"
        using q c r True by (simp_all add: br_pos_def of_nat_diff)
      then have p: "br_pos ?b = nat ?t" using SeekCurrent by (simp add: seek_target_def)
      have "br_stream_position seq_impl ?b = (Ok (p - (br_end b - nat ?q)), ?b)"
        using l r c by (simp add: br_stream_position_def seq_impl_def default_stream_position_def seq_seek_def)
      then have "br_seek seq_impl f b = (Ok (nat ?t), ?b)"
        using True p r SeekCurrent by (simp add: br_seek_def br_seek_relative_def Let_def br_pos_def)
      then show ?thesis using b coherent_rest[OF b] p by simp
    qed
  qed (intro inner, simp add: br_seek_def seq_impl_def)+
qed

theorem seek_lands_on_its_target_witness:
  "\<exists>b1. br_seek seq_impl (SeekCurrent (- 1)) sample_reader = (Ok 1, b1) \<and> br_rest seq_rest b1 = map of_nat [1..<100]"
proof -
  have c: "coherent sample_reader" by (simp add: sample_reader_def coherent_def br_ok_def seq_ok_def upt_rec)
  have t: "seek_target sample_reader (SeekCurrent (- 1)) = 1" "snd (br_reader sample_reader) = 100"
    by (simp_all add: sample_reader_def seek_target_def br_pos_def)
  from seek_lands_on_its_target[OF c, of "SeekCurrent (- 1)", unfolded t] show ?thesis by auto
qed

text \<open>A read as large as the capacity goes to the inner reader and leaves the old bytes and the old range in the
  buffer, so a relative seek back is answered from them: after reading bytes 0 to 3 through a buffer of 4 and
  4 to 11 past it, seeking back by one reports position 11 and then reads byte 3.\<close>

theorem seek_back_after_direct_read_is_stale:
  "(let b0 = \<lparr>br_data = [0, 0, 0, 0], br_start = 0, br_end = 0, br_reader = (0, 100)\<rparr>;
        (r1, _, b1) = br_read seq_read b0 [0, 0];
        (r2, _, b2) = br_read seq_read b1 [0, 0];
        (r3, _, b3) = br_read seq_read b2 (replicate 8 0);
        (r4, b4) = br_seek seq_impl (SeekCurrent (- 1)) b3;
        (r5, got, b5) = br_read seq_read b4 [0]
    in (r1, r2, r3, r4, r5, got)) = (Ok 2, Ok 2, Ok 8, Ok 11, Ok 1, [3])"
  by code_simp

text \<open>When the inner seek fails, the unread bytes of the buffer are dropped, and the next read goes on
  behind them.\<close>

theorem failed_seek_drops_the_buffer:
  assumes "sk_seek sk (br_reader b) (SeekStart n) = (Err e, br_reader b)" "\<not> sk_pos_fast sk"
  shows "\<exists>b1. br_seek sk (SeekStart n) b = (Err e, b1) \<and> br_rest rest b1 = rest (br_reader b)"
  using assms by (auto simp: br_seek_def br_seek_inner_def br_discard_def br_rest_def br_buffer_def)

theorem failed_seek_drops_the_buffer_witness:
  "\<exists>b1. br_seek (seq_impl\<lparr>sk_seek := \<lambda>s f. (Err NotSeekable, s)\<rparr>) (SeekStart 0) sample_reader = (Err NotSeekable, b1) \<and>
    br_rest seq_rest b1 = seq_rest (4, 100)"
  using failed_seek_drops_the_buffer[of "seq_impl\<lparr>sk_seek := \<lambda>s f. (Err NotSeekable, s)\<rparr>" sample_reader 0 NotSeekable seq_rest]
  by (simp add: seq_impl_def sample_reader_def)

end
