(* ===== verification/Buf_Writer.thy ===== *)
theory Buf_Writer
  imports Buf_Read
begin

text \<open>
  \<open>BufWriter\<close> (\<open>src/src/async_std/io/buf_writer.rs\<close>). \<open>buffered\<close> is the range \<open>bw_start..bw_end\<close> of \<open>data\<close> that
  is not flushed yet. The inner writer, its \<open>flush\<close> and its \<open>Seek\<close> implementation are parameters. Over a
  well-behaved writer the buffered writer is itself a well-behaved writer, of what the inner writer accepted
  followed by the buffered bytes.
\<close>

record 's buf_writer =
  bw_data :: "byte list"
  bw_start :: nat
  bw_end :: nat
  bw_writer :: 's

type_synonym 's flusher = "'s \<Rightarrow> (error_kind, unit) outcome \<times> 's"

section \<open>Construction and the buffer\<close>

definition bw_from_parts :: "'s \<Rightarrow> byte list \<Rightarrow> nat \<Rightarrow> nat \<Rightarrow> (unit, 's buf_writer) outcome" where
  "bw_from_parts writer buf cap pos =
     (if pos \<le> length buf
      then Ok \<lparr>bw_data = buf @ replicate (cap - length buf) 0, bw_start = pos, bw_end = length buf, bw_writer = writer\<rparr>
      else Panic)"

definition bw_with_capacity :: "'s \<Rightarrow> nat \<Rightarrow> (unit, 's buf_writer) outcome" where
  "bw_with_capacity writer cap = bw_from_parts writer [] cap 0"

definition bw_into_parts :: "'s buf_writer \<Rightarrow> 's \<times> byte list \<times> nat" where
  "bw_into_parts b = (bw_writer b, take (bw_end b) (bw_data b), bw_start b)"

definition bw_buffer :: "'s buf_writer \<Rightarrow> byte list" where
  "bw_buffer b = slice (bw_start b) (bw_end b) (bw_data b)"

definition bw_discard :: "'s buf_writer \<Rightarrow> 's buf_writer" where
  "bw_discard b = b\<lparr>bw_start := 0, bw_end := 0\<rparr>"

definition bw_spare_capacity :: "'s buf_writer \<Rightarrow> nat" where
  "bw_spare_capacity b = length (bw_data b) - bw_end b"

definition write_buffered :: "'s buf_writer \<Rightarrow> byte list \<Rightarrow> nat \<times> 's buf_writer" where
  "write_buffered b buf =
     (let (n, tail) = read_into_slice (drop (bw_end b) (bw_data b)) buf
      in (n, b\<lparr>bw_data := take (bw_end b) (bw_data b) @ tail, bw_end := bw_end b + n\<rparr>))"

section \<open>Flushing and writing\<close>

text \<open>The loop of \<open>flush_buf\<close>: every lap that goes on has advanced the start.\<close>

function flush_loop :: "'s writer \<Rightarrow> 's buf_writer \<Rightarrow> (error_kind, unit) outcome \<times> 's buf_writer" where
  "flush_loop wr b =
     (if bw_start b < bw_end b then
        (case wr (bw_writer b) (bw_buffer b) of
           (Ok wrote, s1) \<Rightarrow>
             (if wrote = 0 then (Err WriteZero, b\<lparr>bw_writer := s1\<rparr>)
              else (case length_check (bw_buffer b) wrote of
                  Ok n \<Rightarrow> flush_loop wr (b\<lparr>bw_writer := s1, bw_start := bw_start b + n\<rparr>)
                | _ \<Rightarrow> (Panic, b\<lparr>bw_writer := s1\<rparr>)))
         | (Err e, s1) \<Rightarrow> (Err e, b\<lparr>bw_writer := s1\<rparr>)
         | (Panic, s1) \<Rightarrow> (Panic, b\<lparr>bw_writer := s1\<rparr>))
      else (Ok (), b))"
  by pat_completeness auto
termination
  by (relation "measure (\<lambda>(wr, b). bw_end b - bw_start b)") (auto simp: length_check_def split: if_splits)

declare flush_loop.simps [simp del]

definition flush_buf :: "'s writer \<Rightarrow> 's buf_writer \<Rightarrow> (error_kind, unit) outcome \<times> 's buf_writer" where
  "flush_buf wr b =
     (case flush_loop wr b of
        (Ok _, b1) \<Rightarrow> (Ok (), bw_discard b1)
      | r \<Rightarrow> r)"

definition bw_write :: "'s writer \<Rightarrow> 's buf_writer writer" where
  "bw_write wr b buf =
     (if 0 < bw_spare_capacity b then (let (n, b1) = write_buffered b buf in (Ok n, b1))
      else
        (case flush_buf wr b of
           (Ok _, b1) \<Rightarrow>
             (if length (bw_data b1) \<le> length buf then
                (let (r, s1) = wr (bw_writer b1) buf in (r, b1\<lparr>bw_writer := s1\<rparr>))
              else (let (n, b2) = write_buffered b1 buf in (Ok n, b2)))
         | (Err e, b1) \<Rightarrow> (Err e, b1)
         | (Panic, b1) \<Rightarrow> (Panic, b1)))"

definition bw_flush :: "'s writer \<Rightarrow> 's flusher \<Rightarrow> 's buf_writer flusher" where
  "bw_flush wr fl b =
     (case flush_buf wr b of
        (Ok _, b1) \<Rightarrow> (let (r, s1) = fl (bw_writer b1) in (r, b1\<lparr>bw_writer := s1\<rparr>))
      | r \<Rightarrow> r)"

section \<open>Piping\<close>

definition pipe_from_once :: "'s writer \<Rightarrow> 's flusher \<Rightarrow> 'r reader \<Rightarrow> 'r \<Rightarrow> 's buf_writer \<Rightarrow>
    (error_kind, nat) outcome \<times> 'r \<times> 's buf_writer" where
  "pipe_from_once wr fl rd reader b =
     (let (f, b0) = (if bw_spare_capacity b = 0 then bw_flush wr fl b else (Ok (), b))
      in case f of
           Ok _ \<Rightarrow>
             (let (r, seg, reader1) = rd reader (drop (bw_end b0) (bw_data b0));
                  b1 = b0\<lparr>bw_data := take (bw_end b0) (bw_data b0) @ seg\<rparr>
              in case r of
                   Ok n \<Rightarrow>
                     (case length_check seg n of
                        Ok m \<Rightarrow> (Ok n, reader1, b1\<lparr>bw_end := bw_end b0 + m\<rparr>)
                      | _ \<Rightarrow> (Panic, reader1, b1))
                 | Err e \<Rightarrow> (Err e, reader1, b1)
                 | Panic \<Rightarrow> (Panic, reader1, b1))
         | Err e \<Rightarrow> (Err e, reader, b0)
         | Panic \<Rightarrow> (Panic, reader, b0))"

fun pipe_from :: "'s writer \<Rightarrow> 's flusher \<Rightarrow> 'r reader \<Rightarrow> nat \<Rightarrow> 'r \<Rightarrow> 's buf_writer \<Rightarrow> nat \<Rightarrow>
    ((error_kind, nat) outcome \<times> 'r \<times> 's buf_writer) option" where
  "pipe_from wr fl rd 0 reader b acc = None"
| "pipe_from wr fl rd (Suc k) reader b acc =
     (case pipe_from_once wr fl rd reader b of
        (Ok n, reader1, b1) \<Rightarrow>
          (if n = 0 then Some (Ok acc, reader1, b1) else pipe_from wr fl rd k reader1 b1 (acc + n))
      | (Err e, reader1, b1) \<Rightarrow> Some (if e = Interrupted then Ok acc else Err e, reader1, b1)
      | (Panic, reader1, b1) \<Rightarrow> Some (Panic, reader1, b1))"

section \<open>Seeking\<close>

text \<open>\<open>stream_position\<close> adds the length of \<open>data\<close>, the capacity, as the source does.\<close>

definition bw_stream_position :: "'s seek_impl \<Rightarrow> 's buf_writer \<Rightarrow> (error_kind, nat) outcome \<times> 's buf_writer" where
  "bw_stream_position sk b =
     (let (r, s1) = sk_pos sk (bw_writer b); b1 = b\<lparr>bw_writer := s1\<rparr>; buffered = length (bw_data b)
      in case r of
           Ok pos \<Rightarrow> (if pos + buffered < U64_LIMIT then Ok (pos + buffered) else Panic, b1)
         | Err e \<Rightarrow> (Err e, b1)
         | Panic \<Rightarrow> (Panic, b1))"

definition bw_seek_inner ::
  "'s writer \<Rightarrow> 's seek_impl \<Rightarrow> seek_from \<Rightarrow> 's buf_writer \<Rightarrow> (error_kind, nat) outcome \<times> 's buf_writer" where
  "bw_seek_inner wr sk seek b =
     (case flush_buf wr b of
        (Ok _, b1) \<Rightarrow> (let (r, s1) = sk_seek sk (bw_writer b1) seek in (r, b1\<lparr>bw_writer := s1\<rparr>))
      | (Err e, b1) \<Rightarrow> (Err e, b1)
      | (Panic, b1) \<Rightarrow> (Panic, b1))"

definition bw_seek_relative ::
  "'s writer \<Rightarrow> 's seek_impl \<Rightarrow> int \<Rightarrow> 's buf_writer \<Rightarrow> (error_kind, nat) outcome \<times> 's buf_writer" where
  "bw_seek_relative wr sk rel b =
     (let pos = rel + int (bw_start b)
      in if pos \<le> I64_MAX \<and> int (bw_start b) \<le> pos \<and> pos \<le> int (bw_end b)
         then bw_stream_position sk (b\<lparr>bw_end := nat pos\<rparr>)
         else bw_seek_inner wr sk (SeekCurrent rel) b)"

definition bw_seek_abs ::
  "'s writer \<Rightarrow> 's seek_impl \<Rightarrow> nat \<Rightarrow> seek_from \<Rightarrow> 's buf_writer \<Rightarrow> (error_kind, nat) outcome \<times> 's buf_writer" where
  "bw_seek_abs wr sk pos seek b =
     (case bw_stream_position sk b of
        (Ok stream_pos, b1) \<Rightarrow>
          (case checked_diff_64 pos stream_pos of
             Some rel \<Rightarrow> bw_seek_relative wr sk rel b1
           | None \<Rightarrow> bw_seek_inner wr sk seek b1)
      | r \<Rightarrow> r)"

definition bw_seek ::
  "'s writer \<Rightarrow> 's seek_impl \<Rightarrow> seek_from \<Rightarrow> 's buf_writer \<Rightarrow> (error_kind, nat) outcome \<times> 's buf_writer" where
  "bw_seek wr sk seek b =
     (case seek of
        SeekCurrent pos \<Rightarrow> bw_seek_relative wr sk pos b
      | _ \<Rightarrow>
        (if \<not> sk_pos_fast sk then bw_seek_inner wr sk seek b
         else
           (case seek of
              SeekStart pos \<Rightarrow> bw_seek_abs wr sk pos seek b
            | SeekCurrent pos \<Rightarrow> bw_seek_relative wr sk pos b
            | SeekEnd pos \<Rightarrow>
                (if \<not> sk_len_fast sk then bw_seek_inner wr sk seek b
                 else
                   (let (r, s1) = sk_len sk (bw_writer b); b1 = b\<lparr>bw_writer := s1\<rparr>
                    in case r of
                         Ok len \<Rightarrow>
                           (let new_pos = int len + pos
                            in if 0 \<le> new_pos \<and> nat new_pos < U64_LIMIT then bw_seek_abs wr sk (nat new_pos) seek b1
                               else (Panic, b1))
                       | Err e \<Rightarrow> (Err e, b1)
                       | Panic \<Rightarrow> (Panic, b1))))))"

section \<open>The buffered writer is a writer\<close>

definition bw_written :: "('s \<Rightarrow> byte list) \<Rightarrow> 's buf_writer \<Rightarrow> byte list" where
  "bw_written written b = written (bw_writer b) @ bw_buffer b"

definition bw_ok :: "('s \<Rightarrow> bool) \<Rightarrow> 's buf_writer \<Rightarrow> bool" where
  "bw_ok ok b \<longleftrightarrow> bw_start b \<le> bw_end b \<and> bw_end b \<le> length (bw_data b) \<and> ok (bw_writer b)"

lemma write_buffered_spec:
  assumes "bw_ok ok b" "write_buffered b buf = (n, b1)"
  shows "bw_ok ok b1" "n \<le> length buf" "bw_buffer b1 = bw_buffer b @ take n buf" "bw_writer b1 = bw_writer b"
    "length (bw_data b1) = length (bw_data b)"
proof -
  have o: "bw_start b \<le> bw_end b" "bw_end b \<le> length (bw_data b)" using assms(1) by (auto simp: bw_ok_def)
  let ?t = "drop (bw_end b) (bw_data b)"
  have n: "n = min (length ?t) (length buf)"
    "b1 = b\<lparr>bw_data := take (bw_end b) (bw_data b) @ take n buf @ drop n ?t, bw_end := bw_end b + n\<rparr>"
    using assms(2) by (auto simp: write_buffered_def read_into_slice_def Let_def)
  then show "n \<le> length buf" "bw_writer b1 = bw_writer b" by auto
  show "length (bw_data b1) = length (bw_data b)" using n o by simp
  show "bw_ok ok b1" using n o assms(1) by (auto simp: bw_ok_def)
  have "take (bw_end b + n) (bw_data b1) = take (bw_end b) (bw_data b) @ take n buf"
    using n o by simp
  then show "bw_buffer b1 = bw_buffer b @ take n buf"
    using n o by (simp add: bw_buffer_def slice_alt)
qed

context byte_sink begin

text \<open>Flushing moves bytes from the buffer to the writer, on every outcome; \<open>Ok\<close> is an empty buffer.\<close>

lemma flush_loop_spec:
  assumes "bw_ok ok b" "flush_loop wr b = (r, b1)"
  shows "bw_ok ok b1 \<and> r \<noteq> Panic \<and> bw_written written b1 = bw_written written b \<and> bw_end b1 = bw_end b \<and>
    length (bw_data b1) = length (bw_data b) \<and> (r = Ok () \<longrightarrow> bw_start b1 = bw_end b1)"
  using assms
proof (induction "bw_end b - bw_start b" arbitrary: b rule: less_induct)
  case less
  have run: "flush_loop wr b = (r, b1)" by fact
  show ?case
  proof (cases "bw_start b < bw_end b")
    case False
    then show ?thesis using less(2) run by (auto simp: flush_loop.simps[of _ b] bw_ok_def)
  next
    case True
    have ok: "ok (bw_writer b)" using less(2) by (simp add: bw_ok_def)
    obtain q s1 where w: "wr (bw_writer b) (bw_buffer b) = (q, s1)" by fastforce
    note i = wr_inv[OF ok w]
    show ?thesis
    proof (cases q)
      case (Err e)
      then show ?thesis using run True w i wr_err[OF ok w[unfolded Err]] less(2)
        by (auto simp: flush_loop.simps[of _ b] bw_ok_def bw_written_def bw_buffer_def)
    next
      case (Ok n)
      note o = wr_ok[OF ok w[unfolded Ok]]
      show ?thesis
      proof (cases "n = 0")
        case z: True
        then show ?thesis using run True w i Ok o less(2)
          by (auto simp: flush_loop.simps[of _ b] bw_ok_def bw_written_def bw_buffer_def)
      next
        case False
        let ?b = "b\<lparr>bw_writer := s1, bw_start := bw_start b + n\<rparr>"
        have c: "length_check (bw_buffer b) n = Ok n" using o by (simp add: length_check_def)
        have n: "n \<le> bw_end b - bw_start b" "bw_end b \<le> length (bw_data b)" using o less(2) by (auto simp: bw_buffer_def bw_ok_def)
        have "flush_loop wr ?b = (r, b1)" using run True w Ok False c by (simp add: flush_loop.simps[of _ b])
        moreover have "bw_ok ok ?b" using less(2) i n True by (simp add: bw_ok_def)
        moreover have "bw_written written ?b = bw_written written b"
        proof -
          have "bw_buffer ?b = drop n (bw_buffer b)"
            by (simp add: bw_buffer_def slice_alt add.commute)
          then show ?thesis using o by (simp add: bw_written_def)
        qed
        moreover have "bw_end ?b - bw_start ?b < bw_end b - bw_start b" using True False by simp
        ultimately show ?thesis using less(1)[of ?b] by simp
      qed
    qed (use i in simp)
  qed
qed

lemma flush_buf_spec:
  assumes "bw_ok ok b" "flush_buf wr b = (r, b1)"
  shows "bw_ok ok b1 \<and> r \<noteq> Panic \<and> bw_written written b1 = bw_written written b \<and>
    length (bw_data b1) = length (bw_data b) \<and> (r = Ok () \<longrightarrow> bw_buffer b1 = [] \<and> bw_end b1 = 0)"
proof -
  obtain r1 b0 where l: "flush_loop wr b = (r1, b0)" by fastforce
  note s = flush_loop_spec[OF assms(1) l]
  have "bw_buffer b0 = []" if "r1 = Ok ()" using s that by (simp add: bw_buffer_def)
  then show ?thesis using assms(2) l s
    by (cases r1) (auto simp: flush_buf_def bw_discard_def bw_ok_def bw_written_def bw_buffer_def)
qed

lemma bw_write_spec:
  assumes "bw_ok ok b" "bw_write wr b buf = (r, b1)"
  shows "bw_ok ok b1 \<and> r \<noteq> Panic"
    and "r = Ok n \<Longrightarrow> n \<le> length buf \<and> bw_written written b1 = bw_written written b @ take n buf"
    and "r = Err e \<Longrightarrow> bw_written written b1 = bw_written written b"
proof -
  have "(bw_ok ok b1 \<and> r \<noteq> Panic) \<and>
    (r = Ok n \<longrightarrow> n \<le> length buf \<and> bw_written written b1 = bw_written written b @ take n buf) \<and>
    (r = Err e \<longrightarrow> bw_written written b1 = bw_written written b)"
  proof -
    have into: ?thesis if "bw_ok ok b0" "write_buffered b0 buf = (m, b1)" "r = Ok m"
      "bw_written written b0 = bw_written written b" for b0 m
      unfolding that(4)[symmetric] using write_buffered_spec[OF that(1,2)] that(3) by (auto simp: bw_written_def)
    show ?thesis
    proof (cases "0 < bw_spare_capacity b")
      case True
      then obtain m where "write_buffered b buf = (m, b1)" "r = Ok m"
        using assms(2) by (auto simp: bw_write_def split: prod.splits)
      then show ?thesis by (rule into[OF assms(1)]) simp
    next
      case False
      obtain f b0 where f: "flush_buf wr b = (f, b0)" by fastforce
      note s = flush_buf_spec[OF assms(1) f]
      show ?thesis
      proof (cases f)
        case (Ok u)
        show ?thesis
        proof (cases "length (bw_data b0) \<le> length buf")
          case True
          obtain q s1 where w: "wr (bw_writer b0) buf = (q, s1)" by fastforce
          have ok: "ok (bw_writer b0)" using s by (simp add: bw_ok_def)
          have e: "r = q" "b1 = b0\<lparr>bw_writer := s1\<rparr>" using assms(2) False f Ok True w by (auto simp: bw_write_def)
          have "bw_buffer b0 = []" "bw_buffer b1 = []" using s Ok e by (auto simp: bw_buffer_def)
          then show ?thesis using e s wr_inv[OF ok w] wr_ok[OF ok, of buf n s1] wr_err[OF ok, of buf e s1] w
            by (auto simp: bw_ok_def bw_written_def)
        next
          case fits: False
          then obtain m where "write_buffered b0 buf = (m, b1)" "r = Ok m"
            using assms(2) False f Ok by (auto simp: bw_write_def split: prod.splits)
          then show ?thesis using s by (intro into[of b0]) auto
        qed
      next
        case (Err e2)
        then show ?thesis using assms(2) False f s by (auto simp: bw_write_def)
      qed (use s in simp)
    qed
  qed
  then show "bw_ok ok b1 \<and> r \<noteq> Panic"
    and "r = Ok n \<Longrightarrow> n \<le> length buf \<and> bw_written written b1 = bw_written written b @ take n buf"
    and "r = Err e \<Longrightarrow> bw_written written b1 = bw_written written b" by blast+
qed

lemma buffered_sink: "byte_sink (bw_write wr) (bw_written written) (bw_ok ok)"
proof
  fix s buf r s'
  assume "bw_ok ok s" "bw_write wr s buf = (r, s')"
  then show "bw_ok ok s' \<and> r \<noteq> Panic" by (rule bw_write_spec(1))
next
  fix s buf n s'
  assume "bw_ok ok s" "bw_write wr s buf = (Ok n, s')"
  from bw_write_spec(2)[OF this refl]
  show "n \<le> length buf \<and> bw_written written s' = bw_written written s @ take n buf" .
next
  fix s buf e s'
  assume "bw_ok ok s" "bw_write wr s buf = (Err e, s')"
  from bw_write_spec(3)[OF this refl] show "bw_written written s' = bw_written written s" .
qed

end

section \<open>Piping from a reader\<close>

text \<open>A writer with a \<open>flush\<close> that writes nothing of its own.\<close>

locale flushing_sink = byte_sink wr written ok
  for wr :: "'s writer" and written :: "'s \<Rightarrow> byte list" and ok :: "'s \<Rightarrow> bool" +
  fixes fl :: "'s flusher"
  assumes fl_keeps: "ok s \<Longrightarrow> fl s = (r, s') \<Longrightarrow> ok s' \<and> r \<noteq> Panic \<and> written s' = written s"
begin

lemma bw_flush_spec:
  assumes "bw_ok ok b" "bw_flush wr fl b = (r, b1)"
  shows "bw_ok ok b1 \<and> r \<noteq> Panic \<and> bw_written written b1 = bw_written written b \<and>
    length (bw_data b1) = length (bw_data b) \<and> (r = Ok () \<longrightarrow> bw_buffer b1 = [] \<and> bw_end b1 = 0)"
proof -
  obtain f b0 where f: "flush_buf wr b = (f, b0)" by fastforce
  note s = flush_buf_spec[OF assms(1) f]
  show ?thesis
  proof (cases f)
    case (Ok u)
    obtain q s1 where w: "fl (bw_writer b0) = (q, s1)" by fastforce
    have "ok (bw_writer b0)" using s by (simp add: bw_ok_def)
    from fl_keeps[OF this w] show ?thesis using assms(2) f Ok w s
      by (auto simp: bw_flush_def bw_ok_def bw_written_def bw_buffer_def)
  qed (use assms(2) f s in \<open>auto simp: bw_flush_def\<close>)
qed

lemma pipe_from_once_spec:
  assumes "byte_stream rd rest rok" "rok reader" "bw_ok ok b" "pipe_from_once wr fl rd reader b = (r, reader1, b1)"
  shows "rok reader1 \<and> bw_ok ok b1 \<and> r \<noteq> Panic \<and> length (bw_data b1) = length (bw_data b) \<and>
    (case r of
       Ok n \<Rightarrow> n \<le> length (rest reader) \<and> rest reader1 = drop n (rest reader) \<and>
         bw_written written b1 = bw_written written b @ take n (rest reader) \<and>
         (n = 0 \<longrightarrow> bw_data b \<noteq> [] \<longrightarrow> rest reader = [])
     | _ \<Rightarrow> rest reader1 = rest reader \<and> bw_written written b1 = bw_written written b)"
proof -
  note rd_inv = byte_stream.rd_inv[OF assms(1)] and rd_ok = byte_stream.rd_ok[OF assms(1)]
    and rd_eof = byte_stream.rd_eof[OF assms(1)] and rd_err = byte_stream.rd_err[OF assms(1)]
  obtain f b0 where f: "(if bw_spare_capacity b = 0 then bw_flush wr fl b else (Ok (), b)) = (f, b0)" by fastforce
  have s: "bw_ok ok b0" "f \<noteq> Panic" "bw_written written b0 = bw_written written b" "length (bw_data b0) = length (bw_data b)"
    "f = Ok () \<longrightarrow> 0 < length (bw_data b) \<longrightarrow> bw_end b0 < length (bw_data b0)"
    using f assms(3) bw_flush_spec[OF assms(3), of f b0]
    by (auto simp: bw_spare_capacity_def bw_ok_def simp del: length_greater_0_conv split: if_splits)
  show ?thesis
  proof (cases f)
    case (Ok u)
    let ?tl = "drop (bw_end b0) (bw_data b0)"
    obtain q seg reader2 where rd: "rd reader ?tl = (q, seg, reader2)" by (metis prod_cases3)
    note i = rd_inv[OF assms(2) rd]
    let ?b = "b0\<lparr>bw_data := take (bw_end b0) (bw_data b0) @ seg\<rparr>"
    have o: "bw_start b0 \<le> bw_end b0" "bw_end b0 \<le> length (bw_data b0)" using s by (auto simp: bw_ok_def)
    have ld: "length (bw_data ?b) = length (bw_data b0)" using i o by simp
    have kb: "bw_buffer ?b = bw_buffer b0" using o by (simp add: bw_buffer_def slice_alt)
    have okb: "bw_ok ok ?b" using s(1) ld by (simp add: bw_ok_def)
    show ?thesis
    proof (cases q)
      case (Err e)
      have "r = Err e" "reader1 = reader2" "b1 = ?b" using assms(4) f Ok rd Err by (auto simp: pipe_from_once_def Let_def)
      then show ?thesis using i okb ld kb s rd_err[OF assms(2) rd[unfolded Err]] by (simp add: bw_written_def)
    next
      case o2: (Ok n)
      note oo = rd_ok[OF assms(2) rd[unfolded o2]]
      have n: "n \<le> length seg" using oo i by simp
      then have e: "r = Ok n" "reader1 = reader2" "b1 = ?b\<lparr>bw_end := bw_end b0 + n\<rparr>"
        using assms(4) f Ok rd o2 by (auto simp: pipe_from_once_def length_check_def Let_def)
      have "bw_ok ok b1" using okb e n i o by (auto simp: bw_ok_def)
      moreover have "bw_buffer b1 = bw_buffer b0 @ take n (rest reader)"
      proof -
        have "take (bw_end b0 + n) (bw_data b1) = take (bw_end b0) (bw_data b0) @ take n seg"
          using e o by simp
        then show ?thesis using e o oo by (simp add: bw_buffer_def slice_alt)
      qed
      moreover have "rest reader = []" if "n = 0" "bw_data b \<noteq> []"
      proof -
        have "?tl \<noteq> []" using s(5) Ok that by simp
        then show ?thesis using rd_eof[OF assms(2)] rd o2 that(1) by blast
      qed
      ultimately show ?thesis using e i oo s ld by (simp add: bw_written_def)
    qed (use i in simp)
  next
    case (Err e)
    then show ?thesis using assms(2,4) f s by (auto simp: pipe_from_once_def Let_def)
  qed (use s in simp)
qed

lemma pipe_from_spec:
  assumes "byte_stream rd rest rok" "rok reader" "bw_ok ok b" "bw_data b \<noteq> []" "length (rest reader) < k"
  shows "\<exists>r reader1 b1 m. pipe_from wr fl rd k reader b acc = Some (r, reader1, b1) \<and> rok reader1 \<and> bw_ok ok b1 \<and> r \<noteq> Panic \<and>
    m \<le> length (rest reader) \<and> rest reader1 = drop m (rest reader) \<and>
    bw_written written b1 = bw_written written b @ take m (rest reader) \<and> (\<forall>n. r = Ok n \<longrightarrow> n = acc + m)"
  using assms(2-)
proof (induction k arbitrary: reader b acc)
  case (Suc k)
  obtain r reader1 b1 where p: "pipe_from_once wr fl rd reader b = (r, reader1, b1)" by (metis prod_cases3)
  note s = pipe_from_once_spec[OF assms(1) Suc.prems(1,2) p]
  show ?case
  proof (cases r)
    case (Err e)
    then show ?thesis using p s
      by (intro exI[of _ "if e = Interrupted then Ok acc else Err e"] exI[of _ reader1] exI[of _ b1] exI[of _ 0]) auto
  next
    case (Ok n)
    show ?thesis
    proof (cases "n = 0")
      case True
      then show ?thesis using p s Ok by (intro exI[of _ "Ok acc"] exI[of _ reader1] exI[of _ b1] exI[of _ 0]) auto
    next
      case False
      have "bw_data b1 \<noteq> []" using s Suc.prems(3) by auto
      moreover have "length (rest reader1) < k" using s Ok False Suc.prems(4) by auto
      ultimately obtain r2 reader2 b2 m where ih: "pipe_from wr fl rd k reader1 b1 (acc + n) = Some (r2, reader2, b2)"
        "rok reader2" "bw_ok ok b2" "r2 \<noteq> Panic" "m \<le> length (rest reader1)" "rest reader2 = drop m (rest reader1)"
        "bw_written written b2 = bw_written written b1 @ take m (rest reader1)" "\<forall>j. r2 = Ok j \<longrightarrow> j = acc + n + m"
        using Suc.IH[of reader1 b1 "acc + n"] s by blast
      show ?thesis
      proof (intro exI[of _ r2] exI[of _ reader2] exI[of _ b2] exI[of _ "n + m"] conjI)
        show "pipe_from wr fl rd (Suc k) reader b acc = Some (r2, reader2, b2)" using p Ok False ih(1) by simp
        show "n + m \<le> length (rest reader)" using s Ok ih(5) by auto
        show "rest reader2 = drop (n + m) (rest reader)" using s Ok ih(6) by (simp add: add.commute)
        show "bw_written written b2 = bw_written written b @ take (n + m) (rest reader)"
          using s Ok ih(7) by (simp add: take_add)
        show "\<forall>j. r2 = Ok j \<longrightarrow> j = acc + (n + m)" using ih(8) by (simp add: add.assoc)
      qed (use ih in auto)
    qed
  qed (use s in simp)
qed simp

end

section \<open>Properties\<close>

definition ub_flush :: "uninit_buf flusher" where
  "ub_flush b = (Ok (), b)"

interpretation ubf: flushing_sink ub_write ub_filled "\<lambda>b. length (ub_filled b) \<le> ub_size b" ub_flush
  by unfold_locales (auto simp: ub_flush_def)

interpretation bwu: flushing_sink "bw_write ub_write" "bw_written ub_filled"
  "bw_ok (\<lambda>b. length (ub_filled b) \<le> ub_size b)" "bw_flush ub_write ub_flush"
proof (rule flushing_sink.intro[OF ub.buffered_sink], unfold_locales)
  fix s :: "uninit_buf buf_writer" and r s'
  assume "bw_ok (\<lambda>b. length (ub_filled b) \<le> ub_size b) s" "bw_flush ub_write ub_flush s = (r, s')"
  from ubf.bw_flush_spec[OF this]
  show "bw_ok (\<lambda>b. length (ub_filled b) \<le> ub_size b) s' \<and> r \<noteq> Panic \<and>
      bw_written ub_filled s' = bw_written ub_filled s" by blast
qed

text \<open>C10: over a well-behaved writer, \<open>BufWriter\<close> is itself a well-behaved writer: what the inner writer accepted
  followed by the buffered bytes grows by exactly the bytes each write reports, and an error, even in the middle
  of a flush, loses and duplicates nothing.\<close>

theorem buffered_writer_is_a_writer:
  assumes "byte_sink wr written ok"
  shows "byte_sink (bw_write wr) (bw_written written) (bw_ok ok)"
  by (rule byte_sink.buffered_sink[OF assms])

theorem buffered_writer_is_a_writer_witness:
  "byte_sink (bw_write ub_write) (bw_written ub_filled) (bw_ok (\<lambda>b. length (ub_filled b) \<le> ub_size b))"
  by (rule buffered_writer_is_a_writer[OF ub.byte_sink_axioms])

definition sample_writer :: "uninit_buf buf_writer" where
  "sample_writer = \<lparr>bw_data = [1, 2, 0, 0], bw_start = 0, bw_end = 2, bw_writer = ub_new 100\<rparr>"

lemma sample_writer_ok: "bw_ok (\<lambda>b. length (ub_filled b) \<le> ub_size b) sample_writer"
  by (simp add: sample_writer_def bw_ok_def ub_new_def)

text \<open>\<open>flush_buf\<close> terminates, moves bytes from the buffer to the writer without changing their sequence, on every
  outcome, and on success has delivered all of them.\<close>

theorem flush_delivers_the_buffer:
  assumes "byte_sink wr written ok" "bw_ok ok b" "flush_buf wr b = (r, b1)"
  shows "bw_ok ok b1 \<and> r \<noteq> Panic \<and> bw_written written b1 = bw_written written b \<and>
    (r = Ok () \<longrightarrow> written (bw_writer b1) = bw_written written b)"
  using byte_sink.flush_buf_spec[OF assms] by (auto simp: bw_written_def)

theorem flush_delivers_the_buffer_witness:
  "ub_filled (bw_writer (snd (flush_buf ub_write sample_writer))) = [1, 2]"
proof -
  have f: "flush_buf ub_write sample_writer =
      (Ok (), \<lparr>bw_data = [1, 2, 0, 0], bw_start = 0, bw_end = 0, bw_writer = \<lparr>ub_size = 100, ub_filled = [1, 2]\<rparr>\<rparr>)"
    by (simp add: flush_buf_def flush_loop.simps sample_writer_def ub_write_def ub_extend_from_slice_def ub_new_def
      ub_spare_capacity_def bw_buffer_def slice_def length_check_def bw_discard_def)
  have "bw_written ub_filled sample_writer = [1, 2]" by code_simp
  with flush_delivers_the_buffer[OF ub.byte_sink_axioms sample_writer_ok f] f show ?thesis by simp
qed



text \<open>Asking a buffered writer for its position by a relative seek of zero throws the buffered bytes away, and the
  position it returns adds the capacity of the buffer instead of the number of buffered bytes.\<close>

theorem relative_seek_drops_buffered_bytes:
  assumes "sk_pos sk (bw_writer b) = (Ok p, bw_writer b)" "bw_start b \<le> bw_end b" "int (bw_start b) \<le> I64_MAX"
    "p + length (bw_data b) < U64_LIMIT"
  shows "\<exists>b1. bw_seek wr sk (SeekCurrent 0) b = (Ok (p + length (bw_data b)), b1) \<and>
    bw_written written b1 = written (bw_writer b)"
  using assms
  by (auto simp: bw_seek_def bw_seek_relative_def bw_stream_position_def bw_written_def bw_buffer_def Let_def)

theorem relative_seek_drops_buffered_bytes_witness:
  "\<exists>b1. bw_seek ub_write \<lparr>sk_seek = \<lambda>s f. (Err NotSeekable, s), sk_len = \<lambda>s. (Err NotSeekable, s),
        sk_pos = \<lambda>s. (Ok (length (ub_filled s)), s), sk_len_fast = False, sk_pos_fast = True\<rparr> (SeekCurrent 0) sample_writer =
      (Ok 4, b1) \<and> bw_written ub_filled b1 = []"
proof -
  let ?sk = "\<lparr>sk_seek = \<lambda>s f. (Err NotSeekable, s), sk_len = \<lambda>s. (Err NotSeekable, s),
        sk_pos = \<lambda>s. (Ok (length (ub_filled s)), s), sk_len_fast = False, sk_pos_fast = True\<rparr>"
  have l: "length (bw_data sample_writer) = 4" "bw_writer sample_writer = ub_new 100" "bw_start sample_writer = 0"
    "bw_end sample_writer = 2" by (simp_all add: sample_writer_def)
  have u: "ub_filled (ub_new 100) = []" by (simp add: ub_new_def)
  have p: "sk_pos ?sk (ub_new 100) = (Ok 0, ub_new 100)" by (simp add: u)
  from relative_seek_drops_buffered_bytes[of ?sk sample_writer 0 ub_write ub_filled, unfolded l p u] show ?thesis
    by (simp add: I64_MAX_def U64_LIMIT_def)
qed

end
