(* ===== verification/Io_Props.thy ===== *)
theory Io_Props
  imports Buf_Read
begin

text \<open>
  What the provided methods of \<open>Read\<close> and \<open>Write\<close> guarantee over any well-behaved reader or writer, with
  \<open>Sequential\<close> and \<open>UninitBuf\<close> as the instances, and two places where they do not do what they promise.
\<close>

text \<open>\<open>read_to_string\<close>; \<open>Option::unwrap\<close> cannot fail, as the closure always gives \<open>Some\<close>.\<close>

definition read_to_string :: "'s reader \<Rightarrow> ('s \<Rightarrow> bool) \<Rightarrow> (nat \<Rightarrow> nat \<Rightarrow> nat) \<Rightarrow> nat \<Rightarrow> 's \<Rightarrow> byte list \<Rightarrow> nat \<Rightarrow>
    ((error_kind, nat) outcome \<times> byte list \<times> 's) option" where
  "read_to_string rd intr grow k s buf cap =
     map_option (\<lambda>(r, s1, s2). (case r of Ok (Some n) \<Rightarrow> Ok n | Ok None \<Rightarrow> Panic | Err e \<Rightarrow> Err e | Panic \<Rightarrow> Panic, s1, s2))
       (append_to_string buf
         (\<lambda>vec. map_option (\<lambda>(r, v, s1). (map_outcome_ok Some r, v, s1)) (read_to_end rd intr grow k s vec cap)))"

text \<open>\<open>read_fully\<close> terminates, and on success has read exactly the buffer's length: the next bytes of the stream,
  which it consumed; a short read is an error.\<close>

theorem read_fully_reads_exactly:
  assumes "byte_stream rd rest ok" "ok s"
  shows "\<exists>r buf' s'. read_fully rd intr (Suc (length buf)) s buf = Some (r, buf', s') \<and> ok s' \<and> r \<noteq> Panic \<and>
    (\<forall>n. r = Ok n \<longrightarrow> n = length buf \<and> length buf \<le> length (rest s) \<and> buf' = take (length buf) (rest s) \<and>
      rest s' = drop (length buf) (rest s))"
  by (rule byte_stream.read_fully_spec[OF assms])

theorem read_fully_reads_exactly_witness:
  "\<exists>r buf' s'. read_fully (br_read seq_read) (\<lambda>_. False) 4 sample_reader [0, 0, 0] = Some (r, buf', s') \<and>
    br_ok seq_ok s' \<and> (r = Ok 3 \<longrightarrow> buf' = [2, 3, 4])"
proof -
  have r: "take 3 (br_rest seq_rest sample_reader) = [2, 3, 4]" by code_simp
  from read_fully_reads_exactly[OF buffered_stream_of_seq sample_reader_ok(1), of "\<lambda>_. False" "[0, 0, 0]"]
  obtain r buf' s' where "read_fully (br_read seq_read) (\<lambda>_. False) 4 sample_reader [0, 0, 0] = Some (r, buf', s')"
    "br_ok seq_ok s'" "\<forall>n. r = Ok n \<longrightarrow> buf' = take 3 (br_rest seq_rest sample_reader)"
    by (auto simp: numeral_eq_Suc)
  with r show ?thesis by auto
qed


lemma seq_never_fails: "fst (seq_read s av) \<noteq> Err e"
  by (auto simp: seq_read_def Let_def split: prod.splits)


text \<open>When a read fails, \<open>read_to_end\<close> returns the error with the vector still padded: its length is its capacity,
  and nothing tells the bytes that were read from the padding.\<close>

theorem read_to_end_leaves_padding_on_error:
  assumes "\<not> intr s" "length buf < cap" "rd s (replicate (cap - length buf) 0) = (Err e, av, s1)" "e \<noteq> Interrupted"
    "length av = cap - length buf"
  shows "read_to_end rd intr grow (Suc k) s buf cap = Some (Err e, buf @ av, s1) \<and> length (buf @ av) = cap"
  using assms by (simp add: read_to_end_def Let_def)

theorem read_to_end_leaves_padding_on_error_witness:
  "read_to_end (\<lambda>s buf. (Err TimedOut, buf, s)) (\<lambda>_. False) (\<lambda>c n. n) 1 () [1, 2] 4 = Some (Err TimedOut, [1, 2, 0, 0], ())"
  using read_to_end_leaves_padding_on_error[of "\<lambda>_. False" "()" "[1, 2]" 4 "\<lambda>s buf. (Err TimedOut, buf, s)" TimedOut "[0, 0]" "()" "\<lambda>c n. n" 0]
  by (simp add: numeral_eq_Suc)

text \<open>\<open>write_all\<close> terminates; the writer has accepted a prefix of the buffer whatever the outcome, and all of it
  exactly when the call succeeds.\<close>

theorem write_all_writes_everything:
  assumes "byte_sink wr written ok" "ok s"
  shows "\<exists>r s' m. write_all wr intr (Suc (length buf)) s buf = Some (r, s') \<and> ok s' \<and> r \<noteq> Panic \<and>
    m \<le> length buf \<and> written s' = written s @ take m buf \<and>
    (\<forall>n. r = Ok n \<longrightarrow> n = length buf \<and> written s' = written s @ buf)"
  by (rule byte_sink.write_all_spec[OF assms])

theorem write_all_writes_everything_witness:
  "\<exists>r s' m. write_all ub_write (\<lambda>_. False) 4 (ub_new 2) [1, 2, 3] = Some (r, s') \<and> ub_filled s' = take m [1, 2, 3]"
proof -
  have "length (ub_filled (ub_new 2)) \<le> ub_size (ub_new 2)" "ub_filled (ub_new 2) = []" by (simp_all add: ub_new_def)
  from write_all_writes_everything[OF ub.byte_sink_axioms this(1), of "\<lambda>_. False" "[1, 2, 3]"] this(2)
  show ?thesis by (auto simp: numeral_eq_Suc)
qed

text \<open>\<open>write_all_vectored\<close> of buffers that are all empty fails with \<open>UnexpectedEof\<close> (unless interrupted), though there
  is nothing to write; \<open>write_all\<close> of an empty buffer succeeds.\<close>

theorem write_all_vectored_fails_on_empty_buffers:
  assumes "bufs \<noteq> []" "set bufs \<subseteq> {[]}" "\<not> intr s"
  shows "write_all_vectored wr intr (Suc k) s bufs = Some (Err UnexpectedEof, s) \<and>
    write_all wr intr (Suc k) s [] = Some (Ok 0, s)"
proof -
  have "write_vectored wr s bufs = (Ok 0, s)" using assms(2) by (induction bufs) auto
  with assms(1,3) show ?thesis
    by (simp add: write_all_vectored_def write_all_def short_io_error_unless_interrupt_def)
qed

theorem write_all_vectored_fails_on_empty_buffers_witness:
  "write_all_vectored ub_write (\<lambda>_. False) 1 (ub_new 8) [[]] = Some (Err UnexpectedEof, ub_new 8)"
  using write_all_vectored_fails_on_empty_buffers[of "[[]]" "\<lambda>_. False" "ub_new 8" ub_write 0] by simp

end
