(* ===== verification/Typed_Io.thy ===== *)
theory Typed_Io
  imports Buf_Writer Io_Props
begin

text \<open>
  Typed reads and writes: \<open>src/src/io/typed.rs\<close> (the encodings) and \<open>src/src/async_std/io/typed.rs\<close>.
  An integer type is \<open>'a word\<close> of a whole number of bytes; a signed type is the same word, and a float its bits.
  The loops get the fuel \<open>Suc\<close> of the buffer's length, which the streams' lemmas show to be enough.
\<close>

section \<open>Encodings\<close>

text \<open>\<open>to_le_bytes\<close>, \<open>from_le_bytes\<close> and their big endian versions of the language, on numbers.\<close>

fun to_le_bytes :: "nat \<Rightarrow> nat \<Rightarrow> byte list" where
  "to_le_bytes 0 v = []"
| "to_le_bytes (Suc n) v = of_nat (v mod 256) # to_le_bytes n (v div 256)"

fun from_le_bytes :: "byte list \<Rightarrow> nat" where
  "from_le_bytes [] = 0"
| "from_le_bytes (b # bs) = unat b + 256 * from_le_bytes bs"

definition to_bytes :: "bool \<Rightarrow> nat \<Rightarrow> nat \<Rightarrow> byte list" where
  "to_bytes le n v = (if le then to_le_bytes n v else rev (to_le_bytes n v))"

definition from_bytes :: "bool \<Rightarrow> byte list \<Rightarrow> nat" where
  "from_bytes le bs = (if le then from_le_bytes bs else from_le_bytes (rev bs))"

definition size_of :: "'a::len itself \<Rightarrow> nat" where
  "size_of t = LENGTH('a) div 8"

section \<open>Reading\<close>

definition read_bytes ::
  "'s reader \<Rightarrow> ('s \<Rightarrow> bool) \<Rightarrow> 's \<Rightarrow> byte list \<Rightarrow> ((error_kind, nat) outcome \<times> byte list \<times> 's) option" where
  "read_bytes rd intr s bytes =
     map_option (\<lambda>(r, bytes1, s1).
         (case r of
            Ok n \<Rightarrow>
              if length bytes < n then Panic
              else if n \<noteq> 0 \<and> n < length bytes then Err (short_io_error_unless_interrupt (intr s1)) else Ok n
          | Err e \<Rightarrow> Err e | Panic \<Rightarrow> Panic, bytes1, s1))
       (try_read_fully rd intr (Suc (length bytes)) s bytes)"

definition read_bytes_n :: "'s reader \<Rightarrow> ('s \<Rightarrow> bool) \<Rightarrow> nat \<Rightarrow> 's \<Rightarrow> ((error_kind, byte list option) outcome \<times> 's) option" where
  "read_bytes_n rd intr n s =
     map_option (\<lambda>(r, bytes, s1). (map_outcome_ok (\<lambda>m. if m \<noteq> 0 then Some bytes else None) r, s1))
       (read_bytes rd intr s (replicate n 0))"

text \<open>\<open>buf_get_bytes\<close>: the first \<open>n\<close> buffered bytes at once, when there are as many, and only \<open>consume\<close> of them taken;
  otherwise a read of \<open>consume\<close> bytes into the front of a zeroed array.\<close>

definition buf_get_bytes :: "'s reader \<Rightarrow> ('s \<Rightarrow> bool) \<Rightarrow> nat \<Rightarrow> nat \<Rightarrow> 's buf_reader \<Rightarrow>
    ((error_kind, byte list option) outcome \<times> 's buf_reader) option" where
  "buf_get_bytes rd intr n consume b =
     (if n \<le> length (br_buffer b) then
        (let (_, bytes) = read_into_slice (replicate n 0) (take n (br_buffer b))
         in case br_consume consume b of Ok b1 \<Rightarrow> Some (Ok (Some bytes), b1) | _ \<Rightarrow> Some (Panic, b))
      else
        map_option (\<lambda>(r, front, b1).
            (map_outcome_ok (\<lambda>m. if m \<noteq> 0 then Some (front @ replicate (n - consume) 0) else None) r, b1))
          (read_bytes (br_read rd) (intr \<circ> br_reader) b (replicate consume 0)))"

definition buf_read_bytes :: "'s reader \<Rightarrow> ('s \<Rightarrow> bool) \<Rightarrow> nat \<Rightarrow> 's buf_reader \<Rightarrow>
    ((error_kind, byte list option) outcome \<times> 's buf_reader) option" where
  "buf_read_bytes rd intr n b = buf_get_bytes rd intr n n b"

text \<open>\<open>wrapping_shr\<close> takes the shift modulo the width.\<close>

definition wrapping_shr :: "'a::len word \<Rightarrow> nat \<Rightarrow> 'a word" where
  "wrapping_shr v shift = drop_bit (shift mod LENGTH('a)) v"

definition vint_from_bytes :: "byte list \<Rightarrow> nat \<Rightarrow> bool \<Rightarrow> 'a::len word" where
  "vint_from_bytes bytes sz le =
     (let shift = (length bytes - sz) * 8
      in if le then of_nat (from_bytes True bytes) AND wrapping_shr (- 1) shift
         else wrapping_shr (of_nat (from_bytes False bytes)) shift)"

definition read_vint_fast :: "'s reader \<Rightarrow> ('s \<Rightarrow> bool) \<Rightarrow> nat \<Rightarrow> bool \<Rightarrow> 's buf_reader \<Rightarrow>
    ((error_kind, 'a::len word option) outcome \<times> 's buf_reader) option" where
  "read_vint_fast rd intr sz le b =
     (if sz = 0 then Some (Ok (Some 0), b)
      else if size_of TYPE('a) < sz then Some (Panic, b)
      else map_option (\<lambda>(r, b1). (map_outcome_ok (map_option (\<lambda>bytes. vint_from_bytes bytes sz le)) r, b1))
        (buf_get_bytes rd intr (size_of TYPE('a)) sz b))"

definition read_vint :: "'s reader \<Rightarrow> ('s \<Rightarrow> bool) \<Rightarrow> nat \<Rightarrow> bool \<Rightarrow> 's \<Rightarrow>
    ((error_kind, 'a::len word option) outcome \<times> 's) option" where
  "read_vint rd intr sz le s =
     (if sz = 0 then Some (Ok (Some 0), s)
      else if size_of TYPE('a) < sz then Some (Panic, s)
      else map_option (\<lambda>(r, front, s1).
          (map_outcome_ok (\<lambda>m. if m \<noteq> 0
              then Some (vint_from_bytes (front @ replicate (size_of TYPE('a) - sz) 0) sz le) else None) r, s1))
        (read_bytes rd intr s (replicate sz 0)))"

text \<open>\<open>.ok_or_else(UnexpectedEof)\<close> turns a \<open>try_\<close> read into one that fails at the end.\<close>

fun or_eof :: "(error_kind, 'v option) outcome \<Rightarrow> (error_kind, 'v) outcome" where
  "or_eof (Ok (Some v)) = Ok v"
| "or_eof (Ok None) = Err UnexpectedEof"
| "or_eof (Err e) = Err e"
| "or_eof Panic = Panic"

definition try_read_num :: "'s reader \<Rightarrow> ('s \<Rightarrow> bool) \<Rightarrow> bool \<Rightarrow> 's \<Rightarrow>
    ((error_kind, 'a::len word option) outcome \<times> 's) option" where
  "try_read_num rd intr le s =
     map_option (\<lambda>(r, s1). (map_outcome_ok (map_option (\<lambda>bytes. of_nat (from_bytes le bytes))) r, s1))
       (read_bytes_n rd intr (size_of TYPE('a)) s)"

definition buf_try_read_num :: "'s reader \<Rightarrow> ('s \<Rightarrow> bool) \<Rightarrow> bool \<Rightarrow> 's buf_reader \<Rightarrow>
    ((error_kind, 'a::len word option) outcome \<times> 's buf_reader) option" where
  "buf_try_read_num rd intr le b =
     map_option (\<lambda>(r, b1). (map_outcome_ok (map_option (\<lambda>bytes. of_nat (from_bytes le bytes))) r, b1))
       (buf_read_bytes rd intr (size_of TYPE('a)) b)"

definition read_num :: "'s reader \<Rightarrow> ('s \<Rightarrow> bool) \<Rightarrow> bool \<Rightarrow> 's \<Rightarrow> ((error_kind, 'a::len word) outcome \<times> 's) option" where
  "read_num rd intr le s = map_option (\<lambda>(r, s1). (or_eof r, s1)) (try_read_num rd intr le s)"

text \<open>A float of a variable size: the bits of an \<open>f64\<close>, or those of an \<open>f32\<close> converted by \<open>widen\<close>.\<close>

definition try_read_vfloat :: "(32 word \<Rightarrow> 64 word) \<Rightarrow> 's reader \<Rightarrow> ('s \<Rightarrow> bool) \<Rightarrow> nat \<Rightarrow> bool \<Rightarrow> 's \<Rightarrow>
    ((error_kind, 64 word option) outcome \<times> 's) option" where
  "try_read_vfloat widen rd intr sz le s =
     (if sz = 4 then map_option (\<lambda>(r, s1). (map_outcome_ok (map_option widen) r, s1)) (try_read_num rd intr le s)
      else if sz = 8 then try_read_num rd intr le s
      else Some (Panic, s))"

section \<open>Writing\<close>

text \<open>The source writes a type with \<open>try_write_all\<close>.\<close>

definition write_num :: "'s writer \<Rightarrow> ('s \<Rightarrow> bool) \<Rightarrow> bool \<Rightarrow> 'a::len word \<Rightarrow> 's \<Rightarrow>
    ((error_kind, nat) outcome \<times> 's) option" where
  "write_num wr intr le v s =
     (let bytes = to_bytes le (size_of TYPE('a)) (unat v) in try_write_all wr intr (Suc (length bytes)) s bytes)"

definition try_write_string :: "'s writer \<Rightarrow> ('s \<Rightarrow> bool) \<Rightarrow> byte list \<Rightarrow> 's \<Rightarrow> ((error_kind, nat) outcome \<times> 's) option" where
  "try_write_string wr intr str s = try_write_all wr intr (Suc (length str)) s str"

definition write_string :: "'s writer \<Rightarrow> ('s \<Rightarrow> bool) \<Rightarrow> byte list \<Rightarrow> 's \<Rightarrow> ((error_kind, nat) outcome \<times> 's) option" where
  "write_string wr intr str s = write_all wr intr (Suc (length str)) s str"

text \<open>\<open>encode_utf8\<close> of the language.\<close>

definition encode_utf8 :: "nat \<Rightarrow> byte list" where
  "encode_utf8 c =
     map of_nat
       (if c < 0x80 then [c]
        else if c < 0x800 then [0xC0 + c div 64, 0x80 + c mod 64]
        else if c < 0x10000 then [0xE0 + c div 4096, 0x80 + c div 64 mod 64, 0x80 + c mod 64]
        else [0xF0 + c div 262144, 0x80 + c div 4096 mod 64, 0x80 + c div 64 mod 64, 0x80 + c mod 64])"

definition write_char :: "'s writer \<Rightarrow> ('s \<Rightarrow> bool) \<Rightarrow> nat \<Rightarrow> 's \<Rightarrow> ((error_kind, nat) outcome \<times> 's) option" where
  "write_char wr intr c s = write_string wr intr (encode_utf8 c) s"

text \<open>\<open>write_fmt\<close> through \<open>FmtAdapter\<close>: formatting calls \<open>write_str\<close> with the pieces in order and stops at the first that
  fails; \<open>None\<close> is a formatting trait that fails by itself.\<close>

fun write_args :: "'s writer \<Rightarrow> ('s \<Rightarrow> bool) \<Rightarrow> byte list option list \<Rightarrow> nat \<Rightarrow> 's \<Rightarrow>
    ((error_kind, nat) outcome \<times> 's) option" where
  "write_args wr intr [] wrote s = Some (Ok wrote, s)"
| "write_args wr intr (None # ps) wrote s = Some (Err FormatterError, s)"
| "write_args wr intr (Some str # ps) wrote s =
     (case write_string wr intr str s of
        Some (Ok n, s1) \<Rightarrow> write_args wr intr ps (wrote + n) s1
      | r \<Rightarrow> r)"

definition write_fmt :: "'s writer \<Rightarrow> ('s \<Rightarrow> bool) \<Rightarrow> byte list option list \<Rightarrow> 's \<Rightarrow>
    ((error_kind, nat) outcome \<times> 's) option" where
  "write_fmt wr intr args s = write_args wr intr args 0 s"

section \<open>Encoding lemmas\<close>

lemma length_to_le_bytes [simp]: "length (to_le_bytes n v) = n"
  by (induction n arbitrary: v) auto

lemma length_to_bytes [simp]: "length (to_bytes le n v) = n"
  by (simp add: to_bytes_def)

lemma from_to_le: "from_le_bytes (to_le_bytes n v) = v mod 256 ^ n"
proof (induction n arbitrary: v)
  case (Suc n)
  have "v mod (256 * 256 ^ n) = 256 * (v div 256 mod 256 ^ n) + v mod 256" by (rule mod_mult2_eq)
  moreover have "unat (of_nat (v mod 256) :: byte) = v mod 256"
    by (simp add: unat_of_nat take_bit_eq_mod)
  ultimately show ?case using Suc by simp
qed simp

lemma from_to_bytes: "from_bytes le (to_bytes le n v) = v mod 256 ^ n"
  by (simp add: from_bytes_def to_bytes_def from_to_le)

lemma from_le_less: "from_le_bytes bs < 256 ^ length bs"
proof (induction bs)
  case (Cons b bs)
  have "unat b < 256" using unsigned_less[of b, where ?'a = nat] by simp
  with Cons show ?case by simp
qed simp

lemma from_le_append: "from_le_bytes (xs @ ys) = from_le_bytes xs + 256 ^ length xs * from_le_bytes ys"
  by (induction xs) (auto simp: algebra_simps)

lemma from_le_zeros: "from_le_bytes (replicate n 0) = 0"
  by (induction n) auto

text \<open>The bytes past the size do not matter: the result is the value of the first bytes.\<close>

lemma power_256: "(256 :: nat) ^ n = 2 ^ (8 * n)"
  by (simp add: power_mult)

lemma mask_of_ones: "n \<le> LENGTH('a) \<Longrightarrow> drop_bit (LENGTH('a) - n) (- 1 :: 'a::len word) = mask n"
  by (rule bit_word_eqI) (auto simp: bit_simps)

lemma vint_le:
  assumes "sz \<le> length bytes" "0 < sz" "LENGTH('a) = 8 * length bytes"
  shows "(vint_from_bytes bytes sz True :: 'a::len word) = of_nat (from_le_bytes (take sz bytes))"
proof -
  let ?sh = "(length bytes - sz) * 8"
  have sh: "?sh mod LENGTH('a) = ?sh" "?sh = LENGTH('a) - 8 * sz" "8 * sz \<le> LENGTH('a)" using assms by auto
  have m: "wrapping_shr (- 1 :: 'a word) ?sh = mask (8 * sz)"
    unfolding wrapping_shr_def sh(1) unfolding sh(2) by (rule mask_of_ones[OF sh(3)])
  have "from_le_bytes bytes = from_le_bytes (take sz bytes) + 256 ^ sz * from_le_bytes (drop sz bytes)"
    using from_le_append[of "take sz bytes" "drop sz bytes"] assms(1) by simp
  moreover have "from_le_bytes (take sz bytes) < 256 ^ sz" using from_le_less[of "take sz bytes"] assms(1) by simp
  ultimately have t: "take_bit (8 * sz) (from_le_bytes bytes) = from_le_bytes (take sz bytes)"
    unfolding take_bit_eq_mod power_256[symmetric] by simp
  have "(vint_from_bytes bytes sz True :: 'a word) = take_bit (8 * sz) (of_nat (from_le_bytes bytes))"
    unfolding vint_from_bytes_def Let_def m by (simp add: from_bytes_def take_bit_eq_mask)
  also have "\<dots> = of_nat (take_bit (8 * sz) (from_le_bytes bytes))"
    by (rule take_bit_of_nat)
  finally show ?thesis unfolding t .
qed

lemma vint_be:
  assumes "sz \<le> length bytes" "0 < sz" "LENGTH('a) = 8 * length bytes"
  shows "(vint_from_bytes bytes sz False :: 'a::len word) = of_nat (from_le_bytes (rev (take sz bytes)))"
proof -
  let ?sh = "(length bytes - sz) * 8" and ?w = "of_nat (from_le_bytes (rev bytes)) :: 'a word"
  have sh: "?sh mod LENGTH('a) = ?sh" using assms by auto
  have "rev bytes = rev (drop sz bytes) @ rev (take sz bytes)" by (simp flip: rev_append)
  then have v: "from_le_bytes (rev bytes) =
      from_le_bytes (rev (drop sz bytes)) + 256 ^ (length bytes - sz) * from_le_bytes (rev (take sz bytes))"
    by (simp add: from_le_append)
  have post: "from_le_bytes (rev (drop sz bytes)) < 256 ^ (length bytes - sz)"
    using from_le_less[of "rev (drop sz bytes)"] by simp
  have d: "from_le_bytes (rev bytes) div 256 ^ (length bytes - sz) = from_le_bytes (rev (take sz bytes))"
    unfolding v using post by simp
  have "from_le_bytes (rev bytes) < 2 ^ LENGTH('a)"
    using from_le_less[of "rev bytes"] assms(3) by (simp add: power_256)
  then have u: "unat ?w = from_le_bytes (rev bytes)" by (simp add: unat_of_nat take_bit_nat_eq_self_iff)
  have "unat (drop_bit ?sh ?w) = drop_bit ?sh (unat ?w)" by (rule unat_drop_bit_eq)
  also have "\<dots> = from_le_bytes (rev (take sz bytes))"
    unfolding u d[symmetric] drop_bit_eq_div by (simp add: power_256 mult.commute)
  finally have "unat (drop_bit ?sh ?w) = from_le_bytes (rev (take sz bytes))" .
  then have "of_nat (unat (drop_bit ?sh ?w)) = (of_nat (from_le_bytes (rev (take sz bytes))) :: 'a word)"
    by (rule arg_cong)
  then have "drop_bit ?sh ?w = of_nat (from_le_bytes (rev (take sz bytes)))" by simp
  then show ?thesis unfolding vint_from_bytes_def Let_def wrapping_shr_def sh by (simp add: from_bytes_def)
qed

lemma vint_value:
  assumes "0 < sz" "sz \<le> length bytes" "LENGTH('a) = 8 * length bytes"
  shows "(vint_from_bytes bytes sz le :: 'a::len word) = of_nat (from_bytes le (take sz bytes))"
  using vint_le[OF assms(2,1,3)] vint_be[OF assms(2,1,3)] by (cases le) (simp_all add: from_bytes_def)

section \<open>Reads from a stream that does not fail\<close>

definition infallible :: "'s reader \<Rightarrow> bool" where
  "infallible rd \<longleftrightarrow> (\<forall>s buf e. fst (rd s buf) \<noteq> Err e)"

lemma infallibleD: "infallible rd \<Longrightarrow> rd s buf \<noteq> (Err e, x)"
  unfolding infallible_def by (metis fst_conv)

lemma br_infallible:
  assumes "infallible rd"
  shows "infallible (br_read rd)"
proof -
  have "fill_buf_range rd lo hi b \<noteq> (Err e, b1)" for lo hi b e b1
    using infallibleD[OF assms]
    by (auto simp: fill_buf_range_def Let_def split: prod.splits outcome.splits)
  then have "fill_buf rd b \<noteq> (Err e, b1)" for b e b1
    by (auto simp: fill_buf_def split: prod.splits outcome.splits)
  then show ?thesis unfolding infallible_def
    using infallibleD[OF assms] by (auto simp: br_read_def read_cold_def Let_def split: prod.splits outcome.splits)
qed

text \<open>What a read of \<open>n\<close> bytes returns when the stream holds \<open>xs\<close>, and the typed reads on top of it.\<close>

definition exact_read :: "nat \<Rightarrow> byte list \<Rightarrow> (error_kind, nat) outcome" where
  "exact_read n xs = (if n \<le> length xs then Ok n else if xs = [] then Ok 0 else Err UnexpectedEof)"

definition exact_vint :: "nat \<Rightarrow> bool \<Rightarrow> byte list \<Rightarrow> (error_kind, 'a::len word option) outcome" where
  "exact_vint sz le xs =
     (if sz = 0 then Ok (Some 0)
      else if size_of TYPE('a) < sz then Panic
      else map_outcome_ok (\<lambda>m. if m \<noteq> 0 then Some (of_nat (from_bytes le (take sz xs))) else None) (exact_read sz xs))"

context byte_stream begin

lemma try_read_loop_total:
  assumes "infallible rd" "ok s" "n \<le> length buf" "length buf - n < k"
  shows "\<exists>j buf' s'. try_read_loop rd k s buf n = Some (Ok j, buf', s')"
proof -
  have "r \<noteq> Err e" if "try_read_loop rd k s buf n = Some (r, buf', s')" for r e buf' s' k s buf n
    using that
  proof (induction k arbitrary: s buf n)
    case (Suc k)
    then show ?case using infallibleD[OF assms(1)]
      by (auto split: if_splits prod.splits outcome.splits)
  qed simp
  then show ?thesis using try_read_loop_spec[OF assms(2-4)] by (metis outcome.exhaust)
qed

lemma try_read_fully_exact:
  assumes "infallible rd" "ok s"
  shows "\<exists>buf' s'. try_read_fully rd (\<lambda>_. False) (Suc (length buf)) s buf =
      Some (Ok (min (length buf) (length (rest s))), buf', s') \<and> ok s' \<and> length buf' = length buf \<and>
    take (length buf) (rest s) = take (min (length buf) (length (rest s))) buf' \<and> rest s' = drop (length buf) (rest s)"
proof (cases "buf = []")
  case True
  then show ?thesis using assms(2) by (simp add: try_read_fully_def)
next
  case False
  obtain r buf' s' m where f: "try_read_fully rd (\<lambda>_. False) (Suc (length buf)) s buf = Some (r, buf', s')" "ok s'"
    "length buf' = length buf" "m \<le> length (rest s)" "m \<le> length buf" "take m buf' = take m (rest s)"
    "rest s' = drop m (rest s)" "r \<noteq> Panic"
    "\<forall>j. r = Ok j \<longrightarrow> j = m \<and> (j < length buf \<longrightarrow> rest s' = [] \<or> (\<exists>s1 av. fst (rd s1 av) = Err Interrupted))"
    using try_read_fully_spec[OF assms(2), of "\<lambda>_. False" buf] by blast
  have "length buf - 0 < Suc (length buf)" by simp
  from try_read_loop_total[OF assms le0 this]
  obtain j buf2 s2 where "try_read_loop rd (Suc (length buf)) s buf 0 = Some (Ok j, buf2, s2)" by blast
  then have "r = Ok j" using f(1) False
    by (simp add: try_read_fully_def check_interrupt_if_zero_def del: try_read_loop.simps)
  then have j: "r = Ok m" "m < length buf \<longrightarrow> rest s' = [] \<or> (\<exists>s1 av. fst (rd s1 av) = Err Interrupted)"
    using f(9) by blast+
  then have e: "rest s' = []" if "m < length buf" using that assms(1) unfolding infallible_def by blast
  have m: "m = min (length buf) (length (rest s))"
  proof (cases "m < length buf")
    case True
    from e[OF True] f(7) have "length (rest s) \<le> m" by simp
    then show ?thesis using f(4) True by simp
  next
    case False
    then show ?thesis using f(4,5) by simp
  qed
  have "rest s' = drop (length buf) (rest s)" "take (length buf) (rest s) = take m (rest s)"
    using f(7) m by (cases "length buf \<le> length (rest s)"; simp)+
  then show ?thesis using f(1-3,6) j(1) m by auto
qed

lemma read_bytes_exact:
  assumes "infallible rd" "ok s" "bytes \<noteq> []"
  shows "\<exists>bytes' s'. read_bytes rd (\<lambda>_. False) s bytes = Some (exact_read (length bytes) (rest s), bytes', s') \<and> ok s' \<and>
    rest s' = drop (length bytes) (rest s) \<and>
    (length bytes \<le> length (rest s) \<longrightarrow> bytes' = take (length bytes) (rest s))"
proof -
  obtain bytes' s' where f: "try_read_fully rd (\<lambda>_. False) (Suc (length bytes)) s bytes =
      Some (Ok (min (length bytes) (length (rest s))), bytes', s')" "ok s'" "length bytes' = length bytes"
    "take (length bytes) (rest s) = take (min (length bytes) (length (rest s))) bytes'"
    "rest s' = drop (length bytes) (rest s)"
    using try_read_fully_exact[OF assms(1,2)] by blast
  then show ?thesis using assms(3)
    by (auto simp: read_bytes_def exact_read_def short_io_error_unless_interrupt_def min_def)
qed

lemma read_vint_exact:
  assumes "infallible rd" "ok s" "LENGTH('a) = 8 * size_of TYPE('a::len)"
  shows "\<exists>s'. (read_vint rd (\<lambda>_. False) sz le s :: ((error_kind, 'a word option) outcome \<times> 's) option) =
      Some (exact_vint sz le (rest s), s') \<and> ok s' \<and>
    rest s' = (if sz \<le> size_of TYPE('a) then drop sz (rest s) else rest s)"
proof -
  consider "sz = 0" | "size_of TYPE('a) < sz" | "0 < sz" "sz \<le> size_of TYPE('a)" by linarith
  then show ?thesis
  proof cases
    case 3
    then have "replicate sz 0 \<noteq> ([] :: byte list)" by simp
    from read_bytes_exact[OF assms(1,2) this, unfolded length_replicate] obtain bytes' s' where
      f: "read_bytes rd (\<lambda>_. False) s (replicate sz 0) = Some (exact_read sz (rest s), bytes', s')" "ok s'"
      "rest s' = drop sz (rest s)" "sz \<le> length (rest s) \<longrightarrow> bytes' = take sz (rest s)" by blast
    show ?thesis
    proof (cases "sz \<le> length (rest s)")
      case True
      then have b: "bytes' = take sz (rest s)" "length bytes' = sz" using f(4) by auto
      let ?bs = "bytes' @ replicate (size_of TYPE('a) - sz) 0"
      have "sz \<le> length ?bs" "LENGTH('a) = 8 * length ?bs" using 3 b assms(3) by auto
      from vint_value[OF 3(1) this, of le] f(1-3) 3 b True show ?thesis
        by (simp add: read_vint_def exact_vint_def exact_read_def)
    next
      case False
      then show ?thesis using f(1-3) 3 by (simp add: read_vint_def exact_vint_def exact_read_def)
    qed
  qed (use assms(2) in \<open>auto simp: read_vint_def exact_vint_def\<close>)
qed

lemma read_vint_fast_exact:
  assumes "infallible rd" "br_ok ok b" "LENGTH('a) = 8 * size_of TYPE('a::len)"
  shows "\<exists>b'. (read_vint_fast rd (\<lambda>_. False) sz le b :: ((error_kind, 'a word option) outcome \<times> 's buf_reader) option) =
      Some (exact_vint sz le (br_rest rest b), b') \<and> br_ok ok b' \<and>
    br_rest rest b' = (if sz \<le> size_of TYPE('a) then drop sz (br_rest rest b) else br_rest rest b)"
proof -
  let ?n = "size_of TYPE('a)"
  have f0: "(\<lambda>_ :: 's. False) \<circ> br_reader = (\<lambda>_ :: 's buf_reader. False)" by auto
  consider "sz = 0" | "?n < sz" | "0 < sz" "sz \<le> ?n" "?n \<le> length (br_buffer b)"
    | "0 < sz" "sz \<le> ?n" "length (br_buffer b) < ?n" by linarith
  then show ?thesis
  proof cases
    case 3
    let ?b = "b\<lparr>br_start := br_start b + sz\<rparr>"
    have bs: "br_buffer ?b = drop sz (br_buffer b)" by (simp add: br_buffer_def slice_alt add.commute)
    have ok: "br_ok ok ?b" using assms(2) 3 by (auto simp: br_ok_def br_buffer_def)
    have "read_into_slice (replicate ?n 0) (take ?n (br_buffer b)) = (?n, take ?n (br_buffer b))"
      using 3 by (simp add: read_into_slice_def Let_def)
    then have g: "buf_get_bytes rd (\<lambda>_. False) ?n sz b = Some (Ok (Some (take ?n (br_buffer b))), ?b)"
      using 3 by (simp add: buf_get_bytes_def br_consume_def)
    have "sz \<le> length (take ?n (br_buffer b))" "LENGTH('a) = 8 * length (take ?n (br_buffer b))" using 3 assms(3) by auto
    note v = vint_value[OF 3(1) this, of le]
    have "take sz (br_rest rest b) = take sz (br_buffer b)" "sz \<le> length (br_rest rest b)"
      "br_rest rest ?b = drop sz (br_rest rest b)" using 3 bs by (auto simp: br_rest_def)
    then show ?thesis using g v 3 ok by (simp add: read_vint_fast_def exact_vint_def exact_read_def)
  next
    case 4
    have "replicate sz 0 \<noteq> ([] :: byte list)" using 4 by simp
    from byte_stream.read_bytes_exact[OF buffered_stream br_infallible[OF assms(1)] assms(2) this, unfolded length_replicate]
    obtain bytes' b' where
      f: "read_bytes (br_read rd) (\<lambda>_. False) b (replicate sz 0) = Some (exact_read sz (br_rest rest b), bytes', b')"
      "br_ok ok b'" "br_rest rest b' = drop sz (br_rest rest b)"
      "sz \<le> length (br_rest rest b) \<longrightarrow> bytes' = take sz (br_rest rest b)" by blast
    show ?thesis
    proof (cases "sz \<le> length (br_rest rest b)")
      case True
      then have b: "bytes' = take sz (br_rest rest b)" "length bytes' = sz" using f(4) by auto
      let ?bs = "bytes' @ replicate (?n - sz) 0"
      have "sz \<le> length ?bs" "LENGTH('a) = 8 * length ?bs" using 4 b assms(3) by auto
      from vint_value[OF 4(1) this, of le] f(1-3) 4 b True f0 show ?thesis
        by (simp add: read_vint_fast_def buf_get_bytes_def exact_vint_def exact_read_def)
    next
      case False
      then show ?thesis using f(1-3) 4 f0
        by (simp add: read_vint_fast_def buf_get_bytes_def exact_vint_def exact_read_def)
    qed
  qed (use assms(2) in \<open>auto simp: read_vint_fast_def exact_vint_def\<close>)
qed

end

section \<open>Properties\<close>

lemma seq_infallible: "infallible seq_read"
  by (simp add: infallible_def seq_never_fails)



text \<open>A variable length integer read off a stream is the value, in the asked byte order, of the next bytes, which are
  consumed; \<open>None\<close> means the end of the stream, a shorter rest is \<open>UnexpectedEof\<close>, and a length beyond the type
  panics.\<close>

theorem read_vint_decodes:
  assumes "byte_stream rd rest ok" "infallible rd" "ok s" "LENGTH('a) = 8 * size_of TYPE('a::len)"
  shows "\<exists>s'. (read_vint rd (\<lambda>_. False) sz le s :: ((error_kind, 'a word option) outcome \<times> 's) option) =
      Some (exact_vint sz le (rest s), s') \<and> ok s' \<and>
    rest s' = (if sz \<le> size_of TYPE('a) then drop sz (rest s) else rest s)"
  by (rule byte_stream.read_vint_exact[OF assms])

theorem read_vint_decodes_witness:
  "\<exists>s'. read_vint seq_read (\<lambda>_. False) 2 False (1, 9) = Some (Ok (Some (258 :: 32 word)), s')"
proof -
  have ok: "seq_ok (1, 9)" by (simp add: seq_ok_def)
  have z: "LENGTH(32) = 8 * size_of TYPE(32)" by (simp add: size_of_def)
  have e: "exact_vint 2 False (seq_rest (1, 9)) = (Ok (Some 258) :: (error_kind, 32 word option) outcome)"
    by (simp add: exact_vint_def exact_read_def size_of_def seq_rest_def from_bytes_def upt_rec)
  from read_vint_decodes[OF seq.byte_stream_axioms seq_infallible ok z, of 2 False, unfolded e] show ?thesis by blast
qed



text \<open>\<open>write_type\<close> writes with \<open>try_write_all\<close>: a writer with room for part of the number makes it return \<open>Ok\<close> with
  the short count, not an error.\<close>

theorem write_num_can_be_short:
  "write_num ub_write (\<lambda>_. False) True (1 :: 32 word) (ub_new 3) = Some (Ok 3, \<lparr>ub_size = 3, ub_filled = [1, 0, 0]\<rparr>)"
  by code_simp

end
