(* ===== verification/Error_Values.thy ===== *)
theory Error_Values
  imports Error_Codes
begin

text \<open>
  The error value of the crate behind its tagged pointer: \<open>src/src/error/mod.rs\<close> with the boxed custom and
  context errors of \<open>src/src/error/repr/\<close>, the messages of \<open>src/src/os/error.rs\<close>, and the conversions from
  and to the standard library's \<open>io::Error\<close>. The virtual tables become functions by cases on the
  constructor that installed them. A captured backtrace is an input, its printed form or \<open>None\<close>.
\<close>

section \<open>Messages of the OS errors\<close>

definition os_strings_1 :: "(int \<times> string) list" where
  "os_strings_1 = [
     (- 1, ''Unknown error''), (0, ''Success''), (1, ''Operation not permitted''),
     (2, ''No such file or directory''), (3, ''No such process''),
     (4, ''Interrupted system call''), (5, ''Input/output error''),
     (6, ''No such device or address''), (7, ''Argument list too long''),
     (8, ''Exec format error''), (9, ''Bad file descriptor''), (10, ''No child processes''),
     (11, ''Resource temporarily unavailable''), (12, ''Cannot allocate memory''),
     (13, ''Permission denied''), (14, ''Bad address''), (15, ''Block device required''),
     (16, ''Device or resource busy''), (17, ''File exists''),
     (18, ''Invalid cross-device link''), (19, ''No such device''), (20, ''Not a directory''),
     (21, ''Is a directory''), (22, ''Invalid argument''),
     (23, ''Too many open files in system''), (24, ''Too many open files''),
     (25, ''Inappropriate ioctl for device''), (26, ''Text file busy''),
     (27, ''File too large''), (28, ''No space left on device''), (29, ''Illegal seek''),
     (30, ''Read-only file system''), (31, ''Too many links''), (32, ''Broken pipe''),
     (33, ''Numerical argument out of domain''), (34, ''Numerical result out of range''),
     (35, ''Resource deadlock avoided''), (36, ''File name too long''),
     (37, ''No locks available''), (38, ''Not implemented''), (39, ''Directory not empty''),
     (40, ''Too many levels of symbolic links''), (42, ''No message of desired type''),
     (43, ''Identifier removed''), (44, ''Channel number out of range'')]"

definition os_strings_2 :: "(int \<times> string) list" where
  "os_strings_2 = [
     (45, ''Level 2 not synchronized''), (46, ''Level 3 halted''), (47, ''Level 3 reset''),
     (48, ''Link number out of range''), (49, ''Protocol driver not attached''),
     (50, ''No CSI structure available''), (51, ''Level 2 halted''), (52, ''Invalid exchange''),
     (53, ''Invalid request descriptor''), (54, ''Exchange full''), (55, ''No anode''),
     (56, ''Invalid request code''), (57, ''Invalid slot''), (59, ''Bad font file format''),
     (60, ''Device not a stream''), (61, ''No data available''), (62, ''Timer expired''),
     (63, ''Out of streams resources''), (64, ''Machine is not on the network''),
     (65, ''Package not installed''), (66, ''Object is remote''),
     (67, ''Link has been severed''), (68, ''Advertise error''), (69, ''Srmount error''),
     (70, ''Communication error on send''), (71, ''Protocol error''),
     (72, ''Multihop attempted''), (73, ''RFS specific error''), (74, ''Bad message''),
     (75, ''Value too large for defined data type''), (76, ''Name not unique on network''),
     (77, ''File descriptor in bad state''), (78, ''Remote address changed''),
     (79, ''Can not access a needed shared library''),
     (80, ''Accessing a corrupted shared library''), (81, ''.lib section in a.out corrupted''),
     (82, ''Attempting to link in too many shared libraries''),
     (83, ''Cannot exec a shared library directly''),
     (84, ''Invalid or incomplete multibyte or wide character''),
     (85, ''Interrupted system call should be restarted''), (86, ''Streams pipe error''),
     (87, ''Too many users''), (88, ''Socket operation on non-socket''),
     (89, ''Destination address required''), (90, ''Message too long'')]"

definition os_strings_3 :: "(int \<times> string) list" where
  "os_strings_3 = [
     (91, ''Protocol wrong type for socket''), (92, ''Protocol not available''),
     (93, ''Protocol not supported''), (94, ''Socket type not supported''),
     (95, ''Operation not supported''), (96, ''Protocol family not supported''),
     (97, ''Address family not supported by protocol''), (98, ''Address already in use''),
     (99, ''Cannot assign requested address''), (100, ''Network is down''),
     (101, ''Network is unreachable''), (102, ''Network dropped connection on reset''),
     (103, ''Software caused connection abort''), (104, ''Connection reset by peer''),
     (105, ''No buffer space available''), (106, ''Transport endpoint is already connected''),
     (107, ''Transport endpoint is not connected''),
     (108, ''Cannot send after transport endpoint shutdown''),
     (109, ''Too many references: cannot splice''), (110, ''Connection timed out''),
     (111, ''Connection refused''), (112, ''Host is down''), (113, ''No route to host''),
     (114, ''Operation already in progress''), (115, ''Operation now in progress''),
     (116, ''Stale file handle''), (117, ''Structure needs cleaning''),
     (118, ''Not a XENIX named type file''), (119, ''No XENIX semaphores available''),
     (120, ''Is a named type file''), (121, ''Remote I/O error''),
     (122, ''Disk quota exceeded''), (123, ''No medium found''), (124, ''Wrong medium type''),
     (125, ''Operation canceled''), (126, ''Required key not available''),
     (127, ''Key has expired''), (128, ''Key has been revoked''),
     (129, ''Key was rejected by service''), (130, ''Owner died''),
     (131, ''State not recoverable''), (132, ''Operation not possible due to RF-kill''),
     (133, ''Memory page has hardware error'')]"

definition os_as_str :: "os_error \<Rightarrow> string" where
  "os_as_str e = the (map_of (os_strings_1 @ os_strings_2 @ os_strings_3) (os_code e))"

section \<open>Error values\<close>

text \<open>
  The value \<open>E\<close> inside a custom error: its type id, its contents, what its own \<open>Display\<close>, \<open>ErrorImpl::kind\<close>
  and \<open>Error::source\<close> chain give. \<open>Basic\<close>, \<open>Std\<close> and \<open>Boxed\<close> are the wrappers \<open>new_basic\<close>, \<open>new_std\<close> and
  \<open>new_boxed\<close> put around the value; \<open>Impl\<close> is a bare value from \<open>new_error_impl\<close>.
\<close>

record payload =
  pl_type :: string
  pl_value :: string
  pl_display :: string
  pl_kind :: error_kind
  pl_sources :: "string list"

datatype wrapper = Basic | Std | Boxed | Impl

record simple_message =
  msg_kind :: error_kind
  msg_text :: string

datatype err =
    EOs os_error
  | ESimple error_kind
  | EMessage simple_message
  | ECustom wrapper payload "error_kind option" "string option"
  | EContext string err "string option"

text \<open>\<open>Backtrace::capture\<close> gives a status and a backtrace, which is kept only when it was captured.\<close>

datatype bt_status = BtUnsupported | BtDisabled | BtCaptured

definition capture_backtrace :: "bt_status \<times> string \<Rightarrow> string option" where
  "capture_backtrace c = (if fst c \<noteq> BtCaptured then None else Some (snd c))"

text \<open>The constructors; \<open>bt\<close> is the result of \<open>capture_backtrace\<close>.\<close>

definition new_basic :: "payload \<Rightarrow> error_kind option \<Rightarrow> string option \<Rightarrow> err" where
  "new_basic p k bt = ECustom Basic p k bt"

definition new_std :: "payload \<Rightarrow> error_kind option \<Rightarrow> string option \<Rightarrow> err" where
  "new_std p k bt = ECustom Std p k bt"

definition new_boxed :: "payload \<Rightarrow> error_kind option \<Rightarrow> string option \<Rightarrow> err" where
  "new_boxed p k bt = ECustom Boxed p k bt"

definition new_error_impl :: "payload \<Rightarrow> error_kind option \<Rightarrow> string option \<Rightarrow> err" where
  "new_error_impl p k bt = ECustom Impl p k bt"

definition err_message :: "payload \<Rightarrow> string option \<Rightarrow> err" where
  "err_message p bt = new_basic p None bt"

text \<open>\<open>fmt::Arguments\<close> without placeholders is its literal, otherwise it is formatted to a string.\<close>

definition err_from_arguments :: "string option \<Rightarrow> string \<Rightarrow> string option \<Rightarrow> err" where
  "err_from_arguments as_str formatted bt =
     (case as_str of
        Some s \<Rightarrow> err_message \<lparr>pl_type = ''&str'', pl_value = s, pl_display = s, pl_kind = Other, pl_sources = []\<rparr> bt
      | None \<Rightarrow> err_message \<lparr>pl_type = ''String'', pl_value = formatted, pl_display = formatted, pl_kind = Other,
                 pl_sources = []\<rparr> bt)"

definition err_new :: "payload \<Rightarrow> string option \<Rightarrow> err" where
  "err_new p bt = new_std p None bt"

definition impl_into_error :: "payload \<Rightarrow> string option \<Rightarrow> err" where
  "impl_into_error p bt = new_error_impl p None bt"

definition from_boxed :: "payload \<Rightarrow> string option \<Rightarrow> err" where
  "from_boxed p bt = new_boxed p None bt"

section \<open>What an error answers\<close>

text \<open>The \<open>kind\<close> entry of the virtual table: the three wrappers install \<open>|_| ErrorKind::Other\<close>.\<close>

definition vtable_kind :: "wrapper \<Rightarrow> payload \<Rightarrow> error_kind" where
  "vtable_kind w p = (case w of Impl \<Rightarrow> pl_kind p | _ \<Rightarrow> Other)"

primrec err_kind :: "err \<Rightarrow> error_kind" where
  "err_kind (EOs e) = kind_of_os e"
| "err_kind (ESimple k) = k"
| "err_kind (EMessage m) = msg_kind m"
| "err_kind (ECustom w p k bt) = vtable_kind w p"
| "err_kind (EContext c e bt) = err_kind e"

definition err_os_error :: "err \<Rightarrow> os_error option" where
  "err_os_error e = (case e of EOs os \<Rightarrow> Some os | _ \<Rightarrow> None)"

definition err_is_interrupted :: "err \<Rightarrow> bool" where
  "err_is_interrupted e = (err_kind e = Interrupted)"

primrec err_backtrace :: "err \<Rightarrow> string option" where
  "err_backtrace (EOs os) = None"
| "err_backtrace (ESimple k) = None"
| "err_backtrace (EMessage m) = None"
| "err_backtrace (ECustom w p k bt) = bt"
| "err_backtrace (EContext c e bt) = (case bt of Some b \<Rightarrow> Some b | None \<Rightarrow> err_backtrace e)"

definition err_context :: "string option \<Rightarrow> err \<Rightarrow> string \<Rightarrow> err" where
  "err_context captured e c = EContext c e (if err_backtrace e \<noteq> None then None else captured)"

definition with_context :: "string option \<Rightarrow> err + 'a \<Rightarrow> (unit \<Rightarrow> string) \<Rightarrow> err + 'a" where
  "with_context captured r context =
     (case r of Inr x \<Rightarrow> Inr x | Inl e \<Rightarrow> Inl (err_context captured e (context ())))"

section \<open>Downcasts\<close>

text \<open>The type a custom error downcasts to: for a boxed error that is the box's type, not the content's.\<close>

definition BOXED_ERROR :: string where
  "BOXED_ERROR = ''Box<dyn Error + Send + Sync>''"

definition custom_type :: "wrapper \<Rightarrow> payload \<Rightarrow> string" where
  "custom_type w p = (case w of Boxed \<Rightarrow> BOXED_ERROR | _ \<Rightarrow> pl_type p)"

definition custom_downcast_ptr :: "wrapper \<Rightarrow> payload \<Rightarrow> string \<Rightarrow> payload option" where
  "custom_downcast_ptr w p type_id = (if type_id \<noteq> custom_type w p then None else Some p)"

definition custom_downcast_owned :: "wrapper \<Rightarrow> payload \<Rightarrow> string \<Rightarrow> bool \<times> payload option" where
  "custom_downcast_owned w p type_id = (if type_id \<noteq> custom_type w p then (False, None) else (True, Some p))"

primrec downcast_ref :: "err \<Rightarrow> string \<Rightarrow> payload option" where
  "downcast_ref (EOs os) type_id = None"
| "downcast_ref (ESimple k) type_id = None"
| "downcast_ref (EMessage m) type_id = None"
| "downcast_ref (ECustom w p k bt) type_id = custom_downcast_ptr w p type_id"
| "downcast_ref (EContext c e bt) type_id = downcast_ref e type_id"

text \<open>
  \<open>downcast_owned\<close> returns whether it moved the value out, and the value; the context's version asks the
  error it holds. \<open>downcast\<close> gives the error back, decoded and encoded again, when nothing was moved.
\<close>

primrec downcast_owned :: "err \<Rightarrow> string \<Rightarrow> bool \<times> payload option" where
  "downcast_owned (EOs os) type_id = (False, None)"
| "downcast_owned (ESimple k) type_id = (False, None)"
| "downcast_owned (EMessage m) type_id = (False, None)"
| "downcast_owned (ECustom w p k bt) type_id = custom_downcast_owned w p type_id"
| "downcast_owned (EContext c e bt) type_id =
     (case downcast_owned e type_id of (moved, out) \<Rightarrow> if \<not> moved then (False, None) else (True, out))"

definition err_downcast :: "err \<Rightarrow> string \<Rightarrow> err + payload" where
  "err_downcast e type_id =
     (case e of EOs _ \<Rightarrow> Inl e | ESimple _ \<Rightarrow> Inl e | EMessage _ \<Rightarrow> Inl e
      | _ \<Rightarrow> (case downcast_owned e type_id of (True, Some p) \<Rightarrow> Inr p | _ \<Rightarrow> Inl e))"

text \<open>The three comparisons.\<close>

definition err_eq_value :: "err \<Rightarrow> payload \<Rightarrow> bool" where
  "err_eq_value e p = (downcast_ref e (pl_type p) = Some p)"

definition err_eq_os :: "err \<Rightarrow> os_error \<Rightarrow> bool" where
  "err_eq_os e os = (err_os_error e = Some os)"

definition err_eq_kind :: "err \<Rightarrow> error_kind \<Rightarrow> bool" where
  "err_eq_kind e k = (err_kind e = k)"

section \<open>Printing\<close>

definition digit :: "nat \<Rightarrow> char" where
  "digit d = char_of (48 + d)"

fun show_nat :: "nat \<Rightarrow> string" where
  "show_nat n = (if n < 10 then [digit n] else show_nat (n div 10) @ [digit (n mod 10)])"

definition show_int :: "int \<Rightarrow> string" where
  "show_int i = (if i < 0 then ''-'' @ show_nat (nat (- i)) else show_nat (nat i))"

definition os_display :: "os_error \<Rightarrow> string" where
  "os_display e = os_as_str e @ '' (os error '' @ show_int (os_code e) @ '')''"

text \<open>
  \<open>Display\<close> without the alternate flag. The displays of the value inside an error and of a context are
  taken to ignore the flags of the formatter, as those of strings and derived errors do.
\<close>

definition err_display :: "err \<Rightarrow> string" where
  "err_display e =
     (case e of EOs os \<Rightarrow> os_display os | ESimple k \<Rightarrow> kind_as_str k | EMessage m \<Rightarrow> msg_text m
      | ECustom w p k bt \<Rightarrow> pl_display p | EContext c e bt \<Rightarrow> c)"

text \<open>The displays along the chain of \<open>source\<close>; only \<open>Basic\<close> hides the sources of its value.\<close>

definition custom_sources :: "wrapper \<Rightarrow> payload \<Rightarrow> string list" where
  "custom_sources w p = (case w of Basic \<Rightarrow> [] | _ \<Rightarrow> pl_sources p)"

primrec err_sources :: "err \<Rightarrow> string list" where
  "err_sources (EOs os) = []"
| "err_sources (ESimple k) = []"
| "err_sources (EMessage m) = []"
| "err_sources (ECustom w p k bt) = custom_sources w p"
| "err_sources (EContext c e bt) = err_display e # err_sources e"

definition causes_display :: "string list \<Rightarrow> string" where
  "causes_display sources = concat (map (\<lambda>s. '': '' @ s) sources)"

definition err_display_alternate :: "err \<Rightarrow> string" where
  "err_display_alternate e = err_display e @ causes_display (err_sources e)"

definition newline :: string where
  "newline = [CHR 0x0A]"

definition pad4 :: "string \<Rightarrow> string" where
  "pad4 s = replicate (4 - length s) (CHR 0x20) @ s"

primrec causes_lines :: "nat \<Rightarrow> string list \<Rightarrow> string" where
  "causes_lines count [] = []"
| "causes_lines count (s # source) =
     newline @ pad4 (show_nat count) @ '': '' @ s @ causes_lines (Suc count) source"

definition causes_debug :: "string list \<Rightarrow> string" where
  "causes_debug sources = newline @ newline @ ''Caused by:'' @ causes_lines 0 sources"

definition custom_debug :: "err \<Rightarrow> string" where
  "custom_debug e =
     err_display e @
     (if err_sources e = [] then [] else causes_debug (err_sources e)) @
     (case err_backtrace e of None \<Rightarrow> [] | Some bt \<Rightarrow> newline @ newline @ ''Back trace:'' @ newline @ bt)"

section \<open>Common errors\<close>

definition INVALID_UTF8 :: simple_message where
  "INVALID_UTF8 = \<lparr>msg_kind = InvalidData, msg_text = ''Processed invalid UTF-8''\<rparr>"

definition NO_ADDRESSES :: simple_message where
  "NO_ADDRESSES = \<lparr>msg_kind = NoData, msg_text = ''Address list empty''\<rparr>"

definition INVALID_CSTR :: simple_message where
  "INVALID_CSTR = \<lparr>msg_kind = InvalidInput, msg_text = ''Path string contained a null byte''\<rparr>"

definition CONNECT_TIMEOUT :: simple_message where
  "CONNECT_TIMEOUT = \<lparr>msg_kind = TimedOut, msg_text = ''Connect timed out''\<rparr>"

definition err_from_utf8_error :: err where
  "err_from_utf8_error = EMessage INVALID_UTF8"

definition err_from_nul_error :: err where
  "err_from_nul_error = EMessage INVALID_CSTR"

section \<open>The standard library's errors\<close>

text \<open>
  \<open>io::ErrorKind\<close> is not exhaustive: \<open>IoRest\<close> stands for \<open>Other\<close> and every kind the conversion has no
  branch for. An \<open>io::Error\<close> holds a raw code, or a kind alone with its description, or a kind and a
  boxed error, which is an error of this crate or another value.
\<close>

datatype io_kind =
    IoNotFound | IoPermissionDenied | IoConnectionRefused | IoConnectionReset | IoConnectionAborted |
    IoNotConnected | IoAddrInUse | IoAddrNotAvailable | IoBrokenPipe | IoAlreadyExists | IoWouldBlock |
    IoInvalidInput | IoInvalidData | IoTimedOut | IoWriteZero | IoInterrupted | IoUnsupported |
    IoUnexpectedEof | IoOutOfMemory | IoRest

fun kind_of_io :: "io_kind \<Rightarrow> error_kind" where
  "kind_of_io IoNotFound = NotFound"
| "kind_of_io IoPermissionDenied = PermissionDenied"
| "kind_of_io IoConnectionRefused = ConnectionRefused"
| "kind_of_io IoConnectionReset = ConnectionReset"
| "kind_of_io IoConnectionAborted = ConnectionAborted"
| "kind_of_io IoNotConnected = NotConnected"
| "kind_of_io IoAddrInUse = AddrInUse"
| "kind_of_io IoAddrNotAvailable = AddrNotAvailable"
| "kind_of_io IoBrokenPipe = BrokenPipe"
| "kind_of_io IoAlreadyExists = AlreadyExists"
| "kind_of_io IoWouldBlock = WouldBlock"
| "kind_of_io IoInvalidInput = InvalidInput"
| "kind_of_io IoInvalidData = InvalidData"
| "kind_of_io IoTimedOut = TimedOut"
| "kind_of_io IoWriteZero = WriteZero"
| "kind_of_io IoInterrupted = Interrupted"
| "kind_of_io IoUnsupported = Unsupported"
| "kind_of_io IoUnexpectedEof = UnexpectedEof"
| "kind_of_io IoOutOfMemory = OutOfMemory"
| "kind_of_io IoRest = Other"

datatype io_inner = InnerError err | InnerValue payload

datatype io_error = IoOs int | IoSimple io_kind string | IoCustom io_kind io_inner

definition IO_ERROR :: string where
  "IO_ERROR = ''io::Error''"

definition io_into_error :: "string option \<Rightarrow> io_error \<Rightarrow> err" where
  "io_into_error captured e =
     (case e of
        IoOs code \<Rightarrow> EOs (os_from code)
      | IoCustom k inner \<Rightarrow>
          (case (inner, kind_of_io k) of
             (InnerError err, _) \<Rightarrow> err
           | (InnerValue boxed, Other) \<Rightarrow> new_boxed boxed None captured
           | (InnerValue boxed, kind) \<Rightarrow> new_boxed boxed (Some kind) captured)
      | IoSimple k text \<Rightarrow>
          new_error_impl
            \<lparr>pl_type = IO_ERROR, pl_value = text, pl_display = text, pl_kind = kind_of_io k, pl_sources = []\<rparr>
            None captured)"

definition error_into_io :: "err \<Rightarrow> io_error" where
  "error_into_io e =
     (case err_os_error e of
        Some os \<Rightarrow> IoOs (os_code os)
      | None \<Rightarrow> IoCustom IoRest (InnerError e))"

section \<open>Lemmas\<close>

declare show_nat.simps [simp del]

text \<open>Every error whose OS code is one of the enum, as all constructed ones are.\<close>

definition err_ok :: "err \<Rightarrow> bool" where
  "err_ok e = (case e of EOs os \<Rightarrow> os_code os \<in> set (map snd os_error_table) | _ \<Rightarrow> True)"

definition add_contexts :: "string option \<Rightarrow> err \<Rightarrow> string list \<Rightarrow> err" where
  "add_contexts captured e cs = foldl (err_context captured) e cs"

lemma os_from_code: "os_code os \<in> set (map snd os_error_table) \<Longrightarrow> os_from (os_code os) = os"
  by (simp add: os_from_def os_from_i32_def)

lemma os_from_table: "os_code (os_from c) \<in> set (map snd os_error_table)"
proof -
  have "os_code (os_named ''Unknown'') \<in> set (map snd os_error_table)"
    by (simp add: os_named_def os_error_table_def)
  then show ?thesis by (auto simp: os_from_def os_from_i32_def)
qed

lemma err_ok_os: "err_ok (EOs (os_from c))"
  using os_from_table by (simp add: err_ok_def)

lemma os_from_ok: "decode_repr (repr_new (DataOs (os_from c))) = Some (DataOs (os_from c))"
  using decode_os[OF os_from_table] by (simp add: repr_new_def)

lemma err_context_ok: "err_ok (err_context bt x t)"
  by (simp add: err_ok_def err_context_def)

lemma downcast_owned_ref:
  "downcast_owned e t = (case downcast_ref e t of None \<Rightarrow> (False, None) | Some p \<Rightarrow> (True, Some p))"
  by (induction e) (auto simp: custom_downcast_ptr_def custom_downcast_owned_def split: option.splits)

lemma downcast_by_ref: "err_downcast e t = (case downcast_ref e t of None \<Rightarrow> Inl e | Some p \<Rightarrow> Inr p)"
  by (cases e) (auto simp: err_downcast_def downcast_owned_ref split: option.splits)

lemma add_contexts_snoc: "add_contexts bt e (cs @ [c]) = err_context bt (add_contexts bt e cs) c"
  by (simp add: add_contexts_def)

lemma add_contexts_simps [simp]: "add_contexts bt e [] = e"
  by (simp add: add_contexts_def)

lemma contexts_kind: "err_kind (add_contexts bt e cs) = err_kind e"
  by (induction cs rule: rev_induct) (simp_all add: add_contexts_snoc err_context_def)

lemma contexts_downcast: "downcast_ref (add_contexts bt e cs) t = downcast_ref e t"
  by (induction cs rule: rev_induct) (simp_all add: add_contexts_snoc err_context_def)

lemma contexts_backtrace:
  "err_backtrace (add_contexts bt e cs) =
     (if err_backtrace e = None \<and> cs \<noteq> [] then bt else err_backtrace e)"
  by (induction cs rule: rev_induct)
    (auto simp: add_contexts_snoc err_context_def split: option.splits)

text \<open>A context hides the OS code, so that comparing with an \<open>OsError\<close> fails although the kind is kept.\<close>

lemma context_hides_os_error:
  "err_os_error (err_context bt e c) = None \<and> \<not> err_eq_os (err_context bt e c) os \<and>
   err_eq_kind (err_context bt e c) k = err_eq_kind e k"
  by (simp add: err_context_def err_os_error_def err_eq_os_def err_eq_kind_def)

lemma contexts_sources:
  "err_display (add_contexts bt e cs) # err_sources (add_contexts bt e cs) =
     rev cs @ err_display e # err_sources e"
proof (induction cs rule: rev_induct)
  case (snoc c cs)
  have "err_sources (err_context bt x c) = err_display x # err_sources x" for x
    by (simp add: err_context_def)
  moreover have "err_display (err_context bt x c) = c" for x
    by (simp add: err_context_def err_display_def)
  ultimately show ?case using snoc by (simp add: add_contexts_snoc)
qed simp

lemma display_alternate_sources:
  "'': '' @ err_display_alternate e = causes_display (err_display e # err_sources e)"
  by (simp add: err_display_alternate_def causes_display_def)

text \<open>Every OS error has a message, and no two codes share an entry.\<close>

lemma os_strings_cover:
  "map fst (os_strings_1 @ os_strings_2 @ os_strings_3) = map snd os_error_table"
  by (simp add: os_strings_1_def os_strings_2_def os_strings_3_def os_error_table_def)

lemma os_messages:
  "os_display (OsError 2) = ''No such file or directory (os error 2)''"
  "os_display (OsError (- 1)) = ''Unknown error (os error -1)''"
  by code_simp+

section \<open>Properties\<close>

text \<open>Any number of contexts added to an error leave its kind, what it downcasts to by reference and by
  value, and its backtrace as they were; a backtrace is captured only when the error has none. The alternate
  display prints the contexts from the last added to the first, then the error and its sources.\<close>

theorem contexts_keep_the_error:
  "err_kind (add_contexts bt e cs) = err_kind e \<and>
   downcast_ref (add_contexts bt e cs) t = downcast_ref e t \<and>
   err_downcast (add_contexts bt e cs) t =
     (case downcast_ref e t of None \<Rightarrow> Inl (add_contexts bt e cs) | Some p \<Rightarrow> Inr p) \<and>
   err_backtrace (add_contexts bt e cs) =
     (if err_backtrace e = None \<and> cs \<noteq> [] then bt else err_backtrace e) \<and>
   '': '' @ err_display_alternate (add_contexts bt e cs) =
     causes_display (rev cs @ err_display e # err_sources e)"
  by (simp add: contexts_kind contexts_downcast contexts_backtrace downcast_by_ref
      display_alternate_sources contexts_sources del: append.simps)

text \<open>An error converted to the standard library's \<open>io::Error\<close> and back is the same error: OS errors
  travel as their raw code, every other error as a boxed value that is unboxed again.\<close>

theorem io_error_round_trip: "err_ok e \<Longrightarrow> io_into_error bt (error_into_io e) = e"
  by (cases e)
    (auto simp: err_ok_def error_into_io_def io_into_error_def err_os_error_def os_from_code)

theorem io_error_round_trip_witness:
  "io_into_error None (error_into_io (EOs (OsError 4))) = EOs (OsError 4)"
  by (rule io_error_round_trip) (simp add: err_ok_def os_error_table_def)


text \<open>A raw code the enum does not name is lost: it comes back as \<open>Unknown\<close>.\<close>

lemma raw_code_round_trip:
  "error_into_io (io_into_error bt (IoOs code)) =
     IoOs (if code \<in> set (map snd os_error_table) then code else - 1)"
  by (simp add: error_into_io_def io_into_error_def err_os_error_def os_from_def os_from_i32_def
      os_named_def) (simp add: os_error_table_def)

text \<open>
  An \<open>io::Error\<close> that holds a foreign error keeps its kind in the custom error's field, but the virtual
  table installed by \<open>new_boxed\<close> answers \<open>Other\<close>: the kind is lost.
\<close>

lemma io_kind_is_lost:
  "err_kind (io_into_error bt (IoCustom k (InnerValue p))) = Other"
  "err_kind (io_into_error bt (IoSimple k text)) = kind_of_io k"
  by (auto simp: io_into_error_def new_boxed_def new_error_impl_def vtable_kind_def
      split: error_kind.splits)

end
