(* ===== verification/Os_Data.thy ===== *)
theory Os_Data
  imports Typed_Io Error_Values
begin

text \<open>
  Plain data exchanged with the operating system: times (\<open>src/src/os/time.rs\<close>), open flags
  (\<open>src/src/os/fcntl.rs\<close>), paths as C strings (\<open>src/src/os/mod.rs\<close>) and socket addresses
  (\<open>src/src/os/inet.rs\<close>, with the address families of \<open>src/src/os/socket.rs\<close>). Signed integers are words read
  with \<open>sint\<close>; \<open>u128\<close> is a word of 128 bits. Structures with a C layout are also given as their bytes, on the
  little endian machines the crate supports.
\<close>

section \<open>Times\<close>

record time_spec =
  ts_sec :: "64 word"
  ts_nanos :: "64 word"

text \<open>The standard library's \<open>Duration\<close>: seconds and less than a second in nanoseconds.\<close>

record duration =
  dur_secs :: u64
  dur_nanos :: u32

definition duration_ok :: "duration \<Rightarrow> bool" where
  "duration_ok d = (dur_nanos d < 1000000000)"

definition ts_indefinite :: time_spec where
  "ts_indefinite = \<lparr>ts_sec = - 1, ts_nanos = - 1\<rparr>"

definition ts_zero :: time_spec where
  "ts_zero = \<lparr>ts_sec = 0, ts_nanos = 0\<rparr>"

definition from_ms :: "u64 \<Rightarrow> time_spec" where
  "from_ms ms =
     (let subsec_millis = ms mod 1000
      in \<lparr>ts_sec = ms div 1000, ts_nanos = subsec_millis * 1000000\<rparr>)"

definition from_nanos :: "u64 \<Rightarrow> time_spec" where
  "from_nanos d = \<lparr>ts_sec = d div 1000000000, ts_nanos = d mod 1000000000\<rparr>"

text \<open>The conversion of the seconds is unwrapped: it panics from \<open>2 ^ 63\<close> seconds on.\<close>

definition from_duration :: "duration \<Rightarrow> (unit, time_spec) outcome" where
  "from_duration d =
     (if dur_secs d < 2 ^ 63 then Ok \<lparr>ts_sec = dur_secs d, ts_nanos = ucast (dur_nanos d)\<rparr> else Panic)"

definition i64_to_u128 :: "64 word \<Rightarrow> 128 word option" where
  "i64_to_u128 x = (if 0 \<le> sint x then Some (ucast x) else None)"

definition try_as_nanos :: "time_spec \<Rightarrow> 128 word option" where
  "try_as_nanos ts =
     (case i64_to_u128 (ts_sec ts) of
        None \<Rightarrow> None
      | Some sec \<Rightarrow>
          (case i64_to_u128 (ts_nanos ts) of
             None \<Rightarrow> None
           | Some nanos \<Rightarrow> Some (nanos + sec * 1000000000)))"

definition as_nanos :: "time_spec \<Rightarrow> (unit, 128 word) outcome" where
  "as_nanos ts = (case try_as_nanos ts of Some n \<Rightarrow> Ok n | None \<Rightarrow> Panic)"

text \<open>\<open>clock_gettime\<close> gives its result, the error code of the thread, and the time it stored.\<close>

definition clock_time :: "usize \<Rightarrow> int \<Rightarrow> time_spec \<Rightarrow> (os_error, time_spec) outcome" where
  "clock_time result errno ts =
     (case result_from_libc errno result of Ok _ \<Rightarrow> Ok ts | Err e \<Rightarrow> Err e | Panic \<Rightarrow> Panic)"

definition nanotime :: "usize \<Rightarrow> int \<Rightarrow> time_spec \<Rightarrow> (os_error, u64) outcome" where
  "nanotime result errno stored =
     (case clock_time result errno stored of
        Ok ts \<Rightarrow>
          (case try_as_nanos ts of
             Some nanos \<Rightarrow> if nanos < 2 ^ 64 then Ok (ucast nanos) else Panic
           | None \<Rightarrow> Panic)
      | Err e \<Rightarrow> Err e
      | Panic \<Rightarrow> Panic)"

section \<open>Open flags\<close>

definition WriteOnly :: u32 where "WriteOnly = push_bit 0 1"
definition ReadWrite :: u32 where "ReadWrite = push_bit 1 1"
definition AccMode :: u32 where "AccMode = 0x03"
definition ReadOnly :: u32 where "ReadOnly = 0x00"
definition DirectoryFlag :: u32 where "DirectoryFlag = push_bit 16 1"
definition TempFile :: u32 where "TempFile = 0x00400000 OR DirectoryFlag"

text \<open>The bits the enum declares, and \<open>BitFlags::from_bits\<close>, which refuses any other bit.\<close>

definition open_flag_bits :: "nat list" where
  "open_flag_bits = [0, 1, 6, 7, 8, 9, 10, 11, 12, 13, 14, 15, 16, 17, 18, 19, 21]"

definition open_flag_all :: u32 where
  "open_flag_all = fold (\<lambda>b acc. acc OR push_bit b 1) open_flag_bits 0"

definition open_from_bits :: "u32 \<Rightarrow> u32 option" where
  "open_from_bits bits = (if bits AND NOT open_flag_all = 0 then Some bits else None)"

definition access_mode :: "u32 \<Rightarrow> (unit, u32) outcome" where
  "access_mode flags = (case open_from_bits AccMode of Some m \<Rightarrow> Ok (flags AND m) | None \<Rightarrow> Panic)"

definition access_flags :: "u32 \<Rightarrow> bool \<Rightarrow> bool \<Rightarrow> (unit, u32) outcome" where
  "access_flags flags rd wr =
     (case access_mode flags of
        Ok m \<Rightarrow>
          (let flags1 = flags AND NOT m
           in Ok (if wr then (let flags2 = flags1 OR WriteOnly in if rd then flags2 OR ReadWrite else flags2)
                  else flags1))
      | Err e \<Rightarrow> Err e
      | Panic \<Rightarrow> Panic)"

definition temporary_flags :: "u32 \<Rightarrow> (unit, u32) outcome" where
  "temporary_flags flags = (case open_from_bits TempFile of Some m \<Rightarrow> Ok (flags OR m) | None \<Rightarrow> Panic)"

section \<open>Paths\<close>

text \<open>\<open>CString::new\<close> and \<open>CStr::from_bytes_with_nul\<close> of the standard library; a C string is its bytes without
  the terminator.\<close>

definition cstring_new :: "byte list \<Rightarrow> byte list option" where
  "cstring_new bytes = (if 0 \<in> set bytes then None else Some bytes)"

definition cstr_from_bytes_with_nul :: "byte list \<Rightarrow> byte list option" where
  "cstr_from_bytes_with_nul bytes =
     (if bytes \<noteq> [] \<and> last bytes = 0 \<and> 0 \<notin> set (butlast bytes) then Some (butlast bytes) else None)"

definition MAX_STACK_ALLOCATION :: nat where
  "MAX_STACK_ALLOCATION = 384"

definition allocate_cstr :: "byte list \<Rightarrow> (byte list \<Rightarrow> err + 'o) \<Rightarrow> err + 'o" where
  "allocate_cstr bytes func =
     (case cstring_new bytes of None \<Rightarrow> Inl err_from_nul_error | Some str \<Rightarrow> func str)"

definition with_path_as_cstr :: "byte list \<Rightarrow> (byte list \<Rightarrow> err + 'o) \<Rightarrow> err + 'o" where
  "with_path_as_cstr bytes func =
     (if MAX_STACK_ALLOCATION \<le> length bytes then allocate_cstr bytes func
      else
        (let buf = ub_new MAX_STACK_ALLOCATION;
             (n1, buf1) = ub_extend_from_slice buf bytes;
             (n2, buf2) = ub_extend_from_slice buf1 [0]
         in (case cstr_from_bytes_with_nul (ub_filled buf2) of
               None \<Rightarrow> Inl err_from_nul_error
             | Some str \<Rightarrow> func str)))"

section \<open>Socket addresses\<close>

text \<open>The protocol families; the position is the discriminant.\<close>

definition protocol_families :: "string list" where
  "protocol_families = [
     ''Unspec'', ''Local'', ''INet'', ''Ax25'', ''IPx'', ''AppleTalk'', ''NetRom'', ''Bridge'', ''ATMPvc'',
     ''X25'', ''INet6'', ''Rose'', ''DecNet'', ''NetBeui'', ''Security'', ''Key'', ''NetLink'', ''Packet'',
     ''Ash'', ''Econet'', ''ATMSvc'', ''Rds'', ''Sna'', ''Irda'', ''PPPoX'', ''Wanpipe'', ''Llc'', ''Ib'',
     ''Mpls'', ''Can'', ''Tipc'', ''Bluetooth'', ''Iucv'', ''RxRpc'', ''Isdn'', ''Phonet'', ''Ieee802154'',
     ''Caif'', ''Alg'', ''Nfc'', ''Vsock'', ''Kcm'', ''Qipcrtr'', ''Smc'', ''Xdp'', ''Mctp'']"

definition family_code :: "string \<Rightarrow> u16" where
  "family_code name = of_nat (index_of protocol_families name)"

definition family_from_u16 :: "u16 \<Rightarrow> string option" where
  "family_from_u16 c =
     (if unat c < length protocol_families then Some (protocol_families ! unat c) else None)"

text \<open>The protocol numbers, as declared.\<close>

definition ip_protocols :: "(string \<times> nat) list" where
  "ip_protocols = [
     (''Ip'', 1), (''Icmp'', 2), (''Igmp'', 3), (''Ipip'', 4), (''Tcp'', 6), (''Egp'', 8), (''Pup'', 12),
     (''Udp'', 17), (''Idp'', 22), (''Tp'', 29), (''Dccp'', 33), (''Ipv6'', 41), (''Rsvp'', 46), (''Gre'', 47),
     (''Esp'', 50), (''Ah'', 51), (''Mtp'', 92), (''Beetph'', 94), (''Encap'', 98), (''Pim'', 103),
     (''Comp'', 108), (''Sctp'', 132), (''Udplite'', 136), (''Mpls'', 137), (''Ethernet'', 143), (''Raw'', 255),
     (''Mptcp'', 262)]"

definition ip_protocol_from_u32 :: "nat \<Rightarrow> string option" where
  "ip_protocol_from_u32 c = map_option fst (find (\<lambda>(n, k). k = c) ip_protocols)"

record address_v4 =
  a4_family :: u16
  a4_port :: u16
  a4_addr :: "byte list"
  a4_pad :: "byte list"

record address_v6 =
  a6_family :: u16
  a6_port :: u16
  a6_flow_info :: u32
  a6_addr :: "byte list"
  a6_scope_id :: u32

datatype address = AddrV4 address_v4 | AddrV6 address_v6

text \<open>The standard library's \<open>SocketAddr\<close>: address octets, port, flow information and scope id.\<close>

datatype socket_addr = SockV4 "byte list" u16 | SockV6 "byte list" u16 u32 u32

definition to_be_bits :: "'a::len word \<Rightarrow> 'a word" where
  "to_be_bits w = of_nat (from_bytes True (to_bytes False (size_of TYPE('a)) (unat w)))"

definition address_from :: "socket_addr \<Rightarrow> address" where
  "address_from value =
     (case value of
        SockV4 ip port \<Rightarrow>
          AddrV4 \<lparr>a4_family = family_code ''INet'', a4_port = to_be_bits port, a4_addr = ip,
                  a4_pad = replicate 8 0\<rparr>
      | SockV6 ip port flowinfo scope_id \<Rightarrow>
          AddrV6 \<lparr>a6_family = family_code ''INet6'', a6_port = to_be_bits port,
                  a6_flow_info = to_be_bits flowinfo, a6_addr = ip, a6_scope_id = to_be_bits scope_id\<rparr>)"

text \<open>The C layout of the structures, the bytes \<open>bind_addr\<close> and \<open>connect_addr\<close> pass to the kernel.\<close>

definition v4_bytes :: "address_v4 \<Rightarrow> byte list" where
  "v4_bytes a = to_bytes True 2 (unat (a4_family a)) @ to_bytes True 2 (unat (a4_port a)) @ a4_addr a @ a4_pad a"

definition v6_bytes :: "address_v6 \<Rightarrow> byte list" where
  "v6_bytes a =
     to_bytes True 2 (unat (a6_family a)) @ to_bytes True 2 (unat (a6_port a)) @
     to_bytes True 4 (unat (a6_flow_info a)) @ a6_addr a @ to_bytes True 4 (unat (a6_scope_id a))"

definition address_bytes :: "address \<Rightarrow> byte list" where
  "address_bytes a = (case a of AddrV4 v \<Rightarrow> v4_bytes v | AddrV6 v \<Rightarrow> v6_bytes v)"

text \<open>The field of \<open>n\<close> bytes at an offset of a structure, as a number.\<close>

definition field_at :: "byte list \<Rightarrow> nat \<Rightarrow> nat \<Rightarrow> nat" where
  "field_at s offset n = from_bytes True (take n (drop offset s))"

definition v4_of_bytes :: "byte list \<Rightarrow> address_v4" where
  "v4_of_bytes s =
     \<lparr>a4_family = of_nat (field_at s 0 2), a4_port = of_nat (field_at s 2 2), a4_addr = take 4 (drop 4 s),
      a4_pad = take 8 (drop 8 s)\<rparr>"

definition v6_of_bytes :: "byte list \<Rightarrow> address_v6" where
  "v6_of_bytes s =
     \<lparr>a6_family = of_nat (field_at s 0 2), a6_port = of_nat (field_at s 2 2),
      a6_flow_info = of_nat (field_at s 4 4), a6_addr = take 16 (drop 8 s),
      a6_scope_id = of_nat (field_at s 24 4)\<rparr>"

text \<open>An \<open>AddressStorage\<close> is its 128 bytes, reinterpreted by its family.\<close>

definition address_from_storage :: "byte list \<Rightarrow> err + address" where
  "address_from_storage s =
     (case family_from_u16 (of_nat (field_at s 0 2)) of
        Some f \<Rightarrow>
          if f = ''INet'' then Inr (AddrV4 (v4_of_bytes s))
          else if f = ''INet6'' then Inr (AddrV6 (v6_of_bytes s))
          else Inl (ESimple Unimplemented)
      | None \<Rightarrow> Inl (ESimple Unimplemented))"

definition socket_addr_from_storage :: "byte list \<Rightarrow> err + socket_addr" where
  "socket_addr_from_storage s =
     (case address_from_storage s of
        Inl e \<Rightarrow> Inl e
      | Inr (AddrV4 a) \<Rightarrow> Inr (SockV4 (a4_addr a) (to_be_bits (a4_port a)))
      | Inr (AddrV6 a) \<Rightarrow>
          Inr (SockV6 (a6_addr a) (to_be_bits (a6_port a)) (to_be_bits (a6_flow_info a))
             (to_be_bits (a6_scope_id a))))"

text \<open>What the standard library guarantees of a \<open>SocketAddr\<close>.\<close>

definition socket_addr_ok :: "socket_addr \<Rightarrow> bool" where
  "socket_addr_ok a =
     (case a of SockV4 ip port \<Rightarrow> length ip = 4 | SockV6 ip port flowinfo scope_id \<Rightarrow> length ip = 16)"

section \<open>Lemmas on times\<close>

lemma sint_of_small: "unat x < 2 ^ 63 \<Longrightarrow> sint (x :: 64 word) = int (unat x)"
proof -
  assume "unat x < 2 ^ 63"
  then have "int (unat x) < int (2 ^ 63)" by (simp only: of_nat_less_iff)
  then have "uint x < 2 ^ 63" by (simp only: uint_nat of_nat_power of_nat_numeral)
  moreover have "- (2 ^ 63) \<le> uint x" by (rule order_trans[OF _ uint_ge_0]) simp
  moreover have "sint x = signed_take_bit 63 (uint x)" by (simp add: sint_uint)
  ultimately show ?thesis by (simp only: signed_take_bit_int_eq_self uint_nat)
qed

lemma i64_to_u128_small: "unat x < 2 ^ 63 \<Longrightarrow> i64_to_u128 x = Some (ucast x)"
  by (simp add: i64_to_u128_def sint_of_small)

lemma unat_u128: "unat (ucast (x :: u64) :: 128 word) = unat x"
proof -
  have "unat x < 2 ^ 128" using unsigned_less[of x, where ?'a = nat] by simp
  then show ?thesis by (simp add: unsigned_ucast_eq take_bit_nat_eq_self)
qed

text \<open>No conversion overflows: seconds times a billion and any nanoseconds fit 128 bits by far.\<close>

lemma try_as_nanos_small:
  assumes "unat (ts_sec ts) < 2 ^ 63" "unat (ts_nanos ts) < 2 ^ 63"
  shows "\<exists>n. try_as_nanos ts = Some n \<and> unat n = unat (ts_nanos ts) + unat (ts_sec ts) * 1000000000"
proof -
  let ?s = "ucast (ts_sec ts) :: 128 word" and ?n = "ucast (ts_nanos ts) :: 128 word"
  have mult: "unat (?s * 1000000000) = unat (ts_sec ts) * 1000000000"
    using assms(1) by (simp add: unat_word_ariths unat_u128)
  have "unat (?n + ?s * 1000000000) = unat (ts_nanos ts) + unat (ts_sec ts) * 1000000000"
    using assms by (simp add: unat_word_ariths(1) mult unat_u128)
  with assms show ?thesis by (simp add: try_as_nanos_def i64_to_u128_small)
qed

lemma from_nanos_value: "\<exists>n. try_as_nanos (from_nanos d) = Some n \<and> unat n = unat d"
proof -
  have "unat (d div 1000000000) < 2 ^ 63" "unat (d mod 1000000000) < 2 ^ 63"
    using unsigned_less[of d, where ?'a = nat] by (auto simp: unat_div unat_mod)
  from try_as_nanos_small[of "from_nanos d"] this show ?thesis
    by (auto simp: from_nanos_def unat_div unat_mod)
qed

lemma from_ms_value: "\<exists>n. try_as_nanos (from_ms ms) = Some n \<and> unat n = unat ms * 1000000"
proof -
  have nanos: "unat (ms mod 1000 * 1000000) = unat ms mod 1000 * 1000000"
    by (simp add: unat_word_ariths unat_mod)
  have "unat (ms div 1000) < 2 ^ 63"
    using unsigned_less[of ms, where ?'a = nat] by (auto simp: unat_div)
  moreover have "unat (ms mod 1000 * 1000000) < 2 ^ 63"
    unfolding nanos using mod_less_divisor[of 1000 "unat ms"] by simp
  ultimately obtain n where n: "try_as_nanos (from_ms ms) = Some n"
    "unat n = unat ms mod 1000 * 1000000 + unat ms div 1000 * 1000000000"
    using try_as_nanos_small[of "from_ms ms"] by (auto simp: from_ms_def nanos unat_div Let_def)
  have "unat ms mod 1000 * 1000000 + unat ms div 1000 * 1000000000 = unat ms * 1000000"
    using div_mult_mod_eq[of "unat ms" 1000] by linarith
  with n show ?thesis by simp
qed

lemma nanotime_value:
  assumes "try_as_nanos ts = Some n" "unat n = unat d"
  shows "nanotime 0 e ts = Ok d"
proof -
  have "unat n < 2 ^ 64" using unsigned_less[of d, where ?'a = nat] assms(2) by simp
  then have "n < 2 ^ 64" by (simp add: word_less_nat_alt)
  moreover have "unat (ucast n :: u64) = unat d"
    using assms(2) unsigned_less[of d, where ?'a = nat] by (simp add: unsigned_ucast_eq take_bit_nat_eq_self)
  then have "ucast n = d" by (simp add: word_unat_eq_iff)
  ultimately show ?thesis
    using assms(1) by (simp add: nanotime_def clock_time_def result_from_libc_def)
qed

section \<open>Lemmas on flags\<close>

text \<open>Asking for both directions sets the reserved mode 3, and \<open>temporary\<close> never returns.\<close>

lemma access_both_is_reserved: "access_flags 0 True True = Ok (WriteOnly OR ReadWrite)"
  by code_simp

lemma temporary_panics: "temporary_flags flags = Panic"
proof -
  have "open_from_bits TempFile = None" by code_simp
  then show ?thesis by (simp add: temporary_flags_def)
qed

section \<open>Lemmas on paths\<close>

lemma stack_cstr:
  assumes "length bytes < MAX_STACK_ALLOCATION"
  shows "ub_filled (snd (ub_extend_from_slice (snd (ub_extend_from_slice (ub_new MAX_STACK_ALLOCATION) bytes)) [0]))
    = bytes @ [0]"
  using assms by (simp add: ub_extend_from_slice_def ub_new_def ub_spare_capacity_def Let_def)

section \<open>Lemmas on addresses\<close>

lemma to_le_from_le: "to_le_bytes (length bs) (from_le_bytes bs) = bs"
proof (induction bs)
  case (Cons b bs)
  have less: "unat b < 256" using unsigned_less[of b, where ?'a = nat] by simp
  then have "(unat b + 256 * from_le_bytes bs) mod 256 = unat b"
    and "(unat b + 256 * from_le_bytes bs) div 256 = from_le_bytes bs" by simp_all
  with Cons show ?case by simp
qed simp

lemma to_from_le: "length bs = n \<Longrightarrow> to_bytes True n (from_bytes True bs) = bs"
  using to_le_from_le[of bs] by (auto simp: to_bytes_def from_bytes_def)

lemma from_bytes_less: "length bs = n \<Longrightarrow> from_bytes True bs < 2 ^ (8 * n)"
  using from_le_less[of bs] by (simp add: from_bytes_def power_256)

lemma to_be_bytes:
  assumes "LENGTH('a) = 8 * n"
  shows "to_bytes True n (unat (to_be_bits (w :: 'a::len word))) = to_bytes False n (unat w)"
proof -
  have "size_of TYPE('a) = n" using assms by (simp add: size_of_def)
  moreover have "from_bytes True (to_bytes False n (unat w)) < 2 ^ LENGTH('a)"
    using from_bytes_less[of "to_bytes False n (unat w)" n] assms by simp
  ultimately have "unat (to_be_bits w) = from_bytes True (to_bytes False n (unat w))"
    by (simp add: to_be_bits_def unat_of_nat take_bit_nat_eq_self)
  then show ?thesis by (simp add: to_from_le)
qed

lemma to_be_bits_twice:
  assumes "LENGTH('a) = 8 * n"
  shows "to_be_bits (to_be_bits (w :: 'a::len word)) = w"
proof -
  have size: "size_of TYPE('a) = n" using assms by (simp add: size_of_def)
  have "to_bytes False n (unat (to_be_bits w)) = to_bytes True n (unat w)"
    using to_be_bytes[OF assms, of w] by (simp add: to_bytes_def)
  then have "to_be_bits (to_be_bits w) = of_nat (from_bytes True (to_bytes True n (unat w)))"
    by (simp add: to_be_bits_def[of "to_be_bits w"] size)
  also have "\<dots> = of_nat (unat w mod 2 ^ LENGTH('a))" by (simp add: from_to_bytes power_256 assms)
  also have "\<dots> = w" using unsigned_less[of w, where ?'a = nat] by simp
  finally show ?thesis .
qed

lemmas to_be_widths = to_be_bits_twice[where 'a = 16 and n = 2] to_be_bits_twice[where 'a = 32 and n = 4]

text \<open>Reading a field of a structure that was just written.\<close>

lemma field_at_head: "field_at (to_bytes True n v @ s) 0 n = v mod 256 ^ n"
  by (simp add: field_at_def from_to_bytes)

lemma field_at_skip: "length xs \<le> k \<Longrightarrow> field_at (xs @ s) k n = field_at s (k - length xs) n"
  by (simp add: field_at_def)

lemma of_nat_field: "LENGTH('a) = 8 * n \<Longrightarrow> of_nat (unat w mod 256 ^ n) = (w :: 'a::len word)"
  using unsigned_less[of w, where ?'a = nat] by (simp add: power_256)

lemmas field_widths = of_nat_field[where 'a = 16 and n = 2, simplified] of_nat_field[where 'a = 32 and n = 4, simplified]

lemma v4_of_v4_bytes:
  "length (a4_addr a) = 4 \<Longrightarrow> length (a4_pad a) = 8 \<Longrightarrow> v4_of_bytes (v4_bytes a @ tail) = a"
  by (simp add: v4_of_bytes_def v4_bytes_def field_at_head field_at_skip field_widths)

lemma v6_of_v6_bytes: "length (a6_addr a) = 16 \<Longrightarrow> v6_of_bytes (v6_bytes a @ tail) = a"
  by (simp add: v6_of_bytes_def v6_bytes_def field_at_head field_at_skip field_widths)

lemma families:
  "family_from_u16 (family_code ''INet'') = Some ''INet''"
  "family_from_u16 (family_code ''INet6'') = Some ''INet6''"
  by code_simp+

lemma storage_family:
  "(of_nat (field_at (v4_bytes a @ tail) 0 2) :: u16) = a4_family a"
  "(of_nat (field_at (v6_bytes b @ tail) 0 2) :: u16) = a6_family b"
  by (simp_all add: v4_bytes_def v6_bytes_def field_at_head field_widths)

text \<open>The protocol numbers are those of the standard from 3 on; 0 is no protocol and 1 is called \<open>Ip\<close>.\<close>

lemma ip_protocol_numbers:
  "ip_protocol_from_u32 0 = None" "ip_protocol_from_u32 1 = Some ''Ip''" "ip_protocol_from_u32 6 = Some ''Tcp''"
  by code_simp+

text \<open>The port travels in network order; so does the scope id, which the kernel keeps in host order.\<close>

lemma port_in_network_order:
  "drop 2 (take 4 (address_bytes (address_from (SockV4 ip port)))) = to_bytes False 2 (unat port)"
  by (simp add: address_bytes_def address_from_def v4_bytes_def to_be_bytes)

lemma scope_id_is_swapped:
  "length ip = 16 \<Longrightarrow>
   drop 24 (address_bytes (address_from (SockV6 ip port flow scope))) = to_bytes False 4 (unat scope)"
  by (simp add: address_bytes_def address_from_def v6_bytes_def to_be_bytes)

section \<open>Properties\<close>

text \<open>A time made from milliseconds or nanoseconds has exactly that many nanoseconds, for every 64 bit
  amount and without overflow of the 128 bit result; a clock that stores it is read back as the amount.\<close>

theorem times_convert_exactly:
  "map_option unat (try_as_nanos (from_nanos d)) = Some (unat d) \<and>
   map_option unat (try_as_nanos (from_ms d)) = Some (unat d * 1000000) \<and>
   nanotime 0 e (from_nanos d) = Ok d"
  using from_nanos_value[of d] from_ms_value[of d] nanotime_value[of "from_nanos d"] by auto

text \<open>A path becomes the C string of its bytes, and a path with an interior null byte the error for it; the
  copy on the stack and the one on the heap agree, also at the length where the stack buffer is full.\<close>

theorem path_reaches_the_call_unchanged:
  "with_path_as_cstr bytes func = (if 0 \<in> set bytes then Inl err_from_nul_error else func bytes)"
  using stack_cstr[of bytes]
  by (auto simp: with_path_as_cstr_def allocate_cstr_def cstring_new_def cstr_from_bytes_with_nul_def
      case_prod_beta)

text \<open>A socket address, laid out as the bytes the kernel gets and read back from the storage the kernel
  fills with them, is the same address, whatever bytes follow in the storage.\<close>

theorem address_round_trip:
  "socket_addr_ok a \<Longrightarrow> socket_addr_from_storage (address_bytes (address_from a) @ tail) = Inr a"
  by (cases a)
    (simp_all add: socket_addr_ok_def socket_addr_from_storage_def address_from_storage_def address_bytes_def
      address_from_def storage_family families v4_of_v4_bytes v6_of_v6_bytes to_be_widths)

theorem address_round_trip_witness:
  "socket_addr_from_storage (address_bytes (address_from (SockV4 [127, 0, 0, 1] 8080)) @ replicate 112 0) =
     Inr (SockV4 [127, 0, 0, 1] 8080)"
  by (rule address_round_trip) (simp add: socket_addr_ok_def)

end
