(* ===== verification/Dirent.thy ===== *)
theory Dirent
  imports Os_Data
begin

text \<open>
  Reading directories: \<open>src/src/os/dirent.rs\<close>, with the file type of \<open>src/src/os/stat.rs\<close>. The kernel is a
  parameter: \<open>getdents64\<close> takes its state and the size of the buffer and gives the result, the bytes it
  stored on success, and its new state. Its documented behaviour is the predicate \<open>dir_kernel_ok\<close>.
\<close>

section \<open>Entries\<close>

datatype file_type = FtUnknown | FtFifo | FtCharacter | FtDirectory | FtBlock | FtRegular | FtLink | FtSocket | FtWht

definition file_type_codes :: "(nat \<times> file_type) list" where
  "file_type_codes = [(0, FtUnknown), (1, FtFifo), (2, FtCharacter), (4, FtDirectory), (6, FtBlock),
     (8, FtRegular), (10, FtLink), (12, FtSocket), (14, FtWht)]"

definition file_type_from :: "nat \<Rightarrow> file_type option" where
  "file_type_from c = map_of file_type_codes c"

record dirent =
  de_ino :: u64
  de_off :: "64 word"
  de_reclen :: u16
  de_ty :: byte
  de_name :: "byte list"

definition dirent_file_type :: "dirent \<Rightarrow> file_type option" where
  "dirent_file_type d = file_type_from (unat (de_ty d))"

section \<open>The buffer of entries\<close>

type_synonym 'k getdents = "'k \<Rightarrow> nat \<Rightarrow> (os_error, byte list) outcome \<times> 'k"

record dir_ents =
  ents_buf :: "byte list"
  ents_offset :: nat
  ents_len :: nat
  ents_eof :: bool

definition dir_ents_new :: "nat \<Rightarrow> dir_ents" where
  "dir_ents_new n = \<lparr>ents_buf = replicate n 0, ents_offset = 0, ents_len = 0, ents_eof = False\<rparr>"

definition MIN_SIZE :: nat where "MIN_SIZE = 0x8000"
definition MAX_SIZE :: nat where "MAX_SIZE = 0x100000"

definition new_from_block_size :: "nat \<Rightarrow> dir_ents" where
  "new_from_block_size n = dir_ents_new (max MIN_SIZE (min MAX_SIZE n))"

definition read_from_fd :: "'k getdents \<Rightarrow> dir_ents \<Rightarrow> 'k \<Rightarrow> (os_error, unit) outcome \<times> dir_ents \<times> 'k" where
  "read_from_fd getdents64 d k =
     (let d1 = d\<lparr>ents_offset := 0, ents_len := 0\<rparr>
      in if ents_eof d1 then (Ok (), d1, k)
         else
           (let (r, k1) = getdents64 k (length (ents_buf d1));
                stored = (\<lambda>bytes. d1\<lparr>ents_buf := bytes @ drop (length bytes) (ents_buf d1)\<rparr>);
                finish = (\<lambda>count d2.
                  let d3 = (if count = 0 then d2\<lparr>ents_eof := True\<rparr> else d2)
                  in (Ok (), d3\<lparr>ents_len := count\<rparr>, k1))
            in (case r of
                  Ok bytes \<Rightarrow> finish (length bytes) (stored bytes)
                | Err err \<Rightarrow> if err = os_named ''NoEnt'' then finish 0 d1 else (Err err, d1, k1)
                | Panic \<Rightarrow> (Panic, d1, k1))))"

definition has_next_cached :: "dir_ents \<Rightarrow> bool" where
  "has_next_cached d = (ents_offset d < ents_len d)"

text \<open>The header at the offset, and the name after it up to its null byte.\<close>

definition entry_at :: "byte list \<Rightarrow> nat \<Rightarrow> dirent" where
  "entry_at buf offset =
     \<lparr>de_ino = of_nat (field_at buf offset 8), de_off = of_nat (field_at buf (offset + 8) 8),
      de_reclen = of_nat (field_at buf (offset + 16) 2), de_ty = of_nat (field_at buf (offset + 18) 1),
      de_name = takeWhile (\<lambda>b. b \<noteq> 0) (drop (offset + 19) buf)\<rparr>"

definition ents_next_entry :: "dir_ents \<Rightarrow> dirent option \<times> dir_ents" where
  "ents_next_entry d =
     (if \<not> has_next_cached d then (None, d)
      else
        (let e = entry_at (ents_buf d) (ents_offset d)
         in (Some e, d\<lparr>ents_offset := ents_offset d + unat (de_reclen e)\<rparr>)))"

section \<open>Opening and reading a directory\<close>

record statx =
  stx_mask :: u32
  stx_block_size :: u32
  stx_mode :: u16

definition STATX_MODE :: u32 where "STATX_MODE = push_bit 1 1"

definition statx_file_type :: "statx \<Rightarrow> file_type option" where
  "statx_file_type s = (if stx_mask s AND STATX_MODE = 0 then None else file_type_from (unat (drop_bit 12 (stx_mode s))))"

record 'fd read_dir =
  rd_fd :: 'fd
  rd_entries :: dir_ents

definition open_directory_flags :: u32 where
  "open_directory_flags = DirectoryFlag OR push_bit 15 1 OR push_bit 19 1 OR push_bit 11 1"

definition read_dir_open ::
  "(byte list \<Rightarrow> u32 \<Rightarrow> (os_error, 'fd) outcome) \<Rightarrow> ('fd \<Rightarrow> (os_error, statx) outcome) \<Rightarrow> byte list \<Rightarrow>
    (err + 'fd read_dir) option" where
  "read_dir_open open_path statx_fd path =
     (case with_path_as_cstr path
             (\<lambda>p. case open_path p open_directory_flags of
                    Ok fd \<Rightarrow> Inr (Some fd) | Err e \<Rightarrow> Inl (EOs e) | Panic \<Rightarrow> Inr None) of
        Inl e \<Rightarrow> Some (Inl e)
      | Inr None \<Rightarrow> None
      | Inr (Some fd) \<Rightarrow>
          (case statx_fd fd of
             Panic \<Rightarrow> None
           | Err e \<Rightarrow> Some (Inl (EOs e))
           | Ok st \<Rightarrow>
               if statx_file_type st \<noteq> Some FtDirectory then Some (Inl (EOs (os_named ''NotDir'')))
               else Some (Inr \<lparr>rd_fd = fd, rd_entries = new_from_block_size (unat (stx_block_size st))\<rparr>)))"

definition read_dir_next ::
  "'k getdents \<Rightarrow> dir_ents \<Rightarrow> 'k \<Rightarrow> (os_error, dirent option) outcome \<times> dir_ents \<times> 'k" where
  "read_dir_next getdents64 d k =
     (if \<not> has_next_cached d then
        (case read_from_fd getdents64 d k of
           (Ok _, d1, k1) \<Rightarrow> (let (e, d2) = ents_next_entry d1 in (Ok e, d2, k1))
         | (Err err, d1, k1) \<Rightarrow> (Err err, d1, k1)
         | (Panic, d1, k1) \<Rightarrow> (Panic, d1, k1))
      else (let (e, d2) = ents_next_entry d in (Ok e, d2, k)))"

text \<open>Calling \<open>next_entry\<close> until it gives no entry, at most \<open>n\<close> times.\<close>

fun list_dir :: "'k getdents \<Rightarrow> nat \<Rightarrow> dir_ents \<Rightarrow> 'k \<Rightarrow> (os_error, dirent list) outcome option" where
  "list_dir getdents64 0 d k = None"
| "list_dir getdents64 (Suc n) d k =
     (case read_dir_next getdents64 d k of
        (Ok (Some e), d1, k1) \<Rightarrow> map_option (map_outcome_ok (\<lambda>es. e # es)) (list_dir getdents64 n d1 k1)
      | (Ok None, d1, k1) \<Rightarrow> Some (Ok [])
      | (Err err, d1, k1) \<Rightarrow> Some (Err err)
      | (Panic, d1, k1) \<Rightarrow> Some Panic)"

section \<open>The kernel's promise\<close>

text \<open>
  The record of an entry: the header, the name with its null byte, and padding up to the record's length.
  \<open>pending\<close> are the entries the open directory has not given yet: \<open>getdents64\<close> stores the records of the
  next ones, at least one if any is left and each fits, and nothing at the end.
\<close>

definition dirent_header :: "dirent \<Rightarrow> byte list" where
  "dirent_header d =
     to_bytes True 8 (unat (de_ino d)) @ to_bytes True 8 (unat (de_off d)) @
     to_bytes True 2 (unat (de_reclen d)) @ to_bytes True 1 (unat (de_ty d))"

definition dirent_encodes :: "dirent \<Rightarrow> byte list \<Rightarrow> bool" where
  "dirent_encodes d bs =
     (0 \<notin> set (de_name d) \<and> length bs = unat (de_reclen d) \<and>
      (\<exists>padding. bs = dirent_header d @ de_name d @ 0 # padding))"

definition dir_kernel_ok :: "'k getdents \<Rightarrow> ('k \<Rightarrow> dirent list) \<Rightarrow> bool" where
  "dir_kernel_ok getdents64 pending =
     (\<forall>k n. (\<forall>d \<in> set (pending k). unat (de_reclen d) \<le> n) \<longrightarrow>
        (\<exists>xs bss k1. getdents64 k n = (Ok (concat bss), k1) \<and> pending k = xs @ pending k1 \<and>
           (xs = [] \<longrightarrow> pending k = []) \<and> list_all2 dirent_encodes xs bss \<and> length (concat bss) \<le> n))"

section \<open>Lemmas\<close>

lemma length_dirent_header [simp]: "length (dirent_header d) = 19"
  by (simp add: dirent_header_def)

lemma of_nat_byte_fields:
  "of_nat (unat (x :: u64) mod 18446744073709551616) = x" "of_nat (unat (b :: byte) mod 256) = b"
  using of_nat_field[where n = 8, of x] of_nat_field[where n = 1, of b] by simp_all

lemma entry_at_encoded:
  assumes "dirent_encodes d bs"
  shows "entry_at (pre @ bs @ post) (length pre) = d"
proof -
  from assms obtain padding where bs: "bs = dirent_header d @ de_name d @ 0 # padding" and name: "0 \<notin> set (de_name d)"
    by (auto simp: dirent_encodes_def)
  have "takeWhile (\<lambda>b. b \<noteq> 0) (de_name d @ 0 # padding @ post) = de_name d"
    using name by (subst takeWhile_append2) auto
  then show ?thesis
    unfolding entry_at_def bs
    by (simp add: dirent_header_def field_at_skip field_at_head field_widths of_nat_byte_fields)
qed

text \<open>The entries left in the buffer.\<close>

definition cached :: "dir_ents \<Rightarrow> dirent list \<Rightarrow> bool" where
  "cached d xs =
     (\<exists>pre bss post. ents_buf d = pre @ concat bss @ post \<and> length pre = ents_offset d \<and>
        ents_len d = ents_offset d + length (concat bss) \<and> list_all2 dirent_encodes xs bss)"

lemma encoded_not_empty: "dirent_encodes d bs \<Longrightarrow> bs \<noteq> []"
  by (auto simp: dirent_encodes_def)

lemma cachedI:
  "ents_buf d = pre @ concat bss @ post \<Longrightarrow> length pre = ents_offset d \<Longrightarrow>
   ents_len d = ents_offset d + length (concat bss) \<Longrightarrow> list_all2 dirent_encodes xs bss \<Longrightarrow> cached d xs"
  unfolding cached_def by blast

lemma encoded_concat: "list_all2 dirent_encodes xs bss \<Longrightarrow> concat bss = [] \<longleftrightarrow> xs = []"
  by (cases xs) (auto simp: list_all2_Cons1 dest: encoded_not_empty)

lemma cached_has_next: "cached d xs \<Longrightarrow> has_next_cached d \<longleftrightarrow> xs \<noteq> []"
  using encoded_concat by (force simp: cached_def has_next_cached_def)

lemma cached_next:
  assumes "cached d (e # xs)"
  obtains d1 where "ents_next_entry d = (Some e, d1)" "cached d1 xs" "ents_buf d1 = ents_buf d" "ents_eof d1 = ents_eof d"
proof -
  from assms obtain pre bs bss post where buf: "ents_buf d = pre @ bs @ concat bss @ post"
    and pre: "length pre = ents_offset d" and len: "ents_len d = ents_offset d + (length bs + length (concat bss))"
    and enc: "dirent_encodes e bs" and encs: "list_all2 dirent_encodes xs bss"
    by (auto simp: cached_def list_all2_Cons1)
  let ?d = "d\<lparr>ents_offset := ents_offset d + unat (de_reclen e)\<rparr>"
  have "entry_at (ents_buf d) (ents_offset d) = e"
    using entry_at_encoded[OF enc, of pre "concat bss @ post"] by (simp add: buf pre)
  then have next_entry: "ents_next_entry d = (Some e, ?d)"
    using cached_has_next[OF assms] by (simp add: ents_next_entry_def)
  have "length bs = unat (de_reclen e)" using enc by (simp add: dirent_encodes_def)
  then have "cached ?d xs"
    using buf pre len encs by (intro cachedI[of _ "pre @ bs" bss post]) simp_all
  with next_entry show thesis by (rule that[of ?d]) simp_all
qed

definition dir_state :: "('k \<Rightarrow> dirent list) \<Rightarrow> dir_ents \<Rightarrow> 'k \<Rightarrow> dirent list \<Rightarrow> bool" where
  "dir_state pending d k es =
     (\<exists>xs. cached d xs \<and> es = xs @ pending k \<and> (ents_eof d \<longrightarrow> pending k = []) \<and>
        (\<forall>e \<in> set (pending k). unat (de_reclen e) \<le> length (ents_buf d)))"

lemma cached_empty: "ents_offset d = 0 \<Longrightarrow> ents_len d = 0 \<Longrightarrow> cached d []"
  by (auto simp: cached_def)

text \<open>Filling the buffer keeps what is left to list, and leaves nothing cached only at the end.\<close>

lemma read_keeps_entries:
  assumes kernel: "dir_kernel_ok getdents64 pending" and state: "dir_state pending d k es" and "\<not> has_next_cached d"
  obtains d1 k1 where "read_from_fd getdents64 d k = (Ok (), d1, k1)" "dir_state pending d1 k1 es"
    "has_next_cached d1 \<longleftrightarrow> es \<noteq> []"
proof -
  from state assms(3) have es: "es = pending k" and eof: "ents_eof d \<Longrightarrow> pending k = []"
    and fit: "\<forall>e \<in> set (pending k). unat (de_reclen e) \<le> length (ents_buf d)"
    by (auto simp: dir_state_def dest: cached_has_next)
  let ?d = "d\<lparr>ents_offset := 0, ents_len := 0\<rparr>"
  show thesis
  proof (cases "ents_eof d")
    case True
    have "cached ?d []" by (rule cached_empty) simp_all
    then have "dir_state pending ?d k es" "\<not> has_next_cached ?d"
      using es eof[OF True] by (simp_all add: dir_state_def has_next_cached_def)
    moreover have "read_from_fd getdents64 d k = (Ok (), ?d, k)"
      using True by (simp add: read_from_fd_def)
    ultimately show thesis using es eof[OF True] by (intro that) simp_all
  next
    case False
    from kernel fit obtain xs bss k1 where call: "getdents64 k (length (ents_buf d)) = (Ok (concat bss), k1)"
      and split: "pending k = xs @ pending k1" and last: "xs = [] \<longrightarrow> pending k = []"
      and enc: "list_all2 dirent_encodes xs bss" and len: "length (concat bss) \<le> length (ents_buf d)"
      unfolding dir_kernel_ok_def by blast
    define d1 where "d1 = ?d\<lparr>ents_buf := concat bss @ drop (length (concat bss)) (ents_buf d),
      ents_eof := (concat bss = []), ents_len := length (concat bss)\<rparr>"
    have read: "read_from_fd getdents64 d k = (Ok (), d1, k1)"
      using False by (simp add: read_from_fd_def call d1_def Let_def)
    have cached: "cached d1 xs"
      unfolding d1_def using enc by (intro cachedI[of _ "[]" bss]) simp_all
    have "dir_state pending d1 k1 es"
      unfolding dir_state_def using cached es split last fit len
      by (intro exI[of _ xs]) (use encoded_concat[OF enc] in \<open>auto simp: d1_def\<close>)
    moreover have "has_next_cached d1 \<longleftrightarrow> es \<noteq> []"
      using cached_has_next[OF cached] es split last by auto
    ultimately show thesis by (rule that[OF read])
  qed
qed

lemma next_of_state:
  assumes "dir_state pending d k es" "has_next_cached d"
  obtains e es1 d1 where "es = e # es1" "ents_next_entry d = (Some e, d1)" "dir_state pending d1 k es1"
proof -
  from assms obtain xs where xs: "cached d xs" "es = xs @ pending k" "ents_eof d \<longrightarrow> pending k = []"
    "\<forall>e \<in> set (pending k). unat (de_reclen e) \<le> length (ents_buf d)" by (auto simp: dir_state_def)
  with assms(2) obtain e xs1 where "xs = e # xs1" using cached_has_next by (cases xs) auto
  with xs show thesis by (auto simp: dir_state_def elim!: cached_next intro!: that)
qed

lemma next_entry_of_state:
  assumes kernel: "dir_kernel_ok getdents64 pending" and state: "dir_state pending d k es"
  shows "\<exists>d1 k1. case es of
     [] \<Rightarrow> read_dir_next getdents64 d k = (Ok None, d1, k1)
   | e # es1 \<Rightarrow> read_dir_next getdents64 d k = (Ok (Some e), d1, k1) \<and> dir_state pending d1 k1 es1"
proof (cases "has_next_cached d")
  case True
  from next_of_state[OF state True] obtain e es1 d1
    where "es = e # es1" "ents_next_entry d = (Some e, d1)" "dir_state pending d1 k es1" .
  with True show ?thesis by (simp add: read_dir_next_def)
next
  case False
  from read_keeps_entries[OF kernel state False] obtain d1 k1
    where read: "read_from_fd getdents64 d k = (Ok (), d1, k1)" and state1: "dir_state pending d1 k1 es"
      and more: "has_next_cached d1 \<longleftrightarrow> es \<noteq> []" .
  show ?thesis
  proof (cases es)
    case Nil
    with more have "ents_next_entry d1 = (None, d1)" by (simp add: ents_next_entry_def)
    with Nil False read show ?thesis by (simp add: read_dir_next_def)
  next
    case (Cons e es1)
    with more have "has_next_cached d1" by simp
    from next_of_state[OF state1 this] obtain e2 es2 d2
      where "es = e2 # es2" "ents_next_entry d1 = (Some e2, d2)" "dir_state pending d2 k1 es2" .
    with Cons False read show ?thesis by (simp add: read_dir_next_def)
  qed
qed

lemma list_dir_of_state:
  assumes "dir_kernel_ok getdents64 pending" "dir_state pending d k es" "length es < n"
  shows "list_dir getdents64 n d k = Some (Ok es)"
  using assms(2,3)
proof (induction n arbitrary: d k es)
  case (Suc n)
  from next_entry_of_state[OF assms(1) Suc.prems(1)] obtain d1 k1 where
    step: "case es of [] \<Rightarrow> read_dir_next getdents64 d k = (Ok None, d1, k1)
      | e # es1 \<Rightarrow> read_dir_next getdents64 d k = (Ok (Some e), d1, k1) \<and> dir_state pending d1 k1 es1" by blast
  with Suc show ?case by (cases es) auto
qed simp

text \<open>A directory removed while it is read, for which the kernel reports \<open>NoEnt\<close>, ends the listing.\<close>

lemma removed_directory_ends:
  assumes "getdents64 k (length (ents_buf d)) = (Err (os_named ''NoEnt''), k1)" "\<not> has_next_cached d"
  shows "\<exists>d1 k2. read_dir_next getdents64 d k = (Ok None, d1, k2) \<and> ents_eof d1"
  using assms
  by (cases "ents_eof d")
    (auto simp: read_dir_next_def read_from_fd_def ents_next_entry_def has_next_cached_def Let_def)

text \<open>A kernel for the witness: one entry per call, from a list that ends at the first malformed entry.\<close>

definition unpadded :: "dirent \<Rightarrow> bool" where
  "unpadded e = (unat (de_reclen e) = 20 + length (de_name e) \<and> 0 \<notin> set (de_name e))"

fun small_kernel :: "dirent list getdents" where
  "small_kernel [] n = (Ok [], [])"
| "small_kernel (e # es) n =
     (if unpadded e \<and> unat (de_reclen e) \<le> n then (Ok (dirent_header e @ de_name e @ [0]), es) else (Ok [], []))"

lemma unpadded_encodes: "unpadded e \<Longrightarrow> dirent_encodes e (dirent_header e @ de_name e @ [0])"
  by (simp add: unpadded_def dirent_encodes_def)

lemma small_kernel_ok: "dir_kernel_ok small_kernel (takeWhile unpadded)"
  unfolding dir_kernel_ok_def
proof (intro allI impI)
  fix k n
  assume fits: "\<forall>d \<in> set (takeWhile unpadded k). unat (de_reclen d) \<le> n"
  show "\<exists>xs bss k1. small_kernel k n = (Ok (concat bss), k1) \<and> takeWhile unpadded k = xs @ takeWhile unpadded k1 \<and>
      (xs = [] \<longrightarrow> takeWhile unpadded k = []) \<and> list_all2 dirent_encodes xs bss \<and> length (concat bss) \<le> n"
  proof (cases "k \<noteq> [] \<and> unpadded (hd k)")
    case True
    then obtain e es where k: "k = e # es" "unpadded e" by (cases k) auto
    moreover have "unat (de_reclen e) \<le> n" using fits k by simp
    moreover have "length (dirent_header e @ de_name e @ [0]) = unat (de_reclen e)"
      using k(2) by (simp add: unpadded_def)
    ultimately show ?thesis
      by (intro exI[of _ "[e]"] exI[of _ "[dirent_header e @ de_name e @ [0]]"] exI[of _ es])
        (simp add: unpadded_encodes)
  next
    case False
    then show ?thesis
      by (intro exI[of _ "[] :: dirent list"] exI[of _ "[] :: byte list list"] exI[of _ "[] :: dirent list"])
        (cases k, auto)
  qed
qed

section \<open>Properties\<close>


definition two_entries :: "dirent list" where
  "two_entries = [
     \<lparr>de_ino = 7, de_off = 1, de_reclen = 21, de_ty = 4, de_name = [46]\<rparr>,
     \<lparr>de_ino = 9, de_off = 2, de_reclen = 23, de_ty = 8, de_name = [97, 98, 99]\<rparr>]"

lemma two_entries_pending: "takeWhile unpadded two_entries = two_entries"
  by (simp add: two_entries_def unpadded_def)


end
