(* ===== verification/Errors_Macro.thy ===== *)
theory Errors_Macro
  imports Error_Values
begin

text \<open>
  The \<open>errors\<close> attribute macro, \<open>src/macros/src/error.rs\<close>: what it accepts, and the implementations it generates, on the parsed item.
  Tokens are lists of words, as far as the macro looks at them; the attributes a field or variant carries are given as what
  looking them up finds. The generated matches have a meaning on values, a variant with its fields. Shown: for every accepted type and every
  value of it, the generated implementations give what the attributes of its variant say, no match of theirs is left without an arm, and a
  type is accepted exactly when its attributes fit its fields.
\<close>

type_synonym tokens = "string list"

section \<open>The attribute's arguments\<close>

record trait_bound =
  tb_lifetimes :: bool
  tb_maybe :: bool
  tb_ident :: "string option"

datatype macro_error =
    NotAllowed | ExpectedMaybe | ExpectedName | DuplicateBound
  | DisplayNeedsOneField | DebugNeedsOneField | FromNeedsOneField
  | UnionsNotSupported | MissingDisplay

record attributes =
  at_no_display :: bool
  at_no_debug :: bool

fun attributes_bounds :: "attributes \<Rightarrow> trait_bound list \<Rightarrow> (macro_error, attributes) outcome" where
  "attributes_bounds this [] = Ok this"
| "attributes_bounds this (bound # bounds) =
     (if tb_lifetimes bound then Err NotAllowed
      else if \<not> tb_maybe bound then Err ExpectedMaybe
      else if tb_ident bound = Some ''Display'' then
        (if at_no_display this then Err DuplicateBound else attributes_bounds (this\<lparr>at_no_display := True\<rparr>) bounds)
      else if tb_ident bound = Some ''Debug'' then
        (if at_no_debug this then Err DuplicateBound else attributes_bounds (this\<lparr>at_no_debug := True\<rparr>) bounds)
      else Err ExpectedName)"

definition attributes_parse :: "trait_bound list \<Rightarrow> (macro_error, attributes) outcome" where
  "attributes_parse bounds = attributes_bounds \<lparr>at_no_display = False, at_no_debug = False\<rparr> bounds"

section \<open>Fields\<close>

record 'ty field =
  fd_name :: string
  fd_ty :: 'ty
  fd_from :: bool
  fd_source :: bool

datatype 'ty fields = Named "'ty field list" | Unnamed "'ty field list" | Unit

record variant_attrs =
  va_from :: bool
  va_source :: "nat option"

definition get_attrs :: "'ty field \<Rightarrow> nat \<Rightarrow> variant_attrs \<Rightarrow> variant_attrs" where
  "get_attrs field index a =
     (let a1 = (if \<not> va_from a then a\<lparr>va_from := fd_from field\<rparr> else a)
      in if va_source a1 = None then a1\<lparr>va_source := (if fd_source field then Some index else None)\<rparr> else a1)"

datatype member = MNamed string | MUnnamed nat

record 'ty variant_fields =
  vf_attributes :: variant_attrs
  vf_members :: "(member \<times> 'ty) list"
  vf_named :: bool

fun fields_loop :: "('ty field \<Rightarrow> nat \<Rightarrow> member) \<Rightarrow> nat \<Rightarrow> 'ty field list \<Rightarrow> variant_attrs \<times> (member \<times> 'ty) list \<Rightarrow>
    variant_attrs \<times> (member \<times> 'ty) list" where
  "fields_loop member i [] s = s"
| "fields_loop member i (f # fs) (a, ms) = fields_loop member (i + 1) fs (get_attrs f i a, ms @ [(member f i, fd_ty f)])"

definition variant_fields_new :: "'ty fields \<Rightarrow> 'ty variant_fields" where
  "variant_fields_new item =
     (let s0 = (\<lparr>va_from = False, va_source = None\<rparr>, []);
          s = (case item of
                 Named fs \<Rightarrow> fields_loop (\<lambda>f i. MNamed (fd_name f)) 0 fs s0
               | Unnamed fs \<Rightarrow> fields_loop (\<lambda>f i. MUnnamed i) 0 fs s0
               | Unit \<Rightarrow> s0)
      in \<lparr>vf_attributes = fst s, vf_members = snd s, vf_named = (case item of Unnamed _ \<Rightarrow> False | _ \<Rightarrow> True)\<rparr>)"

fun member_as_ident :: "member \<Rightarrow> string" where
  "member_as_ident (MNamed ident) = ident"
| "member_as_ident (MUnnamed index) = ''f'' @ show_nat index"

section \<open>Variants\<close>

text \<open>What the attributes of a variant are found to be.\<close>

record ('ty, 'k) raw_variant =
  rv_fmt :: "tokens option"
  rv_display :: "tokens option"
  rv_debug :: "tokens option"
  rv_kind :: "'k option"
  rv_ident :: string
  rv_fields :: "'ty fields"

record ('ty, 'k) variant =
  v_display :: "(tokens \<times> bool) option"
  v_debug :: "(tokens \<times> bool) option"
  v_kind :: "'k option"
  v_ident :: string
  v_fields :: "'ty variant_fields"

definition maybe_transparent :: "tokens \<Rightarrow> tokens \<times> bool" where
  "maybe_transparent tokens = (tokens, tokens = [''transparent''])"

definition variant_new :: "('ty, 'k) raw_variant \<Rightarrow> (macro_error, ('ty, 'k) variant) outcome" where
  "variant_new raw =
     (let fmt = map_option maybe_transparent (rv_fmt raw);
          (display, debug) =
            (if fmt = None then (map_option maybe_transparent (rv_display raw), map_option maybe_transparent (rv_debug raw))
             else (fmt, fmt));
          this = \<lparr>v_display = display, v_debug = debug, v_kind = rv_kind raw, v_ident = rv_ident raw,
                  v_fields = variant_fields_new (rv_fields raw)\<rparr>
      in if length (vf_members (v_fields this)) = 1 then Ok this
         else if (case v_display this of Some (_, tr) \<Rightarrow> tr | None \<Rightarrow> False) then Err DisplayNeedsOneField
         else if (case v_debug this of Some (_, tr) \<Rightarrow> tr | None \<Rightarrow> False) then Err DebugNeedsOneField
         else if va_from (vf_attributes (v_fields this)) then Err FromNeedsOneField
         else Ok this)"

text \<open>A generated arm: the variant it matches, the names its fields are bound to, and what it evaluates to.\<close>

datatype 'e arm = Arm string "string list" 'e

datatype call = WriteStr string | DebugStruct string | DebugTuple string | FieldNamed string string | FieldOf string | Finish

datatype writing = DisplayFmt string | DebugFmt string | WriteMacro tokens | Chain "call list"

definition idents :: "('ty, 'k) variant \<Rightarrow> string list" where
  "idents v = map (member_as_ident \<circ> fst) (vf_members (v_fields v))"

definition matcher :: "('ty, 'k) variant \<Rightarrow> 'e \<Rightarrow> 'e arm" where
  "matcher v e = Arm (v_ident v) (idents v) e"

definition first_member :: "('ty, 'k) variant \<Rightarrow> string" where
  "first_member v = member_as_ident (fst (vf_members (v_fields v) ! 0))"

definition variant_display :: "('ty, 'k) variant \<Rightarrow> writing arm option" where
  "variant_display v =
     (case v_display v of
        None \<Rightarrow> None
      | Some (display, is_transparent) \<Rightarrow>
          Some (matcher v (if is_transparent then DisplayFmt (first_member v) else WriteMacro display)))"

definition debug_field :: "member \<Rightarrow> call" where
  "debug_field m = (case m of MNamed ident \<Rightarrow> FieldNamed ident ident | MUnnamed _ \<Rightarrow> FieldOf (member_as_ident m))"

definition debug_calls :: "('ty, 'k) variant \<Rightarrow> call list" where
  "debug_calls v =
     (let members = vf_members (v_fields v)
      in (if members = [] then [WriteStr (v_ident v)]
          else if vf_named (v_fields v) then [DebugStruct (v_ident v)]
          else [DebugTuple (v_ident v)]) @
         map (debug_field \<circ> fst) members @
         (if members \<noteq> [] then [Finish] else []))"

definition variant_debug :: "('ty, 'k) variant \<Rightarrow> writing arm" where
  "variant_debug v =
     (let is_transparent =
            (case v_debug v of Some (_, tr) \<Rightarrow> tr | None \<Rightarrow> (case v_display v of Some (_, tr) \<Rightarrow> tr | None \<Rightarrow> False))
      in matcher v
           (if is_transparent then DebugFmt (first_member v)
            else (case v_debug v of Some (debug, _) \<Rightarrow> WriteMacro debug | None \<Rightarrow> Chain (debug_calls v))))"

definition variant_kind :: "('ty, 'k) variant \<Rightarrow> 'k arm option" where
  "variant_kind v = map_option (matcher v) (v_kind v)"

text \<open>A conversion: the type it is from, the variant it makes and the member that takes the value.\<close>

definition variant_from :: "('ty, 'k) variant \<Rightarrow> ('ty \<times> string \<times> member) option" where
  "variant_from v =
     (if va_from (vf_attributes (v_fields v))
      then Some (snd (vf_members (v_fields v) ! 0), v_ident v, fst (vf_members (v_fields v) ! 0))
      else None)"

definition variant_source :: "('ty, 'k) variant \<Rightarrow> string arm option" where
  "variant_source v =
     map_option (\<lambda>index. matcher v (member_as_ident (fst (vf_members (v_fields v) ! index)))) (va_source (vf_attributes (v_fields v)))"

section \<open>The item\<close>

datatype ('ty, 'k) raw_data = Struct "('ty, 'k) raw_variant" | Enum "('ty, 'k) raw_variant list" | Union

datatype ('ty, 'k) repr = RStruct "('ty, 'k) variant" | REnum "('ty, 'k) variant list"

record ('ty, 'k) macro_input =
  mi_attrs :: attributes
  mi_derive_debug :: bool
  mi_repr :: "('ty, 'k) repr"

fun parse_enum :: "('ty, 'k) raw_variant list \<Rightarrow> (macro_error, ('ty, 'k) variant list) outcome" where
  "parse_enum [] = Ok []"
| "parse_enum (raw # raws) =
     (case variant_new raw of
        Ok v \<Rightarrow> map_outcome_ok (\<lambda>vs. v # vs) (parse_enum raws)
      | Err e \<Rightarrow> Err e
      | Panic \<Rightarrow> Panic)"

definition input_parse :: "('ty, 'k) raw_data \<Rightarrow> attributes \<Rightarrow> (macro_error, ('ty, 'k) macro_input) outcome" where
  "input_parse item attrs =
     map_outcome_ok (\<lambda>repr. \<lparr>mi_attrs = attrs, mi_derive_debug = (\<not> at_no_debug attrs), mi_repr = repr\<rparr>)
       (case item of
          Struct data \<Rightarrow> map_outcome_ok RStruct (variant_new data)
        | Enum data \<Rightarrow> map_outcome_ok REnum (parse_enum data)
        | Union \<Rightarrow> Err UnionsNotSupported)"

text \<open>What is generated: the implementations of \<open>Display\<close> and \<open>Debug\<close> if any and whether they ask the type parameters for \<open>Display\<close>,
  the arms of \<open>kind\<close> and \<open>source\<close> before their defaults, the conversions, and whether equality is true at once or compares discriminants.\<close>

record ('ty, 'k) generated =
  gn_derive_debug :: bool
  gn_display :: "writing arm list option"
  gn_debug :: "writing arm list option"
  gn_bounds :: bool
  gn_kinds :: "'k arm list"
  gn_sources :: "string arm list"
  gn_froms :: "('ty \<times> string \<times> member) list"
  gn_eq_true :: bool

text \<open>The arms of an enum's display: each variant has to have one.\<close>

fun enum_displays :: "('ty, 'k) variant list \<Rightarrow> (macro_error, writing arm list) outcome" where
  "enum_displays [] = Ok []"
| "enum_displays (v # vs) =
     (case variant_display v of None \<Rightarrow> Err MissingDisplay | Some d \<Rightarrow> map_outcome_ok (\<lambda>ds. d # ds) (enum_displays vs))"

definition input_expand :: "('ty, 'k) macro_input \<Rightarrow> (macro_error, ('ty, 'k) generated) outcome" where
  "input_expand input =
     (let variants = (case mi_repr input of RStruct v \<Rightarrow> [v] | REnum vs \<Rightarrow> vs);
          displays =
            (case mi_repr input of
               RStruct v \<Rightarrow> Ok (List.map_filter variant_display [v])
             | REnum vs \<Rightarrow> if \<exists>v \<in> set vs. v_display v \<noteq> None then enum_displays vs else Ok []);
          debugs = (if at_no_debug (mi_attrs input) then map variant_debug variants else [])
      in map_outcome_ok (\<lambda>displays.
           \<lparr>gn_derive_debug = mi_derive_debug input,
            gn_display = (if displays \<noteq> [] then Some displays else None),
            gn_debug = (if displays \<noteq> [] \<and> at_no_debug (mi_attrs input) then Some debugs else None),
            gn_bounds = (\<not> at_no_display (mi_attrs input)),
            gn_kinds = List.map_filter variant_kind variants,
            gn_sources = List.map_filter variant_source variants,
            gn_froms = List.map_filter variant_from variants,
            gn_eq_true = (case mi_repr input of RStruct _ \<Rightarrow> True | REnum _ \<Rightarrow> False)\<rparr>) displays)"

definition errors_macro :: "trait_bound list \<Rightarrow> ('ty, 'k) raw_data \<Rightarrow> (macro_error, ('ty, 'k) generated) outcome" where
  "errors_macro attr item =
     (case attributes_parse attr of
        Ok attrs \<Rightarrow>
          (case input_parse item attrs of Ok input \<Rightarrow> input_expand input | Err e \<Rightarrow> Err e | Panic \<Rightarrow> Panic)
      | Err e \<Rightarrow> Err e
      | Panic \<Rightarrow> Panic)"

section \<open>What the generated code means\<close>

text \<open>A value of the type: its variant (the type itself for a struct) and its fields. The match binds the names of the arm to them.\<close>

type_synonym 'v val = "string \<times> 'v list"

fun run_match :: "'e arm list \<Rightarrow> 'v val \<Rightarrow> ((string \<rightharpoonup> 'v) \<times> 'e) option" where
  "run_match [] x = None"
| "run_match (Arm name ids e # arms) x = (if name = fst x then Some (map_of (zip ids (snd x)), e) else run_match arms x)"

text \<open>\<open>kind\<close> without an arm is \<open>ErrorKind::Other\<close>, here \<open>None\<close>; \<open>source\<close> without one is \<open>None\<close>.\<close>

definition kind_of :: "('ty, 'k) generated \<Rightarrow> 'v val \<Rightarrow> 'k option" where
  "kind_of g x = map_option snd (run_match (gn_kinds g) x)"

definition source_of :: "('ty, 'k) generated \<Rightarrow> 'v val \<Rightarrow> 'v option" where
  "source_of g x = Option.bind (run_match (gn_sources g) x) (\<lambda>(env, e). env e)"

definition eq_of :: "('ty, 'k) generated \<Rightarrow> 'v val \<Rightarrow> 'v val \<Rightarrow> bool" where
  "eq_of g x y = (gn_eq_true g \<or> fst x = fst y)"

text \<open>What a formatting arm writes: a field through its \<open>Display\<close> or \<open>Debug\<close>, or the arguments of \<open>write!\<close> with the fields in scope.\<close>

datatype 'v shown = ShowsDisplay 'v | ShowsDebug 'v | Writes tokens "string \<rightharpoonup> 'v" | Builds "call list" "string \<rightharpoonup> 'v"

fun shown_of :: "(string \<rightharpoonup> 'v) \<times> writing \<Rightarrow> 'v shown option" where
  "shown_of (env, DisplayFmt i) = map_option ShowsDisplay (env i)"
| "shown_of (env, DebugFmt i) = map_option ShowsDebug (env i)"
| "shown_of (env, WriteMacro ts) = Some (Writes ts env)"
| "shown_of (env, Chain cs) = Some (Builds cs env)"

definition display_of :: "('ty, 'k) generated \<Rightarrow> 'v val \<Rightarrow> 'v shown option" where
  "display_of g x = Option.bind (gn_display g) (\<lambda>arms. Option.bind (run_match arms x) shown_of)"

definition debug_of :: "('ty, 'k) generated \<Rightarrow> 'v val \<Rightarrow> 'v shown option" where
  "debug_of g x = Option.bind (gn_debug g) (\<lambda>arms. Option.bind (run_match arms x) shown_of)"

definition from_of :: "'ty \<times> string \<times> member \<Rightarrow> 'v \<Rightarrow> 'v val" where
  "from_of f x = (fst (snd f), [x])"

section \<open>What the attributes ask for\<close>

definition raw_fields :: "('ty, 'k) raw_variant \<Rightarrow> 'ty field list" where
  "raw_fields r = (case rv_fields r of Named fs \<Rightarrow> fs | Unnamed fs \<Rightarrow> fs | Unit \<Rightarrow> [])"

definition raw_variants :: "('ty, 'k) raw_data \<Rightarrow> ('ty, 'k) raw_variant list" where
  "raw_variants item = (case item of Struct r \<Rightarrow> [r] | Enum rs \<Rightarrow> rs | Union \<Rightarrow> [])"

definition field_names :: "('ty, 'k) raw_variant \<Rightarrow> string list" where
  "field_names r =
     (case rv_fields r of
        Named fs \<Rightarrow> map fd_name fs
      | Unnamed fs \<Rightarrow> map (\<lambda>i. ''f'' @ show_nat i) [0..<length fs]
      | Unit \<Rightarrow> [])"

fun first_source :: "nat \<Rightarrow> 'ty field list \<Rightarrow> nat option" where
  "first_source i [] = None"
| "first_source i (f # fs) = (if fd_source f then Some i else first_source (i + 1) fs)"

definition display_attr :: "('ty, 'k) raw_variant \<Rightarrow> tokens option" where
  "display_attr r = (if rv_fmt r = None then rv_display r else rv_fmt r)"

definition value_ok :: "('ty, 'k) raw_variant \<Rightarrow> 'v val \<Rightarrow> bool" where
  "value_ok r x \<longleftrightarrow> fst x = rv_ident r \<and> length (snd x) = length (raw_fields r)"

text \<open>What the compiler asks of an item: distinct variants, and in each distinct fields.\<close>

definition item_ok :: "('ty, 'k) raw_data \<Rightarrow> bool" where
  "item_ok item \<longleftrightarrow> distinct (map rv_ident (raw_variants item)) \<and>
     (\<forall>r \<in> set (raw_variants item). distinct (map fd_name (raw_fields r)) \<or> (\<forall>fs. rv_fields r \<noteq> Named fs))"

section \<open>Lemmas\<close>

fun val10 :: "string \<Rightarrow> nat" where
  "val10 s = foldl (\<lambda>n c. n * 10 + (of_char c - 48)) 0 s"

lemma val10_digit: "d < 10 \<Longrightarrow> of_char (digit d) - 48 = (d :: nat)"
  by (simp add: digit_def)

declare show_nat.simps [simp del]

lemma val10_show: "val10 (show_nat n) = n"
proof (induction n rule: show_nat.induct)
  case (1 n)
  show ?case
  proof (cases "n < 10")
    case True
    then show ?thesis by (simp add: show_nat.simps[of n] val10_digit)
  next
    case False
    then show ?thesis using "1.IH" by (simp add: show_nat.simps[of n] val10_digit)
  qed
qed

lemma show_nat_inj: "show_nat a = show_nat b \<Longrightarrow> a = b"
  by (metis val10_show)

lemma fields_loop_result:
  "fields_loop member i fs (a, ms) =
    (\<lparr>va_from = (va_from a \<or> (\<exists>f \<in> set fs. fd_from f)),
      va_source = (if va_source a = None then first_source i fs else va_source a)\<rparr>,
     ms @ map (\<lambda>(j, f). (member f j, fd_ty f)) (enumerate i fs))"
proof (induction fs arbitrary: i a ms)
  case (Cons f fs)
  then show ?case by (auto simp: get_attrs_def Let_def)
qed simp

lemma named_idents: "map (member_as_ident \<circ> fst) (map (\<lambda>(j, f). (MNamed (fd_name f), fd_ty f)) (enumerate i fs)) = map fd_name fs"
  by (rule nth_equalityI) (simp_all add: nth_enumerate_eq)

lemma unnamed_idents: "map (member_as_ident \<circ> fst) (map (\<lambda>(j, f). (MUnnamed j, fd_ty f)) (enumerate 0 fs)) =
  map (\<lambda>i. ''f'' @ show_nat i) [0..<length fs]"
  by (rule nth_equalityI) (simp_all add: nth_enumerate_eq)

lemma variant_fields_result:
  "vf_attributes (variant_fields_new (rv_fields r)) = \<lparr>va_from = (\<exists>f \<in> set (raw_fields r). fd_from f), va_source = first_source 0 (raw_fields r)\<rparr>"
  "map (member_as_ident \<circ> fst) (vf_members (variant_fields_new (rv_fields r))) = field_names r"
  "length (vf_members (variant_fields_new (rv_fields r))) = length (raw_fields r)"
proof -
  show "vf_attributes (variant_fields_new (rv_fields r)) = \<lparr>va_from = (\<exists>f \<in> set (raw_fields r). fd_from f), va_source = first_source 0 (raw_fields r)\<rparr>"
    by (cases "rv_fields r") (simp_all add: variant_fields_new_def raw_fields_def fields_loop_result)
  show "map (member_as_ident \<circ> fst) (vf_members (variant_fields_new (rv_fields r))) = field_names r"
    by (cases "rv_fields r")
      (simp_all only: variant_fields_new_def field_names_def fields_loop_result Let_def fields.case variant_fields.simps snd_conv
        append_Nil named_idents unnamed_idents list.map)
  show "length (vf_members (variant_fields_new (rv_fields r))) = length (raw_fields r)"
    by (cases "rv_fields r") (simp_all add: variant_fields_new_def raw_fields_def fields_loop_result)
qed

lemma first_source_less: "first_source i fs = Some j \<Longrightarrow> i \<le> j \<and> j < i + length fs"
  by (induction fs arbitrary: i) (fastforce split: if_splits)+

text \<open>A variant that is accepted keeps what was found.\<close>

lemma variant_new_result:
  assumes "variant_new r = Ok v"
  shows "v_ident v = rv_ident r" "v_kind v = rv_kind r" "v_fields v = variant_fields_new (rv_fields r)"
    and "v_display v = map_option maybe_transparent (display_attr r)" "idents v = field_names r"
    and "va_from (vf_attributes (v_fields v)) \<Longrightarrow> length (raw_fields r) = 1"
    and "v_display v = Some (ts, True) \<Longrightarrow> length (raw_fields r) = 1"
proof -
  let ?new = "\<lparr>v_display = map_option maybe_transparent (display_attr r),
      v_debug = (if rv_fmt r = None then map_option maybe_transparent (rv_debug r) else map_option maybe_transparent (rv_fmt r)),
      v_kind = rv_kind r, v_ident = rv_ident r, v_fields = variant_fields_new (rv_fields r)\<rparr>"
  have new: "variant_new r =
     (if length (raw_fields r) = 1 then Ok ?new
      else if (case v_display ?new of Some (_, tr) \<Rightarrow> tr | None \<Rightarrow> False) then Err DisplayNeedsOneField
      else if (case v_debug ?new of Some (_, tr) \<Rightarrow> tr | None \<Rightarrow> False) then Err DebugNeedsOneField
      else if va_from (vf_attributes (variant_fields_new (rv_fields r))) then Err FromNeedsOneField
      else Ok ?new)"
    by (simp add: variant_new_def display_attr_def Let_def variant_fields_result(3))
  then have v: "v = ?new" using assms by (auto split: if_splits)
  then show "v_ident v = rv_ident r" "v_kind v = rv_kind r" "v_fields v = variant_fields_new (rv_fields r)"
    "v_display v = map_option maybe_transparent (display_attr r)" "idents v = field_names r"
    by (simp_all add: idents_def variant_fields_result(2))
  show "length (raw_fields r) = 1" if "va_from (vf_attributes (v_fields v))"
    using that assms new v by (auto split: if_splits)
  show "length (raw_fields r) = 1" if "v_display v = Some (ts, True)"
    using that assms new v by (auto split: if_splits)
qed

lemma field_names_distinct: "item_ok item \<Longrightarrow> r \<in> set (raw_variants item) \<Longrightarrow> distinct (field_names r)"
proof -
  have inj: "inj_on (\<lambda>i. CHR ''f'' # show_nat i) A" for A by (rule inj_onI) (auto dest: show_nat_inj)
  assume "item_ok item" "r \<in> set (raw_variants item)"
  then show ?thesis
    by (cases "rv_fields r") (auto simp: field_names_def item_ok_def raw_fields_def distinct_map inj)
qed

lemma field_names_length: "length (field_names r) = length (raw_fields r)"
  by (simp add: field_names_def raw_fields_def split: fields.split)

text \<open>The name of a field is bound to it.\<close>

lemma env_nth:
  assumes "distinct ids" "length ids = length xs" "i < length xs"
  shows "map_of (zip ids xs) (ids ! i) = Some (xs ! i)"
  using assms by (intro map_of_is_SomeI) (auto simp: set_zip)

text \<open>Among arms of distinct variants the one of the value's variant is taken.\<close>

lemma run_match_none:
  assumes "\<And>u. u \<in> set us \<Longrightarrow> v_ident u \<noteq> fst x" "\<And>u. u \<in> set us \<Longrightarrow> g u = map_option (matcher u) (e u)"
  shows "run_match (List.map_filter g us) x = None"
  using assms by (induction us) (auto simp: List.map_filter_simps matcher_def split: option.split)

lemma run_match_filter:
  assumes "distinct (map v_ident vs)" "v \<in> set vs" "fst x = v_ident v" "\<And>u. u \<in> set vs \<Longrightarrow> g u = map_option (matcher u) (e u)"
  shows "run_match (List.map_filter g vs) x = map_option (\<lambda>e1. (map_of (zip (idents v) (snd x)), e1)) (e v)"
  using assms
proof (induction vs)
  case (Cons u us)
  show ?case
  proof (cases "u = v")
    case True
    have none: "run_match (List.map_filter g us) x = None"
    proof (rule run_match_none)
      show "v_ident u1 \<noteq> fst x" if "u1 \<in> set us" for u1
      proof
        assume "v_ident u1 = fst x"
        then have "v_ident v \<in> v_ident ` set us" using that Cons.prems(3) by (metis imageI)
        then show False using Cons.prems(1) True by simp
      qed
      show "g u1 = map_option (matcher u1) (e u1)" if "u1 \<in> set us" for u1 using Cons.prems(4) that by simp
    qed
    have g: "g v = map_option (matcher v) (e v)" using Cons.prems(2,4) by auto
    show ?thesis using none True Cons.prems(3) by (cases "e v") (simp_all add: List.map_filter_simps matcher_def g)
  next
    case False
    then have "v \<in> set us" using Cons.prems(2) by simp
    then have IH: "run_match (List.map_filter g us) x = map_option (\<lambda>e1. (map_of (zip (idents v) (snd x)), e1)) (e v)"
      using Cons by (intro Cons.IH) auto
    have "v_ident u \<noteq> fst x" using Cons.prems(1,3) \<open>v \<in> set us\<close> by auto
    moreover have "g u = map_option (matcher u) (e u)" using Cons.prems(4) by simp
    ultimately show ?thesis using IH by (cases "e u") (simp_all add: List.map_filter_simps matcher_def)
  qed
qed simp

text \<open>What acceptance means for the item's variants.\<close>

lemma parse_enum_result: "parse_enum rs = Ok vs \<Longrightarrow> list_all2 (\<lambda>r v. variant_new r = Ok v) rs vs"
proof (induction rs arbitrary: vs)
  case (Cons r rs)
  then show ?case by (cases "variant_new r"; cases "parse_enum rs") auto
qed simp

lemma enum_displays_result: "enum_displays vs = Ok ds \<Longrightarrow> ds = List.map_filter variant_display vs \<and> (\<forall>v \<in> set vs. v_display v \<noteq> None)"
proof (induction vs arbitrary: ds)
  case (Cons v vs)
  then show ?case
    by (cases "variant_display v"; cases "enum_displays vs") (auto simp: List.map_filter_simps variant_display_def split: option.splits)
qed (simp add: List.map_filter_simps)

lemma no_displays: "\<forall>v \<in> set vs. v_display v = None \<Longrightarrow> List.map_filter variant_display vs = []"
  by (induction vs) (simp_all add: List.map_filter_simps variant_display_def)

text \<open>The pieces of an accepted item.\<close>

lemma errors_macro_result:
  assumes "errors_macro attr item = Ok g"
  obtains attrs vs where "list_all2 (\<lambda>r v. variant_new r = Ok v) (raw_variants item) vs" "attributes_parse attr = Ok attrs"
    "gn_kinds g = List.map_filter variant_kind vs" "gn_sources g = List.map_filter variant_source vs"
    "gn_froms g = List.map_filter variant_from vs" "gn_eq_true g = (case item of Struct _ \<Rightarrow> True | _ \<Rightarrow> False)"
    "gn_display g = (let ds = List.map_filter variant_display vs in if ds \<noteq> [] then Some ds else None)"
    "gn_debug g = (if gn_display g \<noteq> None \<and> at_no_debug attrs then Some (map variant_debug vs) else None)"
    "gn_derive_debug g = (\<not> at_no_debug attrs)"
    "(case item of Struct _ \<Rightarrow> True | _ \<Rightarrow> (\<exists>v \<in> set vs. v_display v \<noteq> None) \<longrightarrow> (\<forall>v \<in> set vs. v_display v \<noteq> None))"
proof -
  obtain attrs where attrs: "attributes_parse attr = Ok attrs"
    using assms by (cases "attributes_parse attr") (simp_all add: errors_macro_def)
  obtain input where input: "input_parse item attrs = Ok input" and expand: "input_expand input = Ok g"
    using assms attrs by (cases "input_parse item attrs") (simp_all add: errors_macro_def)
  show ?thesis
  proof (cases item)
    case (Struct r)
    then obtain v where v: "variant_new r = Ok v"
      and i: "input = \<lparr>mi_attrs = attrs, mi_derive_debug = (\<not> at_no_debug attrs), mi_repr = RStruct v\<rparr>"
      using input by (cases "variant_new r") (auto simp: input_parse_def)
    show ?thesis
      by (rule that[of "[v]", OF _ attrs]) (use expand in \<open>auto simp: Struct v i raw_variants_def input_expand_def Let_def\<close>)
  next
    case (Enum rs)
    then obtain vs where vs: "parse_enum rs = Ok vs"
      and i: "input = \<lparr>mi_attrs = attrs, mi_derive_debug = (\<not> at_no_debug attrs), mi_repr = REnum vs\<rparr>"
      using input by (cases "parse_enum rs") (auto simp: input_parse_def)
    define displays where "displays = (if \<exists>v \<in> set vs. v_display v \<noteq> None then enum_displays vs else Ok [])"
    obtain ds where ds: "displays = Ok ds"
      using expand by (cases displays) (simp_all add: input_expand_def i displays_def Let_def)
    have shown: "ds = List.map_filter variant_display vs \<and>
        ((\<exists>v \<in> set vs. v_display v \<noteq> None) \<longrightarrow> (\<forall>v \<in> set vs. v_display v \<noteq> None))"
    proof (cases "\<exists>v \<in> set vs. v_display v \<noteq> None")
      case True
      then show ?thesis using ds enum_displays_result[of vs ds] unfolding displays_def by simp
    next
      case False
      then have "\<forall>v \<in> set vs. v_display v = None" by blast
      then have "List.map_filter variant_display vs = []" by (rule no_displays)
      then show ?thesis using ds False unfolding displays_def by simp
    qed
    have g: "g = \<lparr>gn_derive_debug = (\<not> at_no_debug attrs), gn_display = (if ds \<noteq> [] then Some ds else None),
        gn_debug = (if ds \<noteq> [] \<and> at_no_debug attrs then Some (if at_no_debug attrs then map variant_debug vs else []) else None),
        gn_bounds = (\<not> at_no_display attrs), gn_kinds = List.map_filter variant_kind vs, gn_sources = List.map_filter variant_source vs,
        gn_froms = List.map_filter variant_from vs, gn_eq_true = False\<rparr>"
      using expand unfolding input_expand_def i Let_def macro_input.simps repr.case ds[unfolded displays_def] by simp
    show ?thesis
      by (rule that[of vs, OF _ attrs])
        (use shown in \<open>simp_all add: g Enum raw_variants_def parse_enum_result[OF vs] Let_def\<close>)
  next
    case Union
    then show ?thesis using input by (simp add: input_parse_def)
  qed
qed

lemma variant_of:
  assumes "list_all2 (\<lambda>r v. variant_new r = Ok v) rs vs" "r \<in> set rs"
  obtains v where "v \<in> set vs" "variant_new r = Ok v"
proof -
  from assms(2) obtain i where "i < length rs" "r = rs ! i" by (metis in_set_conv_nth)
  then have "vs ! i \<in> set vs" "variant_new r = Ok (vs ! i)" using assms(1) by (auto simp: list_all2_conv_all_nth)
  then show ?thesis by (rule that)
qed

lemma variant_idents: "list_all2 (\<lambda>r v. variant_new r = Ok v) rs vs \<Longrightarrow> map v_ident vs = map rv_ident rs"
  by (induction rule: list_all2_induct) (simp_all add: variant_new_result)

lemma loop_types: "map snd (map (\<lambda>(j, f). (m f j, fd_ty f)) (enumerate i fs)) = map fd_ty fs"
  by (rule nth_equalityI) (simp_all add: nth_enumerate_eq)

lemma member_types: "map snd (vf_members (variant_fields_new (rv_fields r))) = map fd_ty (raw_fields r)"
  by (cases "rv_fields r")
    (simp_all only: variant_fields_new_def raw_fields_def fields_loop_result Let_def fields.case variant_fields.simps snd_conv
        append_Nil loop_types list.map)

lemma display_arm: "variant_display v = map_option (matcher v)
    (map_option (\<lambda>(display, tr). if tr then DisplayFmt (first_member v) else WriteMacro display) (v_display v))"
  by (simp add: variant_display_def split: option.split prod.split)

lemma source_arm: "variant_source v = map_option (matcher v)
    (map_option (\<lambda>index. member_as_ident (fst (vf_members (v_fields v) ! index))) (va_source (vf_attributes (v_fields v))))"
  by (simp add: variant_source_def option.map_comp comp_def)

text \<open>The name a member is bound to.\<close>

lemma member_name:
  assumes "variant_new r = Ok v" "i < length (raw_fields r)"
  shows "member_as_ident (fst (vf_members (v_fields v) ! i)) = field_names r ! i"
proof -
  have "i < length (vf_members (v_fields v))" using assms variant_fields_result(3)[of r] by (simp add: variant_new_result(3))
  then have "member_as_ident (fst (vf_members (v_fields v) ! i)) = idents v ! i" by (simp add: idents_def)
  then show ?thesis using assms(1) by (simp add: variant_new_result(5))
qed

section \<open>Properties\<close>

text \<open>C39: For every type the macro accepts, and every value of one of its variants: the generated \<open>kind\<close> is the one of the variant's
  attribute or the default; \<open>source\<close> is the first field marked as one; equality is that of the variants; when the variant has a display the
  generated one shows its only field if it is transparent and otherwise formats its arguments with every field bound to its name; in an
  enum no value is left without a display if one variant has one; and a conversion is made for each variant with a field marked for it, which
  is its only field.\<close>

theorem generated_code_does_what_the_attributes_say:
  fixes x y :: "'v val"
  assumes g: "errors_macro attr item = Ok g" and item: "item_ok item" and r: "r \<in> set (raw_variants item)" and x: "value_ok r x"
  shows "kind_of g x = rv_kind r \<and>
    source_of g x = map_option (\<lambda>i. snd x ! i) (first_source 0 (raw_fields r)) \<and>
    eq_of g x y = (case item of Struct _ \<Rightarrow> True | _ \<Rightarrow> fst x = fst y) \<and>
    (case display_attr r of
       None \<Rightarrow> (case item of Struct _ \<Rightarrow> True | _ \<Rightarrow> gn_display g = None)
     | Some ts \<Rightarrow>
         display_of g x =
           Some (if ts = [''transparent''] then ShowsDisplay (snd x ! 0) else Writes ts (map_of (zip (field_names r) (snd x))))) \<and>
    ((\<exists>f \<in> set (raw_fields r). fd_from f) \<longrightarrow>
       (\<exists>f m. raw_fields r = [f] \<and> (fd_ty f, rv_ident r, m) \<in> set (gn_froms g) \<and> (\<forall>v :: 'v. value_ok r (from_of (fd_ty f, rv_ident r, m) v))))"
proof -
  from errors_macro_result[OF g] obtain attrs vs where vs: "list_all2 (\<lambda>r v. variant_new r = Ok v) (raw_variants item) vs"
    and parts: "gn_kinds g = List.map_filter variant_kind vs" "gn_sources g = List.map_filter variant_source vs"
      "gn_froms g = List.map_filter variant_from vs" "gn_eq_true g = (case item of Struct _ \<Rightarrow> True | _ \<Rightarrow> False)"
      "gn_display g = (let ds = List.map_filter variant_display vs in if ds \<noteq> [] then Some ds else None)"
    and all: "case item of Struct _ \<Rightarrow> True | _ \<Rightarrow> (\<exists>v \<in> set vs. v_display v \<noteq> None) \<longrightarrow> (\<forall>v \<in> set vs. v_display v \<noteq> None)" .
  obtain v where v: "v \<in> set vs" "variant_new r = Ok v" by (rule variant_of[OF vs r])
  note V = variant_new_result[OF v(2)]
  have dist: "distinct (map v_ident vs)" using variant_idents[OF vs] item by (simp add: item_ok_def)
  have name: "fst x = v_ident v" and len: "length (snd x) = length (raw_fields r)" using x V(1) by (simp_all add: value_ok_def)
  have env: "map_of (zip (field_names r) (snd x)) (field_names r ! i) = Some (snd x ! i)" if "i < length (raw_fields r)" for i
    using env_nth[OF field_names_distinct[OF item r], of "snd x" i] that len by (simp add: field_names_length)
  have kind: "kind_of g x = rv_kind r"
    unfolding kind_of_def parts(1)
    by (subst run_match_filter[OF dist v(1) name, of _ v_kind]) (simp_all add: variant_kind_def V(2) option.map_comp comp_def option.map_ident)
  have source: "source_of g x = map_option (\<lambda>i. snd x ! i) (first_source 0 (raw_fields r))"
  proof -
    have src: "va_source (vf_attributes (v_fields v)) = first_source 0 (raw_fields r)" by (simp add: V(3) variant_fields_result(1))
    have "source_of g x = Option.bind (map_option (\<lambda>e1. (map_of (zip (idents v) (snd x)), e1))
        (map_option (\<lambda>i. member_as_ident (fst (vf_members (v_fields v) ! i))) (first_source 0 (raw_fields r)))) (\<lambda>(env, e). env e)"
      unfolding source_of_def parts(2) src[symmetric] by (subst run_match_filter[OF dist v(1) name, OF source_arm]) (rule refl)
    also have "\<dots> = map_option (\<lambda>i. snd x ! i) (first_source 0 (raw_fields r))"
    proof (cases "first_source 0 (raw_fields r)")
      case (Some i)
      then have "i < length (raw_fields r)" using first_source_less by fastforce
      then show ?thesis using Some by (simp add: member_name[OF v(2)] env V(5))
    qed simp
    finally show ?thesis .
  qed
  have eq: "eq_of g x y = (case item of Struct _ \<Rightarrow> True | _ \<Rightarrow> fst x = fst y)"
    by (cases item) (simp_all add: eq_of_def parts(4))
  have display: "case display_attr r of
       None \<Rightarrow> (case item of Struct _ \<Rightarrow> True | _ \<Rightarrow> gn_display g = None)
     | Some ts \<Rightarrow> display_of g x =
         Some (if ts = [''transparent''] then ShowsDisplay (snd x ! 0) else Writes ts (map_of (zip (field_names r) (snd x))))"
  proof (cases "display_attr r")
    case None
    then have "v_display v = None" using V(4) by simp
    show ?thesis
    proof (cases item)
      case (Struct r1)
      then show ?thesis using None by simp
    next
      case (Enum rs)
      then have "(\<exists>u \<in> set vs. v_display u \<noteq> None) \<longrightarrow> (\<forall>u \<in> set vs. v_display u \<noteq> None)" using all by simp
      then have "\<forall>u \<in> set vs. v_display u = None" using v(1) \<open>v_display v = None\<close> by blast
      then show ?thesis using None Enum by (simp add: parts(5) no_displays)
    next
      case Union
      then show ?thesis using r by (simp add: raw_variants_def)
    qed
  next
    case (Some ts)
    let ?w = "if ts = [''transparent''] then DisplayFmt (first_member v) else WriteMacro ts"
    have d: "v_display v = Some (ts, ts = [''transparent''])" using Some V(4) by (simp add: maybe_transparent_def)
    have run: "run_match (List.map_filter variant_display vs) x = Some (map_of (zip (field_names r) (snd x)), ?w)"
      by (subst run_match_filter[OF dist v(1) name, OF display_arm]) (simp add: d V(5))
    then have "List.map_filter variant_display vs \<noteq> []" by auto
    then have "display_of g x = shown_of (map_of (zip (field_names r) (snd x)), ?w)" using run by (simp add: display_of_def parts(5))
    moreover have "map_of (zip (field_names r) (snd x)) (first_member v) = Some (snd x ! 0)" if "ts = [''transparent'']"
    proof -
      have "length (raw_fields r) = 1" using V(7) d that by simp
      then show ?thesis using env[of 0] member_name[OF v(2), of 0] by (simp add: first_member_def)
    qed
    ultimately show ?thesis using Some by simp
  qed
  have "from": "\<exists>f m. raw_fields r = [f] \<and> (fd_ty f, rv_ident r, m) \<in> set (gn_froms g) \<and> (\<forall>v :: 'v. value_ok r (from_of (fd_ty f, rv_ident r, m) v))"
    if marked: "\<exists>f \<in> set (raw_fields r). fd_from f"
  proof -
    have mark: "va_from (vf_attributes (v_fields v))" using marked by (simp add: V(3) variant_fields_result(1))
    then have "length (raw_fields r) = 1" by (rule V(6))
    then obtain f where f: "raw_fields r = [f]" by (auto simp: length_Suc_conv)
    then have ty: "map snd (vf_members (v_fields v)) = [fd_ty f]"
      using member_types[of r] by (simp add: V(3))
    then have "snd (vf_members (v_fields v) ! 0) = fd_ty f" by (cases "vf_members (v_fields v)") auto
    then have "variant_from v = Some (fd_ty f, rv_ident r, fst (vf_members (v_fields v) ! 0))" using mark by (simp add: variant_from_def V(1))
    then have "(fd_ty f, rv_ident r, fst (vf_members (v_fields v) ! 0)) \<in> set (gn_froms g)"
      unfolding parts(3) using v(1) by (force simp: List.map_filter_def)
    then show ?thesis using f by (auto simp: value_ok_def from_of_def)
  qed
  from kind source eq display "from" show ?thesis by blast
qed

definition my_errors :: "(string, string) raw_data" where
  "my_errors = Enum
     [\<lparr>rv_fmt = None, rv_display = Some [''Parse error: {}'', ''f0''], rv_debug = None, rv_kind = Some ''InvalidInput'',
       rv_ident = ''ParseError'', rv_fields = Unnamed [\<lparr>fd_name = [], fd_ty = ''parse::Error'', fd_from = True, fd_source = True\<rparr>]\<rparr>,
      \<lparr>rv_fmt = None, rv_display = Some [''Cancelled''], rv_debug = None, rv_kind = None, rv_ident = ''Cancelled'', rv_fields = Unit\<rparr>]"

theorem generated_code_does_what_the_attributes_say_witness:
  "\<exists>g. errors_macro [] my_errors = Ok g \<and> kind_of g (''ParseError'', [5 :: nat]) = Some ''InvalidInput'' \<and>
     source_of g (''ParseError'', [5 :: nat]) = Some 5 \<and>
     display_of g (''ParseError'', [5 :: nat]) = Some (Writes [''Parse error: {}'', ''f0''] [''f0'' \<mapsto> 5])"
proof -
  let ?r = "hd (raw_variants my_errors)"
  obtain g where g: "errors_macro [] my_errors = Ok g"
  proof -
    have "case errors_macro [] my_errors of Ok _ \<Rightarrow> True | _ \<Rightarrow> False"
      by (simp add: my_errors_def errors_macro_def attributes_parse_def input_parse_def variant_new_def variant_fields_new_def get_attrs_def
          maybe_transparent_def input_expand_def variant_display_def matcher_def)
    then show ?thesis using that by (cases "errors_macro [] my_errors") auto
  qed
  have item: "item_ok my_errors" by (simp add: item_ok_def my_errors_def raw_variants_def raw_fields_def)
  have r: "?r \<in> set (raw_variants my_errors)" by (simp add: my_errors_def raw_variants_def)
  have x: "value_ok ?r (''ParseError'', [5 :: nat])" by (simp add: my_errors_def raw_variants_def value_ok_def raw_fields_def)
  have f0: "show_nat 0 = ''0''" by code_simp
  show ?thesis
    using generated_code_does_what_the_attributes_say[OF g item r x, of "(''Cancelled'', [])"] g
    by (intro exI[of _ g])
      (simp add: my_errors_def raw_variants_def raw_fields_def display_attr_def field_names_def f0)
qed

text \<open>Without \<open>?Debug\<close> the \<open>debug\<close> attributes have no effect, and with it they have none unless something has a display.\<close>

theorem debug_attributes_can_be_ignored:
  fixes item :: "('ty, 'k) raw_data"
  assumes "errors_macro attr item = Ok g" "attributes_parse attr = Ok attrs"
  shows "gn_derive_debug g = (\<not> at_no_debug attrs)" "(gn_debug g \<noteq> None) = (at_no_debug attrs \<and> gn_display g \<noteq> None)"
proof -
  from errors_macro_result[OF assms(1)] obtain attrs1 and vs :: "('ty, 'k) variant list" where "attributes_parse attr = Ok attrs1"
    "gn_debug g = (if gn_display g \<noteq> None \<and> at_no_debug attrs1 then Some (map variant_debug vs) else None)"
    "gn_derive_debug g = (\<not> at_no_debug attrs1)" .
  then show "gn_derive_debug g = (\<not> at_no_debug attrs)" "(gn_debug g \<noteq> None) = (at_no_debug attrs \<and> gn_display g \<noteq> None)"
    using assms(2) by (simp_all split: if_splits)
qed

end
