(* ===== verification/Executor.thy ===== *)
theory Executor
  imports Linked_List
begin

text \<open>
  The per-thread executor of \<open>src/src/coroutines/executor.rs\<close> and the workers of \<open>worker.rs\<close>: which worker runs, and which one each worker
  gives control back to. Fibers are the names of their workers and a switch is recorded, not performed. \<open>dbg\<close> says whether debug assertions
  are compiled in; \<open>None\<close> is a failed assertion, or the null worker followed where there is none. Shown: the executor is a stack of workers.
\<close>

section \<open>Workers and executors\<close>

record executor =
  ex_current :: addr
  ex_caller :: "addr \<Rightarrow> addr"
  ex_switches :: "(addr \<times> addr) list"

text \<open>The main worker is pinned with the executor.\<close>

definition executor_pin :: "addr \<Rightarrow> executor" where
  "executor_pin main = \<lparr>ex_current = main, ex_caller = (\<lambda>_. null), ex_switches = []\<rparr>"

definition worker_from_fiber :: "addr \<Rightarrow> executor \<Rightarrow> executor" where
  "worker_from_fiber w e = e\<lparr>ex_caller := (ex_caller e)(w := null)\<rparr>"

definition suspend_to :: "addr \<Rightarrow> addr \<Rightarrow> executor \<Rightarrow> executor" where
  "suspend_to w to e = e\<lparr>ex_caller := (ex_caller e)(w := to)\<rparr>"

definition fiber_switch :: "addr \<Rightarrow> addr \<Rightarrow> executor \<Rightarrow> executor" where
  "fiber_switch from to e = e\<lparr>ex_switches := ex_switches e @ [(from, to)]\<rparr>"

text \<open>A started worker moves onto its own stack and is pinned there.\<close>

definition worker_pinned :: "addr \<Rightarrow> addr \<Rightarrow> executor \<Rightarrow> executor" where
  "worker_pinned old new e = (suspend_to new (ex_caller e old) e)\<lparr>ex_current := new\<rparr>"

definition ex_suspend :: "bool \<Rightarrow> addr \<Rightarrow> executor \<Rightarrow> executor option" where
  "ex_suspend dbg w e =
     (let from = ex_caller e w
      in if from = null then None
         else let e1 = e\<lparr>ex_current := from\<rparr>;
                  e2 = (if dbg then suspend_to w null e1 else e1)
              in Some (fiber_switch w from e2))"

definition ex_resume :: "bool \<Rightarrow> addr \<Rightarrow> executor \<Rightarrow> executor option" where
  "ex_resume dbg w e =
     (let previous = ex_current e; e1 = e\<lparr>ex_current := w\<rparr>
      in if dbg \<and> ex_caller e1 w \<noteq> null then None
         else Some (fiber_switch previous w (suspend_to w previous e1)))"

definition ex_start :: "bool \<Rightarrow> addr \<Rightarrow> executor \<Rightarrow> executor option" where
  "ex_start = ex_resume"

definition ex_exit :: "addr \<Rightarrow> executor \<Rightarrow> executor option" where
  "ex_exit w e =
     (let from = ex_caller e w
      in if from = null then None else Some (fiber_switch w from (e\<lparr>ex_current := from\<rparr>)))"

section \<open>The stack of workers\<close>

text \<open>What happens on a thread: the running worker is the one that suspends, exits or moves.\<close>

datatype ex_op = NewWorker addr | Resume addr | Suspend | Exit | Move addr

fun ex_do :: "bool \<Rightarrow> ex_op \<Rightarrow> executor \<Rightarrow> executor option" where
  "ex_do dbg (NewWorker w) e = Some (worker_from_fiber w e)"
| "ex_do dbg (Resume w) e = ex_resume dbg w e"
| "ex_do dbg Suspend e = ex_suspend dbg (ex_current e) e"
| "ex_do dbg Exit e = ex_exit (ex_current e) e"
| "ex_do dbg (Move w) e = Some (worker_pinned (ex_current e) w e)"

text \<open>The stack, with the running worker on top, and the workers that exist; \<open>None\<close> for a use that the safety contracts forbid.\<close>

fun stack_do :: "ex_op \<Rightarrow> addr list \<times> addr set \<Rightarrow> (addr list \<times> addr set) option" where
  "stack_do (NewWorker w) (ws, alive) = (if w = null \<or> w \<in> alive then None else Some (ws, insert w alive))"
| "stack_do (Resume w) (ws, alive) = (if w \<in> alive - set ws then Some (w # ws, alive) else None)"
| "stack_do Suspend (ws, alive) = (if length ws < 2 then None else Some (tl ws, alive))"
| "stack_do Exit (ws, alive) = (if length ws < 2 then None else Some (tl ws, alive - {hd ws}))"
| "stack_do (Move w) (ws, alive) =
     (if length ws < 2 \<or> w = null \<or> w \<in> alive then None else Some (w # tl ws, insert w (alive - {hd ws})))"

fun run_all :: "('op \<Rightarrow> 's \<Rightarrow> 's option) \<Rightarrow> 'op list \<Rightarrow> 's \<Rightarrow> 's option" where
  "run_all f [] s = Some s"
| "run_all f (x # xs) s = Option.bind (f x s) (run_all f xs)"

fun linked_by :: "(addr \<Rightarrow> addr) \<Rightarrow> addr list \<Rightarrow> bool" where
  "linked_by m (v # w # ws) \<longleftrightarrow> m v = w \<and> linked_by m (w # ws)"
| "linked_by m _ \<longleftrightarrow> True"

definition stack_of :: "bool \<Rightarrow> executor \<Rightarrow> addr list \<times> addr set \<Rightarrow> bool" where
  "stack_of dbg e s \<longleftrightarrow> fst s \<noteq> [] \<and> distinct (fst s) \<and> set (fst s) \<subseteq> snd s \<and> null \<notin> snd s \<and>
     ex_current e = hd (fst s) \<and> linked_by (ex_caller e) (fst s) \<and>
     (dbg \<longrightarrow> (\<forall>w \<in> snd s - set (fst s). ex_caller e w = null))"

lemma linked_by_upd: "w \<notin> set ws \<Longrightarrow> linked_by (m(w := x)) ws = linked_by m ws"
  by (induction m ws rule: linked_by.induct) auto

lemma linked_by_tl: "linked_by m ws \<Longrightarrow> linked_by m (tl ws)"
  by (cases ws rule: remdups_adj.cases) auto

lemma linked_by_Cons: "linked_by m (w # ws) \<longleftrightarrow> (ws \<noteq> [] \<longrightarrow> m w = hd ws) \<and> linked_by m ws"
  by (cases ws) auto

lemma two_split: "\<not> length ws < 2 \<Longrightarrow> \<exists>v w us. ws = v # w # us"
  by (cases ws rule: remdups_adj.cases) auto

lemma ex_step_refines:
  assumes "stack_of dbg e s" "stack_do x s = Some s'"
  shows "\<exists>e'. ex_do dbg x e = Some e' \<and> stack_of dbg e' s'"
proof -
  obtain u us alive where s: "s = (u # us, alive)" using assms(1) by (cases s) (auto simp: stack_of_def neq_Nil_conv)
  have st: "u \<notin> set us" "distinct us" "u \<in> alive" "set us \<subseteq> alive" "null \<notin> alive" "ex_current e = u"
    "us \<noteq> [] \<Longrightarrow> ex_caller e u = hd us" "linked_by (ex_caller e) us"
    "dbg \<Longrightarrow> w \<in> alive \<Longrightarrow> w \<noteq> u \<Longrightarrow> w \<notin> set us \<Longrightarrow> ex_caller e w = null" for w
    using assms(1) s by (auto simp: stack_of_def linked_by_Cons)
  show ?thesis
  proof (cases x)
    case (NewWorker w)
    then have w: "w \<noteq> null" "w \<notin> alive" "s' = (u # us, insert w alive)" using assms(2) s by (auto split: if_splits)
    have "linked_by ((ex_caller e)(w := null)) us" using w(2) st(4,8) by (subst linked_by_upd) auto
    then have "stack_of dbg (worker_from_fiber w e) (u # us, insert w alive)"
      using st w(1,2) by (auto simp: stack_of_def worker_from_fiber_def linked_by_Cons)
    then show ?thesis using NewWorker w(3) by simp
  next
    case (Resume w)
    then have w: "w \<in> alive" "w \<noteq> u" "w \<notin> set us" "s' = (w # u # us, alive)" using assms(2) s by (auto split: if_splits)
    have "linked_by ((ex_caller e)(w := u)) us" using w(3) st(8) by (subst linked_by_upd) auto
    then have "stack_of dbg (fiber_switch u w (suspend_to w u (e\<lparr>ex_current := w\<rparr>))) (w # u # us, alive)"
      using st w(1-3) by (auto simp: stack_of_def fiber_switch_def suspend_to_def linked_by_Cons)
    then show ?thesis using Resume w st(6,9) by (auto simp: ex_resume_def)
  next
    case Suspend
    then obtain v vs where v: "us = v # vs" "s' = (us, alive)" using assms(2) s by (cases us) auto
    have "linked_by ((ex_caller e)(u := null)) us" using st(1,8) by (subst linked_by_upd) auto
    then have "stack_of dbg (fiber_switch u v (if dbg then suspend_to u null (e\<lparr>ex_current := v\<rparr>) else e\<lparr>ex_current := v\<rparr>)) (us, alive)"
      using st v(1) by (auto simp: stack_of_def fiber_switch_def suspend_to_def)
    moreover have "v \<noteq> null" using st(4,5) v(1) by auto
    ultimately show ?thesis using Suspend v st(6,7) by (auto simp: ex_suspend_def Let_def)
  next
    case Exit
    then obtain v vs where v: "us = v # vs" "s' = (us, alive - {u})" using assms(2) s by (cases us) auto
    have "stack_of dbg (fiber_switch u v (e\<lparr>ex_current := v\<rparr>)) (us, alive - {u})"
      using st v(1) by (auto simp: stack_of_def fiber_switch_def)
    moreover have "v \<noteq> null" using st(4,5) v(1) by auto
    ultimately show ?thesis using Exit v st(6,7) by (auto simp: ex_exit_def Let_def)
  next
    case (Move w)
    then obtain v vs where v: "us = v # vs" "w \<noteq> null" "w \<notin> alive" "s' = (w # us, insert w (alive - {u}))"
      using assms(2) s by (cases us) (auto split: if_splits)
    have "linked_by ((ex_caller e)(w := v)) us" using v(3) st(4,8) by (subst linked_by_upd) auto
    then have "stack_of dbg (worker_pinned u w e) (w # us, insert w (alive - {u}))"
      using st v(1-3) by (auto simp: stack_of_def worker_pinned_def suspend_to_def linked_by_Cons)
    then show ?thesis using Move v(4) st(6) by simp
  qed
qed

lemma stack_run_refines:
  assumes "stack_of dbg e s" "run_all stack_do xs s = Some s'"
  shows "\<exists>e'. run_all (ex_do dbg) xs e = Some e' \<and> stack_of dbg e' s'"
  using assms
proof (induction xs arbitrary: e s)
  case Nil
  then show ?case by (auto simp: stack_of_def)
next
  case (Cons x xs)
  then obtain t where t: "stack_do x s = Some t" "run_all stack_do xs t = Some s'" by (cases "stack_do x s") auto
  then obtain e1 where "ex_do dbg x e = Some e1" "stack_of dbg e1 t" using ex_step_refines[OF Cons.prems(1)] by blast
  then show ?case using Cons.IH[of e1 t] t(2) by simp
qed

text \<open>C24: For any sequence of legal uses on one thread the executor's current worker and the workers' callers are a stack: resuming a worker pushes it, and
  suspending or exiting gives control back to the worker that resumed it, in both build modes, with no assertion failing.\<close>

theorem executor_is_a_stack:
  assumes "stack_of dbg e s" "run_all stack_do xs s = Some s'"
  shows "\<exists>e'. run_all (ex_do dbg) xs e = Some e' \<and> ex_current e' = hd (fst s') \<and> stack_of dbg e' s'"
  using stack_run_refines[OF assms] by (auto simp: stack_of_def)

lemma executor_pin_stack: "main \<noteq> null \<Longrightarrow> stack_of dbg (executor_pin main) ([main], {main})"
  by (simp add: stack_of_def executor_pin_def)

theorem executor_is_a_stack_witness:
  "\<exists>e'. run_all (ex_do True) [NewWorker 2, Resume 2, Move 3, NewWorker 4, Resume 4, Suspend, Exit, Resume 4] (executor_pin 1) = Some e' \<and>
    ex_current e' = 4"
proof -
  have "run_all stack_do [NewWorker 2, Resume 2, Move 3, NewWorker 4, Resume 4, Suspend, Exit, Resume 4] ([1], {1}) =
      Some ([4, 1], insert 4 (insert 3 {1} - {3}))"
    by (simp add: null_def insert_Diff_if)
  from executor_is_a_stack[OF executor_pin_stack[of 1 True] this] show ?thesis by (auto simp: null_def)
qed

text \<open>With debug assertions a worker that is already on the stack, other than the main one, cannot be resumed again, and the main
  worker cannot be suspended in any build.\<close>

theorem double_resume_is_detected:
  assumes "stack_of True e (ws, alive)" "w \<in> set (butlast ws)"
  shows "ex_resume True w e = None"
proof -
  have "ex_caller e w \<noteq> null"
    using assms
  proof -
    have l: "linked_by (ex_caller e) ws" "null \<notin> set ws" using assms(1) by (auto simp: stack_of_def)
    from l assms(2) show ?thesis by (induction "ex_caller e" ws rule: linked_by.induct) (auto split: if_splits)
  qed
  then show ?thesis by (simp add: ex_resume_def)
qed

theorem double_resume_is_detected_witness:
  "\<exists>e. run_all (ex_do True) [NewWorker 2, Resume 2] (executor_pin 1) = Some e \<and> ex_resume True 2 e = None"
proof -
  have "run_all stack_do [NewWorker 2, Resume 2] ([1], {1}) = Some ([2, 1], {2, 1})" by (simp add: null_def)
  from stack_run_refines[OF executor_pin_stack this, of True] obtain e where
    e: "run_all (ex_do True) [NewWorker 2, Resume 2] (executor_pin 1) = Some e" "stack_of True e ([2, 1], {2, 1})"
    by (auto simp: null_def)
  from double_resume_is_detected[OF e(2), of 2] e(1) show ?thesis by auto
qed

end
