(* ===== verification/Os_Calls.thy ===== *)
theory Os_Calls
  imports Os_Data
begin

text \<open>
  System calls: numbers (\<open>src/src/os/syscall/x64.rs\<close>, \<open>arm64.rs\<close>), parameters and results
  (\<open>src/src/os/syscall/mod.rs\<close>), and the wrappers with logic of their own: memory mappings
  (\<open>src/src/os/mman.rs\<close>), socket options and message headers (\<open>src/src/os/socket.rs\<close>), priorities
  (\<open>src/src/os/resource.rs\<close>), system configuration (\<open>src/src/os/unistd/sysconf.rs\<close>), thread signals
  (\<open>src/src/os/signal.rs\<close>), event counters (\<open>src/src/os/eventfd.rs\<close>). The kernel is a parameter: from its state,
  a call number and the registers it gives the result register and its new state.
\<close>

section \<open>Numbers\<close>

definition x64_numbers_1 :: "(string \<times> nat) list" where
  "x64_numbers_1 = [
     (''Read'', 0), (''Write'', 1), (''Open'', 2), (''Close'', 3), (''Stat'', 4), (''Fstat'', 5),
     (''Lstat'', 6), (''Poll'', 7), (''Lseek'', 8), (''Mmap'', 9), (''Mprotect'', 10),
     (''Munmap'', 11), (''Brk'', 12), (''RtSigaction'', 13), (''RtSigprocmask'', 14),
     (''RtSigreturn'', 15), (''Ioctl'', 16), (''Pread64'', 17), (''Pwrite64'', 18),
     (''Readv'', 19), (''Writev'', 20), (''Access'', 21), (''Pipe'', 22), (''Select'', 23),
     (''SchedYield'', 24), (''Mremap'', 25), (''Msync'', 26), (''Mincore'', 27),
     (''Madvise'', 28), (''Shmget'', 29), (''Shmat'', 30), (''Shmctl'', 31), (''Dup'', 32),
     (''Dup2'', 33), (''Pause'', 34), (''Nanosleep'', 35), (''Getitimer'', 36), (''Alarm'', 37),
     (''Setitimer'', 38), (''Getpid'', 39), (''Sendfile'', 40), (''Socket'', 41),
     (''Connect'', 42), (''Accept'', 43), (''Sendto'', 44), (''Recvfrom'', 45),
     (''Sendmsg'', 46), (''Recvmsg'', 47), (''Shutdown'', 48), (''Bind'', 49), (''Listen'', 50),
     (''Getsockname'', 51), (''Getpeername'', 52), (''Socketpair'', 53), (''Setsockopt'', 54),
     (''Getsockopt'', 55), (''Clone'', 56), (''Fork'', 57), (''Vfork'', 58), (''Execve'', 59),
     (''Exit'', 60), (''Wait4'', 61), (''Kill'', 62), (''Uname'', 63), (''Semget'', 64),
     (''Semop'', 65), (''Semctl'', 66), (''Shmdt'', 67), (''Msgget'', 68), (''Msgsnd'', 69),
     (''Msgrcv'', 70), (''Msgctl'', 71), (''Fcntl'', 72), (''Flock'', 73), (''Fsync'', 74),
     (''Fdatasync'', 75), (''Truncate'', 76), (''Ftruncate'', 77), (''Getdents'', 78),
     (''Getcwd'', 79), (''Chdir'', 80), (''Fchdir'', 81), (''Rename'', 82), (''Mkdir'', 83),
     (''Rmdir'', 84), (''Creat'', 85), (''Link'', 86), (''Unlink'', 87), (''Symlink'', 88),
     (''Readlink'', 89), (''Chmod'', 90), (''Fchmod'', 91), (''Chown'', 92), (''Fchown'', 93),
     (''Lchown'', 94), (''Umask'', 95), (''Gettimeofday'', 96), (''Getrlimit'', 97),
     (''Getrusage'', 98), (''Sysinfo'', 99), (''Times'', 100), (''Ptrace'', 101),
     (''Getuid'', 102), (''Syslog'', 103), (''Getgid'', 104), (''Setuid'', 105),
     (''Setgid'', 106), (''Geteuid'', 107), (''Getegid'', 108), (''Setpgid'', 109),
     (''Getppid'', 110), (''Getpgrp'', 111), (''Setsid'', 112), (''Setreuid'', 113),
     (''Setregid'', 114), (''Getgroups'', 115), (''Setgroups'', 116), (''Setresuid'', 117),
     (''Getresuid'', 118), (''Setresgid'', 119), (''Getresgid'', 120)]"

definition x64_numbers_2 :: "(string \<times> nat) list" where
  "x64_numbers_2 = [
     (''Getpgid'', 121), (''Setfsuid'', 122), (''Setfsgid'', 123), (''Getsid'', 124),
     (''Capget'', 125), (''Capset'', 126), (''RtSigpending'', 127), (''RtSigtimedwait'', 128),
     (''RtSigqueueinfo'', 129), (''RtSigsuspend'', 130), (''Sigaltstack'', 131),
     (''Utime'', 132), (''Mknod'', 133), (''Uselib'', 134), (''Personality'', 135),
     (''Ustat'', 136), (''Statfs'', 137), (''Fstatfs'', 138), (''Sysfs'', 139),
     (''Getpriority'', 140), (''Setpriority'', 141), (''SchedSetparam'', 142),
     (''SchedGetparam'', 143), (''SchedSetscheduler'', 144), (''SchedGetscheduler'', 145),
     (''SchedGetPriorityMax'', 146), (''SchedGetPriorityMin'', 147),
     (''SchedRrGetInterval'', 148), (''Mlock'', 149), (''Munlock'', 150), (''Mlockall'', 151),
     (''Munlockall'', 152), (''Vhangup'', 153), (''ModifyLdt'', 154), (''PivotRoot'', 155),
     (''Sysctl'', 156), (''Prctl'', 157), (''ArchPrctl'', 158), (''Adjtimex'', 159),
     (''Setrlimit'', 160), (''Chroot'', 161), (''Sync'', 162), (''Acct'', 163),
     (''Settimeofday'', 164), (''Mount'', 165), (''Umount2'', 166), (''Swapon'', 167),
     (''Swapoff'', 168), (''Reboot'', 169), (''Sethostname'', 170), (''Setdomainname'', 171),
     (''Iopl'', 172), (''Ioperm'', 173), (''CreateModule'', 174), (''InitModule'', 175),
     (''DeleteModule'', 176), (''GetKernelSyms'', 177), (''QueryModule'', 178),
     (''Quotactl'', 179), (''Nfsservctl'', 180), (''Getpmsg'', 181), (''Putpmsg'', 182),
     (''AfsSyscall'', 183), (''Tuxcall'', 184), (''Security'', 185), (''Gettid'', 186),
     (''Readahead'', 187), (''Setxattr'', 188), (''Lsetxattr'', 189), (''Fsetxattr'', 190),
     (''Getxattr'', 191), (''Lgetxattr'', 192), (''Fgetxattr'', 193), (''Listxattr'', 194),
     (''Llistxattr'', 195), (''Flistxattr'', 196), (''Removexattr'', 197),
     (''Lremovexattr'', 198), (''Fremovexattr'', 199), (''Tkill'', 200), (''Time'', 201),
     (''Futex'', 202), (''SchedSetaffinity'', 203), (''SchedGetaffinity'', 204),
     (''SetThreadArea'', 205), (''IoSetup'', 206), (''IoDestroy'', 207), (''IoGetevents'', 208),
     (''IoSubmit'', 209), (''IoCancel'', 210), (''GetThreadArea'', 211),
     (''LookupDcookie'', 212), (''EpollCreate'', 213), (''EpollCtlOld'', 214),
     (''EpollWaitOld'', 215), (''RemapFilePages'', 216), (''Getdents64'', 217),
     (''SetTidAddress'', 218), (''RestartSyscall'', 219), (''Semtimedop'', 220),
     (''Fadvise64'', 221), (''TimerCreate'', 222), (''TimerSettime'', 223),
     (''TimerGettime'', 224), (''TimerGetoverrun'', 225), (''TimerDelete'', 226),
     (''ClockSettime'', 227), (''ClockGettime'', 228), (''ClockGetres'', 229),
     (''ClockNanosleep'', 230), (''ExitGroup'', 231), (''EpollWait'', 232), (''EpollCtl'', 233),
     (''Tgkill'', 234), (''Utimes'', 235), (''Vserver'', 236), (''Mbind'', 237),
     (''SetMempolicy'', 238), (''GetMempolicy'', 239), (''MqOpen'', 240), (''MqUnlink'', 241)]"

definition x64_numbers_3 :: "(string \<times> nat) list" where
  "x64_numbers_3 = [
     (''MqTimedsend'', 242), (''MqTimedreceive'', 243), (''MqNotify'', 244),
     (''MqGetsetattr'', 245), (''KexecLoad'', 246), (''Waitid'', 247), (''AddKey'', 248),
     (''RequestKey'', 249), (''Keyctl'', 250), (''IoprioSet'', 251), (''IoprioGet'', 252),
     (''InotifyInit'', 253), (''InotifyAddWatch'', 254), (''InotifyRmWatch'', 255),
     (''MigratePages'', 256), (''Openat'', 257), (''Mkdirat'', 258), (''Mknodat'', 259),
     (''Fchownat'', 260), (''Futimesat'', 261), (''Newfstatat'', 262), (''Unlinkat'', 263),
     (''Renameat'', 264), (''Linkat'', 265), (''Symlinkat'', 266), (''Readlinkat'', 267),
     (''Fchmodat'', 268), (''Faccessat'', 269), (''Pselect6'', 270), (''Ppoll'', 271),
     (''Unshare'', 272), (''SetRobustList'', 273), (''GetRobustList'', 274), (''Splice'', 275),
     (''Tee'', 276), (''SyncFileRange'', 277), (''Vmsplice'', 278), (''MovePages'', 279),
     (''Utimensat'', 280), (''EpollPwait'', 281), (''Signalfd'', 282), (''TimerfdCreate'', 283),
     (''Eventfd'', 284), (''Fallocate'', 285), (''TimerfdSettime'', 286),
     (''TimerfdGettime'', 287), (''Accept4'', 288), (''Signalfd4'', 289), (''Eventfd2'', 290),
     (''EpollCreate1'', 291), (''Dup3'', 292), (''Pipe2'', 293), (''InotifyInit1'', 294),
     (''Preadv'', 295), (''Pwritev'', 296), (''RtTgsigqueueinfo'', 297),
     (''PerfEventOpen'', 298), (''Recvmmsg'', 299), (''FanotifyInit'', 300),
     (''FanotifyMark'', 301), (''Prlimit64'', 302), (''NameToHandleAt'', 303),
     (''OpenByHandleAt'', 304), (''ClockAdjtime'', 305), (''Syncfs'', 306), (''Sendmmsg'', 307),
     (''Setns'', 308), (''Getcpu'', 309), (''ProcessVmReadv'', 310), (''ProcessVmWritev'', 311),
     (''Kcmp'', 312), (''FinitModule'', 313), (''SchedSetattr'', 314), (''SchedGetattr'', 315),
     (''Renameat2'', 316), (''Seccomp'', 317), (''Getrandom'', 318), (''MemfdCreate'', 319),
     (''KexecFileLoad'', 320), (''Bpf'', 321), (''Execveat'', 322), (''Userfaultfd'', 323),
     (''Membarrier'', 324), (''Mlock2'', 325), (''CopyFileRange'', 326), (''Preadv2'', 327),
     (''Pwritev2'', 328), (''PkeyMprotect'', 329), (''PkeyAlloc'', 330), (''PkeyFree'', 331),
     (''Statx'', 332), (''IoPgetevents'', 333), (''Rseq'', 334), (''PidfdSendSignal'', 424),
     (''IoUringSetup'', 425), (''IoUringEnter'', 426), (''IoUringRegister'', 427),
     (''OpenTree'', 428), (''MoveMount'', 429), (''Fsopen'', 430), (''Fsconfig'', 431),
     (''Fsmount'', 432), (''Fspick'', 433), (''PidfdOpen'', 434), (''Clone3'', 435),
     (''CloseRange'', 436), (''Openat2'', 437), (''PidfdGetfd'', 438), (''Faccessat2'', 439),
     (''ProcessMadvise'', 440), (''EpollPwait2'', 441), (''MountSetattr'', 442),
     (''QuotactlFd'', 443), (''LandlockCreateRuleset'', 444), (''LandlockAddRule'', 445),
     (''LandlockRestrictSelf'', 446), (''MemfdSecret'', 447), (''ProcessMrelease'', 448),
     (''FutexWaitv'', 449), (''SetMempolicyHomeNode'', 450)]"

definition x64_numbers :: "(string \<times> nat) list" where
  "x64_numbers = x64_numbers_1 @ x64_numbers_2 @ x64_numbers_3"

definition arm64_numbers_1 :: "(string \<times> nat) list" where
  "arm64_numbers_1 = [
     (''IoSetup'', 0), (''IoDestroy'', 1), (''IoSubmit'', 2), (''IoCancel'', 3),
     (''IoGetevents'', 4), (''Setxattr'', 5), (''Lsetxattr'', 6), (''Fsetxattr'', 7),
     (''Getxattr'', 8), (''Lgetxattr'', 9), (''Fgetxattr'', 10), (''Listxattr'', 11),
     (''Llistxattr'', 12), (''Flistxattr'', 13), (''Removexattr'', 14), (''Lremovexattr'', 15),
     (''Fremovexattr'', 16), (''Getcwd'', 17), (''LookupDcookie'', 18), (''Eventfd2'', 19),
     (''EpollCreate1'', 20), (''EpollCtl'', 21), (''EpollPwait'', 22), (''Dup'', 23),
     (''Dup3'', 24), (''Fcntl'', 25), (''InotifyInit1'', 26), (''InotifyAddWatch'', 27),
     (''InotifyRmWatch'', 28), (''Ioctl'', 29), (''IoprioSet'', 30), (''IoprioGet'', 31),
     (''Flock'', 32), (''Mknodat'', 33), (''Mkdirat'', 34), (''Unlinkat'', 35),
     (''Symlinkat'', 36), (''Linkat'', 37), (''Renameat'', 38), (''Umount2'', 39),
     (''Mount'', 40), (''PivotRoot'', 41), (''Nfsservctl'', 42), (''Statfs'', 43),
     (''Fstatfs'', 44), (''Truncate'', 45), (''Ftruncate'', 46), (''Fallocate'', 47),
     (''Faccessat'', 48), (''Chdir'', 49), (''Fchdir'', 50), (''Chroot'', 51), (''Fchmod'', 52),
     (''Fchmodat'', 53), (''Fchownat'', 54), (''Fchown'', 55), (''Openat'', 56), (''Close'', 57),
     (''Vhangup'', 58), (''Pipe2'', 59), (''Quotactl'', 60), (''Getdents64'', 61),
     (''Lseek'', 62), (''Read'', 63), (''Write'', 64), (''Readv'', 65), (''Writev'', 66),
     (''Pread64'', 67), (''Pwrite64'', 68), (''Preadv'', 69), (''Pwritev'', 70),
     (''Sendfile'', 71), (''Pselect6'', 72), (''Ppoll'', 73), (''Signalfd4'', 74),
     (''Vmsplice'', 75), (''Splice'', 76), (''Tee'', 77), (''Readlinkat'', 78),
     (''Fstatat'', 79), (''Fstat'', 80), (''Sync'', 81), (''Fsync'', 82), (''Fdatasync'', 83),
     (''SyncFileRange'', 84), (''TimerfdCreate'', 85), (''TimerfdSettime'', 86),
     (''TimerfdGettime'', 87), (''Utimensat'', 88), (''Acct'', 89), (''Capget'', 90),
     (''Capset'', 91), (''Personality'', 92), (''Exit'', 93), (''ExitGroup'', 94),
     (''Waitid'', 95), (''SetTidAddress'', 96), (''Unshare'', 97), (''Futex'', 98),
     (''SetRobustList'', 99), (''GetRobustList'', 100), (''Nanosleep'', 101),
     (''Getitimer'', 102), (''Setitimer'', 103), (''KexecLoad'', 104), (''InitModule'', 105),
     (''DeleteModule'', 106), (''TimerCreate'', 107), (''TimerGettime'', 108)]"

definition arm64_numbers_2 :: "(string \<times> nat) list" where
  "arm64_numbers_2 = [
     (''TimerGetoverrun'', 109), (''TimerSettime'', 110), (''TimerDelete'', 111),
     (''ClockSettime'', 112), (''ClockGettime'', 113), (''ClockGetres'', 114),
     (''ClockNanosleep'', 115), (''Syslog'', 116), (''Ptrace'', 117), (''SchedSetparam'', 118),
     (''SchedSetscheduler'', 119), (''SchedGetscheduler'', 120), (''SchedGetparam'', 121),
     (''SchedSetaffinity'', 122), (''SchedGetaffinity'', 123), (''SchedYield'', 124),
     (''SchedGetPriorityMax'', 125), (''SchedGetPriorityMin'', 126),
     (''SchedRrGetInterval'', 127), (''RestartSyscall'', 128), (''Kill'', 129), (''Tkill'', 130),
     (''Tgkill'', 131), (''Sigaltstack'', 132), (''RtSigsuspend'', 133), (''RtSigaction'', 134),
     (''RtSigprocmask'', 135), (''RtSigpending'', 136), (''RtSigtimedwait'', 137),
     (''RtSigqueueinfo'', 138), (''RtSigreturn'', 139), (''Setpriority'', 140),
     (''Getpriority'', 141), (''Reboot'', 142), (''Setregid'', 143), (''Setgid'', 144),
     (''Setreuid'', 145), (''Setuid'', 146), (''Setresuid'', 147), (''Getresuid'', 148),
     (''Setresgid'', 149), (''Getresgid'', 150), (''Setfsuid'', 151), (''Setfsgid'', 152),
     (''Times'', 153), (''Setpgid'', 154), (''Getpgid'', 155), (''Getsid'', 156),
     (''Setsid'', 157), (''Getgroups'', 158), (''Setgroups'', 159), (''Uname'', 160),
     (''Sethostname'', 161), (''Setdomainname'', 162), (''Getrlimit'', 163),
     (''Setrlimit'', 164), (''Getrusage'', 165), (''Umask'', 166), (''Prctl'', 167),
     (''Getcpu'', 168), (''Gettimeofday'', 169), (''Settimeofday'', 170), (''Adjtimex'', 171),
     (''Getpid'', 172), (''Getppid'', 173), (''Getuid'', 174), (''Geteuid'', 175),
     (''Getgid'', 176), (''Getegid'', 177), (''Gettid'', 178), (''Sysinfo'', 179),
     (''MqOpen'', 180), (''MqUnlink'', 181), (''MqTimedsend'', 182), (''MqTimedreceive'', 183),
     (''MqNotify'', 184), (''MqGetsetattr'', 185), (''Msgget'', 186), (''Msgctl'', 187),
     (''Msgrcv'', 188), (''Msgsnd'', 189), (''Semget'', 190), (''Semctl'', 191),
     (''Semtimedop'', 192), (''Semop'', 193), (''Shmget'', 194), (''Shmctl'', 195),
     (''Shmat'', 196), (''Shmdt'', 197), (''Socket'', 198), (''Socketpair'', 199),
     (''Bind'', 200), (''Listen'', 201), (''Accept'', 202), (''Connect'', 203),
     (''Getsockname'', 204), (''Getpeername'', 205), (''Sendto'', 206), (''Recvfrom'', 207),
     (''Setsockopt'', 208), (''Getsockopt'', 209), (''Shutdown'', 210), (''Sendmsg'', 211),
     (''Recvmsg'', 212), (''Readahead'', 213), (''Brk'', 214), (''Munmap'', 215),
     (''Mremap'', 216), (''AddKey'', 217)]"

definition arm64_numbers_3 :: "(string \<times> nat) list" where
  "arm64_numbers_3 = [
     (''RequestKey'', 218), (''Keyctl'', 219), (''Clone'', 220), (''Execve'', 221),
     (''Mmap'', 222), (''Fadvise64'', 223), (''Swapon'', 224), (''Swapoff'', 225),
     (''Mprotect'', 226), (''Msync'', 227), (''Mlock'', 228), (''Munlock'', 229),
     (''Mlockall'', 230), (''Munlockall'', 231), (''Mincore'', 232), (''Madvise'', 233),
     (''RemapFilePages'', 234), (''Mbind'', 235), (''GetMempolicy'', 236),
     (''SetMempolicy'', 237), (''MigratePages'', 238), (''MovePages'', 239),
     (''RtTgsigqueueinfo'', 240), (''PerfEventOpen'', 241), (''Accept4'', 242),
     (''Recvmmsg'', 243), (''ArchSpecificSyscall'', 244), (''Wait4'', 260), (''Prlimit64'', 261),
     (''FanotifyInit'', 262), (''FanotifyMark'', 263), (''NameToHandleAt'', 264),
     (''ROpenByHandleAt'', 265), (''ClockAdjtime'', 266), (''Syncfs'', 267), (''Setns'', 268),
     (''Sendmmsg'', 269), (''ProcessVmReadv'', 270), (''ProcessVmWritev'', 271), (''Kcmp'', 272),
     (''FinitModule'', 273), (''SchedSetattr'', 274), (''SchedGetattr'', 275),
     (''Renameat2'', 276), (''Seccomp'', 277), (''Getrandom'', 278), (''MemfdCreate'', 279),
     (''Bpf'', 280), (''Execveat'', 281), (''Userfaultfd'', 282), (''Membarrier'', 283),
     (''Mlock2'', 284), (''CopyFileRange'', 285), (''Preadv2'', 286), (''Pwritev2'', 287),
     (''PkeyMprotect'', 288), (''PkeyAlloc'', 289), (''PkeyFree'', 290), (''Statx'', 291),
     (''IoPgetevents'', 292), (''Rseq'', 293), (''KexecFileLoad'', 294),
     (''ClockGettime64'', 403), (''ClockSettime64'', 404), (''ClockAdjtime64'', 405),
     (''ClockGetresTime64'', 406), (''ClockNanosleepTime64'', 407), (''TimerGettime64'', 408),
     (''TimerSettime64'', 409), (''TimerfdGettime64'', 410), (''TimerfdSettime64'', 411),
     (''UtimensatTime64'', 412), (''Pselect6Time64'', 413), (''PpollTime64'', 414),
     (''IoPgeteventsTime64'', 416), (''RecvmmsgTime64'', 417), (''MqTimedsendTime64'', 418),
     (''MqTimedreceiveTime64'', 419), (''SemtimedopTime64'', 420),
     (''RtSigtimedwaitTime64'', 421), (''FutexTime64'', 422),
     (''SchedRrGetIntervalTime64'', 423), (''PidfdSendSignal'', 424), (''IoUringSetup'', 425),
     (''IoUringEnter'', 426), (''IoUringRegister'', 427), (''OpenTree'', 428),
     (''MoveMount'', 429), (''Fsopen'', 430), (''Fsconfig'', 431), (''Fsmount'', 432),
     (''Fspick'', 433), (''PidfdOpen'', 434), (''Clone3'', 435), (''CloseRange'', 436),
     (''Openat2'', 437), (''PidfdGetfd'', 438), (''Faccessat2'', 439), (''ProcessMadvise'', 440),
     (''EpollPwait2'', 441), (''MountSetattr'', 442), (''QuotactlFd'', 443),
     (''LandlockCreateRuleset'', 444), (''LandlockAddRule'', 445),
     (''LandlockRestrictSelf'', 446), (''MemfdSecret'', 447), (''ProcessMrelease'', 448)]"

definition arm64_numbers :: "(string \<times> nat) list" where
  "arm64_numbers = arm64_numbers_1 @ arm64_numbers_2 @ arm64_numbers_3"

definition syscall_number :: "string \<Rightarrow> nat" where
  "syscall_number name = the (map_of x64_numbers name)"

section \<open>Parameters and results\<close>

type_synonym 'k sys = "'k \<Rightarrow> nat \<Rightarrow> usize list \<Rightarrow> usize \<times> 'k"

definition param_i32 :: "u32 \<Rightarrow> usize" where
  "param_i32 x = scast x"

definition param_u32 :: "u32 \<Rightarrow> usize" where
  "param_u32 x = ucast x"

definition INVALID_FD :: u32 where
  "INVALID_FD = - 1"

definition optional_fd :: "u32 option \<Rightarrow> u32" where
  "optional_fd fd = (case fd of None \<Rightarrow> INVALID_FD | Some f \<Rightarrow> f)"

definition CurrentWorkingDirectory :: u32 where
  "CurrentWorkingDirectory = - 100"

definition into_raw_dirfd :: "u32 option \<Rightarrow> u32" where
  "into_raw_dirfd dirfd = (case dirfd of None \<Rightarrow> CurrentWorkingDirectory | Some f \<Rightarrow> f)"

definition result_unit :: "usize \<Rightarrow> (os_error, unit) outcome" where
  "result_unit r = map_outcome_ok (\<lambda>_. ()) (result_from_int r)"

definition result_u32 :: "usize \<Rightarrow> (os_error, u32) outcome" where
  "result_u32 r = map_outcome_ok ucast (result_from_int r)"

definition result_fd :: "usize \<Rightarrow> (os_error, u32) outcome" where
  "result_fd r = map_outcome_ok ucast (result_from_int r)"

text \<open>The \<open>?\<close> of the source on a call that leaves a kernel state.\<close>

definition and_then :: "('e, 'a) outcome \<times> 'k \<Rightarrow> ('a \<Rightarrow> 'k \<Rightarrow> ('e, 'b) outcome \<times> 'k) \<Rightarrow> ('e, 'b) outcome \<times> 'k" where
  "and_then rk f =
     (case rk of (Ok a, k) \<Rightarrow> f a k | (Err e, k) \<Rightarrow> (Err e, k) | (Panic, k) \<Rightarrow> (Panic, k))"

section \<open>Memory mappings\<close>

record mmap_flags =
  mf_type :: u32
  mf_flags :: u32

definition mmap_flags_new :: "u32 \<Rightarrow> mmap_flags" where
  "mmap_flags_new ty = \<lparr>mf_type = ty, mf_flags = 0\<rparr>"

definition mmap_flags_flag :: "mmap_flags \<Rightarrow> u32 \<Rightarrow> mmap_flags" where
  "mmap_flags_flag f flags = f\<lparr>mf_flags := mf_flags f OR flags\<rparr>"

definition mmap_flags_raw :: "mmap_flags \<Rightarrow> u32" where
  "mmap_flags_raw f = mf_type f OR mf_flags f"

record mmap_builder =
  mb_addr :: usize
  mb_len :: usize
  mb_prot :: u32
  mb_flags :: mmap_flags
  mb_fd :: "u32 option"
  mb_off :: usize

definition builder_new :: "u32 \<Rightarrow> usize \<Rightarrow> mmap_builder" where
  "builder_new ty len =
     \<lparr>mb_addr = 0, mb_len = len, mb_prot = 0, mb_flags = mmap_flags_new ty, mb_fd = None, mb_off = 0\<rparr>"

definition builder_protect :: "mmap_builder \<Rightarrow> u32 \<Rightarrow> mmap_builder" where
  "builder_protect b protection = b\<lparr>mb_prot := mb_prot b OR protection\<rparr>"

definition builder_flag :: "mmap_builder \<Rightarrow> u32 \<Rightarrow> mmap_builder" where
  "builder_flag b flag = b\<lparr>mb_flags := mmap_flags_flag (mb_flags b) flag\<rparr>"

definition builder_fd :: "mmap_builder \<Rightarrow> u32 \<Rightarrow> mmap_builder" where
  "builder_fd b fd = b\<lparr>mb_fd := Some fd\<rparr>"

definition builder_offset :: "mmap_builder \<Rightarrow> usize \<Rightarrow> mmap_builder" where
  "builder_offset b off = b\<lparr>mb_off := off\<rparr>"

definition os_mmap ::
  "'k sys \<Rightarrow> usize \<Rightarrow> usize \<Rightarrow> u32 \<Rightarrow> mmap_flags \<Rightarrow> u32 option \<Rightarrow> usize \<Rightarrow> 'k \<Rightarrow> (os_error, usize) outcome \<times> 'k" where
  "os_mmap sys addr len prot flags fd off k =
     (let (r, k1) = sys k (syscall_number ''Mmap'')
        [addr, len, param_u32 prot, param_u32 (mmap_flags_raw flags), param_i32 (optional_fd fd), off]
      in (result_from_ptr r, k1))"

text \<open>A mapping: its address, null for none, and its length. \<open>section\<close> is the pair passed to the calls.\<close>

record mapping =
  map_addr :: usize
  map_length :: usize

definition map_new :: mapping where
  "map_new = \<lparr>map_addr = 0, map_length = 0\<rparr>"

definition builder_map :: "'k sys \<Rightarrow> mmap_builder \<Rightarrow> 'k \<Rightarrow> (os_error, mapping) outcome \<times> 'k" where
  "builder_map sys b k =
     and_then (os_mmap sys (mb_addr b) (mb_len b) (mb_prot b) (mb_flags b) (mb_fd b) (mb_off b) k)
       (\<lambda>addr k1. (Ok \<lparr>map_addr = addr, map_length = mb_len b\<rparr>, k1))"

definition section_call :: "'k sys \<Rightarrow> string \<Rightarrow> mapping \<Rightarrow> usize list \<Rightarrow> 'k \<Rightarrow> (os_error, unit) outcome \<times> 'k" where
  "section_call sys name m args k =
     (let (r, k1) = sys k (syscall_number name) ([map_addr m, map_length m] @ args) in (result_unit r, k1))"

definition map_protect :: "'k sys \<Rightarrow> mapping \<Rightarrow> u32 \<Rightarrow> 'k \<Rightarrow> (os_error, unit) outcome \<times> 'k" where
  "map_protect sys m prot k = section_call sys ''Mprotect'' m [param_u32 prot] k"

definition map_sync :: "'k sys \<Rightarrow> mapping \<Rightarrow> u32 \<Rightarrow> 'k \<Rightarrow> (os_error, unit) outcome \<times> 'k" where
  "map_sync sys m flags k = section_call sys ''Msync'' m [param_u32 flags] k"

definition map_advise :: "'k sys \<Rightarrow> mapping \<Rightarrow> u32 \<Rightarrow> 'k \<Rightarrow> (os_error, unit) outcome \<times> 'k" where
  "map_advise sys m advice k = section_call sys ''Madvise'' m [param_u32 advice] k"

definition map_lock :: "'k sys \<Rightarrow> mapping \<Rightarrow> 'k \<Rightarrow> (os_error, unit) outcome \<times> 'k" where
  "map_lock sys m k = section_call sys ''Mlock'' m [] k"

definition map_unlock :: "'k sys \<Rightarrow> mapping \<Rightarrow> 'k \<Rightarrow> (os_error, unit) outcome \<times> 'k" where
  "map_unlock sys m k = section_call sys ''Munlock'' m [] k"

text \<open>\<open>mlock2\<close> is declared with the number of \<open>Mlock\<close>.\<close>

definition os_mlock2 :: "'k sys \<Rightarrow> mapping \<Rightarrow> u32 \<Rightarrow> 'k \<Rightarrow> (os_error, unit) outcome \<times> 'k" where
  "os_mlock2 sys m flags k = section_call sys ''Mlock'' m [param_u32 flags] k"

text \<open>Dropping a mapping; a failure to unmap ends the process.\<close>

definition map_drop :: "'k sys \<Rightarrow> mapping \<Rightarrow> 'k \<Rightarrow> (os_error, unit) outcome \<times> 'k" where
  "map_drop sys m k =
     (if map_addr m = 0 then (Ok (), k)
      else
        (case section_call sys ''Munmap'' m [] k of
           (Ok _, k1) \<Rightarrow> (Ok (), k1)
         | (_, k1) \<Rightarrow> (Panic, k1)))"

section \<open>Sockets\<close>

definition socket_options :: "string list" where
  "socket_options = [
     ''Debug'', ''ReuseAddr'', ''Type'', ''Error'', ''DontRoute'', ''Broadcast'',
     ''SendBufSize'', ''RecvBufSize'', ''KeepAlive'', ''OutOfBandInline'', ''NoCheck'',
     ''Priority'', ''Linger'', ''BSDCompat'', ''ReusePort'', ''PassCred'', ''PeerCred'',
     ''RecvLowWatermark'', ''SendLowWatermark'', ''RecvTimeoutOld'', ''SendTimeoutOld'',
     ''SecurityAuthentication'', ''SecurityEncryptionTransport'', ''SecurityEncryptionNetwork'',
     ''BindToDevice'', ''AttachFilter'', ''DetachFilter'', ''PeerName'', ''TimestampOld'',
     ''AcceptConn'', ''PeerSec'', ''SendBufSizeForce'', ''RecvBufSizeForce'', ''PassSec'',
     ''TimestampNanosecondsOld'', ''Mark'', ''TimestampingOld'', ''Protocol'', ''Domain'',
     ''RxqOverflow'', ''WifiStatus'', ''PeekOff'', ''NoFcs'', ''LockFilter'',
     ''SelectErrorQueue'', ''BusyPoll'', ''MaxPacingRate'', ''BPFExtensions'', ''IncomingCpu'',
     ''AttachBPF'', ''AttachReusePortCBPF'', ''AttachReusePortEBPF'', ''CnxAdvice'',
     ''TimestampingOptStats'', ''MemInfo'', ''IncomingNapiId'', ''Cookie'',
     ''TimestampingPacketInfo'', ''PeerGroups'', ''ZeroCopy'', ''TxtTime'', ''BindToIfIndex'',
     ''TimestampNew'', ''TimestampNanosecondsNew'', ''TimestampingNew'', ''RecvTimeoutNew'',
     ''SendTimeoutNew'', ''DetachReusePortBPF'', ''PreferBusyPoll'', ''BusyPollBudget'',
     ''NetNsCookie'', ''BufLock'', ''ReserveMem'', ''TxRehash'', ''RecvMark'']"

definition socket_option :: "string \<Rightarrow> u32" where
  "socket_option name = of_nat (Suc (index_of socket_options name))"

definition socket_levels :: "(string \<times> nat) list" where
  "socket_levels = [
     (''Socket'', 1), (''Tcp'', 6), (''Raw'', 255), (''DecNet'', 261), (''X25'', 262),
     (''Packet'', 263), (''Atm'', 264), (''Aal'', 265), (''Irda'', 266), (''NetBeui'', 267),
     (''Llc'', 268), (''Dccp'', 269), (''NetLink'', 270), (''Tipc'', 271), (''RxRpc'', 272),
     (''Pppol2tp'', 273), (''Bluetooth'', 274), (''PnPipe'', 275), (''Rds'', 276),
     (''Iucv'', 277), (''Caif'', 278), (''Alg'', 279), (''Nfc'', 280), (''Kcm'', 281),
     (''Tls'', 282), (''Xdp'', 283)]"

definition socket_level :: "string \<Rightarrow> u32" where
  "socket_level name = of_nat (the (map_of socket_levels name))"

definition TcpNoDelay :: u32 where "TcpNoDelay = 1"
definition TcpKeepIdle :: u32 where "TcpKeepIdle = 4"

text \<open>\<open>setsockopt\<close> as the kernel sees it: socket, level, option and the bytes of the value.\<close>

type_synonym 'k setsockopt = "'k \<Rightarrow> u32 \<Rightarrow> u32 \<Rightarrow> u32 \<Rightarrow> byte list \<Rightarrow> (os_error, u32) outcome \<times> 'k"

definition i32_bytes :: "u32 \<Rightarrow> byte list" where
  "i32_bytes x = to_bytes True 4 (unat x)"

definition bool_i32 :: "bool \<Rightarrow> u32" where
  "bool_i32 b = (if b then 1 else 0)"

definition set_option :: "'k setsockopt \<Rightarrow> u32 \<Rightarrow> u32 \<Rightarrow> u32 \<Rightarrow> u32 \<Rightarrow> 'k \<Rightarrow> (os_error, unit) outcome \<times> 'k" where
  "set_option so socket level option val k =
     and_then (so k socket level option (i32_bytes val)) (\<lambda>_ k1. (Ok (), k1))"

definition set_reuse_addr :: "'k setsockopt \<Rightarrow> u32 \<Rightarrow> bool \<Rightarrow> 'k \<Rightarrow> (os_error, unit) outcome \<times> 'k" where
  "set_reuse_addr so socket enable k = set_option so socket (socket_level ''Socket'') (socket_option ''ReuseAddr'') (bool_i32 enable) k"

definition set_recvbuf_size :: "'k setsockopt \<Rightarrow> u32 \<Rightarrow> u32 \<Rightarrow> 'k \<Rightarrow> (os_error, unit) outcome \<times> 'k" where
  "set_recvbuf_size so socket n k = set_option so socket (socket_level ''Socket'') (socket_option ''RecvBufSize'') n k"

definition set_sendbuf_size :: "'k setsockopt \<Rightarrow> u32 \<Rightarrow> u32 \<Rightarrow> 'k \<Rightarrow> (os_error, unit) outcome \<times> 'k" where
  "set_sendbuf_size so socket n k = set_option so socket (socket_level ''Socket'') (socket_option ''SendBufSize'') n k"

definition set_tcp_nodelay :: "'k setsockopt \<Rightarrow> u32 \<Rightarrow> bool \<Rightarrow> 'k \<Rightarrow> (os_error, unit) outcome \<times> 'k" where
  "set_tcp_nodelay so socket enable k = set_option so socket (socket_level ''Tcp'') TcpNoDelay (bool_i32 enable) k"

definition set_tcp_keepalive :: "'k setsockopt \<Rightarrow> u32 \<Rightarrow> bool \<Rightarrow> u32 \<Rightarrow> 'k \<Rightarrow> (os_error, unit) outcome \<times> 'k" where
  "set_tcp_keepalive so socket enable idle k =
     and_then (so k socket (socket_level ''Socket'') (socket_option ''KeepAlive'') (i32_bytes (bool_i32 enable)))
       (\<lambda>_ k1. if enable then set_option so socket (socket_level ''Tcp'') TcpKeepIdle idle k1 else (Ok (), k1))"

text \<open>Buffers passed with a length of 32 bits: the conversion of the size is unwrapped.\<close>

record extra_buf =
  eb_ptr :: usize
  eb_len :: u32

definition extra_buf_from :: "usize \<Rightarrow> nat \<Rightarrow> (unit, extra_buf) outcome" where
  "extra_buf_from ptr n = (if n < 2 ^ 31 then Ok \<lparr>eb_ptr = ptr, eb_len = of_nat n\<rparr> else Panic)"

definition optional_extra_buf :: "extra_buf option \<Rightarrow> usize \<times> u32 option" where
  "optional_extra_buf b = (case b of None \<Rightarrow> (0, None) | Some e \<Rightarrow> (eb_ptr e, Some (eb_len e)))"

record msg_hdr =
  mh_address :: usize
  mh_address_len :: u32
  mh_iov :: usize
  mh_iov_len :: usize
  mh_control :: usize
  mh_control_len :: usize
  mh_flags :: u32

definition mh_set_addr :: "msg_hdr \<Rightarrow> usize \<Rightarrow> nat \<Rightarrow> (unit, msg_hdr) outcome" where
  "mh_set_addr h addr n =
     (if n < 2 ^ 32 then Ok (h\<lparr>mh_address := addr, mh_address_len := of_nat n\<rparr>) else Panic)"

definition mh_set_vecs :: "msg_hdr \<Rightarrow> usize \<Rightarrow> nat \<Rightarrow> msg_hdr" where
  "mh_set_vecs h vecs n = h\<lparr>mh_iov := vecs, mh_iov_len := of_nat n\<rparr>"

section \<open>Processes and threads\<close>

definition PRIORITY_ZERO :: u32 where
  "PRIORITY_ZERO = 20"

text \<open>The raw call gives 20 minus the nice value.\<close>

definition get_priority :: "'k sys \<Rightarrow> u32 \<Rightarrow> u32 option \<Rightarrow> 'k \<Rightarrow> (os_error, u32) outcome \<times> 'k" where
  "get_priority sys which who k =
     (let (r, k1) = sys k (syscall_number ''Getpriority'')
        [param_u32 which, param_u32 (case who of None \<Rightarrow> 0 | Some w \<Rightarrow> w)]
      in (map_outcome_ok (\<lambda>prio. PRIORITY_ZERO - prio) (result_u32 r), k1))"

definition set_priority :: "'k sys \<Rightarrow> u32 \<Rightarrow> u32 option \<Rightarrow> u32 \<Rightarrow> 'k \<Rightarrow> (os_error, unit) outcome \<times> 'k" where
  "set_priority sys which who prio k =
     (let (r, k1) = sys k (syscall_number ''Setpriority'')
        [param_u32 which, param_u32 (case who of None \<Rightarrow> 0 | Some w \<Rightarrow> w), param_i32 prio]
      in (result_unit r, k1))"

text \<open>\<open>sysconf\<close> takes the thread's error code before the call and gives its result and the code after it.\<close>

definition get_system_configuration :: "(int \<Rightarrow> 64 word \<times> int) \<Rightarrow> (os_error, u64 option) outcome" where
  "get_system_configuration sysconf =
     (let (result, code) = sysconf 0
      in if 0 \<le> sint result then Ok (Some result)
         else if code = 0 then Ok None
         else Err (os_from code))"

text \<open>The thread functions return an error code; it is passed to \<open>result_from_libc\<close>.\<close>

definition pthread_result :: "int \<Rightarrow> u32 \<Rightarrow> (os_error, unit) outcome" where
  "pthread_result errno code = map_outcome_ok (\<lambda>_. ()) (result_from_libc errno (scast code))"

section \<open>Event counters\<close>

type_synonym 'k read_call = "'k \<Rightarrow> nat \<Rightarrow> (os_error, byte list) outcome \<times> 'k"
type_synonym 'k write_call = "'k \<Rightarrow> byte list \<Rightarrow> (os_error, unit) outcome \<times> 'k"

definition eventfd_read :: "'k read_call \<Rightarrow> 'k \<Rightarrow> (os_error, u64) outcome \<times> 'k" where
  "eventfd_read rd k =
     and_then (rd k 8)
       (\<lambda>got k1. let bytes = got @ drop (length got) (to_bytes True 8 0) in (Ok (of_nat (from_bytes True bytes)), k1))"

definition eventfd_write :: "'k write_call \<Rightarrow> u64 \<Rightarrow> 'k \<Rightarrow> (os_error, unit) outcome \<times> 'k" where
  "eventfd_write wr v k = and_then (wr k (to_bytes True 8 (unat v))) (\<lambda>_ k1. (Ok (), k1))"

section \<open>Lemmas\<close>

lemma and_then_simps [simp]:
  "and_then (Ok a, k) f = f a k" "and_then (Err e, k) f = (Err e, k)" "and_then (Panic, k) f = (Panic, k)"
  by (simp_all add: and_then_def)

text \<open>The numbers are distinct; the ARM table has no number for two calls the crate declares.\<close>

lemma x64_numbers_distinct: "distinct (map snd x64_numbers)"
  by (simp add: x64_numbers_def x64_numbers_1_def x64_numbers_2_def x64_numbers_3_def)

lemma arm64_numbers_distinct: "distinct (map snd arm64_numbers)"
  by (simp add: arm64_numbers_def arm64_numbers_1_def arm64_numbers_2_def arm64_numbers_3_def)

lemma arm64_lacks_parts:
  "map_of arm64_numbers_1 ''Open'' = None" "map_of arm64_numbers_2 ''Open'' = None" "map_of arm64_numbers_3 ''Open'' = None"
  "map_of arm64_numbers_1 ''Getdents'' = None" "map_of arm64_numbers_2 ''Getdents'' = None"
  "map_of arm64_numbers_3 ''Getdents'' = None"
  by (simp_all add: arm64_numbers_1_def arm64_numbers_2_def arm64_numbers_3_def)

lemma arm64_lacks: "map_of arm64_numbers ''Open'' = None" "map_of arm64_numbers ''Getdents'' = None"
  by (simp_all add: arm64_numbers_def map_add_def arm64_lacks_parts)

lemma x64_parts:
  "map_of x64_numbers_1 ''Mmap'' = Some 9" "map_of x64_numbers_1 ''Mprotect'' = Some 10"
  "map_of x64_numbers_1 ''Munmap'' = Some 11" "map_of x64_numbers_1 ''Msync'' = Some 26"
  "map_of x64_numbers_1 ''Madvise'' = Some 28"
  "map_of x64_numbers_1 ''Mlock'' = None" "map_of x64_numbers_1 ''Munlock'' = None"
  "map_of x64_numbers_2 ''Mlock'' = Some 149" "map_of x64_numbers_2 ''Munlock'' = Some 150"
  by (simp_all add: x64_numbers_1_def x64_numbers_2_def)

lemma memory_calls:
  "syscall_number ''Mmap'' = 9" "syscall_number ''Mprotect'' = 10" "syscall_number ''Munmap'' = 11"
  "syscall_number ''Msync'' = 26" "syscall_number ''Madvise'' = 28" "syscall_number ''Mlock'' = 149"
  "syscall_number ''Munlock'' = 150"
  by (simp_all add: syscall_number_def x64_numbers_def map_add_def x64_parts)

text \<open>An error number from a thread function is taken for success.\<close>

lemma pthread_error_is_ok: "pthread_result errno 3 = Ok ()"
  by code_simp

text \<open>Disabling keepalive leaves the idle time alone, and a failure of the first option stops the second.\<close>

lemma keepalive_stops:
  "set_tcp_keepalive so socket False idle k =
     and_then (so k socket (socket_level ''Socket'') (socket_option ''KeepAlive'') (i32_bytes 0)) (\<lambda>_ k1. (Ok (), k1))"
  "so k socket (socket_level ''Socket'') (socket_option ''KeepAlive'') (i32_bytes 1) = (Err e, k1) \<Longrightarrow>
   set_tcp_keepalive so socket True idle k = (Err e, k1)"
  by (simp_all add: set_tcp_keepalive_def bool_i32_def)

text \<open>The nice value comes back when the kernel answers with 20 minus it.\<close>

lemma priority_is_nice:
  assumes "sys k (syscall_number ''Getpriority'') [param_u32 which, param_u32 who] = (20 - scast nice, k1)"
    and "0 \<le>s (20 - scast nice :: usize)"
  shows "get_priority sys which (Some who) k = (Ok (PRIORITY_ZERO - ucast (20 - scast nice :: usize)), k1)"
  using assms by (simp add: get_priority_def result_u32_def result_from_int_def)

text \<open>Event counters add up what is written until a read takes the sum.\<close>

definition eventfd_kernel :: "'k read_call \<Rightarrow> 'k write_call \<Rightarrow> ('k \<Rightarrow> nat) \<Rightarrow> bool" where
  "eventfd_kernel rd wr counter =
     ((\<forall>k v. counter k + v < 2 ^ 64 - 1 \<longrightarrow> (\<exists>k1. wr k (to_bytes True 8 v) = (Ok (), k1) \<and> counter k1 = counter k + v)) \<and>
      (\<forall>k. 0 < counter k \<longrightarrow> (\<exists>k1. rd k 8 = (Ok (to_bytes True 8 (counter k)), k1) \<and> counter k1 = 0)))"

lemma eventfd_write_adds:
  assumes "eventfd_kernel rd wr counter" "counter k + unat v < 2 ^ 64 - 1"
  obtains k1 where "eventfd_write wr v k = (Ok (), k1)" "counter k1 = counter k + unat v"
proof -
  from assms obtain k1 where "wr k (to_bytes True 8 (unat v)) = (Ok (), k1)" "counter k1 = counter k + unat v"
    unfolding eventfd_kernel_def by blast
  then show thesis by (intro that) (simp_all add: eventfd_write_def)
qed

lemma eventfd_read_takes:
  assumes "eventfd_kernel rd wr counter" "0 < counter k" "counter k < 2 ^ 64"
  obtains k1 where "eventfd_read rd k = (Ok (of_nat (counter k)), k1)" "counter k1 = 0"
proof -
  from assms obtain k1 where "rd k 8 = (Ok (to_bytes True 8 (counter k)), k1)" "counter k1 = 0"
    unfolding eventfd_kernel_def by blast
  moreover have "counter k mod 256 ^ 8 = counter k" using assms(3) by simp
  ultimately show thesis by (intro that) (simp_all add: eventfd_read_def from_to_bytes)
qed

text \<open>The memory regions a kernel holds, and what \<open>mmap\<close> and the calls on a section document about them.\<close>

definition memory_kernel :: "'k sys \<Rightarrow> ('k \<Rightarrow> (usize \<times> usize) set) \<Rightarrow> bool" where
  "memory_kernel sys regions =
     ((\<forall>k addr len rest r k1.
         sys k (syscall_number ''Mmap'') (addr # len # rest) = (r, k1) \<longrightarrow>
           (if r \<le> - 4096 then r \<noteq> 0 \<and> (r, len) \<notin> regions k \<and> regions k1 = insert (r, len) (regions k)
            else regions k1 = regions k)) \<and>
      (\<forall>k addr len. (addr, len) \<in> regions k \<longrightarrow>
         (\<exists>k1. sys k (syscall_number ''Munmap'') [addr, len] = (0, k1) \<and> regions k1 = regions k - {(addr, len)})) \<and>
      (\<forall>name k args. name \<in> {''Mprotect'', ''Msync'', ''Madvise'', ''Mlock'', ''Munlock''} \<longrightarrow>
         regions (snd (sys k (syscall_number name) args)) = regions k))"

lemma memory_kernelD:
  assumes "memory_kernel sys regions"
  shows "sys k (syscall_number ''Mmap'') (addr # len # rest) = (r, k1) \<Longrightarrow>
      (if r \<le> - 4096 then r \<noteq> 0 \<and> (r, len) \<notin> regions k \<and> regions k1 = insert (r, len) (regions k)
       else regions k1 = regions k)"
    and "(addr, len) \<in> regions k \<Longrightarrow>
      \<exists>k1. sys k (syscall_number ''Munmap'') [addr, len] = (0, k1) \<and> regions k1 = regions k - {(addr, len)}"
  subgoal using assms[unfolded memory_kernel_def, THEN conjunct1] by (elim allE) (drule mp)
  subgoal using assms[unfolded memory_kernel_def, THEN conjunct2, THEN conjunct1] by (elim allE) (drule mp)
  done

text \<open>What a user does with a mapping between making and dropping it.\<close>

datatype map_use = UseProtect u32 | UseSync u32 | UseAdvise u32 | UseLock | UseUnlock

fun use_map :: "'k sys \<Rightarrow> mapping \<Rightarrow> map_use \<Rightarrow> 'k \<Rightarrow> 'k" where
  "use_map sys m (UseProtect p) k = snd (map_protect sys m p k)"
| "use_map sys m (UseSync f) k = snd (map_sync sys m f k)"
| "use_map sys m (UseAdvise a) k = snd (map_advise sys m a k)"
| "use_map sys m UseLock k = snd (map_lock sys m k)"
| "use_map sys m UseUnlock k = snd (map_unlock sys m k)"

lemma section_call_kernel: "snd (section_call sys name m args k) = snd (sys k (syscall_number name) (map_addr m # map_length m # args))"
  by (simp add: section_call_def split: prod.split)

lemma use_keeps_regions: "memory_kernel sys regions \<Longrightarrow> regions (use_map sys m u k) = regions k"
  by (cases u)
    (simp_all add: memory_kernel_def section_call_kernel map_protect_def map_sync_def map_advise_def map_lock_def
      map_unlock_def)

lemma uses_keep_regions: "memory_kernel sys regions \<Longrightarrow> regions (fold (use_map sys m) us k) = regions k"
  by (induction us arbitrary: k) (simp_all add: use_keeps_regions)

lemma drop_unmaps:
  assumes "memory_kernel sys regions" "(map_addr m, map_length m) \<in> regions k" "map_addr m \<noteq> 0"
  shows "\<exists>k1. map_drop sys m k = (Ok (), k1) \<and> regions k1 = regions k - {(map_addr m, map_length m)}"
proof -
  from memory_kernelD(2)[OF assms(1,2)] obtain k1 where call: "sys k (syscall_number ''Munmap'') [map_addr m, map_length m] = (0, k1)"
    and "regions k1 = regions k - {(map_addr m, map_length m)}" by (elim exE conjE)
  moreover have "section_call sys ''Munmap'' m [] k = (Ok (), k1)"
    by (simp add: section_call_def call result_unit_def result_from_int_def)
  ultimately show ?thesis using assms(3) by (intro exI[of _ k1]) (simp add: map_drop_def)
qed

text \<open>A mapping that is made is a new region of the kernel; one that fails is none.\<close>

lemma builder_map_regions:
  assumes kernel: "memory_kernel sys regions"
  shows "case builder_map sys b k of
     (Ok m, k1) \<Rightarrow> map_addr m \<noteq> 0 \<and> map_length m = mb_len b \<and> (map_addr m, mb_len b) \<notin> regions k \<and>
       regions k1 = insert (map_addr m, mb_len b) (regions k)
   | (_, k1) \<Rightarrow> regions k1 = regions k"
proof -
  let ?args = "[param_u32 (mb_prot b), param_u32 (mmap_flags_raw (mb_flags b)), param_i32 (optional_fd (mb_fd b)), mb_off b]"
  obtain r k1 where call: "sys k (syscall_number ''Mmap'') (mb_addr b # mb_len b # ?args) = (r, k1)" by (rule prod.exhaust)
  have mmap: "os_mmap sys (mb_addr b) (mb_len b) (mb_prot b) (mb_flags b) (mb_fd b) (mb_off b) k = (result_from_ptr r, k1)"
    using call by (simp add: os_mmap_def)
  from kernel call have effect: "if r \<le> - 4096 then r \<noteq> 0 \<and> (r, mb_len b) \<notin> regions k \<and>
      regions k1 = insert (r, mb_len b) (regions k) else regions k1 = regions k"
    by (rule memory_kernelD(1))
  then show ?thesis by (cases "r \<le> - 4096") (simp_all add: builder_map_def mmap and_then_def result_from_ptr_def)
qed

section \<open>Properties\<close>


text \<open>A kernel with room for one region of each length.\<close>

definition page_kernel :: "(usize \<times> usize) set sys" where
  "page_kernel k n args =
     (if n = 9 then
        (if (4096, args ! 1) \<in> k then (- 12, k) else (4096, insert (4096, args ! 1) k))
      else if n = 11 then (0, k - {(args ! 0, args ! 1)})
      else (0, k))"

lemma page_kernel_ok: "memory_kernel page_kernel (\<lambda>k. k)"
  unfolding memory_kernel_def
proof (intro conjI allI impI)
  fix k :: "(usize \<times> usize) set" and addr len r rest k1
  assume "page_kernel k (syscall_number ''Mmap'') (addr # len # rest) = (r, k1)"
  then show "if r \<le> - 4096 then r \<noteq> 0 \<and> (r, len) \<notin> k \<and> k1 = insert (r, len) k else k1 = k"
    by (auto simp: page_kernel_def memory_calls split: if_splits)
qed (auto simp: page_kernel_def memory_calls)


end
