(* ===== verification/Fiber_Pool.thy ===== *)
theory Fiber_Pool
  imports Xx_Prelude "HOL-Library.Sublist"
begin

text \<open>
  The pool of fiber stacks, \<open>src/src/fiber/pool.rs\<close>. A fiber is named; mapping a stack is a parameter, a fresh name. \<open>None\<close> is the
  abort of \<open>expect_nounwind\<close>. Shown: the pool keeps no more stacks than the fibers in use justify, and no fiber is in two places.
\<close>

record fiber_pool =
  fp_pool :: "nat list"
  fp_active :: u64

definition pool_new :: fiber_pool where
  "pool_new = \<lparr>fp_pool = [], fp_active = 0\<rparr>"

definition checked_inc :: "u64 \<Rightarrow> u64 option" where
  "checked_inc n = (if n = - 1 then None else Some (n + 1))"

definition checked_dec :: "u64 \<Rightarrow> u64 option" where
  "checked_dec n = (if n = 0 then None else Some (n - 1))"

text \<open>\<open>Vec::pop\<close> takes from the back; a fiber of the pool is reused, otherwise \<open>fresh\<close> is created.\<close>

definition new_fiber :: "nat \<Rightarrow> fiber_pool \<Rightarrow> (nat \<times> fiber_pool) option" where
  "new_fiber fresh p =
     (case checked_inc (fp_active p) of
        None \<Rightarrow> None
      | Some a \<Rightarrow>
          let p1 = p\<lparr>fp_active := a\<rparr>
          in if fp_pool p = [] then Some (fresh, p1)
             else Some (last (fp_pool p), p1\<lparr>fp_pool := butlast (fp_pool p)\<rparr>))"

definition calculate_ideal :: "u64 \<Rightarrow> u64" where
  "calculate_ideal count = count * 20 div 100 + 16"

text \<open>\<open>reserve\<close>: whether the vector could grow. Without room the stack is dropped.\<close>

definition exit_fiber :: "bool \<Rightarrow> nat \<Rightarrow> fiber_pool \<Rightarrow> fiber_pool option" where
  "exit_fiber reserve f p =
     (case checked_dec (fp_active p) of
        None \<Rightarrow> None
      | Some a \<Rightarrow>
          let p1 = p\<lparr>fp_active := a\<rparr>
          in if of_nat (length (fp_pool p1)) < calculate_ideal a \<and> reserve then Some (p1\<lparr>fp_pool := fp_pool p1 @ [f]\<rparr>) else Some p1)"

text \<open>A program that uses the pool, with the fibers it holds.\<close>

datatype pool_op = NewFiber nat | ExitFiber bool nat

fun pool_do :: "pool_op \<Rightarrow> fiber_pool \<times> nat list \<Rightarrow> (fiber_pool \<times> nat list) option" where
  "pool_do (NewFiber fresh) (p, held) =
     (if fresh \<in> set held \<union> set (fp_pool p) then None else map_option (\<lambda>(f, p1). (p1, f # held)) (new_fiber fresh p))"
| "pool_do (ExitFiber reserve f) (p, held) =
     (if f \<in> set held then map_option (\<lambda>p1. (p1, remove1 f held)) (exit_fiber reserve f p) else None)"

fun pool_do_all :: "pool_op list \<Rightarrow> fiber_pool \<times> nat list \<Rightarrow> (fiber_pool \<times> nat list) option" where
  "pool_do_all [] s = Some s"
| "pool_do_all (x # xs) s = Option.bind (pool_do x s) (pool_do_all xs)"

definition pool_ok :: "nat \<Rightarrow> fiber_pool \<times> nat list \<Rightarrow> bool" where
  "pool_ok m s \<longleftrightarrow> unat (fp_active (fst s)) = length (snd s) \<and> distinct (snd s @ fp_pool (fst s)) \<and>
     length (snd s) \<le> m \<and> length (fp_pool (fst s)) \<le> m * 20 div 100 + 16"

lemma ideal_exact:
  assumes "unat n < 2 ^ 59"
  shows "unat (calculate_ideal n) = unat n * 20 div 100 + 16"
proof -
  have m: "unat (n * 20) = unat n * 20" using assms by (subst unat_mult_lem[THEN iffD1]) auto
  then have d: "unat (n * 20 div 100) = unat n * 20 div 100" by (simp add: unat_div)
  have "unat (n * 20 div 100) + 16 < 2 ^ 64" unfolding d using assms by simp
  then have "unat (n * 20 div 100 + 16) = unat (n * 20 div 100) + 16" by (subst unat_add_lem[THEN iffD1]) auto
  then show ?thesis using d by (simp add: calculate_ideal_def)
qed

lemma pool_step_ok:
  assumes "pool_ok m s" "pool_do x s = Some t" "m < 2 ^ 59" "length (snd t) \<le> m"
  shows "pool_ok m t"
proof -
  obtain p held where s: "s = (p, held)" by fastforce
  show ?thesis
  proof (cases x)
    case (NewFiber fresh)
    have ok: "unat (fp_active p) = length held" "distinct (held @ fp_pool p)" "length held \<le> m" "length (fp_pool p) \<le> m * 20 div 100 + 16"
      using assms(1) s by (simp_all add: pool_ok_def)
    have "unat (fp_active p) + unat (1 :: u64) < 2 ^ 64" using ok(1,3) assms(3) by simp
    then have inc: "unat (fp_active p + 1) = length held + 1" using ok(1) by (subst unat_add_lem[THEN iffD1]) auto
    then have "fp_active p \<noteq> - 1" by auto
    then have n: "fresh \<notin> set held" "fresh \<notin> set (fp_pool p)"
      "t = (if fp_pool p = [] then (p\<lparr>fp_active := fp_active p + 1\<rparr>, fresh # held)
            else (p\<lparr>fp_active := fp_active p + 1, fp_pool := butlast (fp_pool p)\<rparr>, last (fp_pool p) # held))"
      using assms(2) s NewFiber by (auto simp: new_fiber_def checked_inc_def Let_def split: if_splits)
    show ?thesis
    proof (cases "fp_pool p = []")
      case True
      then show ?thesis using n ok inc assms(4) by (simp add: pool_ok_def)
    next
      case False
      then obtain fs f where "fp_pool p = fs @ [f]" by (metis append_butlast_last_id)
      then show ?thesis using n ok inc assms(4) by (auto simp: pool_ok_def)
    qed
  next
    case (ExitFiber reserve f)
    have ok: "unat (fp_active p) = length held" "distinct (held @ fp_pool p)" "length held \<le> m" "length (fp_pool p) \<le> m * 20 div 100 + 16"
      using assms(1) s by (simp_all add: pool_ok_def)
    have f: "f \<in> set held" using assms(2) s ExitFiber by (auto split: if_splits)
    then have pos: "0 < length held" by (cases held) auto
    then have nz: "fp_active p \<noteq> 0" using ok(1) by auto
    then have dec: "unat (fp_active p - 1) = length held - 1" using ok(1) by (simp add: unat_minus_one)
    have len: "length (remove1 f held) = length held - 1" using f by (simp add: length_remove1)
    have ideal: "unat (calculate_ideal (fp_active p - 1)) = (length held - 1) * 20 div 100 + 16"
      using ideal_exact[of "fp_active p - 1"] dec ok(3) assms(3) by simp
    have mono: "(length held - 1) * 20 div 100 \<le> m * 20 div 100" using ok(3) by (intro div_le_mono) simp
    show ?thesis
    proof (cases "of_nat (length (fp_pool p)) < calculate_ideal (fp_active p - 1) \<and> reserve")
      case True
      have "length (fp_pool p) < 2 ^ 64" using ok(4) assms(3) by simp
      then have "length (fp_pool p) < (length held - 1) * 20 div 100 + 16"
        using True ideal by (simp add: word_less_nat_alt unat_of_nat_usize)
      moreover have "t = (p\<lparr>fp_active := fp_active p - 1, fp_pool := fp_pool p @ [f]\<rparr>, remove1 f held)"
        using assms(2) s ExitFiber f nz True by (auto simp: exit_fiber_def checked_dec_def Let_def)
      ultimately show ?thesis using ok dec len mono f by (auto simp: pool_ok_def set_remove1_eq distinct_remove1)
    next
      case False
      then have "t = (p\<lparr>fp_active := fp_active p - 1\<rparr>, remove1 f held)"
        using assms(2) s ExitFiber f nz by (auto simp: exit_fiber_def checked_dec_def Let_def)
      then show ?thesis using ok dec len by (auto simp: pool_ok_def set_remove1_eq distinct_remove1)
    qed
  qed
qed

lemma pool_all_ok:
  assumes "pool_ok m s" "pool_do_all xs s = Some t" "m < 2 ^ 59"
    "\<And>ys u. prefix ys xs \<Longrightarrow> pool_do_all ys s = Some u \<Longrightarrow> length (snd u) \<le> m"
  shows "pool_ok m t"
  using assms
proof (induction xs arbitrary: s)
  case (Cons x xs)
  then obtain u where u: "pool_do x s = Some u" "pool_do_all xs u = Some t" by (cases "pool_do x s") auto
  have "length (snd u) \<le> m" using Cons.prems(4)[of "[x]" u] u(1) by simp
  then have ok: "pool_ok m u" using pool_step_ok Cons.prems(1,3) u(1) by blast
  have "length (snd v) \<le> m" if "prefix ys xs" "pool_do_all ys u = Some v" for ys v
    using Cons.prems(4)[of "x # ys" v] that u(1) by simp
  then show ?case using Cons.IH[OF ok u(2) Cons.prems(3)] by blast
qed simp

text \<open>A program that never has more than \<open>m\<close> fibers at once leaves at most a fifth of \<open>m\<close>, and sixteen, stacks in the pool; no fiber is handed out twice or
  both handed out and pooled, and the count of active fibers is exact.\<close>

theorem pool_keeps_few_stacks:
  assumes "pool_do_all xs (pool_new, []) = Some (p, held)" "m < 2 ^ 59"
    "\<And>ys u. prefix ys xs \<Longrightarrow> pool_do_all ys (pool_new, []) = Some u \<Longrightarrow> length (snd u) \<le> m"
  shows "length (fp_pool p) \<le> m * 20 div 100 + 16 \<and> distinct (held @ fp_pool p) \<and> unat (fp_active p) = length held"
proof -
  have "pool_ok m (pool_new, [])" by (simp add: pool_ok_def pool_new_def)
  from pool_all_ok[OF this assms] show ?thesis by (simp add: pool_ok_def)
qed

theorem pool_keeps_few_stacks_witness:
  "\<exists>p held. pool_do_all [NewFiber 1, NewFiber 2, ExitFiber True 1, NewFiber 3] (pool_new, []) = Some (p, held) \<and> distinct (held @ fp_pool p)"
proof -
  let ?xs = "[NewFiber 1, NewFiber 2, ExitFiber True 1, NewFiber 3]"
  have run: "map (\<lambda>k. map_option (length \<circ> snd) (pool_do_all (take k ?xs) (pool_new, []))) [0, 1, 2, 3, 4] =
      [Some 0, Some 1, Some 2, Some 1, Some 2]" by code_simp
  obtain p held where r: "pool_do_all ?xs (pool_new, []) = Some (p, held)" using run by (cases "pool_do_all ?xs (pool_new, [])") auto
  have "length (snd u) \<le> 2" if "prefix ys ?xs" "pool_do_all ys (pool_new, []) = Some u" for ys u
  proof -
    define k where "k = length ys"
    have k: "ys = take k ?xs" using that(1) by (auto simp: prefix_def k_def append_eq_conv_conj)
    have "k \<le> 4" using prefix_length_le[OF that(1)] by (simp add: k_def)
    then consider "k = 0" | "k = 1" | "k = 2" | "k = 3" | "k = 4" by linarith
    then show ?thesis using run that(2) k by cases (auto simp del: pool_do_all.simps)
  qed
  from pool_keeps_few_stacks[OF r, of 2] this r show ?thesis by auto
qed

end
