(* ===== verification/Fiber.thy ===== *)
theory Fiber
  imports Xx_Prelude Os_Calls Fiber_Pool
begin

text \<open>
  Fibers, \<open>src/src/fiber/mod.rs\<close>, with the context of both architectures (\<open>x64.rs\<close>, \<open>arm64.rs\<close>) and the assembly routines they
  call (\<open>x64.s\<close>, \<open>arm64.s\<close>), given as instruction lists with their meaning on a machine of registers and 8-byte words of memory.
  Contexts are at addresses of that memory. A record of operations stands for the module the build picks; its laws are a locale,
  interpreted on both architectures. Shown: whatever fibers do with their registers and their own memory, a fiber that is switched to
  continues where it left, with its stack and the registers of its caller, also when the other one has exited; a new fiber starts
  at its entry point; a stack is made with a guard page and given back when the fiber is dropped.
\<close>

section \<open>The machine\<close>

type_synonym ram = "usize \<Rightarrow> usize"

record 'r cpu =
  regs :: "'r \<Rightarrow> usize"
  pc :: usize
  ram :: ram

definition set_reg :: "'r \<Rightarrow> usize \<Rightarrow> 'r cpu \<Rightarrow> 'r cpu" where
  "set_reg r v s = s\<lparr>regs := (regs s)(r := v)\<rparr>"

definition store_word :: "usize \<Rightarrow> usize \<Rightarrow> 'r cpu \<Rightarrow> 'r cpu" where
  "store_word a v s = s\<lparr>ram := (ram s)(a := v)\<rparr>"

text \<open>The addresses the linker gives to the two entry stubs.\<close>

record stubs =
  start_stub :: usize
  intercept_stub :: usize

definition stubs_ok :: "stubs \<Rightarrow> bool" where
  "stubs_ok st \<longleftrightarrow> start_stub st \<noteq> intercept_stub st"

section \<open>x86-64\<close>

datatype x64_reg = RAX | RDI | RSI | R12 | R13 | R14 | R15 | RSP | RBX | RBP

datatype x64_instr =
    Load x64_reg x64_reg usize
  | Store x64_reg usize x64_reg
  | Add x64_reg usize
  | Sub x64_reg usize
  | Push usize
  | Jmp x64_reg

fun x64_exec :: "x64_instr \<Rightarrow> x64_reg cpu \<Rightarrow> x64_reg cpu" where
  "x64_exec (Load r b off) s = set_reg r (ram s (regs s b + off)) s"
| "x64_exec (Store b off r) s = store_word (regs s b + off) (regs s r) s"
| "x64_exec (Add r n) s = set_reg r (regs s r + n) s"
| "x64_exec (Sub r n) s = set_reg r (regs s r - n) s"
| "x64_exec (Push n) s = store_word (regs s RSP - 8) n (set_reg RSP (regs s RSP - 8) s)"
| "x64_exec (Jmp r) s = s\<lparr>pc := regs s r\<rparr>"

definition xx_core_fiber_x64_start :: "x64_instr list" where
  "xx_core_fiber_x64_start = [Load RAX RSP (- 0x10), Load RDI RSP (- 0x08), Push 0, Jmp RAX]"

definition xx_core_fiber_x64_intercept :: "x64_instr list" where
  "xx_core_fiber_x64_intercept = [Load RAX RSP (- 0x18), Load RDI RSP (- 0x10), Sub RSP 8, Jmp RAX]"

definition xx_core_fiber_x64_switch :: "x64_instr list" where
  "xx_core_fiber_x64_switch =
    [Load RAX RSP 0, Add RSP 8,
     Store RDI 0x00 R12, Store RDI 0x08 R13, Store RDI 0x10 R14, Store RDI 0x18 R15,
     Store RDI 0x20 RAX, Store RDI 0x28 RSP, Store RDI 0x30 RBX, Store RDI 0x38 RBP,
     Load RAX RSI 0x20, Load R12 RSI 0x00, Load R13 RSI 0x08, Load R14 RSI 0x10, Load R15 RSI 0x18,
     Load RSP RSI 0x28, Load RBX RSI 0x30, Load RBP RSI 0x38,
     Jmp RAX]"

text \<open>The fields of a \<open>Context\<close> are at these offsets.\<close>

definition x64_rip :: usize where "x64_rip = 0x20"
definition x64_rsp :: usize where "x64_rsp = 0x28"

definition x64_program_counter :: "usize \<Rightarrow> ram \<Rightarrow> usize" where
  "x64_program_counter c m = m (c + x64_rip)"

definition x64_set_stack :: "usize \<Rightarrow> usize \<Rightarrow> usize \<Rightarrow> ram \<Rightarrow> ram" where
  "x64_set_stack c stack len m = m(c + x64_rsp := stack + len)"

definition x64_set_start :: "stubs \<Rightarrow> usize \<Rightarrow> usize \<Rightarrow> usize \<Rightarrow> ram \<Rightarrow> ram" where
  "x64_set_start st c start arg m =
     (let stack = m (c + x64_rsp)
      in m(stack - 16 := start, stack - 8 := arg, c + x64_rip := start_stub st))"

definition x64_set_intercept :: "stubs \<Rightarrow> usize \<Rightarrow> usize \<Rightarrow> usize \<Rightarrow> usize \<Rightarrow> ram \<Rightarrow> ram" where
  "x64_set_intercept st c intercept arg ret m =
     (let stack = m (c + x64_rsp)
      in m(stack - 24 := intercept, stack - 16 := arg, stack - 8 := ret, c + x64_rip := intercept_stub st))"

text \<open>A call of the routine pushes the return address; a jump to a stub runs it.\<close>

definition x64_call_switch :: "usize \<Rightarrow> usize \<Rightarrow> usize \<Rightarrow> x64_reg cpu \<Rightarrow> x64_reg cpu" where
  "x64_call_switch ret from to s =
     fold x64_exec xx_core_fiber_x64_switch (x64_exec (Push ret) (set_reg RDI from (set_reg RSI to s)))"

definition x64_land :: "stubs \<Rightarrow> x64_reg cpu \<Rightarrow> x64_reg cpu" where
  "x64_land st s =
     (if pc s = start_stub st then fold x64_exec xx_core_fiber_x64_start s
      else if pc s = intercept_stub st then fold x64_exec xx_core_fiber_x64_intercept s
      else s)"

definition x64_switch :: "stubs \<Rightarrow> usize \<Rightarrow> usize \<Rightarrow> usize \<Rightarrow> x64_reg cpu \<Rightarrow> x64_reg cpu" where
  "x64_switch st ret from to s = x64_land st (x64_call_switch ret from to s)"

section \<open>ARM64\<close>

datatype arm64_reg = X0 | X1 | X10 | X19 | X29 | X30 | SP

datatype arm64_instr =
    Mov arm64_reg arm64_reg
  | Mov_Zero arm64_reg
  | Ldr arm64_reg arm64_reg usize
  | Ldp arm64_reg arm64_reg arm64_reg usize
  | Stp arm64_reg arm64_reg arm64_reg usize
  | Br arm64_reg

fun arm64_exec :: "arm64_instr \<Rightarrow> arm64_reg cpu \<Rightarrow> arm64_reg cpu" where
  "arm64_exec (Mov d r) s = set_reg d (regs s r) s"
| "arm64_exec (Mov_Zero d) s = set_reg d 0 s"
| "arm64_exec (Ldr d b off) s = set_reg d (ram s (regs s b + off)) s"
| "arm64_exec (Ldp d1 d2 b off) s =
     set_reg d2 (ram s (regs s b + off + 8)) (set_reg d1 (ram s (regs s b + off)) s)"
| "arm64_exec (Stp r1 r2 b off) s =
     store_word (regs s b + off + 8) (regs s r2) (store_word (regs s b + off) (regs s r1) s)"
| "arm64_exec (Br r) s = s\<lparr>pc := regs s r\<rparr>"

definition xx_core_fiber_arm64_start :: "arm64_instr list" where
  "xx_core_fiber_arm64_start = [Mov_Zero X30, Ldp X1 X0 SP (- 0x10), Br X1]"

definition xx_core_fiber_arm64_intercept :: "arm64_instr list" where
  "xx_core_fiber_arm64_intercept = [Ldp X1 X0 SP (- 0x18), Ldr X30 SP (- 0x08), Br X1]"

definition xx_core_fiber_arm64_switch :: "arm64_instr list" where
  "xx_core_fiber_arm64_switch =
    [Mov X10 SP,
     Stp X19 X29 X0 0x00, Stp X10 X30 X0 0x10,
     Ldp X19 X29 X1 0x00, Ldp X10 X30 X1 0x10,
     Mov SP X10, Br X30]"

definition arm64_stack :: usize where "arm64_stack = 0x10"
definition arm64_link :: usize where "arm64_link = 0x18"

definition arm64_program_counter :: "usize \<Rightarrow> ram \<Rightarrow> usize" where
  "arm64_program_counter c m = m (c + arm64_link)"

definition arm64_set_stack :: "usize \<Rightarrow> usize \<Rightarrow> usize \<Rightarrow> ram \<Rightarrow> ram" where
  "arm64_set_stack c stack len m = m(c + arm64_stack := stack + len)"

definition arm64_set_start :: "stubs \<Rightarrow> usize \<Rightarrow> usize \<Rightarrow> usize \<Rightarrow> ram \<Rightarrow> ram" where
  "arm64_set_start st c start arg m =
     (let stack = m (c + arm64_stack)
      in m(stack - 16 := start, stack - 8 := arg, c + arm64_link := start_stub st))"

definition arm64_set_intercept :: "stubs \<Rightarrow> usize \<Rightarrow> usize \<Rightarrow> usize \<Rightarrow> usize \<Rightarrow> ram \<Rightarrow> ram" where
  "arm64_set_intercept st c intercept arg ret m =
     (let stack = m (c + arm64_stack)
      in m(stack - 24 := intercept, stack - 16 := arg, stack - 8 := ret, c + arm64_link := intercept_stub st))"

text \<open>The inline assembly is \<open>bl\<close>, with the contexts in the first two registers; it declares the other callee-saved registers as clobbered.\<close>

definition arm64_call_switch :: "usize \<Rightarrow> usize \<Rightarrow> usize \<Rightarrow> arm64_reg cpu \<Rightarrow> arm64_reg cpu" where
  "arm64_call_switch ret from to s =
     fold arm64_exec xx_core_fiber_arm64_switch (set_reg X30 ret (set_reg X0 from (set_reg X1 to s)))"

definition arm64_land :: "stubs \<Rightarrow> arm64_reg cpu \<Rightarrow> arm64_reg cpu" where
  "arm64_land st s =
     (if pc s = start_stub st then fold arm64_exec xx_core_fiber_arm64_start s
      else if pc s = intercept_stub st then fold arm64_exec xx_core_fiber_arm64_intercept s
      else s)"

definition arm64_switch :: "stubs \<Rightarrow> usize \<Rightarrow> usize \<Rightarrow> usize \<Rightarrow> arm64_reg cpu \<Rightarrow> arm64_reg cpu" where
  "arm64_switch st ret from to s = arm64_land st (arm64_call_switch ret from to s)"

section \<open>What an architecture provides\<close>

text \<open>
  A thread of control as a context keeps it: not yet started, with the entry point, its argument and the top of the stack; paused,
  with where to continue, the stack pointer and the registers a callee keeps; or paused with a function to run first.
\<close>

datatype thread =
    Fresh usize usize usize
  | Paused usize usize "usize list"
  | Leaving usize usize usize usize "usize list"

text \<open>
  The operations of a platform module, and the views its laws speak of: the words of a context, the saved stack pointer, the registers that
  are kept, the stack pointer, the first argument and the return address of a machine, the words a call writes, the stack pointer in a function
  entered with a stack top, and the thread of a context.
\<close>

record 'r arch =
  ar_program_counter :: "usize \<Rightarrow> ram \<Rightarrow> usize"
  ar_set_stack :: "usize \<Rightarrow> usize \<Rightarrow> usize \<Rightarrow> ram \<Rightarrow> ram"
  ar_set_start :: "stubs \<Rightarrow> usize \<Rightarrow> usize \<Rightarrow> usize \<Rightarrow> ram \<Rightarrow> ram"
  ar_set_intercept :: "stubs \<Rightarrow> usize \<Rightarrow> usize \<Rightarrow> usize \<Rightarrow> usize \<Rightarrow> ram \<Rightarrow> ram"
  ar_switch :: "stubs \<Rightarrow> usize \<Rightarrow> usize \<Rightarrow> usize \<Rightarrow> 'r cpu \<Rightarrow> 'r cpu"
  ar_area :: "usize \<Rightarrow> usize set"
  ar_saved_sp :: "usize \<Rightarrow> ram \<Rightarrow> usize"
  ar_kept :: "'r cpu \<Rightarrow> usize list"
  ar_sp :: "'r cpu \<Rightarrow> usize"
  ar_arg :: "'r cpu \<Rightarrow> usize"
  ar_return :: "'r cpu \<Rightarrow> usize"
  ar_scratch :: "'r cpu \<Rightarrow> usize set"
  ar_entry :: "usize \<Rightarrow> usize"
  ar_saved :: "usize \<Rightarrow> ram \<Rightarrow> usize list"

text \<open>The words below a saved stack pointer, where start arguments and intercepts are written.\<close>

definition slots :: "usize \<Rightarrow> usize set" where
  "slots sp = {sp - 8, sp - 16, sp - 24}"

definition foot :: "'r arch \<Rightarrow> usize \<Rightarrow> ram \<Rightarrow> usize set" where
  "foot A c m = ar_area A c \<union> slots (ar_saved_sp A c m)"

definition thread_of :: "'r arch \<Rightarrow> stubs \<Rightarrow> usize \<Rightarrow> ram \<Rightarrow> thread" where
  "thread_of A st c m =
     (let p = ar_program_counter A c m; sp = ar_saved_sp A c m
      in if p = start_stub st then Fresh (m (sp - 16)) (m (sp - 8)) sp
         else if p = intercept_stub st then Leaving (m (sp - 24)) (m (sp - 16)) (m (sp - 8)) sp (ar_saved A c m)
         else Paused p sp (ar_saved A c m))"

text \<open>A function of the C calling convention, entered in the first state, has returned in the second.\<close>

definition returned :: "'r arch \<Rightarrow> 'r cpu \<Rightarrow> 'r cpu \<Rightarrow> bool" where
  "returned A s s' \<longleftrightarrow> pc s' = ar_return A s \<and> ar_entry A (ar_sp A s') = ar_sp A s \<and> ar_kept A s' = ar_kept A s"

fun entered :: "'r arch \<Rightarrow> thread \<Rightarrow> 'r cpu \<Rightarrow> bool" where
  "entered A (Fresh start arg stack) s =
     (pc s = start \<and> ar_arg A s = arg \<and> ar_sp A s = ar_entry A stack \<and> ar_return A s = 0)"
| "entered A (Paused p sp kept) s = (pc s = p \<and> ar_sp A s = sp \<and> ar_kept A s = kept)"
| "entered A (Leaving f arg p sp kept) s =
     (pc s = f \<and> ar_arg A s = arg \<and> ar_sp A s = ar_entry A sp \<and> ar_return A s = p \<and> ar_kept A s = kept)"

definition x64_arch :: "x64_reg arch" where
  "x64_arch = \<lparr>
     ar_program_counter = x64_program_counter, ar_set_stack = x64_set_stack, ar_set_start = x64_set_start,
     ar_set_intercept = x64_set_intercept, ar_switch = x64_switch,
     ar_area = (\<lambda>c. {c, c + 0x08, c + 0x10, c + 0x18, c + 0x20, c + 0x28, c + 0x30, c + 0x38}),
     ar_saved_sp = (\<lambda>c m. m (c + x64_rsp)),
     ar_kept = (\<lambda>s. map (regs s) [R12, R13, R14, R15, RBX, RBP]),
     ar_sp = (\<lambda>s. regs s RSP), ar_arg = (\<lambda>s. regs s RDI), ar_return = (\<lambda>s. ram s (regs s RSP)),
     ar_scratch = (\<lambda>s. {regs s RSP - 8}), ar_entry = (\<lambda>top. top - 8),
     ar_saved = (\<lambda>c m. map (\<lambda>off. m (c + off)) [0x00, 0x08, 0x10, 0x18, 0x30, 0x38])\<rparr>"

definition arm64_arch :: "arm64_reg arch" where
  "arm64_arch = \<lparr>
     ar_program_counter = arm64_program_counter, ar_set_stack = arm64_set_stack, ar_set_start = arm64_set_start,
     ar_set_intercept = arm64_set_intercept, ar_switch = arm64_switch,
     ar_area = (\<lambda>c. {c, c + 0x08, c + 0x10, c + 0x18}),
     ar_saved_sp = (\<lambda>c m. m (c + arm64_stack)),
     ar_kept = (\<lambda>s. map (regs s) [X19, X29]),
     ar_sp = (\<lambda>s. regs s SP), ar_arg = (\<lambda>s. regs s X0), ar_return = (\<lambda>s. regs s X30),
     ar_scratch = (\<lambda>s. {}), ar_entry = (\<lambda>top. top),
     ar_saved = (\<lambda>c m. map (\<lambda>off. m (c + off)) [0x00, 0x08])\<rparr>"

text \<open>Each word is written apart from the others.\<close>

lemma distinct_words:
  fixes a :: usize
  shows "a - 8 \<noteq> a - 16" "a - 8 \<noteq> a - 24" "a - 16 \<noteq> a - 24" "a - 16 \<noteq> a - 8" "a - 24 \<noteq> a - 8" "a - 24 \<noteq> a - 16"
  by simp_all

lemmas x64_code = xx_core_fiber_x64_start_def xx_core_fiber_x64_intercept_def xx_core_fiber_x64_switch_def
lemmas arm64_code = xx_core_fiber_arm64_start_def xx_core_fiber_arm64_intercept_def xx_core_fiber_arm64_switch_def
lemmas x64_parts = x64_program_counter_def x64_set_stack_def x64_set_start_def x64_set_intercept_def x64_rip_def x64_rsp_def
lemmas arm64_parts = arm64_program_counter_def arm64_set_stack_def arm64_set_start_def arm64_set_intercept_def
  arm64_stack_def arm64_link_def

lemma x64_reg_simps: "regs (set_reg r v s) = (regs s)(r := v)" "ram (set_reg r v s) = ram s" "pc (set_reg r v s) = pc s"
  "regs (store_word a v s) = regs s" "ram (store_word a v s) = (ram s)(a := v)" "pc (store_word a v s) = pc s"
  by (simp_all add: set_reg_def store_word_def)

text \<open>The routine saves the first context, then loads the second.\<close>

definition x64_saved :: "usize \<Rightarrow> usize \<Rightarrow> x64_reg cpu \<Rightarrow> ram" where
  "x64_saved ret from s =
     (ram s)(regs s RSP - 8 := ret, from := regs s R12, from + 0x08 := regs s R13, from + 0x10 := regs s R14,
        from + 0x18 := regs s R15, from + 0x20 := ret, from + 0x28 := regs s RSP, from + 0x30 := regs s RBX,
        from + 0x38 := regs s RBP)"

lemma x64_called:
  fixes ret "from" to :: usize and s :: "x64_reg cpu"
  defines "s' \<equiv> x64_call_switch ret from to s"
  defines "m \<equiv> x64_saved ret from s"
  shows "ram s' = m" "pc s' = m (to + 0x20)" "map (regs s') [R12, R13, R14, R15, RBX, RBP] =
      map (\<lambda>off. m (to + off)) [0x00, 0x08, 0x10, 0x18, 0x30, 0x38]" "regs s' RSP = m (to + 0x28)"
  unfolding s'_def m_def x64_saved_def x64_call_switch_def x64_code
  by (simp_all add: x64_reg_simps)


lemma x64_landed:
  shows "pc s = start_stub st \<Longrightarrow> pc (x64_land st s) = ram s (regs s RSP - 16) \<and>
      regs (x64_land st s) RDI = ram s (regs s RSP - 8) \<and> regs (x64_land st s) RSP = regs s RSP - 8 \<and>
      ram (x64_land st s) = (ram s)(regs s RSP - 8 := 0)"
    and "pc s \<noteq> start_stub st \<Longrightarrow> pc s = intercept_stub st \<Longrightarrow> pc (x64_land st s) = ram s (regs s RSP - 24) \<and>
      regs (x64_land st s) RDI = ram s (regs s RSP - 16) \<and> regs (x64_land st s) RSP = regs s RSP - 8 \<and>
      ram (x64_land st s) = ram s"
    and "pc s \<noteq> start_stub st \<Longrightarrow> pc s \<noteq> intercept_stub st \<Longrightarrow> x64_land st s = s"
    and "map (regs (x64_land st s)) [R12, R13, R14, R15, RBX, RBP] = map (regs s) [R12, R13, R14, R15, RBX, RBP]"
  by (simp_all add: x64_land_def x64_code x64_reg_simps)

text \<open>The second context is out of the way of what the routine writes.\<close>

lemma x64_saved_other:
  assumes "x \<notin> ar_area x64_arch from" "x \<noteq> regs s RSP - 8"
  shows "x64_saved ret from s x = ram s x"
  using assms by (simp add: x64_saved_def x64_arch_def)

lemma x64_saved_own:
  shows "x64_saved ret from s (from + 0x20) = ret" "x64_saved ret from s (from + 0x28) = regs s RSP"
    and "map (\<lambda>off. x64_saved ret from s (from + off)) [0x00, 0x08, 0x10, 0x18, 0x30, 0x38] =
      map (regs s) [R12, R13, R14, R15, RBX, RBP]"
  by (simp_all add: x64_saved_def)

section \<open>The laws of an architecture\<close>

definition apart :: "'r arch \<Rightarrow> usize \<Rightarrow> usize \<Rightarrow> 'r cpu \<Rightarrow> bool" where
  "apart A from to s \<longleftrightarrow> ar_area A from \<inter> foot A to (ram s) = {} \<and>
     ar_scratch A s \<inter> (ar_area A from \<union> foot A to (ram s)) = {}"

locale fiber_arch =
  fixes A :: "'r arch"
  assumes saved_cong: "\<forall>x \<in> ar_area A c. m1 x = m x \<Longrightarrow>
      ar_program_counter A c m1 = ar_program_counter A c m \<and> ar_saved_sp A c m1 = ar_saved_sp A c m \<and>
      ar_saved A c m1 = ar_saved A c m"
    and stack_set: "ar_saved_sp A c (ar_set_stack A c stack len m) = stack + len"
    and stack_frame: "x \<notin> ar_area A c \<Longrightarrow> ar_set_stack A c stack len m x = m x"
    and start_set: "slots (ar_saved_sp A c m) \<inter> ar_area A c = {} \<Longrightarrow>
      thread_of A st c (ar_set_start A st c f a m) = Fresh f a (ar_saved_sp A c m) \<and>
      ar_saved_sp A c (ar_set_start A st c f a m) = ar_saved_sp A c m"
    and start_frame: "x \<notin> foot A c m \<Longrightarrow> ar_set_start A st c f a m x = m x"
    and intercept_set: "stubs_ok st \<Longrightarrow> slots (ar_saved_sp A c m) \<inter> ar_area A c = {} \<Longrightarrow>
      thread_of A st c (ar_set_intercept A st c f a r m) = Leaving f a r (ar_saved_sp A c m) (ar_saved A c m) \<and>
      ar_saved_sp A c (ar_set_intercept A st c f a r m) = ar_saved_sp A c m"
    and intercept_frame: "x \<notin> foot A c m \<Longrightarrow> ar_set_intercept A st c f a r m x = m x"
    and switch_saves: "apart A from to s \<Longrightarrow> s1 = ar_switch A st ret from to s \<Longrightarrow>
      ar_program_counter A from (ram s1) = ret \<and> ar_saved_sp A from (ram s1) = ar_sp A s \<and>
      ar_saved A from (ram s1) = ar_kept A s"
    and switch_enters: "apart A from to s \<Longrightarrow> entered A (thread_of A st to (ram s)) (ar_switch A st ret from to s)"
    and switch_frame: "apart A from to s \<Longrightarrow> x \<notin> ar_area A from \<union> ar_scratch A s \<union> foot A to (ram s) \<Longrightarrow>
      ram (ar_switch A st ret from to s) x = ram s x"
    and scratch_below: "ar_scratch A s \<subseteq> slots (ar_sp A s)"
    and sp_regs: "ar_sp A (s\<lparr>ram := m\<rparr>) = ar_sp A s"
    and entry_inj: "ar_entry A x = ar_entry A y \<Longrightarrow> x = y"

lemma x64_simps:
  "ar_area x64_arch c = {c, c + 0x08, c + 0x10, c + 0x18, c + 0x20, c + 0x28, c + 0x30, c + 0x38}"
  "ar_saved_sp x64_arch c m = m (c + 0x28)" "ar_program_counter x64_arch c m = m (c + 0x20)"
  "ar_kept x64_arch s = map (regs s) [R12, R13, R14, R15, RBX, RBP]"
  "ar_sp x64_arch s = regs s RSP" "ar_arg x64_arch s = regs s RDI" "ar_return x64_arch s = ram s (regs s RSP)"
  "ar_scratch x64_arch s = {regs s RSP - 8}" "ar_entry x64_arch sp = sp - 8"
  "ar_saved x64_arch c m = map (\<lambda>off. m (c + off)) [0x00, 0x08, 0x10, 0x18, 0x30, 0x38]"
  by (simp_all add: x64_arch_def x64_rsp_def x64_program_counter_def x64_rip_def)

text \<open>What the second context holds when it is loaded.\<close>

lemma x64_apartD:
  assumes "apart x64_arch from to s" "x \<in> foot x64_arch to (ram s)"
  shows "x64_saved ret from s x = ram s x"
  using assms by (intro x64_saved_other) (auto simp: apart_def x64_simps(8))

lemma x64_foot:
  "c + 0x20 \<in> foot x64_arch c m" "c + 0x28 \<in> foot x64_arch c m"
  "off \<in> {0x00, 0x08, 0x10, 0x18, 0x30, 0x38} \<Longrightarrow> c + off \<in> foot x64_arch c m"
  "m (c + 0x28) - 8 \<in> foot x64_arch c m" "c \<in> foot x64_arch c m" "m (c + 0x28) - 16 \<in> foot x64_arch c m" "m (c + 0x28) - 24 \<in> foot x64_arch c m"
  by (auto simp: foot_def x64_simps slots_def)

lemma x64_frame_ram:
  assumes "apart x64_arch from to s" "x \<noteq> ram s (to + 0x28) - 8"
  shows "ram (x64_switch st ret from to s) x = x64_saved ret from s x"
proof -
  let ?s = "x64_call_switch ret from to s"
  have sp: "regs ?s RSP = ram s (to + 0x28)" using x64_apartD[OF assms(1) x64_foot(2)] by (simp add: x64_called)
  have "ram (x64_land st ?s) x = ram ?s x"
    using x64_landed(1)[of ?s st] x64_landed(2)[of ?s st] x64_landed(3)[of ?s st] sp assms(2)
    by (cases "pc ?s = start_stub st"; cases "pc ?s = intercept_stub st") simp_all
  then show ?thesis by (simp add: x64_switch_def x64_called)
qed


lemma x64_switch_saves:
  assumes ap: "apart x64_arch from to s" and s1: "s1 = ar_switch x64_arch st ret from to s"
  shows "ar_program_counter x64_arch from (ram s1) = ret \<and> ar_saved_sp x64_arch from (ram s1) = ar_sp x64_arch s \<and>
    ar_saved x64_arch from (ram s1) = ar_kept x64_arch s"
proof -
  have same: "ram s1 x = x64_saved ret from s x" if "x \<in> ar_area x64_arch from" for x
  proof -
    have "x \<noteq> ram s (to + 0x28) - 8" using ap that x64_foot(4)[where m = "ram s" and c = to] by (auto simp: apart_def)
    then show ?thesis using s1 x64_frame_ram[OF ap] by (simp add: x64_arch_def)
  qed
  have "ram s1 (from + 0x20) = ret" "ram s1 (from + 0x28) = regs s RSP"
    "map (\<lambda>off. ram s1 (from + off)) [0x00, 0x08, 0x10, 0x18, 0x30, 0x38] = map (regs s) [R12, R13, R14, R15, RBX, RBP]"
    using x64_saved_own[of ret "from" s] by (simp_all add: same x64_simps(1))
  then show ?thesis by (simp only: x64_simps simp_thms)
qed

lemma x64_switch_enters:
  assumes ap: "apart x64_arch from to s"
  shows "entered x64_arch (thread_of x64_arch st to (ram s)) (ar_switch x64_arch st ret from to s)"
proof -
  let ?s = "x64_call_switch ret from to s"
  let ?sp = "ram s (to + 0x28)"
  have m: "ram ?s = x64_saved ret from s" by (simp add: x64_called)
  have same: "x64_saved ret from s x = ram s x" if "x \<in> foot x64_arch to (ram s)" for x using ap that by (rule x64_apartD)
  have pc: "pc ?s = ram s (to + 0x20)" and sp: "regs ?s RSP = ?sp" by (simp_all add: x64_called same x64_foot)
  have kept: "map (regs ?s) [R12, R13, R14, R15, RBX, RBP] = ar_saved x64_arch to (ram s)"
    unfolding x64_called(3) x64_simps by (simp add: same x64_foot)
  have slot: "x64_saved ret from s (?sp - 8) = ram s (?sp - 8)" "x64_saved ret from s (?sp - 16) = ram s (?sp - 16)"
    "x64_saved ret from s (?sp - 24) = ram s (?sp - 24)" by (simp_all add: same x64_foot)
  have sw: "ar_switch x64_arch st ret from to s = x64_land st ?s" by (simp add: x64_arch_def x64_switch_def)
  have kept2: "ar_kept x64_arch (x64_land st ?s) = ar_saved x64_arch to (ram s)"
    using x64_landed(4) kept by (simp only: x64_simps)
  consider "ram s (to + 0x20) = start_stub st"
    | "ram s (to + 0x20) \<noteq> start_stub st" "ram s (to + 0x20) = intercept_stub st"
    | "ram s (to + 0x20) \<noteq> start_stub st" "ram s (to + 0x20) \<noteq> intercept_stub st" by blast
  then show ?thesis
  proof cases
    case 1
    then show ?thesis using x64_landed(1)[of ?s st] by (simp add: sw thread_of_def x64_simps pc sp m slot Let_def)
  next
    case 2
    then have "thread_of x64_arch st to (ram s) =
        Leaving (ram s (?sp - 24)) (ram s (?sp - 16)) (ram s (?sp - 8)) ?sp (ar_saved x64_arch to (ram s))"
      by (simp add: thread_of_def Let_def x64_simps(2,3))
    then show ?thesis using 2 x64_landed(2)[of ?s st] kept2 unfolding sw
      by (simp only: entered.simps x64_simps pc sp m slot if_True if_False simp_thms)
  next
    case 3
    then have "thread_of x64_arch st to (ram s) = Paused (ram s (to + 0x20)) ?sp (ar_saved x64_arch to (ram s))"
      by (simp add: thread_of_def Let_def x64_simps(2,3))
    then show ?thesis using 3 x64_landed(3)[of ?s st] kept2 unfolding sw
      by (simp only: entered.simps pc sp x64_simps(5) simp_thms)
  qed
qed

lemma x64_switch_frame:
  assumes "apart x64_arch from to s" "x \<notin> ar_area x64_arch from \<union> ar_scratch x64_arch s \<union> foot x64_arch to (ram s)"
  shows "ram (ar_switch x64_arch st ret from to s) x = ram s x"
proof -
  have "x \<noteq> ram s (to + 0x28) - 8" using assms(2) x64_foot(4)[where m = "ram s" and c = to] by auto
  then have "ram (ar_switch x64_arch st ret from to s) x = x64_saved ret from s x"
    using x64_frame_ram[OF assms(1)] by (simp add: x64_arch_def)
  also have "\<dots> = ram s x" using assms(2) by (intro x64_saved_other) (auto simp: x64_simps(8))
  finally show ?thesis .
qed

lemma x64_set_simps:
  "ar_set_stack x64_arch c stack len m = m(c + 0x28 := stack + len)"
  "ar_set_start x64_arch st c f a m = m(m (c + 0x28) - 16 := f, m (c + 0x28) - 8 := a, c + 0x20 := start_stub st)"
  "ar_set_intercept x64_arch st c f a r m =
     m(m (c + 0x28) - 24 := f, m (c + 0x28) - 16 := a, m (c + 0x28) - 8 := r, c + 0x20 := intercept_stub st)"
  by (simp_all add: x64_arch_def x64_parts Let_def)

text \<open>Writing the words below the saved stack pointer leaves the saved registers.\<close>

lemma x64_start_set:
  assumes "slots (ar_saved_sp x64_arch c m) \<inter> ar_area x64_arch c = {}"
  shows "thread_of x64_arch st c (ar_set_start x64_arch st c f a m) = Fresh f a (ar_saved_sp x64_arch c m) \<and>
    ar_saved_sp x64_arch c (ar_set_start x64_arch st c f a m) = ar_saved_sp x64_arch c m"
proof -
  let ?sp = "m (c + 0x28)"
  have apart: "x \<noteq> y" if "x \<in> slots ?sp" "y \<in> ar_area x64_arch c" for x y
    using assms that by (auto simp: x64_simps(2))
  have below: "?sp - 16 \<in> slots ?sp" "?sp - 8 \<in> slots ?sp" by (simp_all add: slots_def)
  have "c + 0x20 \<in> ar_area x64_arch c" "c + 0x28 \<in> ar_area x64_arch c" by (simp_all add: x64_simps)
  note apart[OF below(1) this(1)] apart[OF below(2) this(1)] apart[OF below(1) this(2)] apart[OF below(2) this(2)]
  then show ?thesis by (simp add: thread_of_def x64_simps(2,3) x64_set_simps)
qed

lemma x64_intercept_set:
  assumes "stubs_ok st" "slots (ar_saved_sp x64_arch c m) \<inter> ar_area x64_arch c = {}"
  shows "thread_of x64_arch st c (ar_set_intercept x64_arch st c f a r m) =
      Leaving f a r (ar_saved_sp x64_arch c m) (ar_saved x64_arch c m) \<and>
    ar_saved_sp x64_arch c (ar_set_intercept x64_arch st c f a r m) = ar_saved_sp x64_arch c m"
proof -
  let ?sp = "m (c + 0x28)"
  let ?m = "ar_set_intercept x64_arch st c f a r m"
  have apart: "x \<noteq> y" if "x \<in> slots ?sp" "y \<in> ar_area x64_arch c" for x y
    using assms that by (auto simp: x64_simps(2))
  have below: "?sp - 24 \<in> slots ?sp" "?sp - 16 \<in> slots ?sp" "?sp - 8 \<in> slots ?sp" by (simp_all add: slots_def)
  have area: "?m x = (if x = c + 0x20 then intercept_stub st else m x)" if "x \<in> ar_area x64_arch c" for x
    using apart[OF below(1) that] apart[OF below(2) that] apart[OF below(3) that] by (auto simp: x64_set_simps)
  have in20: "c + 0x20 \<in> ar_area x64_arch c" by (simp add: x64_simps)
  have slot: "?m (?sp - 24) = f" "?m (?sp - 16) = a" "?m (?sp - 8) = r"
    using apart[OF below(1) in20] apart[OF below(2) in20] apart[OF below(3) in20] by (simp_all add: x64_set_simps)
  have saved: "ar_saved x64_arch c ?m = ar_saved x64_arch c m" by (simp add: x64_simps(1,10) area)
  have "?m (c + 0x28) = ?sp" "?m (c + 0x20) = intercept_stub st" by (simp_all add: area x64_simps(1))
  with slot saved assms(1) show ?thesis by (simp add: thread_of_def x64_simps(2,3) Let_def stubs_ok_def)
qed


interpretation x64: fiber_arch x64_arch
proof
  show "ar_program_counter x64_arch c m1 = ar_program_counter x64_arch c m \<and> ar_saved_sp x64_arch c m1 = ar_saved_sp x64_arch c m \<and>
      ar_saved x64_arch c m1 = ar_saved x64_arch c m" if "\<forall>x \<in> ar_area x64_arch c. m1 x = m x" for c m1 m
    using that by (simp add: x64_simps)
next
  show "ar_saved_sp x64_arch c (ar_set_stack x64_arch c stack len m) = stack + len" for c stack len m
    by (simp add: x64_simps(2) x64_set_simps)
next
  show "ar_set_stack x64_arch c stack len m x = m x" if "x \<notin> ar_area x64_arch c" for c stack len m x
    using that by (simp add: x64_simps(1) x64_set_simps)
next
  show "ar_set_start x64_arch st c f a m x = m x" if "x \<notin> foot x64_arch c m" for c st f a m x
    using that by (simp add: x64_simps(1,2) x64_set_simps foot_def slots_def)
next
  show "ar_set_intercept x64_arch st c f a r m x = m x" if "x \<notin> foot x64_arch c m" for c st f a r m x
    using that by (simp add: x64_simps(1,2) x64_set_simps foot_def slots_def)
next
  show "ar_scratch x64_arch s \<subseteq> slots (ar_sp x64_arch s)" for s by (simp add: x64_simps slots_def)
next
  show "ar_sp x64_arch (s\<lparr>ram := m\<rparr>) = ar_sp x64_arch s" for s m by (simp add: x64_simps)
next
  show "x = y" if "ar_entry x64_arch x = ar_entry x64_arch y" for x y using that by (simp add: x64_simps)
qed (fact x64_start_set x64_intercept_set x64_switch_saves x64_switch_enters x64_switch_frame)+

section \<open>ARM64 keeps the laws\<close>

definition arm64_saved :: "usize \<Rightarrow> usize \<Rightarrow> arm64_reg cpu \<Rightarrow> ram" where
  "arm64_saved ret from s =
     (ram s)(from := regs s X19, from + 0x08 := regs s X29, from + 0x10 := regs s SP, from + 0x18 := ret)"

lemma arm64_called:
  fixes ret "from" to :: usize and s :: "arm64_reg cpu"
  defines "s' \<equiv> arm64_call_switch ret from to s"
  defines "m \<equiv> arm64_saved ret from s"
  shows "ram s' = m" "pc s' = m (to + 0x18)" "map (regs s') [X19, X29] = map (\<lambda>off. m (to + off)) [0x00, 0x08]"
    "regs s' SP = m (to + 0x10)"
  unfolding s'_def m_def arm64_saved_def arm64_call_switch_def arm64_code
  by (simp_all add: x64_reg_simps add.assoc)

lemma arm64_landed:
  shows "pc s = start_stub st \<Longrightarrow> pc (arm64_land st s) = ram s (regs s SP - 16) \<and>
      regs (arm64_land st s) X0 = ram s (regs s SP - 8) \<and> regs (arm64_land st s) X30 = 0"
    and "pc s \<noteq> start_stub st \<Longrightarrow> pc s = intercept_stub st \<Longrightarrow> pc (arm64_land st s) = ram s (regs s SP - 24) \<and>
      regs (arm64_land st s) X0 = ram s (regs s SP - 16) \<and> regs (arm64_land st s) X30 = ram s (regs s SP - 8)"
    and "pc s \<noteq> start_stub st \<Longrightarrow> pc s \<noteq> intercept_stub st \<Longrightarrow> arm64_land st s = s"
    and "map (regs (arm64_land st s)) [X19, X29] = map (regs s) [X19, X29]"
    and "regs (arm64_land st s) SP = regs s SP" "ram (arm64_land st s) = ram s"
  by (simp_all add: arm64_land_def arm64_code x64_reg_simps)

lemma arm64_simps:
  "ar_area arm64_arch c = {c, c + 0x08, c + 0x10, c + 0x18}"
  "ar_saved_sp arm64_arch c m = m (c + 0x10)" "ar_program_counter arm64_arch c m = m (c + 0x18)"
  "ar_kept arm64_arch s = map (regs s) [X19, X29]"
  "ar_sp arm64_arch s = regs s SP" "ar_arg arm64_arch s = regs s X0" "ar_return arm64_arch s = regs s X30"
  "ar_scratch arm64_arch s = {}" "ar_entry arm64_arch sp = sp"
  "ar_saved arm64_arch c m = map (\<lambda>off. m (c + off)) [0x00, 0x08]"
  by (simp_all add: arm64_arch_def arm64_stack_def arm64_program_counter_def arm64_link_def)

lemma arm64_set_simps:
  "ar_set_stack arm64_arch c stack len m = m(c + 0x10 := stack + len)"
  "ar_set_start arm64_arch st c f a m = m(m (c + 0x10) - 16 := f, m (c + 0x10) - 8 := a, c + 0x18 := start_stub st)"
  "ar_set_intercept arm64_arch st c f a r m =
     m(m (c + 0x10) - 24 := f, m (c + 0x10) - 16 := a, m (c + 0x10) - 8 := r, c + 0x18 := intercept_stub st)"
  "ar_switch arm64_arch st ret from to s = arm64_land st (arm64_call_switch ret from to s)"
  by (simp_all add: arm64_arch_def arm64_parts arm64_switch_def Let_def)

lemma arm64_apartD:
  assumes "apart arm64_arch from to s" "x \<in> foot arm64_arch to (ram s)"
  shows "arm64_saved ret from s x = ram s x"
proof -
  have "x \<notin> ar_area arm64_arch from" using assms by (auto simp: apart_def)
  then show ?thesis by (simp add: arm64_saved_def arm64_simps)
qed

lemma arm64_foot:
  "c + 0x10 \<in> foot arm64_arch c m" "c + 0x18 \<in> foot arm64_arch c m" "c \<in> foot arm64_arch c m" "c + 0x08 \<in> foot arm64_arch c m"
  "m (c + 0x10) - 8 \<in> foot arm64_arch c m" "m (c + 0x10) - 16 \<in> foot arm64_arch c m" "m (c + 0x10) - 24 \<in> foot arm64_arch c m"
  by (auto simp: foot_def arm64_simps slots_def)

lemma arm64_switch_enters:
  assumes ap: "apart arm64_arch from to s"
  shows "entered arm64_arch (thread_of arm64_arch st to (ram s)) (ar_switch arm64_arch st ret from to s)"
proof -
  let ?s = "arm64_call_switch ret from to s"
  let ?sp = "ram s (to + 0x10)"
  have m: "ram ?s = arm64_saved ret from s" by (simp add: arm64_called)
  have same: "arm64_saved ret from s x = ram s x" if "x \<in> foot arm64_arch to (ram s)" for x using ap that by (rule arm64_apartD)
  have pc: "pc ?s = ram s (to + 0x18)" and sp: "regs ?s SP = ?sp" by (simp_all add: arm64_called same arm64_foot)
  have kept: "map (regs ?s) [X19, X29] = ar_saved arm64_arch to (ram s)"
    unfolding arm64_called(3) arm64_simps by (simp add: same arm64_foot)
  have slot: "arm64_saved ret from s (?sp - 8) = ram s (?sp - 8)" "arm64_saved ret from s (?sp - 16) = ram s (?sp - 16)"
    "arm64_saved ret from s (?sp - 24) = ram s (?sp - 24)" by (simp_all add: same arm64_foot)
  have kept2: "ar_kept arm64_arch (arm64_land st ?s) = ar_saved arm64_arch to (ram s)"
    using arm64_landed(4) kept by (simp only: arm64_simps)
  consider "ram s (to + 0x18) = start_stub st"
    | "ram s (to + 0x18) \<noteq> start_stub st" "ram s (to + 0x18) = intercept_stub st"
    | "ram s (to + 0x18) \<noteq> start_stub st" "ram s (to + 0x18) \<noteq> intercept_stub st" by blast
  then show ?thesis
  proof cases
    case 1
    then show ?thesis using arm64_landed(1)[of ?s st]
      by (simp add: arm64_set_simps(4) thread_of_def arm64_simps pc sp m slot Let_def arm64_landed(5))
  next
    case 2
    then have "thread_of arm64_arch st to (ram s) =
        Leaving (ram s (?sp - 24)) (ram s (?sp - 16)) (ram s (?sp - 8)) ?sp (ar_saved arm64_arch to (ram s))"
      by (simp add: thread_of_def Let_def arm64_simps(2,3))
    then show ?thesis using 2 arm64_landed(2)[of ?s st] kept2 unfolding arm64_set_simps(4)
      by (simp only: entered.simps arm64_simps pc sp m slot arm64_landed(5) if_True if_False simp_thms)
  next
    case 3
    then have "thread_of arm64_arch st to (ram s) = Paused (ram s (to + 0x18)) ?sp (ar_saved arm64_arch to (ram s))"
      by (simp add: thread_of_def Let_def arm64_simps(2,3))
    then show ?thesis using 3 arm64_landed(3)[of ?s st] kept2 unfolding arm64_set_simps(4)
      by (simp only: entered.simps pc sp arm64_simps(5) simp_thms)
  qed
qed


lemma arm64_slot_words:
  assumes "slots (ar_saved_sp arm64_arch c m) \<inter> ar_area arm64_arch c = {}" "x \<in> slots (m (c + 0x10))"
  shows "x \<noteq> c" "x \<noteq> c + 0x08" "x \<noteq> c + 0x10" "x \<noteq> c + 0x18"
  using assms by (auto simp: arm64_simps(1,2))

lemma slots_below: "sp - 8 \<in> slots sp" "sp - 16 \<in> slots sp" "sp - 24 \<in> slots sp"
  by (simp_all add: slots_def)

interpretation arm64: fiber_arch arm64_arch
proof
  show "ar_program_counter arm64_arch c m1 = ar_program_counter arm64_arch c m \<and> ar_saved_sp arm64_arch c m1 = ar_saved_sp arm64_arch c m \<and>
      ar_saved arm64_arch c m1 = ar_saved arm64_arch c m" if "\<forall>x \<in> ar_area arm64_arch c. m1 x = m x" for c m1 m
    using that by (simp add: arm64_simps)
next
  show "ar_saved_sp arm64_arch c (ar_set_stack arm64_arch c stack len m) = stack + len" for c stack len m
    by (simp add: arm64_simps(2) arm64_set_simps)
next
  show "ar_set_stack arm64_arch c stack len m x = m x" if "x \<notin> ar_area arm64_arch c" for c stack len m x
    using that by (simp add: arm64_simps(1) arm64_set_simps)
next
  fix c m st f a
  assume "slots (ar_saved_sp arm64_arch c m) \<inter> ar_area arm64_arch c = {}"
  note arm64_slot_words[OF this slots_below(1)] arm64_slot_words[OF this slots_below(2)]
  then show "thread_of arm64_arch st c (ar_set_start arm64_arch st c f a m) = Fresh f a (ar_saved_sp arm64_arch c m) \<and>
      ar_saved_sp arm64_arch c (ar_set_start arm64_arch st c f a m) = ar_saved_sp arm64_arch c m"
    by (simp add: thread_of_def arm64_simps(2,3) arm64_set_simps)
next
  show "ar_set_start arm64_arch st c f a m x = m x" if "x \<notin> foot arm64_arch c m" for c st f a m x
    using that by (simp add: arm64_simps(1,2) arm64_set_simps foot_def slots_def)
next
  fix st c m f a r
  assume st: "stubs_ok st" and sep: "slots (ar_saved_sp arm64_arch c m) \<inter> ar_area arm64_arch c = {}"
  note arm64_slot_words[OF sep slots_below(1)] arm64_slot_words[OF sep slots_below(2)] arm64_slot_words[OF sep slots_below(3)]
  then show "thread_of arm64_arch st c (ar_set_intercept arm64_arch st c f a r m) =
        Leaving f a r (ar_saved_sp arm64_arch c m) (ar_saved arm64_arch c m) \<and>
      ar_saved_sp arm64_arch c (ar_set_intercept arm64_arch st c f a r m) = ar_saved_sp arm64_arch c m"
    using st by (auto simp: thread_of_def arm64_simps(2,3,10) arm64_set_simps stubs_ok_def Let_def)
next
  show "ar_set_intercept arm64_arch st c f a r m x = m x" if "x \<notin> foot arm64_arch c m" for c st f a r m x
    using that by (simp add: arm64_simps(1,2) arm64_set_simps foot_def slots_def)
next
  show "ar_program_counter arm64_arch from (ram s1) = ret \<and> ar_saved_sp arm64_arch from (ram s1) = ar_sp arm64_arch s \<and>
      ar_saved arm64_arch from (ram s1) = ar_kept arm64_arch s"
    if "s1 = ar_switch arm64_arch st ret from to s" for "from" to s s1 st ret
    using that by (simp add: arm64_set_simps(4) arm64_landed(6) arm64_called(1) arm64_saved_def arm64_simps(2,3,4,5,10))
next
  show "ram (ar_switch arm64_arch st ret from to s) x = ram s x"
    if "x \<notin> ar_area arm64_arch from \<union> ar_scratch arm64_arch s \<union> foot arm64_arch to (ram s)" for "from" to s x st ret
    using that by (simp add: arm64_set_simps(4) arm64_landed(6) arm64_called(1) arm64_saved_def arm64_simps(1))
next
  show "ar_scratch arm64_arch s \<subseteq> slots (ar_sp arm64_arch s)" for s by (simp add: arm64_simps slots_def)
next
  show "ar_sp arm64_arch (s\<lparr>ram := m\<rparr>) = ar_sp arm64_arch s" for s m by (simp add: arm64_simps)
next
  show "x = y" if "ar_entry arm64_arch x = ar_entry arm64_arch y" for x y using that by (simp add: arm64_simps)
qed (fact arm64_switch_enters)

section \<open>Fibers\<close>

text \<open>
  The running machine, the context of the fiber that runs, and the threads the other fibers were left in; the last is what a reader of
  the program knows, no operation looks at it. A fiber runs any code, makes a fiber (\<open>set_stack\<close> and \<open>set_start\<close> on its context),
  switches, or exits to another one: the context is moved to its own stack, the other one is told to call a function with that copy, and the
  machine after that call is the last argument.
\<close>

record 'r fibers =
  fb_cpu :: "'r cpu"
  fb_current :: usize
  fb_others :: "usize \<rightharpoonup> thread"

datatype 'r fiber_op =
    Run "'r cpu"
  | MakeFiber usize usize usize usize usize
  | SwitchFiber usize usize
  | ExitFiber usize usize usize usize "'r cpu"

definition fiber_set_start :: "'r arch \<Rightarrow> stubs \<Rightarrow> usize \<Rightarrow> usize \<Rightarrow> usize \<Rightarrow> usize \<Rightarrow> usize \<Rightarrow> ram \<Rightarrow> ram" where
  "fiber_set_start A st c stack len start arg m = ar_set_start A st c start arg (ar_set_stack A c stack len m)"

definition fiber_exit :: "'r arch \<Rightarrow> stubs \<Rightarrow> usize \<Rightarrow> usize \<Rightarrow> usize \<Rightarrow> usize \<Rightarrow> 'r cpu \<Rightarrow> 'r cpu" where
  "fiber_exit A st copy to callback ret s =
     (let s1 = s\<lparr>ram := ar_set_intercept A st to callback copy (ar_program_counter A to (ram s)) (ram s)\<rparr>
      in ar_switch A st ret copy to s1)"


definition fiber_switch_to :: "'r arch \<Rightarrow> stubs \<Rightarrow> usize \<Rightarrow> usize \<Rightarrow> usize \<Rightarrow> 'r cpu \<Rightarrow> 'r cpu" where
  "fiber_switch_to A st this to ret s = ar_switch A st ret this to s"

fun fiber_do :: "'r arch \<Rightarrow> stubs \<Rightarrow> 'r fiber_op \<Rightarrow> 'r fibers \<Rightarrow> 'r fibers" where
  "fiber_do A st (Run s) w = w\<lparr>fb_cpu := s\<rparr>"
| "fiber_do A st (MakeFiber c stack len start arg) w =
     w\<lparr>fb_cpu := (fb_cpu w)\<lparr>ram := fiber_set_start A st c stack len start arg (ram (fb_cpu w))\<rparr>,
       fb_others := (fb_others w)(c \<mapsto> Fresh start arg (stack + len))\<rparr>"
| "fiber_do A st (SwitchFiber to ret) w =
     w\<lparr>fb_cpu := fiber_switch_to A st (fb_current w) to ret (fb_cpu w), fb_current := to,
       fb_others := (fb_others w)(fb_current w \<mapsto> Paused ret (ar_sp A (fb_cpu w)) (ar_kept A (fb_cpu w)), to := None)\<rparr>"
| "fiber_do A st (ExitFiber to ret copy callback s) w = w\<lparr>fb_cpu := s, fb_current := to, fb_others := (fb_others w)(to := None)\<rparr>"

text \<open>
  What the code is trusted with: it keeps its hands off what other fibers own, a new fiber's context and stack are its own, and the fiber
  that runs has stack left below its stack pointer, apart from its context. What a callback may write is what its fiber may write.
\<close>

definition foreign :: "'r arch \<Rightarrow> 'r fibers \<Rightarrow> usize set" where
  "foreign A w = (\<Union>c \<in> dom (fb_others w). foot A c (ram (fb_cpu w)))"

fun fiber_ok :: "'r arch \<Rightarrow> stubs \<Rightarrow> 'r fiber_op \<Rightarrow> 'r fibers \<Rightarrow> bool" where
  "fiber_ok A st (Run s) w \<longleftrightarrow> (\<forall>x \<in> foreign A w. ram s x = ram (fb_cpu w) x)"
| "fiber_ok A st (MakeFiber c stack len start arg) w \<longleftrightarrow>
     c \<notin> dom (fb_others w) \<and> c \<noteq> fb_current w \<and> slots (stack + len) \<inter> ar_area A c = {} \<and>
     (ar_area A c \<union> slots (stack + len)) \<inter> (foreign A w \<union> ar_area A (fb_current w)) = {}"
| "fiber_ok A st (SwitchFiber to ret) w \<longleftrightarrow>
     to \<in> dom (fb_others w) \<and> ret \<notin> {start_stub st, intercept_stub st} \<and>
     slots (ar_sp A (fb_cpu w)) \<inter> (foreign A w \<union> ar_area A (fb_current w)) = {}"
| "fiber_ok A st (ExitFiber to ret copy callback s) w \<longleftrightarrow>
     (\<exists>p sp kept. fb_others w to = Some (Paused p sp kept)) \<and>
     slots (ar_sp A (fb_cpu w)) \<inter> (foreign A w \<union> ar_area A copy) = {} \<and> ar_area A copy \<inter> foreign A w = {} \<and>
     returned A (fiber_exit A st copy to callback ret (fb_cpu w)) s \<and>
     (\<forall>c \<in> dom (fb_others w) - {to}. \<forall>x \<in> foot A c (ram (fb_cpu w)).
        ram s x = ram (fiber_exit A st copy to callback ret (fb_cpu w)) x)"

inductive fiber_reach :: "'r arch \<Rightarrow> stubs \<Rightarrow> 'r fibers \<Rightarrow> bool" for A :: "'r arch" and st :: stubs where
  fiber_start: "fiber_reach A st w" if "fb_others w = Map.empty"
| fiber_step: "fiber_reach A st (fiber_do A st op w)" if "fiber_reach A st w" "fiber_ok A st op w"

definition fiber_inv :: "'r arch \<Rightarrow> stubs \<Rightarrow> 'r fibers \<Rightarrow> bool" where
  "fiber_inv A st w \<longleftrightarrow> fb_current w \<notin> dom (fb_others w) \<and> ar_area A (fb_current w) \<inter> foreign A w = {} \<and>
     (\<forall>c t. fb_others w c = Some t \<longrightarrow> thread_of A st c (ram (fb_cpu w)) = t \<and>
        slots (ar_saved_sp A c (ram (fb_cpu w))) \<inter> ar_area A c = {} \<and>
        (\<forall>d \<in> dom (fb_others w) - {c}. foot A c (ram (fb_cpu w)) \<inter> foot A d (ram (fb_cpu w)) = {}))"

lemma fiber_invD:
  assumes "fiber_inv A st w"
  shows "fb_current w \<notin> dom (fb_others w)" "ar_area A (fb_current w) \<inter> foreign A w = {}"
    and "fb_others w c = Some t \<Longrightarrow> thread_of A st c (ram (fb_cpu w)) = t"
    and "c \<in> dom (fb_others w) \<Longrightarrow> slots (ar_saved_sp A c (ram (fb_cpu w))) \<inter> ar_area A c = {}"
    and "c \<in> dom (fb_others w) \<Longrightarrow> d \<in> dom (fb_others w) \<Longrightarrow> c \<noteq> d \<Longrightarrow>
      foot A c (ram (fb_cpu w)) \<inter> foot A d (ram (fb_cpu w)) = {}"
proof -
  have at: "thread_of A st c (ram (fb_cpu w)) = t \<and> slots (ar_saved_sp A c (ram (fb_cpu w))) \<inter> ar_area A c = {} \<and>
      (\<forall>d \<in> dom (fb_others w) - {c}. foot A c (ram (fb_cpu w)) \<inter> foot A d (ram (fb_cpu w)) = {})"
    if "fb_others w c = Some t" for c t
    using assms[unfolded fiber_inv_def, THEN conjunct2, THEN conjunct2, rule_format, OF that] by blast
  show "fb_current w \<notin> dom (fb_others w)" "ar_area A (fb_current w) \<inter> foreign A w = {}"
    using assms[unfolded fiber_inv_def] by (blast, blast)
  show "thread_of A st c (ram (fb_cpu w)) = t" if "fb_others w c = Some t" using at[OF that] by simp
  show "slots (ar_saved_sp A c (ram (fb_cpu w))) \<inter> ar_area A c = {}" if c: "c \<in> dom (fb_others w)"
  proof -
    from c obtain t where "fb_others w c = Some t" by auto
    then show ?thesis using at by simp
  qed
  show "foot A c (ram (fb_cpu w)) \<inter> foot A d (ram (fb_cpu w)) = {}"
    if c: "c \<in> dom (fb_others w)" and d: "d \<in> dom (fb_others w)" "c \<noteq> d"
  proof -
    from c obtain t where "fb_others w c = Some t" by auto
    moreover have "d \<in> dom (fb_others w) - {c}" using d by simp
    ultimately show ?thesis using at by blast
  qed
qed

lemma fiber_invI:
  assumes "fb_current w \<notin> dom (fb_others w)" "ar_area A (fb_current w) \<inter> foreign A w = {}"
    and "\<And>c t. fb_others w c = Some t \<Longrightarrow> thread_of A st c (ram (fb_cpu w)) = t \<and>
      slots (ar_saved_sp A c (ram (fb_cpu w))) \<inter> ar_area A c = {}"
    and "\<And>c d. c \<in> dom (fb_others w) \<Longrightarrow> d \<in> dom (fb_others w) \<Longrightarrow> c \<noteq> d \<Longrightarrow>
      foot A c (ram (fb_cpu w)) \<inter> foot A d (ram (fb_cpu w)) = {}"
  shows "fiber_inv A st w"
  unfolding fiber_inv_def
proof (intro conjI allI impI ballI)
  fix c t d assume "fb_others w c = Some t" "d \<in> dom (fb_others w) - {c}"
  then show "foot A c (ram (fb_cpu w)) \<inter> foot A d (ram (fb_cpu w)) = {}" by (intro assms(4)) auto
qed (use assms(1-3) in blast)+

lemma foreignI: "c \<in> dom (fb_others w) \<Longrightarrow> x \<in> foot A c (ram (fb_cpu w)) \<Longrightarrow> x \<in> foreign A w"
  by (auto simp: foreign_def)

context fiber_arch
begin

lemma thread_cong:
  assumes "\<forall>x \<in> foot A c m. m1 x = m x"
  shows "thread_of A st c m1 = thread_of A st c m" "foot A c m1 = foot A c m" "ar_saved_sp A c m1 = ar_saved_sp A c m"
proof -
  have "\<forall>x \<in> ar_area A c. m1 x = m x" using assms by (simp add: foot_def)
  note same = saved_cong[OF this]
  then show "ar_saved_sp A c m1 = ar_saved_sp A c m" "foot A c m1 = foot A c m" by (simp_all add: foot_def)
  let ?sp = "ar_saved_sp A c m"
  have "m1 (?sp - 8) = m (?sp - 8)" "m1 (?sp - 16) = m (?sp - 16)" "m1 (?sp - 24) = m (?sp - 24)"
    using assms by (simp_all add: foot_def slots_def)
  then show "thread_of A st c m1 = thread_of A st c m" using same by (simp add: thread_of_def Let_def)
qed

text \<open>Memory that agrees on what the others own keeps their part of the invariant.\<close>

lemma others_keep:
  assumes inv: "fiber_inv A st w" and D: "D \<subseteq> dom (fb_others w)" and same: "\<forall>c \<in> D. \<forall>x \<in> foot A c (ram (fb_cpu w)). m1 x = ram (fb_cpu w) x"
  shows "c \<in> D \<Longrightarrow> foot A c m1 = foot A c (ram (fb_cpu w))"
    and "c \<in> D \<Longrightarrow> fb_others w c = Some t \<Longrightarrow> thread_of A st c m1 = t"
    and "c \<in> D \<Longrightarrow> slots (ar_saved_sp A c m1) \<inter> ar_area A c = {}"
    and "c \<in> D \<Longrightarrow> d \<in> D \<Longrightarrow> c \<noteq> d \<Longrightarrow> foot A c m1 \<inter> foot A d m1 = {}"
proof -
  have cong: "thread_of A st c m1 = thread_of A st c (ram (fb_cpu w))" "foot A c m1 = foot A c (ram (fb_cpu w))"
    "ar_saved_sp A c m1 = ar_saved_sp A c (ram (fb_cpu w))" if "c \<in> D" for c
    using thread_cong[of c "ram (fb_cpu w)" m1] same that by blast+
  show "foot A c m1 = foot A c (ram (fb_cpu w))" if "c \<in> D" using that by (rule cong)
  show "thread_of A st c m1 = t" if "c \<in> D" "fb_others w c = Some t" using cong(1)[OF that(1)] fiber_invD(3)[OF inv that(2)] by simp
  show "slots (ar_saved_sp A c m1) \<inter> ar_area A c = {}" if "c \<in> D" using cong(3)[OF that] fiber_invD(4)[OF inv subsetD[OF D that]] by simp
  show "foot A c m1 \<inter> foot A d m1 = {}" if "c \<in> D" "d \<in> D" "c \<noteq> d"
    unfolding cong(2)[OF that(1)] cong(2)[OF that(2)] using fiber_invD(5)[OF inv _ _ that(3)] that(1,2) D by blast
qed


lemma run_step:
  assumes inv: "fiber_inv A st w" and ok: "fiber_ok A st (Run s) w"
  shows "fiber_inv A st (fiber_do A st (Run s) w)"
proof -
  have same: "\<forall>c \<in> dom (fb_others w). \<forall>x \<in> foot A c (ram (fb_cpu w)). ram s x = ram (fb_cpu w) x"
    using ok by (auto simp: foreign_def)
  note keep = others_keep[OF inv subset_refl same]
  have "foreign A (fiber_do A st (Run s) w) = foreign A w" using keep(1) by (auto simp: foreign_def)
  then show ?thesis using fiber_invD(1,2)[OF inv] keep(2-4)
    by (intro fiber_invI) (simp_all add: domI)
qed

text \<open>A state whose others are kept ones and one more.\<close>

lemma one_more:
  assumes inv: "fiber_inv A st w" and D: "D \<subseteq> dom (fb_others w)"
    and same: "\<forall>d \<in> D. \<forall>x \<in> foot A d (ram (fb_cpu w)). ram (fb_cpu w1) x = ram (fb_cpu w) x"
    and c: "c \<notin> D" "thread_of A st c (ram (fb_cpu w1)) = t" "slots (ar_saved_sp A c (ram (fb_cpu w1))) \<inter> ar_area A c = {}"
    and apart: "\<forall>d \<in> D. foot A c (ram (fb_cpu w1)) \<inter> foot A d (ram (fb_cpu w)) = {}"
    and cur: "fb_current w1 \<notin> insert c D" "ar_area A (fb_current w1) \<inter> foot A c (ram (fb_cpu w1)) = {}"
      "\<forall>d \<in> D. ar_area A (fb_current w1) \<inter> foot A d (ram (fb_cpu w)) = {}"
    and others: "fb_others w1 = (fb_others w |` D)(c \<mapsto> t)"
  shows "fiber_inv A st w1"
proof (rule fiber_invI)
  note keep = others_keep[OF inv D same]
  have dom: "dom (fb_others w1) = insert c D" using others D by (auto simp: restrict_map_def)
  then show "fb_current w1 \<notin> dom (fb_others w1)" using cur(1) by simp
  show "ar_area A (fb_current w1) \<inter> foreign A w1 = {}"
    unfolding foreign_def dom using cur(2,3) keep(1) by (auto simp: disjoint_iff)
  show "thread_of A st d (ram (fb_cpu w1)) = u \<and> slots (ar_saved_sp A d (ram (fb_cpu w1))) \<inter> ar_area A d = {}"
    if "fb_others w1 d = Some u" for d u
  proof (cases "d = c")
    case True
    then show ?thesis using that c others by simp
  next
    case False
    then have "d \<in> D" "fb_others w d = Some u" using that others by (auto simp: restrict_map_def split: if_splits)
    then show ?thesis using keep(2,3) by simp
  qed
  show "foot A a (ram (fb_cpu w1)) \<inter> foot A b (ram (fb_cpu w1)) = {}"
    if ab: "a \<in> dom (fb_others w1)" "b \<in> dom (fb_others w1)" "a \<noteq> b" for a b
  proof -
    have ac: "foot A c (ram (fb_cpu w1)) \<inter> foot A d (ram (fb_cpu w1)) = {}" if "d \<in> D" for d
      using apart that keep(1)[OF that] by simp
    consider "a = c" "b \<in> D" | "b = c" "a \<in> D" | "a \<in> D" "b \<in> D" using ab unfolding dom by blast
    then show ?thesis
    proof cases
      case 2
      then show ?thesis using ac[of a] by (simp add: Int_commute)
    qed (use ac[of b] keep(4)[of a b] ab(3) in simp_all)
  qed
qed

lemma fiber_set_start_law:
  assumes "slots (stack + len) \<inter> ar_area A c = {}"
  shows "thread_of A st c (fiber_set_start A st c stack len f a m) = Fresh f a (stack + len)"
    and "ar_saved_sp A c (fiber_set_start A st c stack len f a m) = stack + len"
    and "x \<notin> ar_area A c \<union> slots (stack + len) \<Longrightarrow> fiber_set_start A st c stack len f a m x = m x"
  using assms start_set[of c "ar_set_stack A c stack len m" st f a]
    start_frame[of x c "ar_set_stack A c stack len m" st f a] stack_frame[of x c stack len m]
  by (simp_all add: fiber_set_start_def stack_set foot_def)

lemma make_step:
  assumes inv: "fiber_inv A st w" and ok: "fiber_ok A st (MakeFiber c stack len f a) w"
  shows "fiber_inv A st (fiber_do A st (MakeFiber c stack len f a) w)" (is "fiber_inv A st ?w1")
proof -
  from ok have new: "c \<notin> dom (fb_others w)" "c \<noteq> fb_current w" and own: "slots (stack + len) \<inter> ar_area A c = {}"
    and apart: "(ar_area A c \<union> slots (stack + len)) \<inter> (foreign A w \<union> ar_area A (fb_current w)) = {}" by simp_all
  note law = fiber_set_start_law[OF own]
  have ram: "ram (fb_cpu ?w1) = fiber_set_start A st c stack len f a (ram (fb_cpu w))" by simp
  have foot: "foot A c (ram (fb_cpu ?w1)) = ar_area A c \<union> slots (stack + len)" by (simp add: foot_def law(2))
  show ?thesis
  proof (rule one_more[where D = "dom (fb_others w)" and c = c, OF inv subset_refl])
    show "\<forall>d \<in> dom (fb_others w). \<forall>x \<in> foot A d (ram (fb_cpu w)). ram (fb_cpu ?w1) x = ram (fb_cpu w) x"
      unfolding ram by (intro ballI law(3)) (use apart foreignI in blast)
    show "\<forall>d \<in> dom (fb_others w). foot A c (ram (fb_cpu ?w1)) \<inter> foot A d (ram (fb_cpu w)) = {}"
      unfolding foot using apart foreignI by blast
    show "fb_current ?w1 \<notin> insert c (dom (fb_others w))" using new fiber_invD(1)[OF inv] by simp
    show "ar_area A (fb_current ?w1) \<inter> foot A c (ram (fb_cpu ?w1)) = {}" unfolding foot using apart by auto
    show "\<forall>d \<in> dom (fb_others w). ar_area A (fb_current ?w1) \<inter> foot A d (ram (fb_cpu w)) = {}"
      using fiber_invD(2)[OF inv] foreignI by fastforce
    show "slots (ar_saved_sp A c (ram (fb_cpu ?w1))) \<inter> ar_area A c = {}" unfolding ram law(2) by (rule own)
    show "fb_others ?w1 = (fb_others w |` dom (fb_others w))(c \<mapsto> Fresh f a (stack + len))"
      by (auto simp: restrict_map_def fun_eq_iff)
  qed (use new law(1) ram in simp_all)
qed

lemma switch_apart:
  assumes inv: "fiber_inv A st w" and ok: "fiber_ok A st (SwitchFiber to ret) w"
  shows "apart A (fb_current w) to (fb_cpu w)"
proof -
  have "foot A to (ram (fb_cpu w)) \<subseteq> foreign A w" using ok by (auto simp: foreign_def)
  then show ?thesis using fiber_invD(2)[OF inv] ok scratch_below[of "fb_cpu w"] by (auto simp: apart_def)
qed

lemma switch_step:
  assumes inv: "fiber_inv A st w" and ok: "fiber_ok A st (SwitchFiber to ret) w"
  shows "fiber_inv A st (fiber_do A st (SwitchFiber to ret) w)" (is "fiber_inv A st ?w1")
proof -
  let ?c = "fb_current w" and ?s = "fb_cpu w"
  from ok have to: "to \<in> dom (fb_others w)" and ret: "ret \<noteq> start_stub st" "ret \<noteq> intercept_stub st"
    and stack: "slots (ar_sp A ?s) \<inter> (foreign A w \<union> ar_area A ?c) = {}" by auto
  note ap = switch_apart[OF inv ok]
  note saves = switch_saves[OF ap refl, of st ret]
  have ram: "fb_cpu ?w1 = ar_switch A st ret ?c to ?s" by (simp add: fiber_switch_to_def)
  have foot: "foot A ?c (ram (fb_cpu ?w1)) = ar_area A ?c \<union> slots (ar_sp A ?s)" unfolding foot_def ram using saves by simp
  have toc: "to \<noteq> ?c" using to fiber_invD(1)[OF inv] by auto
  have own: "slots (ar_sp A ?s) \<inter> ar_area A ?c = {}" using stack by auto
  show ?thesis
  proof (rule one_more[where D = "dom (fb_others w) - {to}" and c = ?c, OF inv])
    show "\<forall>d \<in> dom (fb_others w) - {to}. \<forall>x \<in> foot A d (ram ?s). ram (fb_cpu ?w1) x = ram ?s x"
    proof (intro ballI)
      fix d x assume d: "d \<in> dom (fb_others w) - {to}" and x: "x \<in> foot A d (ram ?s)"
      then have "x \<in> foreign A w" "x \<notin> foot A to (ram ?s)" using foreignI[of d w x A] fiber_invD(5)[OF inv, of d to] to by auto
      then have "x \<notin> ar_area A ?c \<union> ar_scratch A ?s \<union> foot A to (ram ?s)"
        using fiber_invD(2)[OF inv] stack scratch_below[of ?s] by auto
      then show "ram (fb_cpu ?w1) x = ram ?s x" unfolding ram by (rule switch_frame[OF ap])
    qed
    show "thread_of A st ?c (ram (fb_cpu ?w1)) = Paused ret (ar_sp A ?s) (ar_kept A ?s)"
      unfolding ram thread_of_def using saves ret by (simp add: Let_def)
    show "slots (ar_saved_sp A ?c (ram (fb_cpu ?w1))) \<inter> ar_area A ?c = {}" unfolding ram using saves own by simp
    show "\<forall>d \<in> dom (fb_others w) - {to}. foot A ?c (ram (fb_cpu ?w1)) \<inter> foot A d (ram ?s) = {}"
      unfolding foot using fiber_invD(2)[OF inv] stack foreignI by fastforce
    show "fb_current ?w1 \<notin> insert ?c (dom (fb_others w) - {to})" using toc by simp
    show "ar_area A (fb_current ?w1) \<inter> foot A ?c (ram (fb_cpu ?w1)) = {}"
    proof -
      have "ar_area A to \<subseteq> foreign A w" using to by (auto simp: foreign_def foot_def)
      then show ?thesis unfolding foot using fiber_invD(2)[OF inv] stack by auto
    qed
    show "\<forall>d \<in> dom (fb_others w) - {to}. ar_area A (fb_current ?w1) \<inter> foot A d (ram ?s) = {}"
    proof
      fix d assume d: "d \<in> dom (fb_others w) - {to}"
      then have "foot A to (ram ?s) \<inter> foot A d (ram ?s) = {}" using fiber_invD(5)[OF inv to, of d] by auto
      moreover have "ar_area A to \<subseteq> foot A to (ram ?s)" by (simp add: foot_def)
      ultimately show "ar_area A (fb_current ?w1) \<inter> foot A d (ram ?s) = {}" by auto
    qed
    show "fb_others ?w1 = (fb_others w |` (dom (fb_others w) - {to}))(?c \<mapsto> Paused ret (ar_sp A ?s) (ar_kept A ?s))"
      using toc by (auto simp: restrict_map_def fun_eq_iff)
  qed (use fiber_invD(1)[OF inv] in auto)
qed

text \<open>An exit tells the other fiber what to run first, then switches.\<close>

lemma exit_facts:
  assumes inv: "fiber_inv A st w" and st: "stubs_ok st" and ok: "fiber_ok A st (ExitFiber to ret copy cb s) w"
  defines "e \<equiv> fiber_exit A st copy to cb ret (fb_cpu w)"
  obtains p sp kept where "fb_others w to = Some (Paused p sp kept)" "entered A (Leaving cb copy p sp kept) e"
    "entered A (Paused p sp kept) s" "\<forall>d \<in> dom (fb_others w) - {to}. \<forall>x \<in> foot A d (ram (fb_cpu w)). ram e x = ram (fb_cpu w) x"
proof -
  let ?s = "fb_cpu w"
  from ok obtain p sp kept where to: "fb_others w to = Some (Paused p sp kept)"
    and stack: "slots (ar_sp A ?s) \<inter> (foreign A w \<union> ar_area A copy) = {}" and copy: "ar_area A copy \<inter> foreign A w = {}"
    and ret: "returned A e s" unfolding e_def by auto
  have paused: "ar_program_counter A to (ram ?s) = p" "ar_saved_sp A to (ram ?s) = sp" "ar_saved A to (ram ?s) = kept"
    using fiber_invD(3)[OF inv to] by (auto simp: thread_of_def Let_def split: if_splits)
  have own: "slots (ar_saved_sp A to (ram ?s)) \<inter> ar_area A to = {}" using fiber_invD(4)[OF inv] to by auto
  define m where "m = ar_set_intercept A st to cb copy p (ram ?s)"
  have e: "e = ar_switch A st ret copy to (?s\<lparr>ram := m\<rparr>)" unfolding e_def fiber_exit_def m_def paused(1) Let_def ..
  have m: "thread_of A st to m = Leaving cb copy p sp kept" "ar_saved_sp A to m = sp"
    using intercept_set[OF st own, of cb copy p] unfolding m_def paused by auto
  have foot: "foot A to m = foot A to (ram ?s)" by (simp add: foot_def m(2) paused(2))
  have mine: "foot A to (ram ?s) \<subseteq> foreign A w" using to by (auto simp: foreign_def)
  have scratch: "ar_scratch A (?s\<lparr>ram := m\<rparr>) \<subseteq> slots (ar_sp A ?s)" using scratch_below[of "?s\<lparr>ram := m\<rparr>"] sp_regs[of m ?s] by simp
  have ap: "apart A copy to (?s\<lparr>ram := m\<rparr>)" unfolding apart_def using copy mine scratch stack foot by auto
  have entered: "entered A (Leaving cb copy p sp kept) e" using switch_enters[OF ap, of st ret] m(1) unfolding e by simp
  moreover have "entered A (Paused p sp kept) s" using entered ret entry_inj[of "ar_sp A s" sp] by (simp add: returned_def)
  moreover have "\<forall>d \<in> dom (fb_others w) - {to}. \<forall>x \<in> foot A d (ram ?s). ram e x = ram ?s x"
  proof (intro ballI)
    fix d x assume d: "d \<in> dom (fb_others w) - {to}" and x: "x \<in> foot A d (ram ?s)"
    then have for_x: "x \<in> foreign A w" "x \<notin> foot A to (ram ?s)" using foreignI[of d w x A] fiber_invD(5)[OF inv, of d to] to by auto
    then have "x \<notin> ar_area A copy \<union> ar_scratch A (?s\<lparr>ram := m\<rparr>) \<union> foot A to (ram (?s\<lparr>ram := m\<rparr>))"
      using copy stack scratch foot by auto
    then have "ram e x = m x" unfolding e using switch_frame[OF ap, of x st ret] by simp
    also have "\<dots> = ram ?s x" unfolding m_def by (rule intercept_frame) (rule for_x)
    finally show "ram e x = ram ?s x" .
  qed
  ultimately show ?thesis using to that by blast
qed

lemma exit_step:
  assumes inv: "fiber_inv A st w" and st: "stubs_ok st" and ok: "fiber_ok A st (ExitFiber to ret copy cb s) w"
  shows "fiber_inv A st (fiber_do A st (ExitFiber to ret copy cb s) w)" (is "fiber_inv A st ?w1")
proof (rule fiber_invI)
  let ?D = "dom (fb_others w) - {to}"
  let ?e = "fiber_exit A st copy to cb ret (fb_cpu w)"
  obtain p sp kept where to: "fb_others w to = Some (Paused p sp kept)"
    and e: "\<forall>d \<in> ?D. \<forall>x \<in> foot A d (ram (fb_cpu w)). ram ?e x = ram (fb_cpu w) x" by (rule exit_facts[OF inv st ok])
  have same: "\<forall>d \<in> ?D. \<forall>x \<in> foot A d (ram (fb_cpu w)). ram s x = ram (fb_cpu w) x" using ok e by simp
  note keep = others_keep[OF inv Diff_subset same]
  have dom: "dom (fb_others ?w1) = ?D" by auto
  then show "fb_current ?w1 \<notin> dom (fb_others ?w1)" by simp
  show "ar_area A (fb_current ?w1) \<inter> foreign A ?w1 = {}"
  proof -
    have "foot A to (ram (fb_cpu w)) \<inter> foot A d (ram s) = {}" if "d \<in> ?D" for d
      using keep(1)[OF that] fiber_invD(5)[OF inv, of to d] that to by auto
    moreover have "ar_area A to \<subseteq> foot A to (ram (fb_cpu w))" by (simp add: foot_def)
    ultimately show ?thesis unfolding foreign_def dom by fastforce
  qed
  show "thread_of A st d (ram (fb_cpu ?w1)) = u \<and> slots (ar_saved_sp A d (ram (fb_cpu ?w1))) \<inter> ar_area A d = {}"
    if "fb_others ?w1 d = Some u" for d u
  proof -
    have "d \<in> ?D" "fb_others w d = Some u" using that by (auto split: if_splits)
    then show ?thesis using keep(2,3) by simp
  qed
  show "foot A a (ram (fb_cpu ?w1)) \<inter> foot A b (ram (fb_cpu ?w1)) = {}"
    if "a \<in> dom (fb_others ?w1)" "b \<in> dom (fb_others ?w1)" "a \<noteq> b" for a b
    using keep(4)[of a b] that unfolding dom by simp
qed

lemma fiber_reach_inv:
  assumes "fiber_reach A st w" "stubs_ok st"
  shows "fiber_inv A st w"
  using assms(1)
proof induction
  case (fiber_start w)
  then show ?case by (intro fiber_invI) (simp_all add: foreign_def)
next
  case (fiber_step w op)
  then show ?case using run_step make_step switch_step exit_step[OF _ assms(2)] by (cases op) blast+
qed

text \<open>Switching to a fiber enters its thread; an exit runs the callback, and what the callback returns to is the thread.\<close>

lemma continues:
  assumes "fiber_reach A st w" "stubs_ok st"
  shows "fiber_ok A st (SwitchFiber to ret) w \<Longrightarrow>
      \<exists>t. fb_others w to = Some t \<and> entered A t (fb_cpu (fiber_do A st (SwitchFiber to ret) w))"
    and "fiber_ok A st (ExitFiber to ret copy cb s) w \<Longrightarrow>
      \<exists>p sp kept. fb_others w to = Some (Paused p sp kept) \<and>
        entered A (Leaving cb copy p sp kept) (fiber_exit A st copy to cb ret (fb_cpu w)) \<and> entered A (Paused p sp kept) s"
proof -
  note inv = fiber_reach_inv[OF assms]
  show "\<exists>t. fb_others w to = Some t \<and> entered A t (fb_cpu (fiber_do A st (SwitchFiber to ret) w))"
    if ok: "fiber_ok A st (SwitchFiber to ret) w"
  proof -
    from ok obtain t where t: "fb_others w to = Some t" by auto
    then show ?thesis using switch_enters[OF switch_apart[OF inv ok], of st ret] fiber_invD(3)[OF inv t]
      by (intro exI[of _ t]) (simp add: fiber_switch_to_def)
  qed
  show "\<exists>p sp kept. fb_others w to = Some (Paused p sp kept) \<and>
      entered A (Leaving cb copy p sp kept) (fiber_exit A st copy to cb ret (fb_cpu w)) \<and> entered A (Paused p sp kept) s"
    if ok: "fiber_ok A st (ExitFiber to ret copy cb s) w"
    by (rule exit_facts[OF inv assms(2) ok]) blast
qed

end

section \<open>Stacks\<close>

text \<open>
  The resource limits of the process: the call fills in the current and the maximum value. \<open>get_limit\<close> is of \<open>src/src/os/resource.rs\<close>.
\<close>

type_synonym 'k limit_call = "'k \<Rightarrow> u32 \<Rightarrow> u64 \<times> u64 \<Rightarrow> (os_error, unit) outcome \<times> (u64 \<times> u64) \<times> 'k"

definition get_rlimit :: "'k limit_call \<Rightarrow> u32 \<Rightarrow> 'k \<Rightarrow> (os_error, u64 \<times> u64) outcome \<times> 'k" where
  "get_rlimit getrlimit resource k =
     (let (r, limit, k1) = getrlimit k resource (0, 0) in (map_outcome_ok (\<lambda>_. limit) r, k1))"

definition get_limit :: "'k limit_call \<Rightarrow> u32 \<Rightarrow> 'k \<Rightarrow> (os_error, u64) outcome \<times> 'k" where
  "get_limit getrlimit resource k =
     (let (r, k1) = get_rlimit getrlimit resource k in (map_outcome_ok fst r, k1))"

text \<open>A fiber without a stack of its own, and one with: the assertion and each \<open>expect\<close> is a panic, which unmaps what was mapped.\<close>

definition fiber_main :: mapping where
  "fiber_main = map_new"

definition fiber_map_stack :: "'k sys \<Rightarrow> usize \<Rightarrow> usize \<Rightarrow> 'k \<Rightarrow> (os_error, mapping) outcome \<times> 'k" where
  "fiber_map_stack sys stack_size page_size k =
     (case builder_map sys (builder_flag (builder_protect (builder_new 2 stack_size) (1 OR 2)) (push_bit 5 1 OR push_bit 17 1)) k of
        (Ok stack, k1) \<Rightarrow>
          (case map_protect sys \<lparr>map_addr = map_addr stack, map_length = page_size\<rparr> 0 k1 of
             (Ok _, k2) \<Rightarrow> (Ok stack, k2)
           | (_, k2) \<Rightarrow> (Panic, snd (map_drop sys stack k2)))
      | (_, k1) \<Rightarrow> (Panic, k1))"

definition fiber_new :: "'k sys \<Rightarrow> 'k limit_call \<Rightarrow> (int \<Rightarrow> 64 word \<times> int) \<Rightarrow> 'k \<Rightarrow> (os_error, mapping) outcome \<times> 'k" where
  "fiber_new sys getrlimit sysconf k =
     (case (get_limit getrlimit 3 k, get_system_configuration sysconf) of
        ((Ok stack_size, k1), Ok page) \<Rightarrow>
          let page_size = (case page of None \<Rightarrow> 0 | Some p \<Rightarrow> p)
          in if 0 < page_size \<and> 0 < stack_size \<and> page_size < stack_size then fiber_map_stack sys stack_size page_size k1
             else (Panic, k1)
      | ((_, k1), _) \<Rightarrow> (Panic, k1))"

definition clear_stack :: "'k sys \<Rightarrow> mapping \<Rightarrow> 'k \<Rightarrow> 'k" where
  "clear_stack sys stack k = snd (map_advise sys stack 8 k)"

text \<open>The callbacks of an exit: drop the fiber, or give it to the pool, which keeps it or drops it. \<open>None\<close> is the pool's abort.\<close>

definition exit_fiber_callback :: "'k sys \<Rightarrow> mapping \<Rightarrow> 'k \<Rightarrow> (os_error, unit) outcome \<times> 'k" where
  "exit_fiber_callback sys stack k = map_drop sys stack k"

definition exit_fiber_to_pool :: "'k sys \<Rightarrow> bool \<Rightarrow> nat \<Rightarrow> mapping \<Rightarrow> fiber_pool \<Rightarrow> 'k \<Rightarrow> (fiber_pool \<times> 'k) option" where
  "exit_fiber_to_pool sys room f stack p k =
     (let k1 = clear_stack sys stack k
      in case exit_fiber room f p of
           None \<Rightarrow> None
         | Some p1 \<Rightarrow> Some (p1, if length (fp_pool p) < length (fp_pool p1) then k1 else snd (map_drop sys stack k1)))"

section \<open>Properties\<close>

text \<open>C17: On x86-64, whatever fibers do to the registers and to memory that is not another fiber's context or the free stack
  below a paused one: a switch to a fiber continues at the instruction after the switch it left by, with its stack pointer and the
  registers a callee keeps as they were, or enters the start function of a new fiber with its argument on its own stack; an exit to a paused
  fiber runs the callback with the exiting fiber's moved context as argument, above the paused fiber's stack, and what the
  callback returns to is the paused fiber as it was left.\<close>

theorem fibers_continue_where_they_left:
  assumes "fiber_reach x64_arch st w" "stubs_ok st"
  shows "(fiber_ok x64_arch st (SwitchFiber to ret) w \<longrightarrow>
      (\<exists>t. fb_others w to = Some t \<and> entered x64_arch t (fb_cpu (fiber_do x64_arch st (SwitchFiber to ret) w)))) \<and>
    (fiber_ok x64_arch st (ExitFiber to ret copy callback s) w \<longrightarrow>
      (\<exists>p sp kept. fb_others w to = Some (Paused p sp kept) \<and>
        entered x64_arch (Leaving callback copy p sp kept) (fiber_exit x64_arch st copy to callback ret (fb_cpu w)) \<and>
        entered x64_arch (Paused p sp kept) s))"
  using x64.continues[OF assms] by blast

text \<open>The same for ARM64.\<close>

theorem arm64_fibers_continue_where_they_left:
  assumes "fiber_reach arm64_arch st w" "stubs_ok st"
  shows "(fiber_ok arm64_arch st (SwitchFiber to ret) w \<longrightarrow>
      (\<exists>t. fb_others w to = Some t \<and> entered arm64_arch t (fb_cpu (fiber_do arm64_arch st (SwitchFiber to ret) w)))) \<and>
    (fiber_ok arm64_arch st (ExitFiber to ret copy callback s) w \<longrightarrow>
      (\<exists>p sp kept. fb_others w to = Some (Paused p sp kept) \<and>
        entered arm64_arch (Leaving callback copy p sp kept) (fiber_exit arm64_arch st copy to callback ret (fb_cpu w)) \<and>
        entered arm64_arch (Paused p sp kept) s))"
  using arm64.continues[OF assms] by blast

text \<open>A step of the run that shows it: a fiber is made, entered, and exits back.\<close>

definition wst :: stubs where
  "wst = \<lparr>start_stub = 0x500, intercept_stub = 0x600\<rparr>"

definition w0 :: "x64_reg fibers" where
  "w0 = \<lparr>fb_cpu = \<lparr>regs = (\<lambda>_. 7)(RSP := 0x70000), pc = 0, ram = (\<lambda>_. 0)\<rparr>, fb_current = 0x1000, fb_others = Map.empty\<rparr>"

definition w1 :: "x64_reg fibers" where
  "w1 = fiber_do x64_arch wst (MakeFiber 0x2000 0x10000 0x1000 0x700 42) w0"

definition w2 :: "x64_reg fibers" where
  "w2 = fiber_do x64_arch wst (SwitchFiber 0x2000 0x400) w1"

lemma w1_ok: "fiber_ok x64_arch wst (MakeFiber 0x2000 0x10000 0x1000 0x700 42) w0"
  by (simp add: w0_def foreign_def x64_simps slots_def)

lemma w1_simps:
  "fb_others w1 = [0x2000 \<mapsto> Fresh 0x700 42 0x11000]" "fb_current w1 = 0x1000" "regs (fb_cpu w1) = (\<lambda>_. 7)(RSP := 0x70000)"
  "ram (fb_cpu w1) = (\<lambda>_. 0)(0x2028 := 0x11000, 0x10FF0 := 0x700, 0x10FF8 := 42, 0x2020 := 0x500)"
  by (simp_all add: w1_def w0_def fiber_set_start_def x64_set_simps wst_def)

lemma w2_ok: "fiber_ok x64_arch wst (SwitchFiber 0x2000 0x400) w1"
  by (simp add: w1_simps foreign_def foot_def x64_simps slots_def wst_def)

lemma w2_simps:
  "fb_others w2 = [0x1000 \<mapsto> Paused 0x400 0x70000 [7, 7, 7, 7, 7, 7]]" "fb_current w2 = 0x2000"
  "regs (fb_cpu w2) RSP = 0x10FF8" "ram (fb_cpu w2) 0x1028 = 0x70000"
  by (simp_all add: w2_def w1_simps fiber_switch_to_def x64_arch_def x64_switch_def x64_call_switch_def x64_land_def x64_code x64_reg_simps
      wst_def)

definition w3_cpu :: "x64_reg cpu" where
  "w3_cpu =
     (let e = fiber_exit x64_arch wst 0x10800 0x1000 0x900 0x800 (fb_cpu w2)
      in e\<lparr>pc := ar_return x64_arch e, regs := (regs e)(RSP := regs e RSP + 8)\<rparr>)"

lemma w3_ok: "fiber_ok x64_arch wst (ExitFiber 0x1000 0x800 0x10800 0x900 w3_cpu) w2"
  by (simp add: w2_simps foreign_def foot_def x64_simps slots_def returned_def w3_cpu_def Let_def)

lemma w2_reach: "fiber_reach x64_arch wst w2"
  unfolding w2_def w1_def by (intro fiber_step fiber_start w1_ok w2_ok[unfolded w1_def]) (simp add: w0_def)

theorem fibers_continue_where_they_left_witness:
  "fb_others w1 0x2000 = Some (Fresh 0x700 42 0x11000) \<and> pc (fb_cpu w2) = 0x700 \<and> regs (fb_cpu w2) RDI = 42 \<and>
   pc w3_cpu = 0x400 \<and> regs w3_cpu RSP = 0x70000 \<and> regs w3_cpu R12 = 7"
proof -
  have st: "stubs_ok wst" by (simp add: stubs_ok_def wst_def)
  have r1: "fiber_reach x64_arch wst w1" unfolding w1_def by (intro fiber_step fiber_start w1_ok) (simp add: w0_def)
  show ?thesis
    using fibers_continue_where_they_left[OF r1 st, THEN conjunct1, rule_format, OF w2_ok, folded w2_def]
      fibers_continue_where_they_left[OF w2_reach st, THEN conjunct2, rule_format, OF w3_ok]
    by (simp add: w1_simps w2_simps x64_simps)
qed

lemma map_stack_regions:
  assumes kernel: "memory_kernel sys regions"
  shows "case fiber_map_stack sys n p k of
     (Ok stack, k1) \<Rightarrow> map_addr stack \<noteq> 0 \<and> map_length stack = n \<and> (map_addr stack, n) \<notin> regions k \<and>
       regions k1 = insert (map_addr stack, n) (regions k)
   | (_, k1) \<Rightarrow> regions k1 = regions k"
proof -
  let ?b = "builder_flag (builder_protect (builder_new 2 n) (1 OR 2)) (push_bit 5 1 OR push_bit 17 1)"
  have len: "mb_len ?b = n" by (simp add: builder_flag_def builder_protect_def builder_new_def)
  obtain r k1 where made: "builder_map sys ?b k = (r, k1)" by (rule prod.exhaust)
  note regions = builder_map_regions[OF kernel, of ?b k, unfolded made len]
  show ?thesis
  proof (cases r)
    case (Ok m)
    let ?guard = "\<lparr>map_addr = map_addr m, map_length = p\<rparr>"
    obtain r2 k2 where guard: "map_protect sys ?guard 0 k1 = (r2, k2)" by (rule prod.exhaust)
    have same: "regions k2 = regions k1" using use_keeps_regions[OF kernel, of ?guard "UseProtect 0" k1] guard by simp
    have m: "map_addr m \<noteq> 0" "map_length m = n" "(map_addr m, n) \<notin> regions k" "regions k1 = insert (map_addr m, n) (regions k)"
      using regions Ok by simp_all
    have drop: "regions (snd (map_drop sys m k2)) = regions k"
      using drop_unmaps[OF kernel _ m(1), of k2] m(2-4) same by auto
    have "fiber_map_stack sys n p k =
        (case r2 of Ok _ \<Rightarrow> (Ok m, k2) | _ \<Rightarrow> (Panic, snd (map_drop sys m k2)))"
      unfolding fiber_map_stack_def made Ok using guard by (simp split: outcome.split)
    then show ?thesis using m same drop by (simp split: outcome.split)
  qed (use regions made in \<open>simp_all only: fiber_map_stack_def outcome.case prod.case\<close>)
qed

text \<open>A fiber's stack is a new region of the size of the limit; dropping the fiber gives the region back; when making it panics no
  region is left.\<close>

theorem fiber_stack_is_given_back:
  assumes kernel: "memory_kernel sys regions"
    and lim: "getrlimit k 3 (0, 0) = (Ok (), (n, maximum), k)"
  shows "case fiber_new sys getrlimit sysconf k of
     (Ok stack, k1) \<Rightarrow> map_length stack = n \<and> regions k1 = insert (map_addr stack, n) (regions k) \<and>
       (\<exists>k2. exit_fiber_callback sys stack (clear_stack sys stack k1) = (Ok (), k2) \<and> regions k2 = regions k)
   | (_, k1) \<Rightarrow> regions k1 = regions k"
proof -
  have size: "get_limit getrlimit 3 k = (Ok n, k)" by (simp add: get_limit_def get_rlimit_def lim)
  have stack: "case fiber_map_stack sys n p k of
     (Ok stack, k1) \<Rightarrow> map_length stack = n \<and> regions k1 = insert (map_addr stack, n) (regions k) \<and>
       (\<exists>k2. exit_fiber_callback sys stack (clear_stack sys stack k1) = (Ok (), k2) \<and> regions k2 = regions k)
   | (_, k1) \<Rightarrow> regions k1 = regions k" for p :: usize
  proof (cases "fiber_map_stack sys n p k")
    case (Pair r k1)
    show ?thesis
    proof (cases r)
      case (Ok m)
      have m: "map_addr m \<noteq> 0" "map_length m = n" "(map_addr m, n) \<notin> regions k" "regions k1 = insert (map_addr m, n) (regions k)"
        using map_stack_regions[OF kernel, of n k p] Pair Ok by simp_all
      have "regions (clear_stack sys m k1) = regions k1"
        using use_keeps_regions[OF kernel, of m "UseAdvise 8" k1] by (simp add: clear_stack_def)
      then obtain k2 where "map_drop sys m (clear_stack sys m k1) = (Ok (), k2)" "regions k2 = regions k"
        using drop_unmaps[OF kernel _ m(1), of "clear_stack sys m k1"] m by auto
      then show ?thesis using Pair Ok m by (simp add: exit_fiber_callback_def)
    qed (use map_stack_regions[OF kernel, of n k p] Pair in simp_all)
  qed
  show ?thesis
    by (cases "get_system_configuration sysconf") (use stack in \<open>simp_all add: fiber_new_def size Let_def\<close>)
qed

text \<open>Without a limit on the stack the mapping cannot be made, and making a fiber panics.\<close>

theorem unlimited_stack_panics:
  assumes "getrlimit k 3 (0, 0) = (Ok (), (- 1, - 1), k)"
    and too_long: "\<And>k rest. \<exists>k1. sys k (syscall_number ''Mmap'') (0 # - 1 # rest) = (- 12, k1)"
  shows "fst (fiber_new sys getrlimit sysconf k) = Panic"
proof -
  have size: "get_limit getrlimit 3 k = (Ok (- 1), k)" by (simp add: get_limit_def get_rlimit_def assms(1))
  let ?b = "builder_flag (builder_protect (builder_new 2 (- 1)) (1 OR 2)) (push_bit 5 1 OR push_bit 17 1)"
  have b: "mb_addr ?b = 0" "mb_len ?b = - 1" by (simp_all add: builder_flag_def builder_protect_def builder_new_def)
  obtain k1 where call: "sys k (syscall_number ''Mmap'') (0 # - 1 # [param_u32 (mb_prot ?b), param_u32 (mmap_flags_raw (mb_flags ?b)),
      param_i32 (optional_fd (mb_fd ?b)), mb_off ?b]) = (- 12, k1)" using too_long by blast
  have "\<exists>e k1. builder_map sys ?b k = (Err e, k1)"
    unfolding builder_map_def os_mmap_def b call by (simp add: result_from_ptr_def and_then_def)
  then have "fst (fiber_map_stack sys (- 1) p k) = Panic" for p :: usize by (auto simp: fiber_map_stack_def)
  then show ?thesis by (simp add: fiber_new_def size Let_def split: outcome.split)
qed

end
