(* ===== verification/Io_Uring.thy ===== *)
theory Io_Uring
  imports Os_Data
begin

text \<open>
  Detection of what the kernel's \<open>io_uring\<close> supports: \<open>src/src/os/io_uring.rs\<close>. The constructors carry
  the name of their enum as a prefix; the position in the list of an enum is its discriminant, and for flag
  enums the number of its bit. The kernel is two parameters: \<open>setup\<close>, from the flags of the parameters to
  an error or the features it writes back, and \<open>probe\<close>, the result of registering a probe: an error, or the
  last opcode and the flag word of each operation.
\<close>

section \<open>Enumerations\<close>

datatype setup_flag =
     SetupIoPoll | SetupSubmissionQueuePolling | SetupSubmissionQueueAffinity |
     SetupCompletionRingSize | SetupClamp | SetupAttachWq | SetupRingDisabled | SetupSubmitAll |
     SetupCoopTaskrun | SetupTaskrunFlag | SetupSubmissionEntryWide | SetupCompletionEntryWide |
     SetupSingleIssuer | SetupDeferTaskrun | SetupNoMmap | SetupRegisteredFdOnly |
     SetupNoSubmissionArray

definition setup_flag_list :: "setup_flag list" where
  "setup_flag_list = [
     SetupIoPoll, SetupSubmissionQueuePolling, SetupSubmissionQueueAffinity,
     SetupCompletionRingSize, SetupClamp, SetupAttachWq, SetupRingDisabled, SetupSubmitAll,
     SetupCoopTaskrun, SetupTaskrunFlag, SetupSubmissionEntryWide, SetupCompletionEntryWide,
     SetupSingleIssuer, SetupDeferTaskrun, SetupNoMmap, SetupRegisteredFdOnly,
     SetupNoSubmissionArray]"

datatype feature =
     FeatureSingleMmap | FeatureNoDrop | FeatureSubmitStable | FeatureRwCurPos |
     FeatureCurPersonality | FeatureFastPoll | FeaturePoll32Bits | FeatureSqPollNonFixed |
     FeatureExtArg | FeatureNativeWorkers | FeatureRsrcTags | FeatureCqeSkip |
     FeatureLinkedFile | FeatureRegRegRing

definition feature_list :: "feature list" where
  "feature_list = [
     FeatureSingleMmap, FeatureNoDrop, FeatureSubmitStable, FeatureRwCurPos,
     FeatureCurPersonality, FeatureFastPoll, FeaturePoll32Bits, FeatureSqPollNonFixed,
     FeatureExtArg, FeatureNativeWorkers, FeatureRsrcTags, FeatureCqeSkip, FeatureLinkedFile,
     FeatureRegRegRing]"

datatype opcode =
     OpNoOp | OpReadVector | OpWriteVector | OpFileSync | OpReadFixed | OpWriteFixed |
     OpPollAdd | OpPollRemove | OpSyncFileRange | OpSendMsg | OpRecvMsg | OpTimeout |
     OpTimeoutRemove | OpAccept | OpAsyncCancel | OpLinkTimeout | OpConnect | OpFileAllocate |
     OpOpenAt | OpClose | OpFilesUpdate | OpStatx | OpRead | OpWrite | OpFileAdvise |
     OpMemoryAdvise | OpSend | OpRecv | OpOpenAt2 | OpEPollCtl | OpSplice | OpProvideBuffers |
     OpRemoveBuffers | OpTee | OpShutdown | OpRenameAt | OpUnlinkAt | OpMkdirAt | OpSymlinkAt |
     OpLinkAt | OpMsgRing | OpFileSetXAttr | OpSetXAttr | OpFileGetXAttr | OpGetXAttr |
     OpSocket | OpUringCmd | OpSendZeroCopy | OpSendMsgZeroCopy | OpReadMultishot | OpWaitId |
     OpFutexWait | OpFutexWake | OpFutexWaitV | OpFixedFdInstall | OpFileTruncate | OpLast

definition opcode_list :: "opcode list" where
  "opcode_list = [
     OpNoOp, OpReadVector, OpWriteVector, OpFileSync, OpReadFixed, OpWriteFixed, OpPollAdd,
     OpPollRemove, OpSyncFileRange, OpSendMsg, OpRecvMsg, OpTimeout, OpTimeoutRemove, OpAccept,
     OpAsyncCancel, OpLinkTimeout, OpConnect, OpFileAllocate, OpOpenAt, OpClose, OpFilesUpdate,
     OpStatx, OpRead, OpWrite, OpFileAdvise, OpMemoryAdvise, OpSend, OpRecv, OpOpenAt2,
     OpEPollCtl, OpSplice, OpProvideBuffers, OpRemoveBuffers, OpTee, OpShutdown, OpRenameAt,
     OpUnlinkAt, OpMkdirAt, OpSymlinkAt, OpLinkAt, OpMsgRing, OpFileSetXAttr, OpSetXAttr,
     OpFileGetXAttr, OpGetXAttr, OpSocket, OpUringCmd, OpSendZeroCopy, OpSendMsgZeroCopy,
     OpReadMultishot, OpWaitId, OpFutexWait, OpFutexWake, OpFutexWaitV, OpFixedFdInstall,
     OpFileTruncate, OpLast]"

datatype register_op =
     RegRegisterBuffers | RegUnregisterBuffers | RegRegisterFiles | RegUnregisterFiles |
     RegRegisterEventFd | RegUnregisterEventFd | RegRegisterFilesUpdate |
     RegRegisterEventFdAsync | RegRegisterProbe | RegRegisterPersonality |
     RegUnregisterPersonality | RegRegisterRestrictions | RegRegisterEnableRings |
     RegRegisterFiles2 | RegRegisterFilesUpdate2 | RegRegisterBuffers2 |
     RegRegisterBuffersUpdate | RegRegisterIoWqAff | RegUnregisterIoWqAff |
     RegRegisterIoWqMaxWorkers | RegRegisterRingFds | RegUnregisterRingFds |
     RegRegisterPBufRing | RegUnregisterPBufRing | RegSyncCancel | RegRegisterFileAllocRange |
     RegLast | RegRegisterUseRegisteredRing

definition register_op_list :: "register_op list" where
  "register_op_list = [
     RegRegisterBuffers, RegUnregisterBuffers, RegRegisterFiles, RegUnregisterFiles,
     RegRegisterEventFd, RegUnregisterEventFd, RegRegisterFilesUpdate, RegRegisterEventFdAsync,
     RegRegisterProbe, RegRegisterPersonality, RegUnregisterPersonality, RegRegisterRestrictions,
     RegRegisterEnableRings, RegRegisterFiles2, RegRegisterFilesUpdate2, RegRegisterBuffers2,
     RegRegisterBuffersUpdate, RegRegisterIoWqAff, RegUnregisterIoWqAff,
     RegRegisterIoWqMaxWorkers, RegRegisterRingFds, RegUnregisterRingFds, RegRegisterPBufRing,
     RegUnregisterPBufRing, RegSyncCancel, RegRegisterFileAllocRange, RegLast]"

definition setup_bit :: "setup_flag \<Rightarrow> nat" where
  "setup_bit f = index_of setup_flag_list f"

definition feature_bit :: "feature \<Rightarrow> nat" where
  "feature_bit f = index_of feature_list f"

definition op_code :: "opcode \<Rightarrow> nat" where
  "op_code op = index_of opcode_list op"

definition reg_code :: "register_op \<Rightarrow> nat" where
  "reg_code op = (if op = RegRegisterUseRegisteredRing then 2 ^ 31 else index_of register_op_list op)"

text \<open>\<open>BitFlags::intersects\<close> with one flag, and the flags an enum declares.\<close>

definition intersects :: "u32 \<Rightarrow> nat \<Rightarrow> bool" where
  "intersects flags b = (flags AND push_bit b 1 \<noteq> 0)"

definition features_of :: "u32 \<Rightarrow> u32" where
  "features_of raw = raw AND mask (length feature_list)"

section \<open>Versions\<close>

text \<open>The version of the kernel, times a hundred, that introduced each item.\<close>

definition FEATURE_MAP :: "(feature \<times> nat) list" where
  "FEATURE_MAP = [
     (FeatureSingleMmap, 504), (FeatureNoDrop, 505), (FeatureSubmitStable, 505),
     (FeatureRwCurPos, 506), (FeatureCurPersonality, 506), (FeatureFastPoll, 507),
     (FeaturePoll32Bits, 509), (FeatureSqPollNonFixed, 511), (FeatureExtArg, 511),
     (FeatureNativeWorkers, 512), (FeatureRsrcTags, 513), (FeatureCqeSkip, 517),
     (FeatureLinkedFile, 517), (FeatureRegRegRing, 603)]"

definition OP_MAP :: "(opcode \<times> nat) list" where
  "OP_MAP = [
     (OpNoOp, 501), (OpReadVector, 501), (OpWriteVector, 501), (OpReadFixed, 501),
     (OpWriteFixed, 501), (OpFileSync, 501), (OpPollAdd, 501), (OpPollRemove, 501),
     (OpSyncFileRange, 502), (OpSendMsg, 503), (OpRecvMsg, 503), (OpTimeout, 504),
     (OpTimeoutRemove, 505), (OpAccept, 505), (OpAsyncCancel, 505), (OpLinkTimeout, 505),
     (OpConnect, 505), (OpEPollCtl, 506), (OpSend, 506), (OpRecv, 506), (OpFileAllocate, 506),
     (OpFileAdvise, 506), (OpMemoryAdvise, 506), (OpOpenAt, 506), (OpOpenAt2, 506),
     (OpClose, 506), (OpStatx, 506), (OpRead, 506), (OpWrite, 506), (OpFilesUpdate, 506),
     (OpSplice, 507), (OpProvideBuffers, 507), (OpRemoveBuffers, 507), (OpTee, 508),
     (OpShutdown, 511), (OpRenameAt, 511), (OpUnlinkAt, 511), (OpMkdirAt, 515),
     (OpSymlinkAt, 515), (OpLinkAt, 515), (OpMsgRing, 518), (OpFileSetXAttr, 519),
     (OpSetXAttr, 519), (OpFileGetXAttr, 519), (OpGetXAttr, 519), (OpSocket, 519),
     (OpUringCmd, 519), (OpSendZeroCopy, 600), (OpSendMsgZeroCopy, 601), (OpReadMultishot, 607),
     (OpWaitId, 607), (OpFutexWait, 607), (OpFutexWake, 607), (OpFutexWaitV, 607),
     (OpFixedFdInstall, 608), (OpFileTruncate, 609)]"

definition SETUP_FLAG_MAP :: "(setup_flag \<times> nat) list" where
  "SETUP_FLAG_MAP = [
     (SetupIoPoll, 501), (SetupSubmissionQueuePolling, 501), (SetupSubmissionQueueAffinity, 501),
     (SetupCompletionRingSize, 505), (SetupClamp, 506), (SetupAttachWq, 506),
     (SetupRingDisabled, 510), (SetupSubmitAll, 518), (SetupCoopTaskrun, 519),
     (SetupTaskrunFlag, 519), (SetupSubmissionEntryWide, 519), (SetupCompletionEntryWide, 519),
     (SetupSingleIssuer, 600), (SetupDeferTaskrun, 601), (SetupNoMmap, 605),
     (SetupRegisteredFdOnly, 605), (SetupNoSubmissionArray, 606)]"

definition REGISTER_MAP :: "(register_op \<times> nat) list" where
  "REGISTER_MAP = [
     (RegRegisterBuffers, 501), (RegUnregisterBuffers, 501), (RegRegisterFiles, 501),
     (RegUnregisterFiles, 501), (RegRegisterEventFd, 502), (RegUnregisterEventFd, 502),
     (RegRegisterFilesUpdate, 505), (RegRegisterEventFdAsync, 506), (RegRegisterProbe, 506),
     (RegRegisterPersonality, 506), (RegUnregisterPersonality, 506),
     (RegRegisterRestrictions, 510), (RegRegisterEnableRings, 510), (RegRegisterFiles2, 513),
     (RegRegisterFilesUpdate2, 513), (RegRegisterBuffers2, 513), (RegRegisterBuffersUpdate, 513),
     (RegRegisterIoWqAff, 514), (RegUnregisterIoWqAff, 514), (RegRegisterIoWqMaxWorkers, 515),
     (RegRegisterRingFds, 518), (RegUnregisterRingFds, 518), (RegRegisterPBufRing, 519),
     (RegUnregisterPBufRing, 519), (RegSyncCancel, 600), (RegRegisterFileAllocRange, 600),
     (RegRegisterUseRegisteredRing, 603)]"

section \<open>Detection\<close>

record ring_features =
  rf_min_ver :: nat
  rf_features :: u32
  rf_setup_flags :: u32
  rf_ops :: "bool list"
  rf_register :: "bool list"

record ring_probe =
  probe_last_op :: byte
  probe_ops :: "u16 list"

definition io_uring_opcode_supported :: "u16 list \<Rightarrow> opcode \<Rightarrow> bool" where
  "io_uring_opcode_supported ops op =
     (if length ops \<le> op_code op then False else (ops ! op_code op) AND 1 \<noteq> 0)"

text \<open>The first feature from the newest on decides the version.\<close>

definition version_of_features :: "u32 \<Rightarrow> nat" where
  "version_of_features features =
     (case find (\<lambda>(f, v). intersects features (feature_bit f)) (rev FEATURE_MAP) of
        Some (f, v) \<Rightarrow> v | None \<Rightarrow> 501)"

text \<open>Without a probe the operations follow from the version, up to the first one that is too new.\<close>

fun ops_by_version :: "nat \<Rightarrow> (opcode \<times> nat) list \<Rightarrow> bool list \<Rightarrow> bool list" where
  "ops_by_version min_ver [] ops = ops"
| "ops_by_version min_ver ((op, version) # rest) ops =
     (if min_ver < version then ops else ops_by_version min_ver rest (ops[op_code op := True]))"

fun ops_by_probe :: "u16 list \<Rightarrow> (opcode \<times> nat) list \<Rightarrow> bool list \<times> nat \<Rightarrow> bool list \<times> nat" where
  "ops_by_probe probed [] st = st"
| "ops_by_probe probed ((op, version) # rest) (ops, min_ver) =
     (let supported = io_uring_opcode_supported probed op
      in ops_by_probe probed rest
           (ops[op_code op := supported], if supported then max min_ver version else min_ver))"

text \<open>The setup flags from the newest on: a flag the version does not give is tried on a new ring.\<close>

fun setup_by_version ::
  "(u32 \<Rightarrow> (os_error, u32) outcome) \<Rightarrow> (setup_flag \<times> nat) list \<Rightarrow> u32 \<times> nat \<Rightarrow> u32 \<times> nat" where
  "setup_by_version setup [] st = st"
| "setup_by_version setup ((flag, version) # rest) (flags, min_ver) =
     (if version \<le> min_ver then setup_by_version setup rest (flags OR push_bit (setup_bit flag) 1, min_ver)
      else if is_ok (setup (push_bit (setup_bit flag) 1)) then setup_by_version setup rest (flags, version)
      else setup_by_version setup rest (flags, min_ver))"

definition register_index :: "register_op \<Rightarrow> nat" where
  "register_index op = (if op = RegRegisterUseRegisteredRing then reg_code RegLast else reg_code op)"

fun register_by_version :: "nat \<Rightarrow> (register_op \<times> nat) list \<Rightarrow> bool list \<Rightarrow> bool list" where
  "register_by_version min_ver [] ops = ops"
| "register_by_version min_ver ((op, version) # rest) ops =
     (if min_ver < version then ops
      else register_by_version min_ver rest (ops[register_index op := True]))"

definition no_ops :: "bool list" where
  "no_ops = replicate (op_code OpLast) False"

definition io_uring_detect_features ::
  "(u32 \<Rightarrow> (os_error, u32) outcome) \<Rightarrow> (os_error, ring_probe) outcome \<Rightarrow>
    (os_error, ring_features option) outcome" where
  "io_uring_detect_features setup probe =
     (case setup 0 of
        Panic \<Rightarrow> Panic
      | Err err \<Rightarrow> if err = os_named ''NoSys'' then Ok None else Err err
      | Ok raw \<Rightarrow>
          (let features = features_of raw;
               ver = version_of_features features;
               finish = (\<lambda>(ops, ver1).
                 let (flags, ver2) = setup_by_version setup (rev SETUP_FLAG_MAP) (0, ver1)
                 in Ok (Some
                      \<lparr>rf_min_ver = ver2, rf_features = features, rf_setup_flags = flags, rf_ops = ops,
                       rf_register = register_by_version ver2 REGISTER_MAP
                         (replicate (Suc (reg_code RegLast)) False)\<rparr>))
           in (case probe of
                 Panic \<Rightarrow> Panic
               | Err err \<Rightarrow>
                   if err = os_named ''Inval'' then finish (ops_by_version ver OP_MAP no_ops, ver) else Err err
               | Ok p \<Rightarrow>
                   finish (ops_by_probe (take (unat (probe_last_op p) + 1) (probe_ops p)) OP_MAP
                     (no_ops, max ver 506)))))"

definition feature_supported :: "ring_features \<Rightarrow> feature \<Rightarrow> bool" where
  "feature_supported r f = intersects (rf_features r) (feature_bit f)"

definition setup_flag_supported :: "ring_features \<Rightarrow> setup_flag \<Rightarrow> bool" where
  "setup_flag_supported r f = intersects (rf_setup_flags r) (setup_bit f)"

definition opcode_supported :: "ring_features \<Rightarrow> opcode \<Rightarrow> bool" where
  "opcode_supported r op = rf_ops r ! op_code op"

definition register_op_supported :: "ring_features \<Rightarrow> register_op \<Rightarrow> bool" where
  "register_op_supported r op = rf_register r ! register_index op"

definition ring_version :: "ring_features \<Rightarrow> string" where
  "ring_version r = show_nat (rf_min_ver r div 100) @ ''.'' @ show_nat (rf_min_ver r mod 100)"

section \<open>Waiting with a timeout\<close>

text \<open>The arguments \<open>io_uring_enter_timeout\<close> passes on: the flags with \<open>ExtArg\<close>, the size of the signal mask and the time.\<close>

definition SIGSET_SIZE :: nat where
  "SIGSET_SIZE = 65 div 8"

definition enter_timeout_args :: "u32 \<Rightarrow> u64 \<Rightarrow> (unit, u32 \<times> u32 \<times> time_spec) outcome" where
  "enter_timeout_args flags timeout =
     (if unat timeout < 2 ^ 63 then Ok (flags OR push_bit 3 1, of_nat SIGSET_SIZE, \<lparr>ts_sec = 0, ts_nanos = timeout\<rparr>)
      else Panic)"

section \<open>A kernel of a version\<close>

text \<open>
  What a kernel of version \<open>v\<close> documents: a ring without flags can be made and reports the features up to
  \<open>v\<close>; a setup flag is refused when it is newer; probes exist from 506 on and tell the operations up to \<open>v\<close>.
\<close>

definition uring_kernel :: "nat \<Rightarrow> (u32 \<Rightarrow> (os_error, u32) outcome) \<Rightarrow> (os_error, ring_probe) outcome \<Rightarrow> bool" where
  "uring_kernel v setup probe =
     (501 \<le> v \<and>
      (\<exists>raw. setup 0 = Ok raw \<and> (\<forall>(f, w) \<in> set FEATURE_MAP. bit raw (feature_bit f) \<longleftrightarrow> w \<le> v)) \<and>
      (\<forall>(f, w) \<in> set SETUP_FLAG_MAP. is_ok (setup (push_bit (setup_bit f) 1)) \<longrightarrow> w \<le> v) \<and>
      (case probe of
         Err e \<Rightarrow> e = os_named ''Inval'' \<and> v < 506
       | Ok p \<Rightarrow> 506 \<le> v \<and>
           (\<forall>(op, w) \<in> set OP_MAP.
              io_uring_opcode_supported (take (unat (probe_last_op p) + 1) (probe_ops p)) op \<longleftrightarrow> w \<le> v)
       | Panic \<Rightarrow> False))"

section \<open>Lemmas\<close>

lemma intersects_bit: "intersects flags b \<longleftrightarrow> bit flags b"
  by (simp add: intersects_def push_bit_of_1 and_exp_eq_0_iff_not_bit)

lemma op_code_less: "op \<noteq> OpLast \<Longrightarrow> op_code op < 56" and op_code_last: "op_code OpLast = 56"
  by (cases op; simp add: op_code_def opcode_list_def)+

lemma in_opcode_list: "op \<in> set opcode_list"
  by (cases op) (simp_all add: opcode_list_def)

lemma in_setup_flag_list: "f \<in> set setup_flag_list"
  by (cases f) (simp_all add: setup_flag_list_def)

lemma index_of_inj: "x \<in> set xs \<Longrightarrow> y \<in> set xs \<Longrightarrow> index_of xs x = index_of xs y \<Longrightarrow> x = y"
  using index_of_less by metis

lemma op_code_inj: "op_code a = op_code b \<Longrightarrow> a = b"
  unfolding op_code_def by (rule index_of_inj[OF in_opcode_list in_opcode_list])

lemma setup_bit_inj: "setup_bit a = setup_bit b \<Longrightarrow> a = b"
  unfolding setup_bit_def by (rule index_of_inj[OF in_setup_flag_list in_setup_flag_list])

lemma setup_bit_less: "setup_bit f < 32"
  using index_of_less[OF in_setup_flag_list, of f] by (simp add: setup_bit_def setup_flag_list_def)

lemma in_register_op_list: "op \<noteq> RegRegisterUseRegisteredRing \<Longrightarrow> op \<in> set register_op_list"
  by (cases op) (simp_all add: register_op_list_def)

lemma register_index_eq:
  "register_index op = index_of register_op_list (if op = RegRegisterUseRegisteredRing then RegLast else op)"
  by (simp add: register_index_def reg_code_def)

lemma register_index_inj:
  assumes "op \<noteq> RegLast" "op' \<noteq> RegLast" "register_index op = register_index op'"
  shows "op = op'"
proof -
  let ?n = "\<lambda>op. if op = RegRegisterUseRegisteredRing then RegLast else op"
  have "?n op = ?n op'"
    using assms(3) unfolding register_index_eq by (rule index_of_inj[rotated 2]) (simp_all add: in_register_op_list)
  with assms show ?thesis by (auto split: if_splits)
qed

lemma reg_code_last: "reg_code RegLast = 26"
  by (simp add: reg_code_def register_op_list_def)

lemma register_index_less: "register_index op \<le> 26"
proof -
  have "register_index op < length register_op_list"
    unfolding register_index_eq by (intro index_of_less[THEN conjunct1]) (simp add: in_register_op_list)
  then show ?thesis by (simp add: register_op_list_def)
qed

text \<open>The tables: each item once, the versions in ascending order, and no sentinel among them.\<close>

lemma maps_sorted:
  "sorted (map snd OP_MAP)" "sorted (map snd REGISTER_MAP)"
  by (simp_all add: OP_MAP_def REGISTER_MAP_def)

lemma maps_distinct:
  "distinct (map fst OP_MAP)" "distinct (map fst REGISTER_MAP)" "distinct (map fst SETUP_FLAG_MAP)"
  "OpLast \<notin> fst ` set OP_MAP" "RegLast \<notin> fst ` set REGISTER_MAP"
  by (simp_all add: OP_MAP_def REGISTER_MAP_def SETUP_FLAG_MAP_def)

lemma every_opcode_has_a_version: "op \<noteq> OpLast \<Longrightarrow> op \<in> fst ` set OP_MAP"
  by (cases op) (simp_all add: OP_MAP_def)

lemma length_ops_by_version [simp]: "length (ops_by_version v m ops) = length ops"
  by (induction v m ops rule: ops_by_version.induct) simp_all

lemma ops_by_version_nth:
  "sorted (map snd m) \<Longrightarrow> i < length ops \<Longrightarrow>
   ops_by_version v m ops ! i \<longleftrightarrow> ops ! i \<or> (\<exists>(op, w) \<in> set m. op_code op = i \<and> w \<le> v)"
proof (induction m arbitrary: ops)
  case (Cons x m)
  obtain op w where x: "x = (op, w)" by fastforce
  show ?case
  proof (cases "v < w")
    case True
    with Cons.prems(1) x have "\<forall>(o1, w1) \<in> set (x # m). \<not> w1 \<le> v" by fastforce
    with True x show ?thesis by auto
  next
    case False
    then show ?thesis using Cons x by (cases "op_code op = i") auto
  qed
qed simp

lemma register_by_version_nth:
  "sorted (map snd m) \<Longrightarrow> i < length ops \<Longrightarrow>
   register_by_version v m ops ! i \<longleftrightarrow> ops ! i \<or> (\<exists>(op, w) \<in> set m. register_index op = i \<and> w \<le> v)"
proof (induction m arbitrary: ops)
  case (Cons x m)
  obtain op w where x: "x = (op, w)" by fastforce
  show ?case
  proof (cases "v < w")
    case True
    with Cons.prems(1) x have "\<forall>(o1, w1) \<in> set (x # m). \<not> w1 \<le> v" by fastforce
    with True x show ?thesis by auto
  next
    case False
    then show ?thesis using Cons x by (cases "register_index op = i") auto
  qed
qed simp

lemma ops_by_probe_other:
  "i \<notin> op_code ` fst ` set m \<Longrightarrow> fst (ops_by_probe p m (ops, mv)) ! i = ops ! i"
  by (induction p m "(ops, mv)" arbitrary: ops mv rule: ops_by_probe.induct) (auto simp: Let_def)

lemma ops_by_probe_nth:
  "distinct (map fst m) \<Longrightarrow> (op, w) \<in> set m \<Longrightarrow> \<forall>(o1, w1) \<in> set m. op_code o1 < length ops \<Longrightarrow>
   fst (ops_by_probe p m (ops, mv)) ! op_code op = io_uring_opcode_supported p op"
proof (induction p m "(ops, mv)" arbitrary: ops mv rule: ops_by_probe.induct)
  case (2 p o1 w1 rest ops mv)
  show ?case
  proof (cases "op = o1")
    case True
    have "op_code o1 \<notin> op_code ` fst ` set rest"
      using 2(2) by (auto dest: op_code_inj)
    then show ?thesis using 2(4) True by (simp add: ops_by_probe_other Let_def)
  next
    case False
    then show ?thesis using 2 by (auto simp: Let_def)
  qed
qed simp

lemma ops_by_probe_version:
  "\<forall>(op, w) \<in> set m. io_uring_opcode_supported p op \<longrightarrow> w \<le> v \<Longrightarrow> mv \<le> v \<Longrightarrow>
   snd (ops_by_probe p m (ops, mv)) \<le> v"
  by (induction p m "(ops, mv)" arbitrary: ops mv rule: ops_by_probe.induct) (auto simp: Let_def)

lemma setup_version_bound:
  "\<forall>(f, w) \<in> set m. is_ok (setup (push_bit (setup_bit f) 1)) \<longrightarrow> w \<le> v \<Longrightarrow> mv \<le> v \<Longrightarrow>
   snd (setup_by_version setup m (flags, mv)) \<le> v"
  by (induction "setup" m "(flags, mv)" arbitrary: flags mv rule: setup_by_version.induct) auto

lemma bit_or_flag: "b < 32 \<Longrightarrow> bit ((flags :: u32) OR 2 ^ b) i \<longleftrightarrow> bit flags i \<or> i = b"
  by (auto simp: bit_or_iff bit_exp_iff)

lemma setup_flags_bound:
  "\<forall>(f, w) \<in> set m. is_ok (setup (push_bit (setup_bit f) 1)) \<longrightarrow> w \<le> v \<Longrightarrow> mv \<le> v \<Longrightarrow>
   bit (fst (setup_by_version setup m (flags, mv))) i \<Longrightarrow>
   bit flags i \<or> (\<exists>(f, w) \<in> set m. setup_bit f = i \<and> w \<le> v)"
proof (induction "setup" m "(flags, mv)" arbitrary: flags mv rule: setup_by_version.induct)
  case (2 st f w rest flags mv)
  show ?case
  proof (cases "w \<le> mv")
    case True
    with 2 have "bit (flags OR 2 ^ setup_bit f) i \<or> (\<exists>(f, w) \<in> set rest. setup_bit f = i \<and> w \<le> v)"
      by simp
    then show ?thesis using True 2(5) by (auto simp: bit_or_flag setup_bit_less)
  next
    case False
    then have "bit flags i \<or> (\<exists>(f, w) \<in> set rest. setup_bit f = i \<and> w \<le> v)"
      using 2 by (cases "is_ok (st (push_bit (setup_bit f) 1))") simp_all
    then show ?thesis by auto
  qed
qed simp

lemma find_SomeD: "find P xs = Some x \<Longrightarrow> x \<in> set xs \<and> P x"
  by (induction xs) (auto split: if_splits)

lemma version_of_features_bound:
  assumes "\<forall>(f, w) \<in> set FEATURE_MAP. bit raw (feature_bit f) \<longleftrightarrow> w \<le> v" "501 \<le> v"
  shows "version_of_features (features_of raw) \<le> v"
proof (cases "find (\<lambda>(f, v). intersects (features_of raw) (feature_bit f)) (rev FEATURE_MAP)")
  case (Some x)
  obtain f w where x: "x = (f, w)" by fastforce
  with Some have "(f, w) \<in> set FEATURE_MAP" "bit (features_of raw) (feature_bit f)"
    by (auto simp: intersects_bit dest: find_SomeD)
  with assms(1) Some x show ?thesis by (auto simp: version_of_features_def features_of_def bit_and_iff)
qed (simp add: version_of_features_def assms)

lemma feature_bit_less: "feature_bit f < 14"
  using index_of_less[of f feature_list] by (cases f) (simp_all add: feature_bit_def feature_list_def)

lemma features_bit: "bit (features_of raw) (feature_bit f) \<longleftrightarrow> bit raw (feature_bit f)"
proof -
  have "length feature_list = 14" by (simp add: feature_list_def)
  then show ?thesis using feature_bit_less[of f] by (auto simp: features_of_def bit_and_iff bit_mask_iff)
qed

lemma unique_version:
  "distinct (map fst m) \<Longrightarrow> (x, w) \<in> set m \<Longrightarrow> (x, w') \<in> set m \<Longrightarrow> w = w'"
  by (metis eq_key_imp_eq_value)

lemma setup_sound:
  assumes refused: "\<forall>(f, w) \<in> set SETUP_FLAG_MAP. is_ok (mk (push_bit (setup_bit f) 1)) \<longrightarrow> w \<le> v"
    and "mv \<le> v" and run: "setup_by_version mk (rev SETUP_FLAG_MAP) (0, mv) = (flags, ver2)"
  shows "ver2 \<le> v" "(f, w) \<in> set SETUP_FLAG_MAP \<Longrightarrow> bit flags (setup_bit f) \<Longrightarrow> w \<le> v"
proof -
  have rev: "\<forall>(f, w) \<in> set (rev SETUP_FLAG_MAP). is_ok (mk (push_bit (setup_bit f) 1)) \<longrightarrow> w \<le> v"
    using refused by simp
  show "ver2 \<le> v" using setup_version_bound[OF rev assms(2), of 0] run by simp
  assume f: "(f, w) \<in> set SETUP_FLAG_MAP" "bit flags (setup_bit f)"
  with setup_flags_bound[OF rev assms(2), of 0 "setup_bit f"] run
  obtain f1 w1 where "(f1, w1) \<in> set SETUP_FLAG_MAP" "setup_bit f1 = setup_bit f" "w1 \<le> v" by auto
  with f unique_version[OF maps_distinct(3)] show "w \<le> v" by (auto dest: setup_bit_inj)
qed

lemma register_sound:
  assumes "(op, w) \<in> set REGISTER_MAP" "ver2 \<le> v"
    "register_by_version ver2 REGISTER_MAP (replicate (Suc (reg_code RegLast)) False) ! register_index op"
  shows "w \<le> v"
proof -
  from assms(3) obtain op1 w1 where r: "(op1, w1) \<in> set REGISTER_MAP" "register_index op1 = register_index op" "w1 \<le> ver2"
    using register_by_version_nth[OF maps_sorted(2)] register_index_less[of op] by (auto simp: reg_code_last)
  have "op1 \<noteq> RegLast" "op \<noteq> RegLast" using r(1) assms(1) maps_distinct(5) by force+
  with r have "op1 = op" by (blast intro: register_index_inj)
  with r assms unique_version[OF maps_distinct(2)] show ?thesis by fastforce
qed

lemma op_in_range: "(op, w) \<in> set OP_MAP \<Longrightarrow> op_code op < length no_ops"
  using op_code_less[of op] maps_distinct(4) by (force simp: no_ops_def op_code_last)

lemma ops_by_version_sound:
  assumes "(op, w) \<in> set OP_MAP"
  shows "ops_by_version ver OP_MAP no_ops ! op_code op \<longleftrightarrow> w \<le> ver"
proof -
  have "\<not> no_ops ! op_code op" using op_in_range[OF assms] by (simp add: no_ops_def)
  then have "ops_by_version ver OP_MAP no_ops ! op_code op \<longleftrightarrow>
      (\<exists>(op1, w1) \<in> set OP_MAP. op_code op1 = op_code op \<and> w1 \<le> ver)"
    using ops_by_version_nth[OF maps_sorted(1) op_in_range[OF assms]] by simp
  also have "\<dots> \<longleftrightarrow> w \<le> ver"
    using assms unique_version[OF maps_distinct(1)] by (auto dest: op_code_inj)
  finally show ?thesis .
qed

definition ring_detected ::
  "(u32 \<Rightarrow> (os_error, u32) outcome) \<Rightarrow> u32 \<Rightarrow> bool list \<Rightarrow> nat \<Rightarrow> ring_features" where
  "ring_detected mk raw ops ver1 =
     (let (flags, ver2) = setup_by_version mk (rev SETUP_FLAG_MAP) (0, ver1)
      in \<lparr>rf_min_ver = ver2, rf_features = features_of raw, rf_setup_flags = flags, rf_ops = ops,
          rf_register = register_by_version ver2 REGISTER_MAP (replicate (Suc (reg_code RegLast)) False)\<rparr>)"

lemma detect_unfold:
  assumes "mk 0 = Ok raw"
  shows "probe = Err (os_named ''Inval'') \<Longrightarrow> io_uring_detect_features mk probe =
      Ok (Some (ring_detected mk raw (ops_by_version (version_of_features (features_of raw)) OP_MAP no_ops)
        (version_of_features (features_of raw))))"
    and "probe = Ok p \<Longrightarrow> ops_by_probe (take (unat (probe_last_op p) + 1) (probe_ops p)) OP_MAP
        (no_ops, max (version_of_features (features_of raw)) 506) = (ops, ver1) \<Longrightarrow>
      io_uring_detect_features mk probe = Ok (Some (ring_detected mk raw ops ver1))"
  unfolding io_uring_detect_features_def Let_def assms ring_detected_def
  by (simp_all only: outcome.case prod.case simp_thms if_True case_prod_beta fst_conv snd_conv)

lemma probed_ops_sound:
  assumes sup: "\<forall>(op, w) \<in> set OP_MAP. io_uring_opcode_supported probed op \<longleftrightarrow> w \<le> v" and "mv \<le> v"
    and loop: "ops_by_probe probed OP_MAP (no_ops, mv) = (ops, ver1)"
  shows "ver1 \<le> v" "(op, w) \<in> set OP_MAP \<Longrightarrow> ops ! op_code op \<longleftrightarrow> w \<le> v"
proof -
  from sup have "\<forall>(op, w) \<in> set OP_MAP. io_uring_opcode_supported probed op \<longrightarrow> w \<le> v" by blast
  from ops_by_probe_version[OF this assms(2), of no_ops] loop show "ver1 \<le> v" by simp
  have "\<forall>(o1, w1) \<in> set OP_MAP. op_code o1 < length no_ops" using op_in_range by blast
  moreover assume op: "(op, w) \<in> set OP_MAP"
  ultimately have "fst (ops_by_probe probed OP_MAP (no_ops, mv)) ! op_code op = io_uring_opcode_supported probed op"
    by (intro ops_by_probe_nth[OF maps_distinct(1)])
  with sup op show "ops ! op_code op \<longleftrightarrow> w \<le> v" unfolding loop by auto
qed

lemma uring_kernelD:
  assumes "uring_kernel v mk probe"
  obtains raw where "501 \<le> v" "mk 0 = Ok raw"
    "\<forall>(f, w) \<in> set FEATURE_MAP. bit raw (feature_bit f) \<longleftrightarrow> w \<le> v"
    "\<forall>(f, w) \<in> set SETUP_FLAG_MAP. is_ok (mk (push_bit (setup_bit f) 1)) \<longrightarrow> w \<le> v"
  using assms unfolding uring_kernel_def by blast

lemma kernel_ops:
  assumes kernel: "uring_kernel v mk probe" and raw: "mk 0 = Ok raw" and ver: "version_of_features (features_of raw) \<le> v"
  obtains ops ver1 where "io_uring_detect_features mk probe = Ok (Some (ring_detected mk raw ops ver1))" "ver1 \<le> v"
    "\<forall>(op, w) \<in> set OP_MAP. (ops ! op_code op \<longrightarrow> w \<le> v) \<and> (506 \<le> v \<and> w \<le> v \<longrightarrow> ops ! op_code op)"
proof (cases probe)
  case (Ok p)
  let ?probed = "take (unat (probe_last_op p) + 1) (probe_ops p)"
  let ?mv = "max (version_of_features (features_of raw)) 506"
  from kernel have v: "506 \<le> v" and sup: "\<forall>(op, w) \<in> set OP_MAP. io_uring_opcode_supported ?probed op \<longleftrightarrow> w \<le> v"
    unfolding uring_kernel_def Ok outcome.case by blast+
  obtain ops ver1 where loop: "ops_by_probe ?probed OP_MAP (no_ops, ?mv) = (ops, ver1)" by (rule prod.exhaust)
  have "?mv \<le> v" using v ver by simp
  note sound = probed_ops_sound[OF sup this loop]
  show thesis
    using sound by (intro that[OF detect_unfold(2)[where mk = mk and raw = raw, OF raw Ok loop]]) blast+
next
  case (Err e)
  from kernel have e: "e = os_named ''Inval''" and v: "v < 506" unfolding uring_kernel_def Err outcome.case by blast+
  let ?ops = "ops_by_version (version_of_features (features_of raw)) OP_MAP no_ops"
  have "\<forall>(op, w) \<in> set OP_MAP. (?ops ! op_code op \<longrightarrow> w \<le> v) \<and> (506 \<le> v \<and> w \<le> v \<longrightarrow> ?ops ! op_code op)"
  proof clarify
    fix op w
    assume "(op, w) \<in> set OP_MAP"
    from ops_by_version_sound[OF this] ver v
    show "(?ops ! op_code op \<longrightarrow> w \<le> v) \<and> (506 \<le> v \<and> w \<le> v \<longrightarrow> ?ops ! op_code op)" by simp
  qed
  then show thesis using detect_unfold(1)[of mk raw probe] raw Err e ver by (intro that) simp_all
next
  case Panic
  with kernel show thesis unfolding uring_kernel_def by simp
qed

lemma ring_detected_sound:
  assumes feats: "\<forall>(f, w) \<in> set FEATURE_MAP. bit raw (feature_bit f) \<longleftrightarrow> w \<le> v"
    and refused: "\<forall>(f, w) \<in> set SETUP_FLAG_MAP. is_ok (mk (push_bit (setup_bit f) 1)) \<longrightarrow> w \<le> v" and "ver1 \<le> v"
  shows "rf_min_ver (ring_detected mk raw ops ver1) \<le> v"
    and "(f, w) \<in> set FEATURE_MAP \<Longrightarrow> feature_supported (ring_detected mk raw ops ver1) f \<longleftrightarrow> w \<le> v"
    and "(g, w) \<in> set SETUP_FLAG_MAP \<Longrightarrow> setup_flag_supported (ring_detected mk raw ops ver1) g \<Longrightarrow> w \<le> v"
    and "(rop, w) \<in> set REGISTER_MAP \<Longrightarrow> register_op_supported (ring_detected mk raw ops ver1) rop \<Longrightarrow> w \<le> v"
    and "opcode_supported (ring_detected mk raw ops ver1) op = ops ! op_code op"
proof -
  obtain flags ver2 where run: "setup_by_version mk (rev SETUP_FLAG_MAP) (0, ver1) = (flags, ver2)" by (rule prod.exhaust)
  note sound = setup_sound[OF refused assms(3) run]
  note ring = ring_detected_def[of mk raw ops ver1, unfolded run Let_def prod.case]
  show "rf_min_ver (ring_detected mk raw ops ver1) \<le> v" unfolding ring using sound(1) by simp
  show "(f, w) \<in> set FEATURE_MAP \<Longrightarrow> feature_supported (ring_detected mk raw ops ver1) f \<longleftrightarrow> w \<le> v"
    using feats unfolding ring feature_supported_def by (auto simp: intersects_bit features_bit)
  show "(g, w) \<in> set SETUP_FLAG_MAP \<Longrightarrow> setup_flag_supported (ring_detected mk raw ops ver1) g \<Longrightarrow> w \<le> v"
    using sound(2) unfolding ring setup_flag_supported_def by (simp add: intersects_bit)
  show "(rop, w) \<in> set REGISTER_MAP \<Longrightarrow> register_op_supported (ring_detected mk raw ops ver1) rop \<Longrightarrow> w \<le> v"
    using register_sound[OF _ sound(1)] unfolding ring register_op_supported_def by simp
  show "opcode_supported (ring_detected mk raw ops ver1) op = ops ! op_code op"
    unfolding ring opcode_supported_def by simp
qed

text \<open>A timeout that does not panic is the time asked for, though not split into seconds.\<close>

lemma enter_timeout_value:
  "enter_timeout_args flags timeout = Ok (f, n, ts) \<Longrightarrow> map_option unat (try_as_nanos ts) = Some (unat timeout)"
  using try_as_nanos_small[of ts] by (auto simp: enter_timeout_args_def split: if_splits)

section \<open>Properties\<close>

text \<open>C35: On a kernel of version \<open>v\<close> detection succeeds and reports nothing the kernel does not have: its version
  estimate, the setup flags, the operations and the register operations are all from versions up to \<open>v\<close>. The
  features are exact, and so are the operations from 506 on, where they are probed.\<close>

theorem detection_is_sound:
  assumes "uring_kernel v setup probe"
  shows "\<exists>r. io_uring_detect_features setup probe = Ok (Some r) \<and> rf_min_ver r \<le> v \<and>
    (\<forall>(f, w) \<in> set FEATURE_MAP. feature_supported r f \<longleftrightarrow> w \<le> v) \<and>
    (\<forall>(f, w) \<in> set SETUP_FLAG_MAP. setup_flag_supported r f \<longrightarrow> w \<le> v) \<and>
    (\<forall>(op, w) \<in> set OP_MAP. (opcode_supported r op \<longrightarrow> w \<le> v) \<and> (506 \<le> v \<and> w \<le> v \<longrightarrow> opcode_supported r op)) \<and>
    (\<forall>(op, w) \<in> set REGISTER_MAP. register_op_supported r op \<longrightarrow> w \<le> v)"
proof -
  from assms obtain raw where raw: "setup 0 = Ok raw"
    and feats: "\<forall>(f, w) \<in> set FEATURE_MAP. bit raw (feature_bit f) \<longleftrightarrow> w \<le> v"
    and refused: "\<forall>(f, w) \<in> set SETUP_FLAG_MAP. is_ok (setup (push_bit (setup_bit f) 1)) \<longrightarrow> w \<le> v" and "501 \<le> v"
    by (rule uring_kernelD)
  from kernel_ops[OF assms raw version_of_features_bound[OF feats \<open>501 \<le> v\<close>]] obtain ops ver1
    where run: "io_uring_detect_features setup probe = Ok (Some (ring_detected setup raw ops ver1))" and ver1: "ver1 \<le> v"
      and ops: "\<forall>(op, w) \<in> set OP_MAP. (ops ! op_code op \<longrightarrow> w \<le> v) \<and> (506 \<le> v \<and> w \<le> v \<longrightarrow> ops ! op_code op)" .
  note sound = ring_detected_sound[OF feats refused ver1, where ops = ops]
  show ?thesis
    by (rule exI[of _ "ring_detected setup raw ops ver1"]) (use run ops sound in auto)
qed

text \<open>A kernel of version 606 for the witness: every setup flag is accepted, and the operations up to 601 exist.\<close>

definition setup_606 :: "u32 \<Rightarrow> (os_error, u32) outcome" where
  "setup_606 flags = Ok 0x3FFF"

definition probe_606 :: "(os_error, ring_probe) outcome" where
  "probe_606 = Ok \<lparr>probe_last_op = 48, probe_ops = replicate 49 1 @ replicate 207 0\<rparr>"

lemma kernel_606_features: "list_all (\<lambda>(f, w). bit (0x3FFF :: u32) (feature_bit f) = (w \<le> 606)) FEATURE_MAP"
  by (simp add: FEATURE_MAP_def feature_bit_def feature_list_def)

lemma kernel_606_setup: "list_all (\<lambda>(f, w). w \<le> 606) SETUP_FLAG_MAP"
  by (simp add: SETUP_FLAG_MAP_def)

lemma kernel_606_probe:
  "list_all (\<lambda>(op, w). io_uring_opcode_supported (replicate 49 1) op = (w \<le> 606)) OP_MAP"
  by code_simp

lemma kernel_606: "uring_kernel 606 setup_606 probe_606"
  using kernel_606_features kernel_606_setup kernel_606_probe
  by (auto simp: uring_kernel_def setup_606_def probe_606_def list_all_iff)

theorem detection_is_sound_witness:
  "\<exists>r. io_uring_detect_features setup_606 probe_606 = Ok (Some r) \<and> rf_min_ver r \<le> 606"
  using detection_is_sound[OF kernel_606] by blast

text \<open>The flag whose trial reveals the version is not itself reported, although the kernel accepts it.\<close>

lemma tried_flag_is_not_reported:
  "case io_uring_detect_features setup_606 probe_606 of
     Ok (Some r) \<Rightarrow>
       rf_min_ver r = 606 \<and> \<not> setup_flag_supported r SetupNoSubmissionArray \<and> setup_flag_supported r SetupNoMmap \<and>
       ring_version r = ''6.6''
   | _ \<Rightarrow> False"
  by code_simp

end
