(* ===== verification/Logging.thy ===== *)
theory Logging
  imports Xx_Prelude
begin

text \<open>
  The logger, \<open>src/src/log/logger.rs\<close>, and the names it logs for a structure, \<open>src/src/log/internal.rs\<close>. Standard error is a
  parameter that takes text and may fail. What formatting a record hands to the logger is a list of pieces. Shown: a record is written
  as its lines, each behind one prefix and ended, however its text is cut into pieces; an output that fails ends the record; the name of a generic
  type is the last segment of its path.
\<close>

section \<open>Lines\<close>

definition log_newline :: char where
  "log_newline = char_of (10 :: nat)"

text \<open>\<open>str::split_inclusive\<close> at a new line.\<close>

fun split_lines :: "string \<Rightarrow> string list" where
  "split_lines [] = []"
| "split_lines (c # cs) =
     (if c = log_newline then [c] # split_lines cs
      else (case split_lines cs of [] \<Rightarrow> [[c]] | l # ls \<Rightarrow> (c # l) # ls))"

section \<open>The adapter\<close>

datatype level = LError | LWarn | LInfo | LDebug | LTrace

text \<open>Writing text: whether it succeeded, and the output after it.\<close>

type_synonym 'k put = "'k \<Rightarrow> string \<Rightarrow> bool \<times> 'k"

definition ansi_reset :: string where
  "ansi_reset = char_of (27 :: nat) # ''[0m''"

definition level_color :: "level \<Rightarrow> string" where
  "level_color l =
     char_of (27 :: nat) #
     (case l of LError \<Rightarrow> ''[1;48;5;1m'' | LWarn \<Rightarrow> ''[1;48;5;11m'' | LInfo \<Rightarrow> ''[1;48;5;10m'' | LDebug \<Rightarrow> ''[1;48;5;14m''
      | LTrace \<Rightarrow> ''[1m'')"

definition pad_left :: "nat \<Rightarrow> char \<Rightarrow> string \<Rightarrow> string" where
  "pad_left n c s = replicate (n - length s) c @ s"

definition prefix_text :: "level \<Rightarrow> string \<Rightarrow> string" where
  "prefix_text l target = level_color l @ ''| '' @ pad_left 24 (CHR '' '') target @ '' |'' @ ansi_reset @ '' ''"

text \<open>The state of an adapter is the output and whether the prefix of the current line is written. A prefix that fails counts as written.\<close>

definition write_prefix :: "'k put \<Rightarrow> string \<Rightarrow> 'k \<times> bool \<Rightarrow> bool \<times> ('k \<times> bool)" where
  "write_prefix put prefix s =
     (case s of (k, wrote) \<Rightarrow> if wrote then (True, s) else (let (ok, k1) = put k prefix in (ok, (k1, True))))"

definition write_line :: "'k put \<Rightarrow> string \<Rightarrow> string \<Rightarrow> 'k \<times> bool \<Rightarrow> bool \<times> ('k \<times> bool)" where
  "write_line put prefix text s =
     (case write_prefix put prefix s of
        (False, s1) \<Rightarrow> (False, s1)
      | (True, (k, wrote)) \<Rightarrow> (let (ok, k1) = put k text in (ok, (k1, wrote))))"

fun write_lines :: "'k put \<Rightarrow> string \<Rightarrow> string list \<Rightarrow> 'k \<times> bool \<Rightarrow> bool \<times> ('k \<times> bool)" where
  "write_lines put prefix [] s = (True, s)"
| "write_lines put prefix (line # ls) s =
     (case write_line put prefix line s of
        (False, s1) \<Rightarrow> (False, s1)
      | (True, (k, wrote)) \<Rightarrow> write_lines put prefix ls (k, if last line = log_newline then False else wrote))"

definition write_str :: "'k put \<Rightarrow> string \<Rightarrow> string \<Rightarrow> 'k \<times> bool \<Rightarrow> bool \<times> ('k \<times> bool)" where
  "write_str put prefix text s =
     (if log_newline \<notin> set text then write_line put prefix text s else write_lines put prefix (split_lines text) s)"

text \<open>\<open>fmt::write\<close> hands over the pieces until one fails.\<close>

fun write_pieces :: "'k put \<Rightarrow> string \<Rightarrow> string list \<Rightarrow> 'k \<times> bool \<Rightarrow> bool \<times> ('k \<times> bool)" where
  "write_pieces put prefix [] s = (True, s)"
| "write_pieces put prefix (p # ps) s =
     (case write_str put prefix p s of (False, s1) \<Rightarrow> (False, s1) | (True, s1) \<Rightarrow> write_pieces put prefix ps s1)"

definition logger_log :: "'k put \<Rightarrow> ('k \<Rightarrow> 'k) \<Rightarrow> level \<Rightarrow> string \<Rightarrow> string list \<Rightarrow> 'k \<Rightarrow> 'k" where
  "logger_log put flush l target pieces k =
     (let (_, (k1, wrote)) = write_pieces put (prefix_text l target) pieces (k, False)
      in flush (if wrote then snd (put k1 [log_newline]) else k1))"

text \<open>The level a program starts with: the variable's if it can be parsed, and whether an invalid one is reported.\<close>

definition logger_init :: "(string \<Rightarrow> 'f option) \<Rightarrow> 'f \<Rightarrow> string option \<Rightarrow> 'f \<times> string option" where
  "logger_init parse info var =
     (case var of
        None \<Rightarrow> (info, None)
      | Some input \<Rightarrow> (case parse input of Some l \<Rightarrow> (l, None) | None \<Rightarrow> (info, Some input)))"

section \<open>Names of structures\<close>

text \<open>The loop over the characters with their index, with \<open>start\<close>, the bracket depth and the segment found.\<close>

fun name_loop :: "string \<Rightarrow> nat \<Rightarrow> string \<Rightarrow> nat option \<Rightarrow> int \<Rightarrow> string \<Rightarrow> string" where
  "name_loop full i [] start depth segment = segment"
| "name_loop full i (ch # cs) start depth segment =
     (let start1 = (case start of None \<Rightarrow> i | Some s \<Rightarrow> s)
      in if ch = CHR ''<'' then
           name_loop full (i + 1) cs (Some start1) (depth + 1)
             (if depth = 0 then take (i - start1) (drop start1 full) else segment)
         else if ch = CHR ''>'' then
           name_loop full (i + 1) cs (if depth - 1 = 0 then None else Some start1) (depth - 1) segment
         else name_loop full (i + 1) cs (Some start1) depth segment)"

text \<open>\<open>split("::").last()\<close>: what follows the last separator.\<close>

fun last_segment :: "string \<Rightarrow> string \<Rightarrow> string" where
  "last_segment acc [] = acc"
| "last_segment acc [c] = acc @ [c]"
| "last_segment acc (c # d # cs) =
     (if c = CHR '':'' \<and> d = CHR '':'' then last_segment [] cs else last_segment (acc @ [c]) (d # cs))"

definition get_struct_name :: "string \<Rightarrow> string" where
  "get_struct_name full_name = last_segment [] (name_loop full_name 0 full_name None 0 full_name)"

definition hex_digit :: "nat \<Rightarrow> char" where
  "hex_digit d = (if d < 10 then char_of (48 + d) else char_of (87 + d))"

fun show_hex :: "nat \<Rightarrow> string" where
  "show_hex n = (if n < 16 then [hex_digit n] else show_hex (n div 16) @ [hex_digit (n mod 16)])"

definition get_struct_addr_low :: "usize \<Rightarrow> usize" where
  "get_struct_addr_low addr = addr AND ucast (- 1 :: u32)"

definition format_struct :: "usize \<Rightarrow> string \<Rightarrow> string" where
  "format_struct addr name =
     ''@ '' @ pad_left 8 (CHR ''0'') (show_hex (unat (get_struct_addr_low addr))) @ '' '' @ pad_left 13 (CHR '' '') name"

section \<open>Lines and pieces\<close>

text \<open>What a record looks like: each line behind the prefix and ended.\<close>

fun lines_of :: "string \<Rightarrow> string list" where
  "lines_of [] = []"
| "lines_of (c # cs) =
     (if c = log_newline then [] # lines_of cs else (case lines_of cs of [] \<Rightarrow> [[c]] | l # ls \<Rightarrow> (c # l) # ls))"

definition appends :: "'k put \<Rightarrow> ('k \<Rightarrow> string) \<Rightarrow> bool" where
  "appends put text \<longleftrightarrow> (\<forall>k t. fst (put k t) \<and> text (snd (put k t)) = text k @ t)"

text \<open>The text character by character.\<close>

fun render :: "string \<Rightarrow> bool \<Rightarrow> string \<Rightarrow> string \<times> bool" where
  "render prefix wrote [] = ([], wrote)"
| "render prefix wrote (c # cs) =
     (let (t, w) = render prefix (c \<noteq> log_newline) cs in ((if wrote then [] else prefix) @ c # t, w))"

lemma render_append:
  "render p w (xs @ ys) = (let (t, w1) = render p w xs; (t2, w2) = render p w1 ys in (t @ t2, w2))"
  by (induction xs arbitrary: w) (auto simp: Let_def split: prod.splits)

lemma render_plain: "log_newline \<notin> set xs \<Longrightarrow> xs \<noteq> [] \<Longrightarrow> render p w xs = ((if w then [] else p) @ xs, True)"
proof (induction xs arbitrary: w)
  case (Cons c cs)
  then show ?case by (cases "cs = []") auto
qed simp

lemma put_appends:
  assumes "appends put text"
  obtains k1 where "put k t = (True, k1)" "text k1 = text k @ t"
  using assms unfolding appends_def by (metis prod.collapse)

lemma write_line_renders:
  assumes "appends put text"
  shows "\<exists>k1. write_line put p t (k, w) = (True, (k1, True)) \<and> text k1 = text k @ (if w then [] else p) @ t"
proof -
  obtain k0 where k0: "put k p = (True, k0)" "text k0 = text k @ p" by (rule put_appends[OF assms])
  obtain k1 where k1: "put k t = (True, k1)" "text k1 = text k @ t" by (rule put_appends[OF assms])
  obtain k2 where k2: "put k0 t = (True, k2)" "text k2 = text k0 @ t" by (rule put_appends[OF assms])
  show ?thesis by (cases w) (simp_all add: write_line_def write_prefix_def k0 k1 k2)
qed

text \<open>A line of the split, with its end or the last without one.\<close>

lemma split_lines_concat: "concat (split_lines xs) = xs"
  by (induction xs) (auto split: list.splits)

definition line_ok :: "string \<Rightarrow> bool" where
  "line_ok l \<longleftrightarrow> l \<noteq> [] \<and> log_newline \<notin> set (butlast l)"

lemma split_lines_ok: "l \<in> set (split_lines xs) \<Longrightarrow> line_ok l"
  by (induction xs arbitrary: l) (auto simp: line_ok_def split: list.splits if_splits)

lemma render_line: "line_ok l \<Longrightarrow> render p w l = ((if w then [] else p) @ l, last l \<noteq> log_newline)"
proof -
  assume ok: "line_ok l"
  then obtain xs c where l: "l = xs @ [c]" "log_newline \<notin> set xs" by (cases l rule: rev_cases) (auto simp: line_ok_def)
  show ?thesis using l by (cases "xs = []") (auto simp: render_append render_plain Let_def)
qed

lemma write_lines_render:
  assumes "appends put text" "\<forall>l \<in> set ls. line_ok l"
  shows "\<exists>k1. write_lines put p ls (k, w) = (True, (k1, snd (render p w (concat ls)))) \<and> text k1 = text k @ fst (render p w (concat ls))"
  using assms(2)
proof (induction ls arbitrary: k w)
  case (Cons l ls)
  obtain k1 where k1: "write_line put p l (k, w) = (True, (k1, True))" "text k1 = text k @ (if w then [] else p) @ l"
    using write_line_renders[OF assms(1)] by blast
  obtain k2 where k2: "write_lines put p ls (k1, last l \<noteq> log_newline) = (True, (k2, snd (render p (last l \<noteq> log_newline) (concat ls))))"
    "text k2 = text k1 @ fst (render p (last l \<noteq> log_newline) (concat ls))"
    using Cons.IH[of k1 "last l \<noteq> log_newline"] Cons.prems by (meson list.set_intros(2))
  have "(if last l = log_newline then False else True) = (last l \<noteq> log_newline)" by simp
  then have "write_lines put p (l # ls) (k, w) = (True, (k2, snd (render p (last l \<noteq> log_newline) (concat ls))))"
    using k1 k2 by (simp only: write_lines.simps prod.case bool.case)
  then show ?case using k1(2) k2(2) Cons.prems by (simp add: render_append render_line Let_def case_prod_beta)
qed simp

lemma write_str_renders:
  assumes "appends put text" "t \<noteq> []"
  shows "\<exists>k1. write_str put p t (k, w) = (True, (k1, snd (render p w t))) \<and> text k1 = text k @ fst (render p w t)"
proof (cases "log_newline \<in> set t")
  case True
  then show ?thesis using write_lines_render[OF assms(1), of "split_lines t" p k w] split_lines_ok
    by (auto simp: write_str_def split_lines_concat)
next
  case False
  then show ?thesis using write_line_renders[OF assms(1), of p t k w] assms(2) by (auto simp: write_str_def render_plain)
qed

lemma write_pieces_render:
  assumes "appends put text" "[] \<notin> set ps"
  shows "\<exists>k1. write_pieces put p ps (k, w) = (True, (k1, snd (render p w (concat ps)))) \<and>
    text k1 = text k @ fst (render p w (concat ps))"
  using assms(2)
proof (induction ps arbitrary: k w)
  case (Cons t ts)
  obtain k1 where k1: "write_str put p t (k, w) = (True, (k1, snd (render p w t)))" "text k1 = text k @ fst (render p w t)"
    using write_str_renders[OF assms(1), of t p k w] Cons.prems by auto
  obtain k2 where "write_pieces put p ts (k1, snd (render p w t)) = (True, (k2, snd (render p (snd (render p w t)) (concat ts))))"
    "text k2 = text k1 @ fst (render p (snd (render p w t)) (concat ts))" using Cons by auto
  then show ?case using k1 by (simp add: render_append Let_def case_prod_beta)
qed simp

lemma render_lines:
  "fst (render p w xs) @ (if snd (render p w xs) then [log_newline] else []) =
    (case lines_of xs of
       [] \<Rightarrow> if w then [log_newline] else []
     | l # ls \<Rightarrow> (if w then [] else p) @ l @ log_newline # concat (map (\<lambda>l. p @ l @ [log_newline]) ls))"
proof (induction xs arbitrary: w)
  case (Cons c cs)
  show ?case
  proof (cases "c = log_newline")
    case True
    then show ?thesis using Cons[of False] by (cases "lines_of cs") (simp_all add: Let_def case_prod_beta)
  next
    case False
    then show ?thesis using Cons[of True] by (cases "lines_of cs") (simp_all add: Let_def case_prod_beta)
  qed
qed simp

section \<open>Names\<close>

text \<open>Whether a text after an opening bracket closes that bracket with its last character.\<close>

fun closes :: "nat \<Rightarrow> string \<Rightarrow> bool" where
  "closes d [] = False"
| "closes d (c # cs) =
     (if c = CHR ''<'' then closes (d + 1) cs
      else if c = CHR ''>'' then (if d = 1 then cs = [] else closes (d - 1) cs)
      else closes d cs)"

lemma name_loop_inside: "closes d cs \<Longrightarrow> 0 < d \<Longrightarrow> name_loop full i cs (Some s) (int d) segment = segment"
proof (induction cs arbitrary: d i)
  case (Cons c cs)
  consider "c = CHR ''<''" | "c = CHR ''>''" "d = 1" | "c = CHR ''>''" "d \<noteq> 1" | "c \<noteq> CHR ''<''" "c \<noteq> CHR ''>''" by blast
  then show ?case
  proof cases
    case 1
    then show ?thesis using Cons.IH[of "d + 1" "i + 1"] Cons.prems by (simp add: add.commute)
  next
    case 2
    then show ?thesis using Cons.prems by simp
  next
    case 3
    then have "int d - 1 = int (d - 1)" "int d - 1 \<noteq> 0" "0 < d - 1" using Cons.prems by auto
    then show ?thesis using 3 Cons.IH[of "d - 1" "i + 1"] Cons.prems by simp
  next
    case 4
    then show ?thesis using Cons by simp
  qed
qed simp

lemma name_loop_plain:
  "set xs \<inter> {CHR ''<'', CHR ''>''} = {} \<Longrightarrow>
    name_loop full i (xs @ cs) (Some s) 0 segment = name_loop full (i + length xs) cs (Some s) 0 segment"
  by (induction xs arbitrary: i) auto

lemma last_segment_step: "\<not> (\<exists>cs. xs = CHR '':'' # CHR '':'' # cs) \<Longrightarrow> xs \<noteq> [] \<Longrightarrow> last_segment acc xs = last_segment (acc @ [hd xs]) (tl xs)"
  by (cases "(acc, xs)" rule: last_segment.cases) auto

lemma last_segment_plain: "CHR '':'' \<notin> set xs \<Longrightarrow> last_segment acc xs = acc @ xs"
  by (induction acc xs rule: last_segment.induct) auto

text \<open>A path: its modules, each followed by a separator, and the name.\<close>

definition path_of :: "string list \<Rightarrow> string \<Rightarrow> string" where
  "path_of modules name = concat (map (\<lambda>m. m @ ''::'') modules) @ name"

lemma last_segment_module: "CHR '':'' \<notin> set m \<Longrightarrow> last_segment acc (m @ ''::'' @ cs) = last_segment [] cs"
proof (induction m arbitrary: acc)
  case (Cons c m)
  then show ?case by (cases m) auto
qed simp

lemma last_segment_path:
  "\<forall>m \<in> set modules. CHR '':'' \<notin> set m \<Longrightarrow> CHR '':'' \<notin> set name \<Longrightarrow> last_segment [] (path_of modules name) = name"
  by (induction modules) (simp_all add: path_of_def last_segment_plain last_segment_module[simplified])

section \<open>Properties\<close>

text \<open>On an output that takes everything, a record is written as its lines, each behind one prefix of its level and target and
  ended by a new line, however formatting cuts its text into pieces that are not empty.\<close>

theorem log_writes_prefixed_lines:
  assumes put: "appends put text" and flush: "\<And>k. text (flush k) = text k" and pieces: "[] \<notin> set pieces"
  shows "text (logger_log put flush l target pieces k) =
    text k @ concat (map (\<lambda>line. prefix_text l target @ line @ [log_newline]) (lines_of (concat pieces)))"
proof -
  let ?p = "prefix_text l target"
  obtain k1 where k1: "write_pieces put ?p pieces (k, False) = (True, (k1, snd (render ?p False (concat pieces))))"
    "text k1 = text k @ fst (render ?p False (concat pieces))" using write_pieces_render[OF put pieces] by blast
  obtain k2 where k2: "put k1 [log_newline] = (True, k2)" "text k2 = text k1 @ [log_newline]" by (rule put_appends[OF put])
  have "text (logger_log put flush l target pieces k) =
      text k @ fst (render ?p False (concat pieces)) @ (if snd (render ?p False (concat pieces)) then [log_newline] else [])"
    by (simp add: logger_log_def k1 k2 flush)
  then show ?thesis by (simp add: render_lines split: list.split)
qed

theorem log_writes_prefixed_lines_witness:
  "logger_log (\<lambda>k t. (True, k @ t)) (\<lambda>k. k) LInfo ''net'' [''a'', [log_newline], ''b''] [] =
     prefix_text LInfo ''net'' @ ''a'' @ [log_newline] @ prefix_text LInfo ''net'' @ ''b'' @ [log_newline]"
proof -
  have nl: "CHR ''a'' \<noteq> log_newline" "CHR ''b'' \<noteq> log_newline" by code_simp+
  then have "lines_of [CHR ''a'', log_newline, CHR ''b''] = [''a'', ''b'']" by simp
  then show ?thesis
    using log_writes_prefixed_lines[of "\<lambda>k t. (True, k @ t)" "\<lambda>k. k" "\<lambda>k. k" "[''a'', [log_newline], ''b'']" LInfo "''net''" "[]"]
    by (simp add: appends_def del: lines_of.simps)
qed

text \<open>The name of a generic type is the last segment of its path, whatever its arguments are.\<close>

theorem struct_name_is_last_segment:
  assumes modules: "\<forall>m \<in> set modules. CHR '':'' \<notin> set m" and name: "CHR '':'' \<notin> set name"
    and plain: "set (path_of modules name) \<inter> {CHR ''<'', CHR ''>''} = {}" "path_of modules name \<noteq> []"
    and args: "args = [] \<or> closes 1 args"
  shows "get_struct_name (path_of modules name @ (if args = [] then [] else CHR ''<'' # args)) = name"
proof -
  let ?path = "path_of modules name"
  obtain c cs where path: "?path = c # cs" using plain(2) by (cases ?path) auto
  have c: "c \<noteq> CHR ''<''" "c \<noteq> CHR ''>''" "set cs \<inter> {CHR ''<'', CHR ''>''} = {}" using plain(1) unfolding path by auto
  have "name_loop full 0 (?path @ rest) None 0 full = name_loop full (length ?path) rest (Some 0) 0 full" for full rest
    using c name_loop_plain[OF c(3), of full 1 rest 0 full] by (simp add: path)
  note loop = this
  show ?thesis
  proof (cases "args = []")
    case True
    then show ?thesis using loop[of ?path "[]"] last_segment_path[OF modules name] by (simp add: get_struct_name_def)
  next
    case False
    then have "closes 1 args" using args by simp
    then show ?thesis using False loop[of "?path @ CHR ''<'' # args" "CHR ''<'' # args"] last_segment_path[OF modules name]
        name_loop_inside[of 1 args] by (simp add: get_struct_name_def)
  qed
qed

end
