(* ===== verification/Oneshot.thy ===== *)
theory Oneshot
  imports Atomic_Waiter Mp_Channel
begin

text \<open>
  The single value channel of \<open>src/src/async_std/sync/channel/oneshot.rs\<close>: the calls run alone over
  two \<open>AtomicWaiter\<close>s, and the interleavings of one sender and one receiver at the granularity of
  the shared accesses, from which the guarantee of the module's documentation follows.
\<close>

section \<open>Calls run alone\<close>

record 'a oneshot =
  os_sent :: bool
  os_value :: "'a option"
  os_tx :: "unit atomic_waiter"
  os_rx :: "unit atomic_waiter"

definition oneshot_new :: "'a oneshot" where
  "oneshot_new = \<lparr>os_sent = False, os_value = None, os_tx = aw_new, os_rx = aw_new\<rparr>"

text \<open>The outer option is \<open>None\<close> when an uninitialised value would be read.\<close>

definition try_consume_value :: "'a oneshot \<Rightarrow> ('a option \<times> 'a oneshot) option" where
  "try_consume_value c =
     (if os_sent c then
        (case os_value c of
           None \<Rightarrow> None
         | Some v \<Rightarrow> Some (Some v, c\<lparr>os_sent := False, os_value := None\<rparr>))
      else Some (None, c))"

definition close_tx :: "'a oneshot \<Rightarrow> 'a oneshot" where
  "close_tx c = c\<lparr>os_tx := snd (aw_close (os_tx c) ())\<rparr>"

definition close_rx :: "'a oneshot \<Rightarrow> 'a oneshot" where
  "close_rx c = c\<lparr>os_rx := snd (aw_close (os_rx c) ())\<rparr>"

definition oneshot_close :: "'a oneshot \<Rightarrow> 'a oneshot" where
  "oneshot_close c = close_rx (close_tx c)"

definition os_try_recv :: "'a oneshot \<Rightarrow> ((recv_error, 'a) outcome \<times> 'a oneshot) option" where
  "os_try_recv c =
     (case try_consume_value c of
        None \<Rightarrow> None
      | Some (Some v, c1) \<Rightarrow> Some (Ok v, close_tx c1)
      | Some (None, c1) \<Rightarrow> Some (Err (recv_error_new (aw_is_closed (os_tx c1))), c1))"

definition os_receiver_close :: "'a oneshot \<Rightarrow> 'a oneshot" where
  "os_receiver_close c = oneshot_close c"

definition os_receiver_drop :: "'a oneshot \<Rightarrow> 'a oneshot option" where
  "os_receiver_drop c = map_option snd (try_consume_value (close_tx c))"

definition os_send :: "'a oneshot \<Rightarrow> 'a \<Rightarrow> (('a, unit) outcome \<times> 'a oneshot) option" where
  "os_send c v =
     (let c1 = close_rx (c\<lparr>os_value := Some v, os_sent := True\<rparr>)
      in if \<not> aw_is_closed (os_tx c1) then Some (Ok (), c1)
         else map_option (\<lambda>(r, c2). (case r of None \<Rightarrow> Ok () | Some v \<Rightarrow> Err v, c2)) (try_consume_value c1))"

definition os_is_closed :: "'a oneshot \<Rightarrow> bool" where
  "os_is_closed c = aw_is_closed (os_tx c)"

definition os_sender_drop :: "'a oneshot \<Rightarrow> 'a oneshot" where
  "os_sender_drop c = oneshot_close c"

lemmas oneshot_defs = oneshot_new_def try_consume_value_def close_tx_def close_rx_def
  oneshot_close_def os_try_recv_def os_receiver_close_def os_receiver_drop_def os_send_def
  os_is_closed_def os_sender_drop_def recv_error_new_def

lemma aw_close_closes [simp]: "aw_is_closed (snd (aw_close w v))"
  by (auto simp: aw_defs Let_def split: waiter_slot.splits)

text \<open>A value sent to an open channel is received once; a closed channel hands it back.\<close>

lemma os_send_recv:
  assumes "\<not> os_is_closed c"
  shows "\<exists>c1 c2. os_send c v = Some (Ok (), c1) \<and> os_try_recv c1 = Some (Ok v, c2) \<and> os_is_closed c2 \<and>
    os_try_recv c2 = Some (Err RecvClosed, c2)"
  using assms by (simp add: oneshot_defs)

lemma os_send_closed:
  assumes "os_is_closed c"
  shows "\<exists>c1. os_send c v = Some (Err v, c1) \<and> \<not> os_sent c1"
  using assms by (simp add: oneshot_defs)

section \<open>Interleavings of the sender and the receiver\<close>

text \<open>
  The sender: not called yet, value written, flag stored, receiver's waiter closed, saw the channel
  closed, returned Ok or \<open>Err(value)\<close>; then its drop closes both waiters.
\<close>

datatype send_pc = SNew | SWritten | SStored | SNotified | SSwap | SOk | SErr | SGone

text \<open>
  The receiver: between calls, in \<open>try_recv\<close> after the swap found no value or found it, in \<open>close\<close>
  after the first half, in \<open>drop\<close>, gone.
\<close>

datatype rcv_pc = RIdle | RMissed | RFound | RClosing | RDropping | RGone

text \<open>
  Where the value is: not sent, in the cell with the flag set, received by a \<open>try_recv\<close>, handed back
  by \<open>send\<close>, or dropped by the receiver's drop.
\<close>

datatype place = Unsent | InCell | Received | HandedBack | DroppedIt

text \<open>
  \<open>x_place\<close>, \<open>closed_first\<close> and \<open>tried\<close> only record what happened: \<open>closed_first\<close> that
  \<open>Receiver::close\<close> finished, \<open>tried\<close> that a \<open>try_recv\<close> that began after it made its swap.
\<close>

record os_sys =
  s_pc :: send_pc
  r_pc :: rcv_pc
  x_written :: bool
  x_sent :: bool
  x_tx_closed :: bool
  x_rx_closed :: bool
  x_place :: place
  sent_ok :: bool
  closed_first :: bool
  tried :: bool
  last_recv :: "recv_error option"

definition os_initial :: os_sys where
  "os_initial = \<lparr>s_pc = SNew, r_pc = RIdle, x_written = False, x_sent = False, x_tx_closed = False,
     x_rx_closed = False, x_place = Unsent, sent_ok = False, closed_first = False, tried = False,
     last_recv = None\<rparr>"

text \<open>The swap of \<open>sent\<close> with false: the value moves to \<open>p\<close> if the flag was set.\<close>

definition os_take :: "place \<Rightarrow> os_sys \<Rightarrow> os_sys" where
  "os_take p s = (if x_sent s then s\<lparr>x_sent := False, x_place := p\<rparr> else s)"

inductive os_step :: "os_sys \<Rightarrow> os_sys \<Rightarrow> bool" where
  os_write: "s_pc s = SNew \<Longrightarrow> os_step s (s\<lparr>s_pc := SWritten, x_written := True\<rparr>)"
| os_store: "s_pc s = SWritten \<Longrightarrow> os_step s (s\<lparr>s_pc := SStored, x_sent := True, x_place := InCell\<rparr>)"
| os_notify: "s_pc s = SStored \<Longrightarrow> os_step s (s\<lparr>s_pc := SNotified, x_rx_closed := True\<rparr>)"
| os_check_open: "s_pc s = SNotified \<Longrightarrow> \<not> x_tx_closed s \<Longrightarrow> os_step s (s\<lparr>s_pc := SOk, sent_ok := True\<rparr>)"
| os_check_closed: "s_pc s = SNotified \<Longrightarrow> x_tx_closed s \<Longrightarrow> os_step s (s\<lparr>s_pc := SSwap\<rparr>)"
| os_take_back: "s_pc s = SSwap \<Longrightarrow> x_sent s \<Longrightarrow> os_step s (os_take HandedBack (s\<lparr>s_pc := SErr\<rparr>))"
| os_taken: "s_pc s = SSwap \<Longrightarrow> \<not> x_sent s \<Longrightarrow> os_step s (s\<lparr>s_pc := SOk, sent_ok := True\<rparr>)"
| os_sdrop: "s_pc s \<in> {SNew, SOk, SErr} \<Longrightarrow>
    os_step s (s\<lparr>s_pc := SGone, x_tx_closed := True, x_rx_closed := True\<rparr>)"
| os_rswap: "r_pc s = RIdle \<Longrightarrow>
    os_step s (os_take Received (s\<lparr>r_pc := (if x_sent s then RFound else RMissed),
      tried := (tried s \<or> closed_first s)\<rparr>))"
| os_rmissed: "r_pc s = RMissed \<Longrightarrow>
    os_step s (s\<lparr>r_pc := RIdle, last_recv := Some (recv_error_new (x_tx_closed s))\<rparr>)"
| os_rfound: "r_pc s = RFound \<Longrightarrow> os_step s (s\<lparr>r_pc := RIdle, x_tx_closed := True, last_recv := None\<rparr>)"
| os_rclose: "r_pc s = RIdle \<Longrightarrow> os_step s (s\<lparr>r_pc := RClosing, x_tx_closed := True\<rparr>)"
| os_rclosed: "r_pc s = RClosing \<Longrightarrow>
    os_step s (s\<lparr>r_pc := RIdle, x_rx_closed := True, closed_first := True\<rparr>)"
| os_rdrop: "r_pc s = RIdle \<Longrightarrow> os_step s (s\<lparr>r_pc := RDropping, x_tx_closed := True\<rparr>)"
| os_rgone: "r_pc s = RDropping \<Longrightarrow> os_step s (os_take DroppedIt (s\<lparr>r_pc := RGone\<rparr>))"

text \<open>
  Where the value can be, by the sender's place in the code; whether it is written and whether \<open>send\<close>
  returned Ok.
\<close>

definition on_its_way :: "place \<Rightarrow> bool" where
  "on_its_way p \<longleftrightarrow> p \<in> {InCell, Received, DroppedIt}"

fun place_ok :: "send_pc \<Rightarrow> place \<Rightarrow> bool \<Rightarrow> bool \<Rightarrow> bool" where
  "place_ok SNew p w k = (p = Unsent \<and> \<not> k)"
| "place_ok SWritten p w k = (p = Unsent \<and> w \<and> \<not> k)"
| "place_ok SStored p w k = (on_its_way p \<and> w \<and> \<not> k)"
| "place_ok SNotified p w k = (on_its_way p \<and> w \<and> \<not> k)"
| "place_ok SSwap p w k = (on_its_way p \<and> w \<and> \<not> k)"
| "place_ok SOk p w k = (on_its_way p \<and> w \<and> k)"
| "place_ok SErr p w k = (p = HandedBack \<and> w \<and> \<not> k)"
| "place_ok SGone p w k = (if k then on_its_way p \<and> w else p = Unsent \<or> p = HandedBack \<and> w)"

definition os_place_inv :: "os_sys \<Rightarrow> bool" where
  "os_place_inv s \<longleftrightarrow> (x_sent s \<longleftrightarrow> x_place s = InCell) \<and>
     place_ok (s_pc s) (x_place s) (x_written s) (sent_ok s) \<and> (x_place s = DroppedIt \<longrightarrow> r_pc s = RGone)"

text \<open>
  When a receiver that closed first has tried, a value still in the cell belongs to a sender that will
  look again.
\<close>

definition os_close_inv :: "os_sys \<Rightarrow> bool" where
  "os_close_inv s \<longleftrightarrow> (closed_first s \<longrightarrow> x_tx_closed s) \<and> (tried s \<longrightarrow> closed_first s) \<and>
     (r_pc s = RClosing \<longrightarrow> x_tx_closed s) \<and> (tried s \<and> x_sent s \<longrightarrow> s_pc s \<in> {SStored, SNotified, SSwap})"

definition os_inv :: "os_sys \<Rightarrow> bool" where
  "os_inv s \<longleftrightarrow> os_place_inv s \<and> os_close_inv s"

lemma on_its_way_simps [simp]:
  "on_its_way InCell" "on_its_way Received" "on_its_way DroppedIt" "\<not> on_its_way Unsent" "\<not> on_its_way HandedBack"
  by (simp_all add: on_its_way_def)

lemma place_ok_InCell: "place_ok pc InCell w k \<Longrightarrow> p \<in> {Received, DroppedIt} \<Longrightarrow> place_ok pc p w k"
  by (cases pc) (auto split: if_splits)

lemma os_place_step:
  assumes i: "os_place_inv s"
    and st: "os_step s t"
  shows "os_place_inv t"
  using st
proof cases
  case os_write
  then show ?thesis using i unfolding os_place_inv_def os_take_def by simp
next
  case os_store
  then show ?thesis using i unfolding os_place_inv_def os_take_def by simp
next
  case os_notify
  then show ?thesis using i unfolding os_place_inv_def os_take_def by simp
next
  case os_check_open
  then show ?thesis using i unfolding os_place_inv_def os_take_def by simp
next
  case os_check_closed
  then show ?thesis using i unfolding os_place_inv_def os_take_def by simp
next
  case os_take_back
  then show ?thesis using i unfolding os_place_inv_def os_take_def by simp
next
  case os_taken
  then show ?thesis using i unfolding os_place_inv_def os_take_def by simp
next
  case os_sdrop
  then show ?thesis using i unfolding os_place_inv_def by auto
next
  case os_rswap
  then show ?thesis using i place_ok_InCell[of "s_pc s" "x_written s" "sent_ok s"] unfolding os_place_inv_def os_take_def by (cases "x_sent s") auto
next
  case os_rmissed
  then show ?thesis using i unfolding os_place_inv_def os_take_def by simp
next
  case os_rfound
  then show ?thesis using i unfolding os_place_inv_def os_take_def by simp
next
  case os_rclose
  then show ?thesis using i unfolding os_place_inv_def os_take_def by simp
next
  case os_rclosed
  then show ?thesis using i unfolding os_place_inv_def os_take_def by simp
next
  case os_rdrop
  then show ?thesis using i unfolding os_place_inv_def os_take_def by simp
next
  case os_rgone
  then show ?thesis using i place_ok_InCell[of "s_pc s" "x_written s" "sent_ok s"] unfolding os_place_inv_def os_take_def by (cases "x_sent s") auto
qed

lemma os_close_step:
  assumes i: "os_close_inv s"
    and st: "os_step s t"
  shows "os_close_inv t"
  using st
proof cases
  case os_write
  then show ?thesis using i unfolding os_close_inv_def os_take_def by auto
next
  case os_store
  then show ?thesis using i unfolding os_close_inv_def os_take_def by auto
next
  case os_notify
  then show ?thesis using i unfolding os_close_inv_def os_take_def by auto
next
  case os_check_open
  then show ?thesis using i unfolding os_close_inv_def os_take_def by auto
next
  case os_check_closed
  then show ?thesis using i unfolding os_close_inv_def os_take_def by auto
next
  case os_take_back
  then show ?thesis using i unfolding os_close_inv_def os_take_def by auto
next
  case os_taken
  then show ?thesis using i unfolding os_close_inv_def os_take_def by auto
next
  case os_sdrop
  then show ?thesis using i unfolding os_close_inv_def os_take_def by auto
next
  case os_rswap
  then show ?thesis using i unfolding os_close_inv_def os_take_def by auto
next
  case os_rmissed
  then show ?thesis using i unfolding os_close_inv_def os_take_def by auto
next
  case os_rfound
  then show ?thesis using i unfolding os_close_inv_def os_take_def by auto
next
  case os_rclose
  then show ?thesis using i unfolding os_close_inv_def os_take_def by auto
next
  case os_rclosed
  then show ?thesis using i unfolding os_close_inv_def os_take_def by auto
next
  case os_rdrop
  then show ?thesis using i unfolding os_close_inv_def os_take_def by auto
next
  case os_rgone
  then show ?thesis using i unfolding os_close_inv_def os_take_def by auto
qed

interpretation oneshot: transition_invariant "\<lambda>s. s = os_initial" os_step os_inv
proof
  show "s = os_initial \<Longrightarrow> os_inv s" for s
    by (simp add: os_initial_def os_inv_def os_place_inv_def os_close_inv_def)
  show "os_inv s \<Longrightarrow> os_step s t \<Longrightarrow> os_inv t" for s t
    unfolding os_inv_def using os_place_step os_close_step by blast
qed

section \<open>Properties\<close>


text \<open>A run in which the receiver closes and tries before the sender stores its value.\<close>

definition os_raced :: os_sys where
  "os_raced = \<lparr>s_pc = SErr, r_pc = RIdle, x_written = True, x_sent = False, x_tx_closed = True,
     x_rx_closed = True, x_place = HandedBack, sent_ok = False, closed_first = True, tried = True,
     last_recv = Some RecvClosed\<rparr>"

lemma os_raced_reach: "os_step\<^sup>*\<^sup>* os_initial os_raced"
proof -
  let ?s = "\<lambda>p r w sent rx pl t l. \<lparr>s_pc = p, r_pc = r, x_written = w, x_sent = sent, x_tx_closed = True,
     x_rx_closed = rx, x_place = pl, sent_ok = False, closed_first = rx, tried = t, last_recv = l\<rparr>"
  note go = rtranclp.rtrancl_into_rtrancl[of os_step]
  have "os_step\<^sup>*\<^sup>* os_initial os_initial" by simp
  from go[OF this os_rclose] have "os_step\<^sup>*\<^sup>* os_initial (?s SNew RClosing False False False Unsent False None)"
    by (simp add: os_initial_def)
  from go[OF this os_rclosed] have "os_step\<^sup>*\<^sup>* os_initial (?s SNew RIdle False False True Unsent False None)" by simp
  from go[OF this os_rswap] have "os_step\<^sup>*\<^sup>* os_initial (?s SNew RMissed False False True Unsent True None)"
    by (simp add: os_take_def)
  from go[OF this os_rmissed]
  have "os_step\<^sup>*\<^sup>* os_initial (?s SNew RIdle False False True Unsent True (Some RecvClosed))"
    by (simp add: recv_error_new_def)
  from go[OF this os_write]
  have "os_step\<^sup>*\<^sup>* os_initial (?s SWritten RIdle True False True Unsent True (Some RecvClosed))" by simp
  from go[OF this os_store]
  have "os_step\<^sup>*\<^sup>* os_initial (?s SStored RIdle True True True InCell True (Some RecvClosed))" by simp
  from go[OF this os_notify]
  have "os_step\<^sup>*\<^sup>* os_initial (?s SNotified RIdle True True True InCell True (Some RecvClosed))" by simp
  from go[OF this os_check_closed]
  have "os_step\<^sup>*\<^sup>* os_initial (?s SSwap RIdle True True True InCell True (Some RecvClosed))" by simp
  from go[OF this os_take_back] show ?thesis by (simp add: os_take_def os_raced_def)
qed


text \<open>No interleaving of a oneshot's sender and receiver reads a value before it was written, and the
  value is consumed at most once: if send returned Ok it is never handed back, if send returned the
  value no receive got it.\<close>

theorem oneshot_consumes_once:
  assumes "os_step\<^sup>*\<^sup>* os_initial s"
  shows "(x_sent s \<longrightarrow> x_written s) \<and> (sent_ok s \<longrightarrow> x_place s \<noteq> HandedBack) \<and>
    (s_pc s = SErr \<longrightarrow> x_place s \<noteq> Received) \<and> (x_place s \<noteq> Unsent \<longrightarrow> x_written s)"
proof -
  have "os_inv s" using oneshot.steps_inv[OF _ assms(1)] oneshot.start_inv by blast
  then show ?thesis
    by (cases "s_pc s"; cases "x_place s") (auto simp: os_inv_def os_place_inv_def split: if_splits)
qed

theorem oneshot_consumes_once_witness: "x_place os_raced \<noteq> Received"
  using oneshot_consumes_once[OF os_raced_reach] by (simp add: os_raced_def)

text \<open>Run alone, a value sent on an open oneshot is received exactly once and the channel is closed
  from then on; sending on a closed one hands the value back and leaves nothing behind.\<close>

theorem oneshot_send_recv:
  "if os_is_closed c then \<exists>c1. os_send c v = Some (Err v, c1) \<and> \<not> os_sent c1
   else \<exists>c1 c2. os_send c v = Some (Ok (), c1) \<and> os_try_recv c1 = Some (Ok v, c2) \<and>
     os_try_recv c2 = Some (Err RecvClosed, c2)"
  using os_send_recv[of c v] os_send_closed[of c v] by auto

end
