(* ===== verification/Select_Macro.thy ===== *)
theory Select_Macro
  imports Branch "HOL-Library.Multiset"
begin

text \<open>
  The expansion of \<open>select!\<close>, \<open>src/macros/src/asynchronous/branch.rs\<close>: the generator builds a tree of binary branches over
  the futures of the tasks, and with it the code that takes the result of the tree apart. Both are kept as the generator builds them, with
  the futures in a queue; the generated code has a meaning on the values the branches give. An argument of the macro is what parsing gives.
  Shown: for any number of tasks the generator ends, each task is run by exactly one branch, each branch is declared before it is used and run
  once, and the generated code gives the value of the task the winning flags lead to, after resuming every panic of the others.
\<close>

section \<open>Generated code\<close>

text \<open>A future: the variable of a task, or running a branch variable. The code that maps a result: for the future that won and for the other.\<close>

datatype fut = FutVar nat | RunBranch nat

datatype code =
    AssignVariant nat
  | MatchSelect code code code code
  | DropOther
  | SplitOther code code

type_synonym entry = "fut \<times> code \<times> code"

type_synonym branch_var = "nat \<times> fut \<times> fut"

definition task_entry :: "nat \<Rightarrow> entry" where
  "task_entry i = (FutVar i, AssignVariant i, DropOther)"

text \<open>
  One step of the inner loop: two entries are taken from the front, a branch variable is declared, and its entry goes to the back. Unwrapping
  an empty queue is a panic, \<open>None\<close>.
\<close>

fun pair_up :: "nat \<Rightarrow> nat \<times> entry list \<times> branch_var list \<Rightarrow> (nat \<times> entry list \<times> branch_var list) option" where
  "pair_up 0 s = Some s"
| "pair_up (Suc k) (b, (fut_a, first_a, second_a) # (fut_b, first_b, second_b) # q, vars) =
     pair_up k
       (b + 1,
        q @ [(RunBranch b, MatchSelect first_a second_b first_b second_a, SplitOther second_a second_b)],
        vars @ [(b, fut_a, fut_b)])"
| "pair_up (Suc k) (b, _, vars) = None"

definition reduce_round :: "nat \<times> entry list \<times> branch_var list \<Rightarrow> (nat \<times> entry list \<times> branch_var list) option" where
  "reduce_round s =
     (let len = length (fst (snd s))
      in case pair_up (len div 2) s of
           None \<Rightarrow> None
         | Some (b, q, vars) \<Rightarrow>
             if len mod 2 \<noteq> 0 then (case q of [] \<Rightarrow> None | fut # q1 \<Rightarrow> Some (b, q1 @ [fut], vars))
             else Some (b, q, vars))"

lemma pair_up_length: "pair_up k (b, q, vars) = Some (b1, q1, vars1) \<Longrightarrow> length q1 + k = length q"
proof (induction k "(b, q, vars)" arbitrary: b q vars rule: pair_up.induct)
  case (2 k b fut_a first_a second_a fut_b first_b second_b q vars)
  then show ?case by fastforce
qed simp_all

lemma round_length:
  assumes "reduce_round (b, q, vars) = Some (b1, q1, vars1)"
  shows "length q1 = length q - length q div 2"
  using assms
  by (auto simp: reduce_round_def Let_def dest!: pair_up_length split: option.splits prod.splits if_splits list.splits)

function reduce :: "nat \<times> entry list \<times> branch_var list \<Rightarrow> (nat \<times> entry list \<times> branch_var list) option" where
  "reduce (b, q, vars) =
     (if 2 \<le> length q then Option.bind (reduce_round (b, q, vars)) reduce else Some (b, q, vars))"
  by pat_completeness auto
termination
proof (relation "measure (\<lambda>(b, q, vars). length q)", simp)
  fix b q vars x assume "2 \<le> length q" "reduce_round (b, q, vars) = Some x"
  then show "(x, b, q, vars) \<in> measure (\<lambda>(b, q, vars). length q)"
    by (cases x) (auto dest!: round_length)
qed

text \<open>The expansion: the branch variables, the future that is blocked on and the code that maps its result.\<close>

definition branch_expand :: "nat \<Rightarrow> (branch_var list \<times> fut \<times> code) option" where
  "branch_expand n =
     (case reduce (0, map task_entry [0..<n], []) of
        Some (_, (fut, code, _) # _, vars) \<Rightarrow> Some (vars, fut, code)
      | _ \<Rightarrow> None)"

section \<open>What the macro is given\<close>

text \<open>A branch of the macro: a pattern, a task or none, a guard or none and a handler.\<close>

record ('p, 'g, 'h) select_branch =
  sb_pat :: 'p
  sb_task :: bool
  sb_guard :: "'g option"
  sb_handler :: 'h

text \<open>The arms of the final match: a pattern within a variant of the result type, or a pattern alone.\<close>

datatype ('p, 'g, 'h) select_arm = VariantArm nat 'p "'g option" 'h | PatArm 'p "'g option" 'h

fun select_arms :: "nat \<Rightarrow> ('p, 'g, 'h) select_branch list \<Rightarrow> ('p, 'g, 'h) select_arm list" where
  "select_arms i [] = []"
| "select_arms i (b # bs) =
     (if sb_task b then VariantArm i (sb_pat b) (sb_guard b) (sb_handler b) # select_arms (i + 1) bs
      else PatArm (sb_pat b) (sb_guard b) (sb_handler b) # select_arms i bs)"

datatype select_error = TooFewBranches

definition select_expand ::
  "('p, 'g, 'h) select_branch list \<Rightarrow> (select_error, (branch_var list \<times> fut \<times> code) \<times> ('p, 'g, 'h) select_arm list) outcome" where
  "select_expand branches =
     (let n = length (filter sb_task branches)
      in if n < 2 then Err TooFewBranches
         else (case branch_expand n of None \<Rightarrow> Panic | Some e \<Rightarrow> Ok (e, select_arms 0 branches)))"

section \<open>What the code means\<close>

text \<open>
  A result: of a task, that returned or panicked, or of a branch, with the flag and the results of its futures. \<open>None\<close> at the outside of
  what running gives is code that does not fit its value, or a broken promise.
\<close>

datatype 'v out = TaskOut "'v option" | BranchOut bool "'v out option option" "'v out option option"

type_synonym 'a ran = "(unit, 'a) outcome option"

definition ran_then :: "'a ran \<Rightarrow> ('a \<Rightarrow> 'b ran) \<Rightarrow> 'b ran" where
  "ran_then r f = (case r of None \<Rightarrow> None | Some (Ok a) \<Rightarrow> f a | Some (Err e) \<Rightarrow> Some (Err e) | Some Panic \<Rightarrow> Some Panic)"

fun run_second_code :: "code \<Rightarrow> 'v out option \<Rightarrow> unit ran" where
  "run_second_code DropOther None = Some (Ok ())"
| "run_second_code DropOther (Some (TaskOut r)) = Some (map_outcome_ok (\<lambda>_. ()) (resume r))"
| "run_second_code (SplitOther sa sb) None = Some (Ok ())"
| "run_second_code (SplitOther sa sb) (Some (BranchOut _ x y)) =
     ran_then (Some (resume_opt x)) (\<lambda>other.
     ran_then (run_second_code sa other) (\<lambda>_.
     ran_then (Some (resume_opt y)) (\<lambda>other1. run_second_code sb other1)))"
| "run_second_code _ _ = None"

fun run_first_code :: "code \<Rightarrow> 'v out \<Rightarrow> (nat \<times> 'v) ran" where
  "run_first_code (AssignVariant i) (TaskOut r) = Some (map_outcome_ok (\<lambda>v. (i, v)) (resume r))"
| "run_first_code (MatchSelect fa sb fb sa) (BranchOut is_first x y) =
     ran_then (select_from_branch (is_first, x, y)) (\<lambda>sel.
       (case sel of
          First result other \<Rightarrow>
            ran_then (run_first_code fa result) (\<lambda>v. ran_then (run_second_code sb other) (\<lambda>_. Some (Ok v)))
        | Second result other \<Rightarrow>
            ran_then (run_first_code fb result) (\<lambda>v. ran_then (run_second_code sa other) (\<lambda>_. Some (Ok v)))))"
| "run_first_code _ _ = None"

text \<open>The final match: the first arm that takes the value, with parameters for matching a pattern and evaluating a guard.\<close>

fun run_arms ::
  "('p \<Rightarrow> 'v \<Rightarrow> bool) \<Rightarrow> ('p \<Rightarrow> nat \<times> 'v \<Rightarrow> bool) \<Rightarrow> ('g \<Rightarrow> 'v \<Rightarrow> bool) \<Rightarrow> ('p, 'g, 'h) select_arm list \<Rightarrow> nat \<times> 'v \<Rightarrow> 'h option" where
  "run_arms m mw g [] r = None"
| "run_arms m mw g (VariantArm i p gd h # arms) r =
     (if i = fst r \<and> m p (snd r) \<and> (case gd of None \<Rightarrow> True | Some e \<Rightarrow> g e (snd r)) then Some h else run_arms m mw g arms r)"
| "run_arms m mw g (PatArm p gd h # arms) r =
     (if mw p r \<and> (case gd of None \<Rightarrow> True | Some e \<Rightarrow> g e (snd r)) then Some h else run_arms m mw g arms r)"

section \<open>The tree\<close>

datatype task_tree = Leaf nat | Node task_tree task_tree

fun tasks_of :: "task_tree \<Rightarrow> nat list" where
  "tasks_of (Leaf i) = [i]"
| "tasks_of (Node a b) = tasks_of a @ tasks_of b"

text \<open>What running a future of the expansion runs.\<close>

inductive denotes :: "branch_var list \<Rightarrow> fut \<Rightarrow> task_tree \<Rightarrow> bool" for vars where
  denotes_task: "denotes vars (FutVar i) (Leaf i)"
| denotes_branch: "denotes vars (RunBranch b) (Node ta tb)" if "(b, fa, fb) \<in> set vars" "denotes vars fa ta" "denotes vars fb tb"

text \<open>The results a tree of selects can give, whether nothing in them panicked, and the value the winning flags lead to.\<close>

fun fits :: "task_tree \<Rightarrow> 'v out \<Rightarrow> bool" where
  "fits (Leaf i) (TaskOut r) = True"
| "fits (Node a b) (BranchOut is_first x y) =
     ((case x of Some (Some o1) \<Rightarrow> fits a o1 | _ \<Rightarrow> True) \<and> (case y of Some (Some o2) \<Rightarrow> fits b o2 | _ \<Rightarrow> True) \<and>
      (if is_first then x \<noteq> None else y \<noteq> None))"
| "fits _ _ = False"

fun calm :: "task_tree \<Rightarrow> 'v out \<Rightarrow> bool" where
  "calm (Leaf i) (TaskOut r) = (r \<noteq> None)"
| "calm (Node a b) (BranchOut is_first x y) =
     ((case x of None \<Rightarrow> True | Some None \<Rightarrow> False | Some (Some o1) \<Rightarrow> calm a o1) \<and>
      (case y of None \<Rightarrow> True | Some None \<Rightarrow> False | Some (Some o2) \<Rightarrow> calm b o2))"
| "calm _ _ = False"

fun winner :: "task_tree \<Rightarrow> 'v out \<Rightarrow> (nat \<times> 'v) option" where
  "winner (Leaf i) (TaskOut r) = map_option (\<lambda>v. (i, v)) r"
| "winner (Node a b) (BranchOut is_first x y) =
     (if is_first then (case x of Some (Some o1) \<Rightarrow> winner a o1 | _ \<Rightarrow> None)
      else (case y of Some (Some o2) \<Rightarrow> winner b o2 | _ \<Rightarrow> None))"
| "winner _ _ = None"

fun first_code :: "task_tree \<Rightarrow> code" and second_code :: "task_tree \<Rightarrow> code" where
  "first_code (Leaf i) = AssignVariant i"
| "first_code (Node a b) = MatchSelect (first_code a) (second_code b) (first_code b) (second_code a)"
| "second_code (Leaf i) = DropOther"
| "second_code (Node a b) = SplitOther (second_code a) (second_code b)"

lemma ran_then_simps [simp]:
  "ran_then None f = None" "ran_then (Some (Ok a)) f = f a" "ran_then (Some (Err e)) f = Some (Err e)" "ran_then (Some Panic) f = Some Panic"
  by (simp_all add: ran_then_def)

lemma resume_simps [simp]: "resume None = Panic" "resume (Some v) = Ok v"
  "resume_opt None = Ok None" "resume_opt (Some None) = Panic" "resume_opt (Some (Some v)) = Ok (Some v)"
  by (simp_all add: resume_def resume_opt_def)

lemma side_cases: "(x = None \<Longrightarrow> P) \<Longrightarrow> (x = Some None \<Longrightarrow> P) \<Longrightarrow> (\<And>v. x = Some (Some v) \<Longrightarrow> P) \<Longrightarrow> P"
  by (cases x) auto

lemma second_none: "run_second_code (second_code t) None = Some (Ok ())"
  by (cases t) simp_all

lemma second_runs: "fits t o1 \<Longrightarrow> run_second_code (second_code t) (Some o1) = Some (if calm t o1 then Ok () else Panic)"
proof (induction t arbitrary: o1)
  case (Leaf i)
  then show ?case by (cases o1) (auto simp: resume_def split: option.splits)
next
  case (Node a b)
  then obtain f x y where o1: "o1 = BranchOut f x y" by (cases o1) auto
  have a: "x = Some (Some v) \<Longrightarrow> run_second_code (second_code a) (Some v) = Some (if calm a v then Ok () else Panic)" for v
    using Node o1 by auto
  have b: "y = Some (Some v) \<Longrightarrow> run_second_code (second_code b) (Some v) = Some (if calm b v then Ok () else Panic)" for v
    using Node o1 by auto
  show ?case by (cases x rule: side_cases; cases y rule: side_cases) (simp_all add: o1 a b second_none)
qed

lemma first_runs:
  "fits t o1 \<Longrightarrow> run_first_code (first_code t) o1 = Some (if calm t o1 then Ok (the (winner t o1)) else Panic)"
proof (induction t arbitrary: o1)
  case (Leaf i)
  then show ?case by (cases o1) (auto simp: resume_def split: option.splits)
next
  case (Node a b)
  then obtain f x y where o1: "o1 = BranchOut f x y" by (cases o1) auto
  have a: "x = Some (Some v) \<Longrightarrow> run_first_code (first_code a) v = Some (if calm a v then Ok (the (winner a v)) else Panic)"
    "x = Some (Some v) \<Longrightarrow> run_second_code (second_code a) (Some v) = Some (if calm a v then Ok () else Panic)" for v
    using Node o1 by (auto simp: second_runs)
  have b: "y = Some (Some v) \<Longrightarrow> run_first_code (first_code b) v = Some (if calm b v then Ok (the (winner b v)) else Panic)"
    "y = Some (Some v) \<Longrightarrow> run_second_code (second_code b) (Some v) = Some (if calm b v then Ok () else Panic)" for v
    using Node o1 by (auto simp: second_runs)
  have "f \<Longrightarrow> x \<noteq> None" "\<not> f \<Longrightarrow> y \<noteq> None" using Node.prems o1 by (simp_all split: if_splits)
  then show ?case
    by (cases f; cases x rule: side_cases; cases y rule: side_cases)
      (simp_all add: o1 a b second_none select_from_branch_def)
qed

lemma calm_winner: "fits t o1 \<Longrightarrow> calm t o1 \<Longrightarrow> \<exists>i v. winner t o1 = Some (i, v) \<and> i \<in> set (tasks_of t)"
proof (induction t o1 rule: fits.induct)
  case (2 a b is_first x y)
  then show ?case by (cases is_first; cases x rule: side_cases; cases y rule: side_cases) auto
qed auto

section \<open>The queue\<close>

text \<open>What holds of the generator between steps, for \<open>n\<close> tasks.\<close>

definition futs_of :: "branch_var list \<Rightarrow> fut multiset" where
  "futs_of vars = (\<Sum>(b, fa, fb) \<in># mset vars. {#fa, fb#})"

definition ordered :: "branch_var list \<Rightarrow> bool" where
  "ordered vars = (\<forall>(b, fa, fb) \<in> set vars. \<forall>k. RunBranch k \<in> {fa, fb} \<longrightarrow> k < b)"

definition entry_tree :: "branch_var list \<Rightarrow> entry \<Rightarrow> task_tree \<Rightarrow> bool" where
  "entry_tree vars e t \<longleftrightarrow> denotes vars (fst e) t \<and> snd e = (first_code t, second_code t)"

definition queue_ok :: "nat \<Rightarrow> nat \<times> entry list \<times> branch_var list \<Rightarrow> bool" where
  "queue_ok n s = (case s of (b, q, vars) \<Rightarrow>
     map fst vars = [0..<b] \<and> ordered vars \<and> length q + b = n \<and>
     (\<exists>ts. list_all2 (entry_tree vars) q ts \<and> mset (concat (map tasks_of ts)) = mset [0..<n]) \<and>
     mset (map fst q) + futs_of vars = mset (map FutVar [0..<n]) + mset (map RunBranch [0..<b]))"

lemma denotes_more: "denotes vars f t \<Longrightarrow> set vars \<subseteq> set vars1 \<Longrightarrow> denotes vars1 f t"
  by (induction rule: denotes.induct) (auto intro: denotes.intros)

lemma entry_tree_more: "entry_tree vars e t \<Longrightarrow> set vars \<subseteq> set vars1 \<Longrightarrow> entry_tree vars1 e t"
  unfolding entry_tree_def using denotes_more by blast

lemma queue_start: "queue_ok n (0, map task_entry [0..<n], [])"
proof -
  have "map fst (map task_entry [0..<n]) = map FutVar [0..<n]" by (simp add: task_entry_def)
  moreover have "list_all2 (entry_tree []) (map task_entry [0..<n]) (map Leaf [0..<n])"
    by (simp add: list_all2_conv_all_nth entry_tree_def task_entry_def denotes_task)
  moreover have "concat (map tasks_of (map Leaf [0..<n])) = [0..<n]" by (simp add: comp_def)
  ultimately have "\<exists>ts. list_all2 (entry_tree []) (map task_entry [0..<n]) ts \<and> mset (concat (map tasks_of ts)) = mset [0..<n]"
    by metis
  with \<open>map fst _ = _\<close> show ?thesis by (simp add: queue_ok_def ordered_def futs_of_def del: map_map mset_map)
qed

lemma queue_join:
  assumes ok: "queue_ok n (b, (fa, ca, sa) # (fb, cb, sb) # q, vars)"
  shows "queue_ok n (b + 1, q @ [(RunBranch b, MatchSelect ca sb cb sa, SplitOther sa sb)], vars @ [(b, fa, fb)])"
proof -
  let ?vars = "vars @ [(b, fa, fb)]"
  from ok have "\<exists>ts. list_all2 (entry_tree vars) ((fa, ca, sa) # (fb, cb, sb) # q) ts \<and> mset (concat (map tasks_of ts)) = mset [0..<n]"
    and names: "map fst vars = [0..<b]" and len: "length q + 2 + b = n" and ord: "ordered vars"
    and futs: "{#fa, fb#} + mset (map fst q) + futs_of vars = mset (map FutVar [0..<n]) + mset (map RunBranch [0..<b])"
    by (simp_all add: queue_ok_def)
  then obtain ta tb ts where e: "entry_tree vars (fa, ca, sa) ta" "entry_tree vars (fb, cb, sb) tb" "list_all2 (entry_tree vars) q ts"
    and tasks: "mset (concat (map tasks_of (ta # tb # ts))) = mset [0..<n]" by (auto simp: list_all2_Cons1)
  have "k < b" if "RunBranch k \<in> {fa, fb}" for k
  proof -
    from that have "RunBranch k \<in># {#fa, fb#} + mset (map fst q) + futs_of vars" by auto
    then show ?thesis unfolding futs by auto
  qed
  with ord have "ordered ?vars" by (auto simp: ordered_def)
  moreover have "\<exists>ts. list_all2 (entry_tree ?vars) (q @ [(RunBranch b, MatchSelect ca sb cb sa, SplitOther sa sb)]) ts \<and>
      mset (concat (map tasks_of ts)) = mset [0..<n]"
  proof (intro exI conjI)
    have "denotes ?vars fa ta" "denotes ?vars fb tb" using e(1,2) by (auto simp: entry_tree_def intro: denotes_more)
    then have "denotes ?vars (RunBranch b) (Node ta tb)" by (intro denotes_branch[where fa = fa and fb = fb]) simp_all
    then have "entry_tree ?vars (RunBranch b, MatchSelect ca sb cb sa, SplitOther sa sb) (Node ta tb)"
      using e(1,2) by (simp add: entry_tree_def)
    moreover have "list_all2 (entry_tree ?vars) q ts" using e(3) by (rule list_all2_mono) (auto intro: entry_tree_more)
    ultimately show "list_all2 (entry_tree ?vars) (q @ [(RunBranch b, MatchSelect ca sb cb sa, SplitOther sa sb)]) (ts @ [Node ta tb])"
      by (simp add: list_all2_appendI)
    show "mset (concat (map tasks_of (ts @ [Node ta tb]))) = mset [0..<n]" using tasks by (simp add: ac_simps)
  qed
  moreover have "mset (map fst (q @ [(RunBranch b, MatchSelect ca sb cb sa, SplitOther sa sb)])) + futs_of ?vars =
      mset (map FutVar [0..<n]) + mset (map RunBranch [0..<b + 1])"
  proof -
    have "futs_of ?vars = futs_of vars + {#fa, fb#}" by (simp add: futs_of_def)
    then show ?thesis using futs by (simp add: union_ac flip: add_mset_add_single)
  qed
  ultimately show ?thesis using names len by (simp add: queue_ok_def del: mset_map mset_upt)
qed

lemma queue_rotate:
  assumes "queue_ok n (b, e # q, vars)"
  shows "queue_ok n (b, q @ [e], vars)"
proof -
  from assms obtain t ts where e: "entry_tree vars e t" "list_all2 (entry_tree vars) q ts"
    and tasks: "mset (concat (map tasks_of (t # ts))) = mset [0..<n]" by (auto simp: queue_ok_def list_all2_Cons1)
  have "list_all2 (entry_tree vars) (q @ [e]) (ts @ [t])" using e by (simp add: list_all2_appendI)
  moreover have "mset (concat (map tasks_of (ts @ [t]))) = mset [0..<n]" using tasks by (simp add: ac_simps)
  ultimately have "\<exists>ts. list_all2 (entry_tree vars) (q @ [e]) ts \<and> mset (concat (map tasks_of ts)) = mset [0..<n]" by blast
  with assms show ?thesis by (simp add: queue_ok_def ac_simps)
qed

lemma queue_pair: "queue_ok n s \<Longrightarrow> 2 * k \<le> length (fst (snd s)) \<Longrightarrow> \<exists>s1. pair_up k s = Some s1 \<and> queue_ok n s1"
proof (induction k arbitrary: s)
  case (Suc k)
  obtain b q vars where s: "s = (b, q, vars)" by (rule prod_cases3)
  from Suc.prems(2) obtain fa ca sa fb cb sb q1 where q: "q = (fa, ca, sa) # (fb, cb, sb) # q1" "2 * k \<le> length q1"
    by (cases q; cases "tl q") (auto simp: s)
  show ?case
    using Suc.IH[OF queue_join[OF Suc.prems(1)[unfolded s q(1)]]] q(2) by (simp add: s q(1))
qed auto

lemma queue_round:
  assumes ok: "queue_ok n s" and len: "fst (snd s) \<noteq> []"
  shows "\<exists>s1. reduce_round s = Some s1 \<and> queue_ok n s1 \<and> fst (snd s1) \<noteq> []"
proof -
  obtain b q vars where s: "s = (b, q, vars)" by (rule prod_cases3)
  obtain b1 q1 vars1 where p: "pair_up (length q div 2) s = Some (b1, q1, vars1)" and ok1: "queue_ok n (b1, q1, vars1)"
    using queue_pair[OF ok, of "length q div 2"] s by auto
  have "length q1 + length q div 2 = length q" using pair_up_length p s by simp
  moreover have "length q div 2 < length q" using len s by (intro div_less_dividend) simp_all
  ultimately have "q1 \<noteq> []" by auto
  then show ?thesis using p ok1 by (cases q1) (auto simp: reduce_round_def Let_def s intro: queue_rotate)
qed

declare reduce.simps [simp del]

lemma queue_reduce: "queue_ok n s \<Longrightarrow> fst (snd s) \<noteq> [] \<Longrightarrow> \<exists>b e vars. reduce s = Some (b, [e], vars) \<and> queue_ok n (b, [e], vars)"
proof (induction s rule: reduce.induct)
  case (1 b q vars)
  show ?case
  proof (cases "2 \<le> length q")
    case True
    then show ?thesis using queue_round[OF "1.prems"] "1.IH" by (auto simp: reduce.simps[of b q vars])
  next
    case False
    moreover have "q \<noteq> []" using "1.prems"(2) by simp
    then have "0 < length q" by simp
    ultimately have "length q = 1" by linarith
    then obtain e where "q = [e]" by (auto simp: length_Suc_conv)
    then show ?thesis using "1.prems" by (simp add: reduce.simps)
  qed
qed

section \<open>Properties\<close>

text \<open>C18: For two or more tasks \<open>select!\<close> expands to a tree of branches in which each task and each declared branch is run by exactly one
  branch or is the root, a branch only uses branches declared before it, and every task is a leaf; whatever results the branches give, the
  generated code ends with the value of the task the winning flags lead to when nothing panicked, and otherwise resumes a panic. With
  fewer tasks it is an error.\<close>

theorem select_gives_the_winner:
  fixes branches :: "('p, 'g, 'h) select_branch list"
  assumes n: "n = length (filter sb_task branches)"
  shows "if n < 2 then select_expand branches = Err TooFewBranches
    else \<exists>vars root code t. select_expand branches = Ok ((vars, root, code), select_arms 0 branches) \<and>
      map fst vars = [0..<n - 1] \<and> ordered vars \<and>
      {#root#} + futs_of vars = mset (map FutVar [0..<n]) + mset (map RunBranch [0..<n - 1]) \<and>
      denotes vars root t \<and> mset (tasks_of t) = mset [0..<n] \<and>
      (\<forall>out :: 'v out. fits t out \<longrightarrow> run_first_code code out =
         Some (if calm t out then Ok (the (winner t out)) else Panic))"
proof (cases "n < 2")
  case True
  then show ?thesis using n by (simp add: select_expand_def)
next
  case False
  obtain b e vars where r: "reduce (0, map task_entry [0..<n], []) = Some (b, [e], vars)" and ok: "queue_ok n (b, [e], vars)"
    using queue_reduce[OF queue_start, of n] False by auto
  obtain root code snd_code where e: "e = (root, code, snd_code)" by (rule prod_cases3)
  obtain t where t: "entry_tree vars e t" "mset (tasks_of t) = mset [0..<n]"
    using ok by (auto simp: queue_ok_def list_all2_Cons1)
  have b: "b = n - 1" and q: "map fst vars = [0..<b]" "ordered vars"
    "{#root#} + futs_of vars = mset (map FutVar [0..<n]) + mset (map RunBranch [0..<b])"
    using ok e by (auto simp: queue_ok_def)
  have expand: "select_expand branches = Ok ((vars, root, code), select_arms 0 branches)"
    using False n r e by (simp add: select_expand_def branch_expand_def Let_def)
  have "denotes vars root t" "code = first_code t" using t(1) e by (simp_all add: entry_tree_def)
  then have "denotes vars root t \<and> mset (tasks_of t) = mset [0..<n] \<and> (\<forall>out :: 'v out. fits t out \<longrightarrow> run_first_code code out =
      Some (if calm t out then Ok (the (winner t out)) else Panic))"
    using first_runs t(2) by (simp only: simp_thms) blast
  with expand q show ?thesis unfolding if_not_P[OF False] b by (intro exI conjI) (simp_all only: simp_thms, blast+)
qed

inductive_cases denotes_taskE: "denotes vars (FutVar i) t"
inductive_cases denotes_branchE: "denotes vars (RunBranch b) t"

definition three_tasks :: "(nat, nat, nat) select_branch list" where
  "three_tasks = map (\<lambda>i. \<lparr>sb_pat = i, sb_task = True, sb_guard = None, sb_handler = i\<rparr>) [0, 1, 2]"

definition third_won :: "nat out" where
  "third_won = BranchOut False (Some (Some (BranchOut True (Some (Some (TaskOut (Some 7)))) None))) (Some (Some (TaskOut (Some 9))))"

theorem select_gives_the_winner_witness:
  "\<exists>code. select_expand three_tasks =
      Ok (([(0, FutVar 0, FutVar 1), (1, RunBranch 0, FutVar 2)], RunBranch 1, code), select_arms 0 three_tasks) \<and>
    run_first_code code third_won = Some (Ok (2, 9))"
proof -
  let ?vars = "[(0, FutVar 0, FutVar 1), (1, RunBranch 0, FutVar 2)]"
  let ?t = "Node (Node (Leaf 0) (Leaf 1)) (Leaf 2)"
  have three: "3 = length (filter sb_task three_tasks)" by (simp add: three_tasks_def)
  have expands: "map_option (\<lambda>(vars, root, _). (vars, root)) (branch_expand 3) = Some (?vars, RunBranch 1)" by code_simp
  obtain vars root code t where e: "select_expand three_tasks = Ok ((vars, root, code), select_arms 0 three_tasks)" "denotes vars root t"
    and runs: "\<forall>out :: nat out. fits t out \<longrightarrow> run_first_code code out = Some (if calm t out then Ok (the (winner t out)) else Panic)"
    using select_gives_the_winner[OF three, where 'v = nat] by auto
  have "vars = ?vars" "root = RunBranch 1" using e(1) expands three by (auto simp: select_expand_def split: option.splits)
  then have "denotes ?vars (RunBranch 1) t" using e(2) by simp
  then have "t = ?t" by (auto elim!: denotes_branchE denotes_taskE)
  then have "run_first_code code third_won = Some (Ok (2, 9))" using runs by (simp add: third_won_def)
  then show ?thesis using e(1) \<open>vars = _\<close> \<open>root = _\<close> by blast
qed

text \<open>The handler that runs is the one of the branch whose task won, when its pattern takes the value and it has no guard.\<close>

lemma arms_pick: "\<forall>b \<in> set branches. sb_task b \<Longrightarrow> i < length branches \<Longrightarrow> m (sb_pat (branches ! i)) v \<Longrightarrow> sb_guard (branches ! i) = None \<Longrightarrow>
  run_arms m mw g (select_arms k branches) (k + i, v) = Some (sb_handler (branches ! i))"
proof (induction branches arbitrary: i k)
  case (Cons b bs)
  show ?case
  proof (cases i)
    case 0
    then show ?thesis using Cons.prems by simp
  next
    case (Suc j)
    then show ?thesis using Cons.prems Cons.IH[of j "k + 1"] by simp
  qed
qed simp

theorem select_runs_its_handler:
  assumes "\<forall>b \<in> set branches. sb_task b \<and> sb_guard b = None" "i < length branches" "m (sb_pat (branches ! i)) v"
  shows "run_arms m mw g (select_arms 0 branches) (i, v) = Some (sb_handler (branches ! i))"
  using arms_pick[of branches i m v mw g 0] assms by (simp add: nth_mem)

text \<open>Five tasks: each round pairs neighbours and leaves the last of an odd number for the next.\<close>

lemma five_tasks: "map_option (\<lambda>(vars, fut, _). (vars, fut)) (branch_expand 5) =
  Some ([(0, FutVar 0, FutVar 1), (1, FutVar 2, FutVar 3), (2, RunBranch 0, RunBranch 1), (3, RunBranch 2, FutVar 4)], RunBranch 3)"
  by code_simp

end
