(* ===== verification/Spawn.thy ===== *)
theory Spawn
  imports Wait_List
begin

text \<open>
  Spawning a task on a worker of its own and joining it, \<open>src/src/coroutines/spawn.rs\<close>. A task is what its first run gives: its result (\<open>None\<close> for a
  panic), or that it suspends; when it finishes later, and when others cancel it, is up to the environment. The outer \<open>None\<close> of an operation is a broken
  \<open>unreachable_unchecked\<close> promise. Shown: a result is delivered once, and the one who joins a task gets its result.
\<close>

section \<open>The worker\<close>

text \<open>The data the starting worker and the new worker share; \<open>SpawnPending\<close> points to the flag on the new worker's stack.\<close>

datatype 'o spawn_data = SpawnUninit | SpawnStart | SpawnPending | SpawnDone "'o maybe_panic"

record 'o spawn_worker =
  sw_data :: "'o spawn_data"
  sw_is_async :: bool
  sw_request :: "'o maybe_panic list"
  sw_exited :: bool

text \<open>\<open>execute\<close> when the task finishes: the request is completed if the worker has suspended since it was started.\<close>

definition execute_finish :: "'o maybe_panic \<Rightarrow> 'o spawn_worker \<Rightarrow> 'o maybe_panic option \<times> 'o spawn_worker" where
  "execute_finish r s = (if sw_is_async s then (None, s\<lparr>sw_request := sw_request s @ [r]\<rparr>) else (Some r, s))"

definition worker_finish :: "'o maybe_panic \<Rightarrow> 'o spawn_worker \<Rightarrow> 'o spawn_worker" where
  "worker_finish r s =
     (case execute_finish r s of
        (Some out, s1) \<Rightarrow> s1\<lparr>sw_data := SpawnDone out, sw_exited := True\<rparr>
      | (None, s1) \<Rightarrow> s1\<lparr>sw_exited := True\<rparr>)"

text \<open>\<open>worker_start\<close> up to the first suspension or the end of the task.\<close>

definition worker_start :: "'o maybe_panic progress \<Rightarrow> 'o spawn_worker \<Rightarrow> 'o spawn_worker option" where
  "worker_start first s =
     (if sw_data s \<noteq> SpawnStart then None
      else let s1 = s\<lparr>sw_data := SpawnPending, sw_is_async := False\<rparr>
           in Some (case first of Pending \<Rightarrow> s1 | Done r \<Rightarrow> worker_finish r s1))"

text \<open>\<open>SpawnWorker::spawn\<close>: the progress of the future, and what the two workers share.\<close>

definition spawn_worker :: "'o maybe_panic progress \<Rightarrow> ('o maybe_panic progress \<times> 'o spawn_worker) option" where
  "spawn_worker first =
     (case worker_start first \<lparr>sw_data = SpawnStart, sw_is_async = False, sw_request = [], sw_exited = False\<rparr> of
        None \<Rightarrow> None
      | Some s \<Rightarrow>
          let s1 = s\<lparr>sw_data := SpawnUninit\<rparr>
          in (case sw_data s of
                SpawnDone r \<Rightarrow> Some (Done r, s1)
              | SpawnPending \<Rightarrow> Some (Pending, s1\<lparr>sw_is_async := True\<rparr>)
              | _ \<Rightarrow> None))"

section \<open>The join handle\<close>

text \<open>\<open>sh_cancel\<close> says whether the handle still has its cancel; \<open>sh_waiter\<close> the results delivered to the waiter, when there is one.\<close>

record 'o spawn_handle =
  sh_cancel :: bool
  sh_output :: "'o maybe_panic option"
  sh_waiter :: "'o maybe_panic list option"

definition handle_new :: "'o spawn_handle" where
  "handle_new = \<lparr>sh_cancel = False, sh_output = None, sh_waiter = None\<rparr>"

definition spawn_complete :: "'o maybe_panic \<Rightarrow> 'o spawn_handle \<Rightarrow> 'o spawn_handle" where
  "spawn_complete r h = (case sh_waiter h of None \<Rightarrow> h\<lparr>sh_output := Some r\<rparr> | Some rs \<Rightarrow> h\<lparr>sh_waiter := Some (rs @ [r])\<rparr>)"

definition spawn_run :: "'o maybe_panic progress \<Rightarrow> ('o spawn_handle \<times> 'o spawn_worker) option" where
  "spawn_run first =
     (case spawn_worker first of
        None \<Rightarrow> None
      | Some (Done r, s) \<Rightarrow> Some (handle_new\<lparr>sh_output := Some r\<rparr>, s)
      | Some (Pending, s) \<Rightarrow> Some (handle_new\<lparr>sh_cancel := True\<rparr>, s))"

definition handle_is_done :: "'o spawn_handle \<Rightarrow> bool" where
  "handle_is_done h \<longleftrightarrow> sh_output h \<noteq> None"

text \<open>\<open>try_cancel\<close>: whether the task's cancel is called.\<close>

definition handle_try_cancel :: "'o spawn_handle \<Rightarrow> bool \<times> 'o spawn_handle" where
  "handle_try_cancel h = (sh_cancel h, h\<lparr>sh_cancel := False\<rparr>)"

definition request_cancel :: "'o spawn_handle \<Rightarrow> bool \<times> 'o spawn_handle" where
  "request_cancel h = (if handle_is_done h then (False, h) else handle_try_cancel h)"

definition handle_join :: "'o spawn_handle \<Rightarrow> 'o spawn_handle" where
  "handle_join h = h\<lparr>sh_waiter := Some []\<rparr>"

text \<open>\<open>try_join\<close>: the output that is there, or else a wait for it.\<close>

definition try_join :: "'o spawn_handle \<Rightarrow> 'o maybe_panic option \<times> 'o spawn_handle" where
  "try_join h = (case sh_output h of Some r \<Rightarrow> (Some r, h\<lparr>sh_output := None\<rparr>) | None \<Rightarrow> (None, handle_join h))"

section \<open>Runs\<close>

text \<open>
  A spawned task with its handle: the task finishes at some point, and the owner of the handle asks for a cancel any number of times, joins once, and
  may cancel the join. The run keeps what the task returned, what the owner got from \<open>try_join\<close>, and how often the task was cancelled.
\<close>

record 'o spawned =
  sp_worker :: "'o spawn_worker"
  sp_handle :: "'o spawn_handle"
  sp_result :: "'o maybe_panic option"
  sp_taken :: "'o maybe_panic option"
  sp_joined :: bool
  sp_cancels :: nat

definition note_cancel :: "bool \<times> 'o spawn_handle \<Rightarrow> 'o spawned \<Rightarrow> 'o spawned" where
  "note_cancel c s = s\<lparr>sp_handle := snd c, sp_cancels := sp_cancels s + (if fst c then 1 else 0)\<rparr>"

inductive spawn_step :: "'o spawned \<Rightarrow> 'o spawned \<Rightarrow> bool" where
  task_finishes: "sp_result s = None \<Longrightarrow> w = worker_finish r (sp_worker s) \<Longrightarrow>
    spawn_step s (s\<lparr>sp_worker := w, sp_handle := fold spawn_complete (drop (length (sw_request (sp_worker s))) (sw_request w)) (sp_handle s),
      sp_result := Some r\<rparr>)"
| owner_cancels: "\<not> sp_joined s \<Longrightarrow> spawn_step s (note_cancel (request_cancel (sp_handle s)) s)"
| owner_joins: "\<not> sp_joined s \<Longrightarrow> try_join (sp_handle s) = (t, h) \<Longrightarrow>
    spawn_step s (s\<lparr>sp_handle := h, sp_taken := t, sp_joined := True\<rparr>)"
| join_cancelled: "sp_joined s \<Longrightarrow> sh_waiter (sp_handle s) = Some [] \<Longrightarrow>
    spawn_step s (note_cancel (handle_try_cancel (sp_handle s)) s)"

definition spawn_start :: "'o spawned \<Rightarrow> bool" where
  "spawn_start s \<longleftrightarrow> (\<exists>first h w. spawn_run first = Some (h, w) \<and>
     s = \<lparr>sp_worker = w, sp_handle = h, sp_result = (case first of Pending \<Rightarrow> None | Done r \<Rightarrow> Some r), sp_taken = None, sp_joined = False, sp_cancels = 0\<rparr>)"

text \<open>What the owner has got, by either way.\<close>

definition received :: "'o spawned \<Rightarrow> 'o maybe_panic list" where
  "received s = (case sp_taken s of None \<Rightarrow> [] | Some r \<Rightarrow> [r]) @ (case sh_waiter (sp_handle s) of None \<Rightarrow> [] | Some rs \<Rightarrow> rs)"

definition spawn_ok :: "'o spawned \<Rightarrow> bool" where
  "spawn_ok s \<longleftrightarrow>
     (case sp_result s of
        None \<Rightarrow> sw_is_async (sp_worker s) \<and> sh_output (sp_handle s) = None \<and> sp_taken s = None \<and>
          sh_waiter (sp_handle s) = (if sp_joined s then Some [] else None)
      | Some r \<Rightarrow>
          (if sp_joined s then sh_output (sp_handle s) = None \<and>
             ((sp_taken s = Some r \<and> sh_waiter (sp_handle s) = None) \<or> (sp_taken s = None \<and> sh_waiter (sp_handle s) = Some [r]))
           else sh_output (sp_handle s) = Some r \<and> sp_taken s = None \<and> sh_waiter (sp_handle s) = None)) \<and>
     sp_cancels s + (if sh_cancel (sp_handle s) then 1 else 0) \<le> 1"

lemma spawn_start_ok:
  assumes "spawn_start s"
  shows "spawn_ok s"
proof -
  obtain first h w where f: "spawn_run first = Some (h, w)"
    "s = \<lparr>sp_worker = w, sp_handle = h, sp_result = (case first of Pending \<Rightarrow> None | Done r \<Rightarrow> Some r), sp_taken = None, sp_joined = False, sp_cancels = 0\<rparr>"
    using assms unfolding spawn_start_def by (elim exE conjE) (rule that)
  then show ?thesis
    by (cases first)
      (auto simp: spawn_run_def spawn_worker_def worker_start_def worker_finish_def execute_finish_def handle_new_def spawn_ok_def)
qed

lemma spawn_step_ok:
  assumes "spawn_step s t" "spawn_ok s"
  shows "spawn_ok t"
  using assms(1)
proof cases
  case (task_finishes w r)
  then show ?thesis using assms(2)
    by (auto simp: spawn_ok_def worker_finish_def execute_finish_def spawn_complete_def)
next
  case owner_cancels
  then show ?thesis using assms(2)
    by (auto simp: spawn_ok_def note_cancel_def request_cancel_def handle_try_cancel_def split: option.splits if_splits)
next
  case (owner_joins r h)
  then show ?thesis using assms(2)
    by (auto simp: spawn_ok_def try_join_def handle_join_def split: option.splits if_splits)
next
  case join_cancelled
  then show ?thesis using assms(2)
    by (auto simp: spawn_ok_def note_cancel_def handle_try_cancel_def split: option.splits if_splits)
qed

interpretation spawned: transition_invariant spawn_start spawn_step spawn_ok
  by unfold_locales (auto intro: spawn_start_ok spawn_step_ok)

text \<open>C16: However the end of a spawned task, requests to cancel it and the join of its handle are ordered, the owner who joins gets the task's own result, exactly once and as soon as
  the task has finished, a result is never lost before the join, and the task is cancelled at most once, and never after it has finished
  while its handle is still held.\<close>

theorem join_delivers_the_result_once:
  assumes "reach spawn_start spawn_step s"
  shows "(sp_joined s \<longrightarrow> received s = (case sp_result s of None \<Rightarrow> [] | Some r \<Rightarrow> [r])) \<and>
    (\<not> sp_joined s \<longrightarrow> received s = [] \<and> sh_output (sp_handle s) = sp_result s) \<and>
    sp_cancels s \<le> 1 \<and>
    (\<not> sp_joined s \<and> sp_result s \<noteq> None \<longrightarrow> \<not> fst (request_cancel (sp_handle s)))"
  using spawned.reach_inv[OF assms]
  by (auto simp: spawn_ok_def received_def request_cancel_def handle_is_done_def split: option.splits if_splits)

definition joined_first :: "nat spawned" where
  "joined_first = \<lparr>sp_worker = \<lparr>sw_data = SpawnUninit, sw_is_async = True, sw_request = [], sw_exited = False\<rparr>,
     sp_handle = \<lparr>sh_cancel = True, sh_output = None, sh_waiter = Some []\<rparr>, sp_result = None, sp_taken = None, sp_joined = True, sp_cancels = 0\<rparr>"

definition finished_later :: "nat spawned" where
  "finished_later = \<lparr>sp_worker = \<lparr>sw_data = SpawnUninit, sw_is_async = True, sw_request = [Some 8], sw_exited = True\<rparr>,
     sp_handle = \<lparr>sh_cancel = True, sh_output = None, sh_waiter = Some [Some 8]\<rparr>, sp_result = Some (Some 8), sp_taken = None, sp_joined = True,
     sp_cancels = 0\<rparr>"

theorem join_delivers_the_result_once_witness:
  "reach spawn_start spawn_step finished_later \<and> received finished_later = [Some 8]"
proof -
  let ?s = "joined_first\<lparr>sp_handle := \<lparr>sh_cancel = True, sh_output = None, sh_waiter = None\<rparr>, sp_joined := False\<rparr>"
  have "spawn_start ?s"
    unfolding spawn_start_def
    by (intro exI[of _ Pending])
      (auto simp: spawn_run_def spawn_worker_def worker_start_def handle_new_def joined_first_def)
  then have "reach spawn_start spawn_step ?s" by (rule reach_start)
  moreover have "spawn_step ?s joined_first"
    using owner_joins[of ?s None "sp_handle joined_first"] by (simp add: joined_first_def try_join_def handle_join_def)
  ultimately have "reach spawn_start spawn_step joined_first" by (rule reach_step)
  moreover have "spawn_step joined_first finished_later"
    using task_finishes[of joined_first "sp_worker finished_later" "Some 8"]
    by (simp add: joined_first_def finished_later_def worker_finish_def execute_finish_def spawn_complete_def)
  ultimately have r: "reach spawn_start spawn_step finished_later" by (rule reach_step)
  then show ?thesis using join_delivers_the_result_once[OF r] by (simp add: finished_later_def)
qed

end
