(* ===== verification/Syscall_Macro.thy ===== *)
theory Syscall_Macro
  imports Os_Calls
begin

text \<open>
  The two macros system calls are made with, \<open>src/macros/src/syscall.rs\<close>: \<open>syscall_impl\<close>, from which an architecture's
  \<open>syscall0\<close> to \<open>syscall6\<close> come (\<open>src/src/os/syscall/x64.rs\<close>, \<open>arm64.rs\<close>), and \<open>syscall_define\<close>, which
  makes a safe call from a declaration; with the conversions of \<open>src/src/os/syscall/mod.rs\<close> and the declarations of
  \<open>src/src/os/\<close>. Parsed input is given as lists; the inline assembly runs on a register file, and the kernel reads the registers that the
  architecture documents. Shown: a declared call hands the kernel its number and, in the declared order, one register for each argument and two
  for each array, converted as documented, and gives back the kernel's result; or it panics, when a length does not fit, without a call.
\<close>

section \<open>The instruction of an architecture\<close>

record syscall_impl =
  si_instruction :: string
  si_out :: string
  si_num :: string
  si_regs :: "string list"
  si_clobber :: "string list"

datatype impl_error = OneRegister string | UnknownKind | NoOutputRegister | NoNumberRegister

record impl_items =
  im_out :: "string option"
  im_num :: "string option"
  im_args :: "string list"
  im_clobber :: "string list"

fun impl_loop :: "impl_items \<Rightarrow> (string \<times> string list) list \<Rightarrow> (impl_error, impl_items) outcome" where
  "impl_loop s [] = Ok s"
| "impl_loop s ((kind, regs) # items) =
     (if kind \<in> {''out'', ''num''} \<and> length regs \<noteq> 1 then Err (OneRegister kind)
      else if kind = ''out'' then impl_loop (s\<lparr>im_out := Some (hd regs)\<rparr>) items
      else if kind = ''num'' then impl_loop (s\<lparr>im_num := Some (hd regs)\<rparr>) items
      else if kind = ''arg'' then impl_loop (s\<lparr>im_args := regs\<rparr>) items
      else if kind = ''clobber'' then impl_loop (s\<lparr>im_clobber := regs\<rparr>) items
      else Err UnknownKind)"

definition syscall_impl_parse :: "string \<Rightarrow> (string \<times> string list) list \<Rightarrow> (impl_error, syscall_impl) outcome" where
  "syscall_impl_parse instruction items =
     (case impl_loop \<lparr>im_out = None, im_num = None, im_args = [], im_clobber = []\<rparr> items of
        Err e \<Rightarrow> Err e
      | Panic \<Rightarrow> Panic
      | Ok s \<Rightarrow>
          (case (im_out s, im_num s) of
             (None, _) \<Rightarrow> Err NoOutputRegister
           | (_, None) \<Rightarrow> Err NoNumberRegister
           | (Some out, Some num) \<Rightarrow>
               Ok \<lparr>si_instruction = instruction, si_out = out, si_num = num, si_regs = im_args s, si_clobber = im_clobber s\<rparr>))"

text \<open>One function for each number of arguments: the operands of its inline assembly.\<close>

datatype operand = OpNum | OpArg nat

record asm_fn =
  af_instruction :: string
  af_in :: "(string \<times> operand) list"
  af_out :: string
  af_clobber :: "string list"

definition syscall_impl_expand :: "syscall_impl \<Rightarrow> asm_fn list" where
  "syscall_impl_expand this =
     map (\<lambda>argc. \<lparr>af_instruction = si_instruction this,
                  af_in = (si_num this, OpNum) # map (\<lambda>i. (si_regs this ! i, OpArg i)) [0..<argc],
                  af_out = si_out this, af_clobber = si_clobber this\<rparr>)
       [0..<length (si_regs this) + 1]"

definition x64_syscall :: "(string \<times> string list) list" where
  "x64_syscall =
     [(''out'', [''rax'']), (''num'', [''rax'']), (''arg'', [''rdi'', ''rsi'', ''rdx'', ''r10'', ''r8'', ''r9'']),
      (''clobber'', [''rcx'', ''r11''])]"

definition arm64_syscall :: "(string \<times> string list) list" where
  "arm64_syscall = [(''out'', [''x0'']), (''num'', [''x8'']), (''arg'', [''x0'', ''x1'', ''x2'', ''x3'', ''x4'', ''x5''])]"

text \<open>
  The registers the system documents for its calls: the number, the arguments, the result, and those the instruction may change. The kernel
  reads as many arguments as the call has.
\<close>

record abi =
  abi_num :: string
  abi_args :: "string list"
  abi_out :: string
  abi_changed :: "string list"

definition x64_abi :: abi where
  "x64_abi = \<lparr>abi_num = ''rax'', abi_args = [''rdi'', ''rsi'', ''rdx'', ''r10'', ''r8'', ''r9''], abi_out = ''rax'', abi_changed = [''rax'', ''rcx'', ''r11'']\<rparr>"

definition arm64_abi :: abi where
  "arm64_abi = \<lparr>abi_num = ''x8'', abi_args = [''x0'', ''x1'', ''x2'', ''x3'', ''x4'', ''x5''], abi_out = ''x0'', abi_changed = [''x0'']\<rparr>"

type_synonym registers = "string \<Rightarrow> usize"

definition operand_value :: "nat \<Rightarrow> usize list \<Rightarrow> operand \<Rightarrow> usize" where
  "operand_value num args op = (case op of OpNum \<Rightarrow> of_nat num | OpArg i \<Rightarrow> args ! i)"

definition kernel_entry :: "abi \<Rightarrow> nat \<Rightarrow> 'k sys \<Rightarrow> registers \<Rightarrow> 'k \<Rightarrow> usize \<times> 'k" where
  "kernel_entry abi argc sys regs k = sys k (unat (regs (abi_num abi))) (map regs (take argc (abi_args abi)))"

text \<open>
  Running the assembly: the inputs are put in their registers, the kernel is entered, which leaves anything in the registers it may change, and
  the output register is read.
\<close>

definition put_inputs :: "asm_fn \<Rightarrow> nat \<Rightarrow> usize list \<Rightarrow> registers \<Rightarrow> registers" where
  "put_inputs f num args regs = foldl (\<lambda>regs (r, op). regs(r := operand_value num args op)) regs (af_in f)"

definition after_kernel :: "abi \<Rightarrow> registers \<Rightarrow> usize \<Rightarrow> registers \<Rightarrow> registers" where
  "after_kernel abi junk result regs r =
     (if r = abi_out abi then result else if r \<in> set (abi_changed abi) then junk r else regs r)"

definition run_asm :: "abi \<Rightarrow> asm_fn \<Rightarrow> 'k sys \<Rightarrow> registers \<Rightarrow> registers \<Rightarrow> nat \<Rightarrow> usize list \<Rightarrow> 'k \<Rightarrow> usize \<times> 'k" where
  "run_asm abi f sys regs junk num args k =
     (let regs1 = put_inputs f num args regs;
          (result, k1) = kernel_entry abi (length args) sys regs1 k
      in (after_kernel abi junk result regs1 (af_out f), k1))"

text \<open>\<open>syscall_raw!\<close>: the function for the number of its arguments, of which there are at most six.\<close>

definition syscall_raw ::
  "syscall_impl \<Rightarrow> abi \<Rightarrow> 'k sys \<Rightarrow> registers \<Rightarrow> registers \<Rightarrow> nat \<Rightarrow> usize list \<Rightarrow> 'k \<Rightarrow> (usize \<times> 'k) option" where
  "syscall_raw impl abi sys regs junk num args k =
     (if 6 < length args \<or> length (si_regs impl) < length args then None
      else Some (run_asm abi (syscall_impl_expand impl ! length args) sys regs junk num args k))"

text \<open>
  An architecture whose \<open>syscall_impl\<close> names the registers the system documents: the arguments in order, an output the kernel writes, and every
  register the instruction changes declared, so that the compiler keeps nothing in it.
\<close>

locale syscall_arch =
  fixes impl :: syscall_impl and arch :: abi
  assumes same_num: "si_num impl = abi_num arch" and same_args: "si_regs impl = abi_args arch" and same_out: "si_out impl = abi_out arch"
    and distinct_in: "distinct (si_num impl # si_regs impl)"
    and declared: "set (abi_changed arch) \<subseteq> insert (si_out impl) (set (si_clobber impl))"
begin

lemma put_args:
  assumes "n \<le> length args" and "n \<le> length (si_regs impl)"
  shows "foldl (\<lambda>regs (r, op). regs(r := operand_value num args op)) regs (map (\<lambda>i. (si_regs impl ! i, OpArg i)) [0..<n]) r =
    (if \<exists>i<n. r = si_regs impl ! i then args ! (THE i. i < n \<and> r = si_regs impl ! i) else regs r)"
  using assms
proof (induction n)
  case (Suc n)
  have distinct: "distinct (si_regs impl)" using distinct_in by simp
  let ?put = "foldl (\<lambda>regs (r, op). regs(r := operand_value num args op)) regs"
  have step: "?put (map (\<lambda>i. (si_regs impl ! i, OpArg i)) [0..<Suc n]) r =
      (if r = si_regs impl ! n then args ! n else ?put (map (\<lambda>i. (si_regs impl ! i, OpArg i)) [0..<n]) r)"
    by (simp add: operand_value_def)
  have unique: "(THE i. i < m \<and> si_regs impl ! j = si_regs impl ! i) = j" if "j < m" "m \<le> length (si_regs impl)" for j m
    using that distinct by (intro the_equality) (auto simp: nth_eq_iff_index_eq)
  show ?case
  proof (cases "\<exists>i<Suc n. r = si_regs impl ! i")
    case True
    then obtain j where j: "j < Suc n" "r = si_regs impl ! j" by blast
    show ?thesis
    proof (cases "j = n")
      case True
      with j step unique [of j "Suc n"] Suc.prems show ?thesis by auto
    next
      case False
      with j have "j < n" by simp
      with j Suc.prems distinct have "r \<noteq> si_regs impl ! n" by (auto simp: nth_eq_iff_index_eq)
      with step Suc j \<open>j < n\<close> unique [of j "Suc n"] unique [of j n] show ?thesis by auto
    qed
  next
    case False
    then have "r \<noteq> si_regs impl ! n" "\<not> (\<exists>i<n. r = si_regs impl ! i)" by (auto simp: less_Suc_eq)
    moreover have "?put (map (\<lambda>i. (si_regs impl ! i, OpArg i)) [0..<n]) r =
        (if \<exists>i<n. r = si_regs impl ! i then args ! (THE i. i < n \<and> r = si_regs impl ! i) else regs r)"
      by (rule Suc.IH) (use Suc.prems in simp_all)
    ultimately have "?put (map (\<lambda>i. (si_regs impl ! i, OpArg i)) [0..<Suc n]) r = regs r"
      unfolding step by (simp only: if_False)
    with False show ?thesis by (simp only: if_False)
  qed
qed simp

lemma raw_call:
  assumes "length args \<le> 6" and "length args \<le> length (abi_args arch)" and "num < 2 ^ 64"
  shows "syscall_raw impl arch sys regs junk num args k = Some (sys k num args)"
proof -
  let ?n = "length args"
  let ?f = "syscall_impl_expand impl ! ?n"
  have f: "?f = \<lparr>af_instruction = si_instruction impl,
      af_in = (si_num impl, OpNum) # map (\<lambda>i. (si_regs impl ! i, OpArg i)) [0..<?n], af_out = si_out impl, af_clobber = si_clobber impl\<rparr>"
    using assms(2) by (simp add: syscall_impl_expand_def same_args del: upt_Suc)
  let ?regs = "put_inputs ?f num args regs"
  have regs: "?regs r = (if \<exists>i<?n. r = si_regs impl ! i then args ! (THE i. i < ?n \<and> r = si_regs impl ! i)
      else (regs(si_num impl := of_nat num)) r)" for r
    using put_args [of ?n args num "regs(si_num impl := of_nat num)" r] assms(2) by (simp add: f same_args operand_value_def put_inputs_def)
  have "?regs (abi_num arch) = of_nat num"
    using distinct_in assms(2) by (auto simp: regs same_num same_args set_conv_nth)
  then have number: "unat (?regs (abi_num arch)) = num" using assms(3) by (simp add: unat_of_nat_usize)
  have "map ?regs (take ?n (abi_args arch)) = args"
  proof (rule nth_equalityI)
    fix i assume "i < length (map ?regs (take ?n (abi_args arch)))"
    with assms(2) have i: "i < ?n" by simp
    have "(THE j. j < ?n \<and> abi_args arch ! i = abi_args arch ! j) = i"
      using distinct_in i assms(2) by (intro the_equality) (auto simp: same_args nth_eq_iff_index_eq)
    with i assms(2) show "map ?regs (take ?n (abi_args arch)) ! i = args ! i" by (auto simp: regs same_args)
  qed (use assms(2) in simp)
  with number have "run_asm arch ?f sys regs junk num args k = sys k num args"
    by (simp add: run_asm_def kernel_entry_def Let_def split_beta after_kernel_def) (simp add: f same_out)
  with assms(1,2) show ?thesis by (simp add: syscall_raw_def same_args)
qed

text \<open>A register that the assembly does not declare as changed is not.\<close>

lemma undeclared_kept:
  "r \<noteq> si_out impl \<Longrightarrow> r \<notin> set (si_clobber impl) \<Longrightarrow> after_kernel arch junk result regs r = regs r"
  using declared by (auto simp: after_kernel_def same_out)

end

definition x64_impl :: syscall_impl where
  "x64_impl = \<lparr>si_instruction = ''syscall'', si_out = ''rax'', si_num = ''rax'', si_regs = [''rdi'', ''rsi'', ''rdx'', ''r10'', ''r8'', ''r9''],
     si_clobber = [''rcx'', ''r11'']\<rparr>"

definition arm64_impl :: syscall_impl where
  "arm64_impl = \<lparr>si_instruction = ''svc 0'', si_out = ''x0'', si_num = ''x8'', si_regs = [''x0'', ''x1'', ''x2'', ''x3'', ''x4'', ''x5''],
     si_clobber = []\<rparr>"

lemma arch_impls:
  "syscall_impl_parse ''syscall'' x64_syscall = Ok x64_impl"
  "syscall_impl_parse ''svc 0'' arm64_syscall = Ok arm64_impl"
  by (simp_all add: syscall_impl_parse_def x64_syscall_def arm64_syscall_def x64_impl_def arm64_impl_def)

interpretation x64: syscall_arch x64_impl x64_abi
  by unfold_locales (simp_all add: x64_impl_def x64_abi_def)

interpretation arm64: syscall_arch arm64_impl arm64_abi
  by unfold_locales (simp_all add: arm64_impl_def arm64_abi_def)

section \<open>Arguments and their conversions\<close>

text \<open>
  A value of the types that can be arguments: a number of any of the integer types or an enumeration, flags, descriptors, references and
  pointers, and what stands for memory with its length: slices and buffers, whose length is a number, and the in-out buffers of sockets, whose
  length is itself a place in memory. \<open>RInt\<close> and \<open>RAddr\<close> are what they are converted to.
\<close>

datatype raw = RInt int | RAddr usize

datatype arg_val =
    AInt int
  | AFlags int
  | AOwnedFd int
  | ABorrowedFd int
  | AOptFd "int option"
  | AAddr usize
  | AOptAddr "usize option"
  | ASlice usize int
  | AOptSlice "(usize \<times> int) option"
  | AInOut usize usize
  | AOptInOut "(usize \<times> usize) option"
  | APair raw raw

fun into_raw :: "arg_val \<Rightarrow> raw option" where
  "into_raw (AInt i) = Some (RInt i)"
| "into_raw (AFlags bits) = Some (RInt bits)"
| "into_raw (AOwnedFd fd) = Some (RInt fd)"
| "into_raw (ABorrowedFd fd) = Some (RInt fd)"
| "into_raw (AOptFd fd) = Some (RInt (case fd of None \<Rightarrow> - 1 | Some fd \<Rightarrow> fd))"
| "into_raw (AAddr a) = Some (RAddr a)"
| "into_raw (AOptAddr a) = Some (RAddr (case a of None \<Rightarrow> 0 | Some a \<Rightarrow> a))"
| "into_raw _ = None"

fun into_raw_array :: "arg_val \<Rightarrow> (raw \<times> raw) option" where
  "into_raw_array (ASlice ptr len) = Some (RAddr ptr, RInt len)"
| "into_raw_array (AOptSlice s) = Some (case s of None \<Rightarrow> (RAddr 0, RInt 0) | Some (ptr, len) \<Rightarrow> (RAddr ptr, RInt len))"
| "into_raw_array (AInOut ptr len) = Some (RAddr ptr, RAddr len)"
| "into_raw_array (AOptInOut s) = Some (case s of None \<Rightarrow> (RAddr 0, RAddr 0) | Some (ptr, len) \<Rightarrow> (RAddr ptr, RAddr len))"
| "into_raw_array _ = None"

text \<open>\<open>value as usize\<close>, which extends the sign, and the address of a pointer.\<close>

fun syscall_parameter :: "raw \<Rightarrow> usize" where
  "syscall_parameter (RInt i) = word_of_int i"
| "syscall_parameter (RAddr a) = a"

section \<open>The declaration macro\<close>

text \<open>An integer type: whether it is signed, and its width.\<close>

type_synonym int_ty = "bool \<times> nat"

definition in_range :: "int_ty \<Rightarrow> int \<Rightarrow> bool" where
  "in_range ty i = (if fst ty then - (2 ^ (snd ty - 1)) \<le> i \<and> i < 2 ^ (snd ty - 1) else 0 \<le> i \<and> i < 2 ^ snd ty)"

text \<open>\<open>#[array]\<close>, \<open>#[array = ..]\<close> and \<open>#[array(option = type, ..)]\<close>; an option that is not a name and a value is \<open>None\<close>.\<close>

datatype array_meta = MetaPath | MetaNameValue | MetaList "(string \<times> int_ty) option list"

datatype decl_arg = DReceiver | DPattern | DArg string "array_meta option"

datatype define_error = ReceiverNotAllowed | PatternNotAllowed | ExpectedOptionValue | ExpectedNameValue | UnknownArrayOption | TooManyArguments

fun parse_options_loop :: "int_ty option \<Rightarrow> (string \<times> int_ty) option list \<Rightarrow> (define_error, int_ty option) outcome" where
  "parse_options_loop len [] = Ok len"
| "parse_options_loop len (None # metas) = Err ExpectedNameValue"
| "parse_options_loop len (Some (name, value) # metas) =
     (if name \<noteq> ''len'' then Err UnknownArrayOption else parse_options_loop (Some value) metas)"

fun parse_options :: "array_meta \<Rightarrow> (define_error, int_ty option) outcome" where
  "parse_options MetaPath = Ok None"
| "parse_options MetaNameValue = Err ExpectedOptionValue"
| "parse_options (MetaList metas) = parse_options_loop None metas"

text \<open>An argument of the call to the raw function, and the three lists the macro makes: raw parameters, array variables, arguments.\<close>

datatype raw_expr = IntoRawOf string | FirstOf string | SecondOf string | SecondInto string int_ty

record raw_parts =
  rp_params :: "string list"
  rp_vars :: "string list"
  rp_into_raw :: "raw_expr list"

fun get_raw_args :: "decl_arg list \<Rightarrow> (define_error, raw_parts) outcome" where
  "get_raw_args [] = Ok \<lparr>rp_params = [], rp_vars = [], rp_into_raw = []\<rparr>"
| "get_raw_args (DReceiver # args) = Err ReceiverNotAllowed"
| "get_raw_args (DPattern # args) = Err PatternNotAllowed"
| "get_raw_args (DArg x None # args) =
     (case get_raw_args args of
        Ok p \<Rightarrow> Ok \<lparr>rp_params = x # rp_params p, rp_vars = rp_vars p, rp_into_raw = IntoRawOf x # rp_into_raw p\<rparr>
      | r \<Rightarrow> r)"
| "get_raw_args (DArg x (Some meta) # args) =
     (case parse_options meta of
        Err e \<Rightarrow> Err e
      | Panic \<Rightarrow> Panic
      | Ok len \<Rightarrow>
          (case get_raw_args args of
             Ok p \<Rightarrow>
               Ok \<lparr>rp_params = (x @ ''_ptr'') # (x @ ''_len'') # rp_params p, rp_vars = x # rp_vars p,
                   rp_into_raw = FirstOf x # (case len of None \<Rightarrow> SecondOf x | Some ty \<Rightarrow> SecondInto x ty) # rp_into_raw p\<rparr>
           | r \<Rightarrow> r))"

text \<open>The functions the macro generates: the raw one takes the raw parameters, the safe one the declared arguments.\<close>

record syscall_decl =
  sd_number :: nat
  sd_params :: "string list"
  sd_inputs :: "string list"
  sd_vars :: "string list"
  sd_into_raw :: "raw_expr list"

fun input_names :: "decl_arg list \<Rightarrow> string list" where
  "input_names [] = []"
| "input_names (DArg x _ # args) = x # input_names args"
| "input_names (_ # args) = input_names args"

definition syscall_define :: "nat \<Rightarrow> decl_arg list \<Rightarrow> (define_error, syscall_decl) outcome" where
  "syscall_define number args =
     (case get_raw_args args of
        Ok p \<Rightarrow>
          Ok \<lparr>sd_number = number, sd_params = rp_params p, sd_inputs = input_names args, sd_vars = rp_vars p, sd_into_raw = rp_into_raw p\<rparr>
      | Err e \<Rightarrow> Err e
      | Panic \<Rightarrow> Panic)"

section \<open>Running a declared call\<close>

text \<open>
  The meaning of the generated functions: \<open>None\<close> is a program the compiler refuses. The raw function converts its parameters, in order; the
  safe one replaces its array arguments by their pair, and unwraps a length that has a type of its own.
\<close>

type_synonym arg_env = "string \<Rightarrow> arg_val option"

fun run_vars :: "string list \<Rightarrow> arg_env \<Rightarrow> arg_env option" where
  "run_vars [] env = Some env"
| "run_vars (x # xs) env =
     (case env x of
        None \<Rightarrow> None
      | Some v \<Rightarrow> (case into_raw_array v of None \<Rightarrow> None | Some (p, l) \<Rightarrow> run_vars xs (env(x \<mapsto> APair p l))))"

fun eval_raw :: "arg_env \<Rightarrow> raw_expr \<Rightarrow> (unit, raw) outcome option" where
  "eval_raw env (IntoRawOf x) = (case env x of None \<Rightarrow> None | Some v \<Rightarrow> map_option Ok (into_raw v))"
| "eval_raw env (FirstOf x) = (case env x of Some (APair p l) \<Rightarrow> Some (Ok p) | _ \<Rightarrow> None)"
| "eval_raw env (SecondOf x) = (case env x of Some (APair p l) \<Rightarrow> Some (Ok l) | _ \<Rightarrow> None)"
| "eval_raw env (SecondInto x ty) =
     (case env x of
        Some (APair p (RInt i)) \<Rightarrow> Some (if in_range ty i then Ok (RInt i) else Panic)
      | _ \<Rightarrow> None)"

fun eval_raws :: "arg_env \<Rightarrow> raw_expr list \<Rightarrow> (unit, raw list) outcome option" where
  "eval_raws env [] = Some (Ok [])"
| "eval_raws env (e # es) =
     (case eval_raw env e of
        None \<Rightarrow> None
      | Some Panic \<Rightarrow> Some Panic
      | Some (Err u) \<Rightarrow> Some (Err u)
      | Some (Ok r) \<Rightarrow>
          (case eval_raws env es of Some (Ok rs) \<Rightarrow> Some (Ok (r # rs)) | x \<Rightarrow> x))"

definition raw_function ::
  "syscall_impl \<Rightarrow> abi \<Rightarrow> 'k sys \<Rightarrow> registers \<Rightarrow> registers \<Rightarrow> syscall_decl \<Rightarrow> raw list \<Rightarrow> 'k \<Rightarrow> (usize \<times> 'k) option" where
  "raw_function impl abi sys regs junk d raws k =
     (let env = map_of (zip (sd_params d) raws);
          args = map (\<lambda>x. syscall_parameter (the (env x))) (sd_params d)
      in if length raws \<noteq> length (sd_params d) then None else syscall_raw impl abi sys regs junk (sd_number d) args k)"

definition declared_call ::
  "syscall_impl \<Rightarrow> abi \<Rightarrow> 'k sys \<Rightarrow> registers \<Rightarrow> registers \<Rightarrow> syscall_decl \<Rightarrow> arg_val list \<Rightarrow> 'k \<Rightarrow> ((unit, usize) outcome \<times> 'k) option" where
  "declared_call impl abi sys regs junk d vs k =
     (case run_vars (sd_vars d) (map_of (zip (sd_inputs d) vs)) of
        None \<Rightarrow> None
      | Some env \<Rightarrow>
          (case eval_raws env (sd_into_raw d) of
             None \<Rightarrow> None
           | Some Panic \<Rightarrow> Some (Panic, k)
           | Some (Err u) \<Rightarrow> Some (Err u, k)
           | Some (Ok raws) \<Rightarrow>
               (case raw_function impl abi sys regs junk d raws k of None \<Rightarrow> None | Some (r, k) \<Rightarrow> Some (Ok r, k))))"

section \<open>What a call passes\<close>

text \<open>What an argument is worth in registers, by its declaration; \<open>None\<close> is a value that does not fit it.\<close>

fun arg_raws :: "decl_arg \<Rightarrow> arg_val \<Rightarrow> raw list option" where
  "arg_raws (DArg x None) v = (case into_raw v of None \<Rightarrow> None | Some r \<Rightarrow> Some [r])"
| "arg_raws (DArg x (Some meta)) v = (case into_raw_array v of None \<Rightarrow> None | Some (p, l) \<Rightarrow> Some [p, l])"
| "arg_raws _ v = None"

text \<open>Whether the length of an array fits the type its declaration gives it.\<close>

fun length_fits :: "decl_arg \<Rightarrow> arg_val \<Rightarrow> bool" where
  "length_fits (DArg x (Some meta)) v =
     (case (parse_options meta, into_raw_array v) of
        (Ok (Some ty), Some (_, RInt i)) \<Rightarrow> in_range ty i
      | (Ok (Some ty), Some (_, RAddr a)) \<Rightarrow> False
      | _ \<Rightarrow> True)"
| "length_fits _ _ = True"

text \<open>Only a number can have a type for its length.\<close>

fun length_typed :: "decl_arg \<Rightarrow> arg_val \<Rightarrow> bool" where
  "length_typed (DArg x (Some meta)) v =
     (case (parse_options meta, into_raw_array v) of (Ok (Some ty), Some (_, RAddr a)) \<Rightarrow> False | _ \<Rightarrow> True)"
| "length_typed _ _ = True"

definition fits_decl :: "decl_arg \<Rightarrow> arg_val \<Rightarrow> bool" where
  "fits_decl a v \<longleftrightarrow> arg_raws a v \<noteq> None \<and> length_typed a v"

definition passed :: "decl_arg list \<Rightarrow> arg_val list \<Rightarrow> raw list" where
  "passed args vs = concat (map2 (\<lambda>a v. the (arg_raws a v)) args vs)"

text \<open>What a name means once the array variables are made.\<close>

fun bound :: "decl_arg \<Rightarrow> arg_val \<Rightarrow> arg_env \<Rightarrow> bool" where
  "bound (DArg x None) v env = (env x = Some v)"
| "bound (DArg x (Some meta)) v env = (\<exists>p l. into_raw_array v = Some (p, l) \<and> env x = Some (APair p l))"
| "bound _ _ _ = False"

lemma eval_raws_passed:
  "get_raw_args args = Ok p \<Longrightarrow> list_all2 fits_decl args vs \<Longrightarrow> list_all2 (\<lambda>a v. bound a v env) args vs \<Longrightarrow>
   eval_raws env (rp_into_raw p) = Some (if list_all2 length_fits args vs then Ok (passed args vs) else Panic) \<and>
   length (rp_params p) = length (passed args vs)"
proof (induction args arbitrary: p vs)
  case Nil
  then show ?case by (auto simp: passed_def)
next
  case (Cons a args)
  obtain v ws where vs: "vs = v # ws" using Cons.prems(2) by (cases vs) simp_all
  from Cons.prems(1) obtain x array where a: "a = DArg x array" by (cases a) simp_all
  from Cons.prems vs have fits: "fits_decl a v" "list_all2 fits_decl args ws" and binds: "bound a v env" "list_all2 (\<lambda>a v. bound a v env) args ws"
    by simp_all
  have passed: "passed (a # args) vs = the (arg_raws a v) @ passed args ws" by (simp add: passed_def vs)
  show ?case
  proof (cases array)
    case None
    with Cons.prems(1) a obtain q where q: "get_raw_args args = Ok q"
      and p: "p = \<lparr>rp_params = x # rp_params q, rp_vars = rp_vars q, rp_into_raw = IntoRawOf x # rp_into_raw q\<rparr>"
      by (auto split: outcome.splits)
    from fits(1) a None obtain r where r: "into_raw v = Some r" by (auto simp: fits_decl_def split: option.splits)
    from Cons.IH [OF q fits(2) binds(2)] binds(1) show ?thesis
      by (auto simp: p a None r vs passed [unfolded a None vs])
  next
    case (Some meta)
    with Cons.prems(1) a obtain len q where len: "parse_options meta = Ok len" and q: "get_raw_args args = Ok q"
      and p: "p = \<lparr>rp_params = (x @ ''_ptr'') # (x @ ''_len'') # rp_params q, rp_vars = x # rp_vars q,
                   rp_into_raw = FirstOf x # (case len of None \<Rightarrow> SecondOf x | Some ty \<Rightarrow> SecondInto x ty) # rp_into_raw q\<rparr>"
      by (auto split: outcome.splits)
    from binds(1) a Some obtain ptr l where pair: "into_raw_array v = Some (ptr, l)" and env: "env x = Some (APair ptr l)" by auto
    note IH = Cons.IH [OF q fits(2) binds(2)]
    show ?thesis
    proof (cases len)
      case None
      with IH show ?thesis by (auto simp: p a Some len pair env vs passed [unfolded a Some vs])
    next
      case (Some ty)
      with fits(1) a \<open>array = Some meta\<close> len pair obtain i where l: "l = RInt i"
        by (cases l) (auto simp: fits_decl_def)
      with IH Some show ?thesis by (auto simp: p a \<open>array = Some meta\<close> len pair env vs passed [unfolded a \<open>array = Some meta\<close> vs])
    qed
  qed
qed

lemma run_vars_bound:
  assumes "get_raw_args args = Ok p" and "list_all2 fits_decl args vs" and "distinct (input_names args)"
    and "\<forall>x v. (x, v) \<in> set (zip (input_names args) vs) \<longrightarrow> env x = Some v"
  shows "\<exists>env2. run_vars (rp_vars p) env = Some env2 \<and> list_all2 (\<lambda>a v. bound a v env2) args vs \<and>
    (\<forall>x. x \<notin> set (input_names args) \<longrightarrow> env2 x = env x)"
  using assms
proof (induction args arbitrary: p vs env)
  case Nil
  then show ?case by auto
next
  case (Cons a args)
  obtain v ws where vs: "vs = v # ws" using Cons.prems(2) by (cases vs) simp_all
  from Cons.prems(1) obtain x array where a: "a = DArg x array" by (cases a) simp_all
  from Cons.prems vs have fits: "fits_decl a v" "list_all2 fits_decl args ws" by simp_all
  from Cons.prems(3) a have new: "x \<notin> set (input_names args)" "distinct (input_names args)" by simp_all
  from Cons.prems(4) a vs have env: "env x = Some v" "\<forall>y w. (y, w) \<in> set (zip (input_names args) ws) \<longrightarrow> env y = Some w" by simp_all
  show ?case
  proof (cases array)
    case None
    with Cons.prems(1) a obtain q where q: "get_raw_args args = Ok q" and p: "rp_vars p = rp_vars q" by (auto split: outcome.splits)
    from Cons.IH [OF q fits(2) new(2) env(2)] obtain env2 where "run_vars (rp_vars q) env = Some env2"
      and "list_all2 (\<lambda>a v. bound a v env2) args ws" and "\<forall>x. x \<notin> set (input_names args) \<longrightarrow> env2 x = env x" by blast
    with new env(1) show ?thesis by (auto simp: p a None vs)
  next
    case (Some meta)
    with Cons.prems(1) a obtain q where q: "get_raw_args args = Ok q" and p: "rp_vars p = x # rp_vars q" by (auto split: outcome.splits)
    from fits(1) a Some obtain ptr l where pair: "into_raw_array v = Some (ptr, l)" by (auto simp: fits_decl_def split: option.splits)
    have "\<forall>y w. (y, w) \<in> set (zip (input_names args) ws) \<longrightarrow> (env(x \<mapsto> APair ptr l)) y = Some w"
      using env(2) new(1) by (auto dest: set_zip_leftD)
    from Cons.IH [OF q fits(2) new(2) this] obtain env2 where "run_vars (rp_vars q) (env(x \<mapsto> APair ptr l)) = Some env2"
      and "list_all2 (\<lambda>a v. bound a v env2) args ws" and "\<forall>y. y \<notin> set (input_names args) \<longrightarrow> env2 y = (env(x \<mapsto> APair ptr l)) y" by blast
    with new env(1) pair show ?thesis by (auto simp: p a Some vs)
  qed
qed

lemma map_of_zip_own: "distinct xs \<Longrightarrow> length xs = length ys \<Longrightarrow> map (\<lambda>x. f (the (map_of (zip xs ys) x))) xs = map f ys"
  by (rule nth_equalityI) (simp_all add: map_of_zip_nth)

lemma input_names_length: "get_raw_args args = Ok p \<Longrightarrow> length (input_names args) = length args"
  by (induction args arbitrary: p rule: get_raw_args.induct) (auto split: outcome.splits)

lemma zip_env:
  "distinct xs \<Longrightarrow> length xs = length vs \<Longrightarrow> \<forall>x v. (x, v) \<in> set (zip xs vs) \<longrightarrow> map_of (zip xs vs) x = Some v"
  by simp

text \<open>
  A declared call, on an architecture that passes registers on: with lengths that fit it is one call of the kernel, with the number and the
  converted arguments in order; otherwise a panic, and no call.
\<close>

context syscall_arch begin

lemma declared_call_runs:
  assumes "syscall_define number args = Ok d" and "list_all2 fits_decl args vs"
    and "distinct (input_names args)" and "distinct (sd_params d)" and "length (sd_params d) \<le> 6" and "length (sd_params d) \<le> length (abi_args arch)"
    and "number < 2 ^ 64"
  shows "declared_call impl arch sys regs junk d vs k =
    Some (if list_all2 length_fits args vs
          then (let (r, k) = sys k number (map syscall_parameter (passed args vs)) in (Ok r, k))
          else (Panic, k))"
proof -
  obtain p where p: "get_raw_args args = Ok p"
    and d: "d = \<lparr>sd_number = number, sd_params = rp_params p, sd_inputs = input_names args, sd_vars = rp_vars p, sd_into_raw = rp_into_raw p\<rparr>"
    using assms(1) by (auto simp: syscall_define_def split: outcome.splits)
  have "length args = length vs" using assms(2) by (rule list_all2_lengthD)
  then have len: "length (input_names args) = length vs" using input_names_length [OF p] by simp
  obtain env where vars: "run_vars (rp_vars p) (map_of (zip (input_names args) vs)) = Some env"
    and "list_all2 (\<lambda>a v. bound a v env) args vs"
    using run_vars_bound [OF p assms(2,3) zip_env [OF assms(3) len]] by blast
  from eval_raws_passed [OF p assms(2) this(2)]
  have eval: "eval_raws env (rp_into_raw p) = Some (if list_all2 length_fits args vs then Ok (passed args vs) else Panic)"
    and params: "length (rp_params p) = length (passed args vs)" by blast+
  have distinct: "distinct (rp_params p)" using assms(4) by (simp add: d)
  have words: "map (\<lambda>x. syscall_parameter (the (map_of (zip (rp_params p) (passed args vs)) x))) (rp_params p) = map syscall_parameter (passed args vs)"
    by (rule map_of_zip_own [OF distinct params])
  have "length (map syscall_parameter (passed args vs)) \<le> 6" and "length (map syscall_parameter (passed args vs)) \<le> length (abi_args arch)"
    using assms(5,6) params by (simp_all add: d)
  from raw_call [OF this assms(7)]
  have "raw_function impl arch sys regs junk d (passed args vs) k = Some (sys k number (map syscall_parameter (passed args vs)))"
    by (simp add: raw_function_def d words params)
  then show ?thesis
    by (simp add: declared_call_def d vars eval split_beta split: prod.split)
qed

end

section \<open>The calls of the crate\<close>

text \<open>The declarations: the function, its system call, and its arguments.\<close>

type_synonym call = "string \<times> string \<times> decl_arg list"

definition poll_calls :: "call list" where
  "poll_calls =
     [(''ppoll'', ''Ppoll'',
        [DArg ''fds'' (Some (MetaList [Some (''len'', (False, 32))])), DArg ''timeout'' None, DArg ''sigmask'' (Some MetaPath)])]"

definition dirent_calls :: "call list" where
  "dirent_calls =
     [(''getdents'', ''Getdents'',
        [DArg ''fd'' None, DArg ''buf'' (Some (MetaList [Some (''len'', (False, 32))]))]),
      (''getdents64'', ''Getdents64'',
        [DArg ''fd'' None, DArg ''buf'' (Some (MetaList [Some (''len'', (False, 32))]))])]"

definition open_calls :: "call list" where
  "open_calls =
     [(''openat'', ''Openat'',
        [DArg ''dirfd'' None, DArg ''filename'' None, DArg ''flags'' None, DArg ''mode'' None]),
      (''openat2'', ''Openat2'',
        [DArg ''dirfd'' None, DArg ''filename'' None, DArg ''how'' None, DArg ''size'' None]),
      (''open'', ''Open'',
        [DArg ''filename'' None, DArg ''flags'' None, DArg ''mode'' None])]"

definition fd_calls :: "call list" where
  "fd_calls =
     [(''close'', ''Close'',
        [DArg ''fd'' None]),
      (''read'', ''Read'',
        [DArg ''fd'' None, DArg ''buf'' (Some MetaPath)]),
      (''write'', ''Write'',
        [DArg ''fd'' None, DArg ''buf'' (Some MetaPath)])]"

definition socket_calls :: "call list" where
  "socket_calls =
     [(''socket'', ''Socket'',
        [DArg ''domain'' None, DArg ''socket_type'' None, DArg ''protocol'' None]),
      (''bind'', ''Bind'',
        [DArg ''socket'' None, DArg ''addr'' (Some MetaPath)])]"

definition connect_calls :: "call list" where
  "connect_calls =
     [(''connect'', ''Connect'',
        [DArg ''socket'' None, DArg ''addr'' (Some MetaPath)])]"

definition accept_calls :: "call list" where
  "accept_calls =
     [(''accept'', ''Accept'',
        [DArg ''socket'' None, DArg ''addr'' (Some MetaPath)]),
      (''accept4'', ''Accept4'',
        [DArg ''socket'' None, DArg ''addr'' (Some MetaPath), DArg ''flags'' None])]"

definition sendto_calls :: "call list" where
  "sendto_calls =
     [(''sendto'', ''Sendto'',
        [DArg ''socket'' None, DArg ''buf'' (Some MetaPath), DArg ''flags'' None, DArg ''destination'' (Some MetaPath)])]"

definition sendmsg_calls :: "call list" where
  "sendmsg_calls =
     [(''sendmsg'', ''Sendmsg'',
        [DArg ''socket'' None, DArg ''header'' None, DArg ''flags'' None])]"

definition recvfrom_calls :: "call list" where
  "recvfrom_calls =
     [(''recvfrom'', ''Recvfrom'',
        [DArg ''socket'' None, DArg ''buf'' (Some MetaPath), DArg ''flags'' None, DArg ''addr'' (Some MetaPath)])]"

definition recvmsg_calls :: "call list" where
  "recvmsg_calls =
     [(''recvmsg'', ''Recvmsg'',
        [DArg ''socket'' None, DArg ''header'' None, DArg ''flags'' None]),
      (''listen'', ''Listen'',
        [DArg ''socket'' None, DArg ''backlog'' None]),
      (''shutdown'', ''Shutdown'',
        [DArg ''socket'' None, DArg ''how'' None]),
      (''getsockopt'', ''Getsockopt'',
        [DArg ''socket'' None, DArg ''level'' None, DArg ''option'' None, DArg ''val'' (Some MetaPath)])]"

definition setsockopt_calls :: "call list" where
  "setsockopt_calls =
     [(''setsockopt'', ''Setsockopt'',
        [DArg ''socket'' None, DArg ''level'' None, DArg ''option'' None, DArg ''val'' (Some MetaPath)])]"

definition name_calls :: "call list" where
  "name_calls =
     [(''getsockname'', ''Getsockname'',
        [DArg ''socket'' None, DArg ''addr'' (Some MetaPath)]),
      (''getpeername'', ''Getpeername'',
        [DArg ''socket'' None, DArg ''addr'' (Some MetaPath)])]"

definition futex_calls :: "call list" where
  "futex_calls =
     [(''futex'', ''Futex'',
        [DArg ''addr'' None, DArg ''op'' None, DArg ''value'' None, DArg ''time'' None, DArg ''addr2'' None, DArg ''value3'' None])]"

definition epoll_ctl_calls :: "call list" where
  "epoll_ctl_calls =
     [(''epoll_create1'', ''EpollCreate1'',
        [DArg ''flags'' None]),
      (''epoll_ctl'', ''EpollCtl'',
        [DArg ''epfd'' None, DArg ''op'' None, DArg ''fd'' None, DArg ''event'' None])]"

definition epoll_wait_calls :: "call list" where
  "epoll_wait_calls =
     [(''epoll_pwait'', ''EpollPwait'',
        [DArg ''fd'' None, DArg ''events'' (Some (MetaList [Some (''len'', (True, 32))])), DArg ''timeout'' None, DArg ''sigmask'' (Some MetaPath)]),
      (''epoll_pwait2'', ''EpollPwait2'',
        [DArg ''fd'' None, DArg ''events'' (Some (MetaList [Some (''len'', (True, 32))])), DArg ''timeout'' None, DArg ''sigmask'' (Some MetaPath)])]"

definition uring_enter_calls :: "call list" where
  "uring_enter_calls =
     [(''io_uring_enter2'', ''IoUringEnter'',
        [DArg ''fd'' None, DArg ''submit'' None, DArg ''min_complete'' None, DArg ''flags'' None, DArg ''arg'' (Some MetaPath)])]"

definition uring_setup_calls :: "call list" where
  "uring_setup_calls =
     [(''io_uring_setup'', ''IoUringSetup'',
        [DArg ''entries'' None, DArg ''params'' None]),
      (''io_uring_register'', ''IoUringRegister'',
        [DArg ''fd'' None, DArg ''opcode'' None, DArg ''arg'' None, DArg ''arg_count'' None])]"

definition eventfd_calls :: "call list" where
  "eventfd_calls =
     [(''eventfd2'', ''Eventfd2'',
        [DArg ''init'' None, DArg ''flags'' None])]"

definition mman_calls :: "call list" where
  "mman_calls =
     [(''mmap'', ''Mmap'',
        [DArg ''addr'' None, DArg ''length'' None, DArg ''prot'' None, DArg ''flags'' None, DArg ''fd'' None, DArg ''off'' None]),
      (''munmap'', ''Munmap'',
        [DArg ''section'' (Some MetaPath)]),
      (''mprotect'', ''Mprotect'',
        [DArg ''section'' (Some MetaPath), DArg ''prot'' None]),
      (''msync'', ''Msync'',
        [DArg ''section'' (Some MetaPath), DArg ''flags'' None]),
      (''madvise'', ''Madvise'',
        [DArg ''section'' (Some MetaPath), DArg ''advice'' None]),
      (''mlock'', ''Mlock'',
        [DArg ''section'' (Some MetaPath)]),
      (''mlock2'', ''Mlock'',
        [DArg ''section'' (Some MetaPath), DArg ''flags'' None]),
      (''munlock'', ''Munlock'',
        [DArg ''section'' (Some MetaPath)]),
      (''mlock_all'', ''Mlockall'',
        [DArg ''flags'' None]),
      (''munlock_all'', ''Munlockall'',
        []),
      (''mremap'', ''Mremap'',
        [DArg ''section'' (Some MetaPath), DArg ''new_length'' None, DArg ''flags'' None, DArg ''new_address'' None])]"

definition resource_calls :: "call list" where
  "resource_calls =
     [(''getrlimit'', ''Getrlimit'',
        [DArg ''resource'' None, DArg ''limit'' None]),
      (''prlimit64'', ''Prlimit64'',
        [DArg ''pid'' None, DArg ''resource'' None, DArg ''new_limit'' None, DArg ''old_limit'' None]),
      (''getrusage'', ''Getrusage'',
        [DArg ''who'' None, DArg ''usage'' None]),
      (''getpriority'', ''Getpriority'',
        [DArg ''which'' None, DArg ''who'' None]),
      (''setpriority'', ''Setpriority'',
        [DArg ''which'' None, DArg ''who'' None, DArg ''prio'' None])]"

definition set_rlimit_calls :: "call list" where
  "set_rlimit_calls =
     [(''set_rlimit'', ''Setrlimit'',
        [DArg ''resource'' None, DArg ''limit'' None])]"

definition stat_calls :: "call list" where
  "stat_calls =
     [(''statx'', ''Statx'',
        [DArg ''dirfd'' None, DArg ''pathname'' None, DArg ''flags'' None, DArg ''mask'' None, DArg ''statx'' None])]"

definition declared_calls :: "call list" where
  "declared_calls =
     poll_calls @ dirent_calls @ open_calls @ fd_calls @ socket_calls @ connect_calls @
     accept_calls @ sendto_calls @ sendmsg_calls @ recvfrom_calls @ recvmsg_calls @ setsockopt_calls @
     name_calls @ futex_calls @ epoll_ctl_calls @ epoll_wait_calls @ uring_enter_calls @ uring_setup_calls @
     eventfd_calls @ mman_calls @ resource_calls @ set_rlimit_calls @ stat_calls"

text \<open>How many arguments the manual gives each call.\<close>

definition manual_arity :: "(string \<times> nat) list" where
  "manual_arity =
     [(''Ppoll'', 5), (''Getdents'', 3), (''Getdents64'', 3), (''Openat'', 4), (''Openat2'', 4), (''Open'', 3),
      (''Close'', 1), (''Read'', 3), (''Write'', 3), (''Socket'', 3), (''Bind'', 3), (''Connect'', 3),
      (''Accept'', 3), (''Accept4'', 4), (''Sendto'', 6), (''Sendmsg'', 3), (''Recvfrom'', 6), (''Recvmsg'', 3),
      (''Listen'', 2), (''Shutdown'', 2), (''Getsockopt'', 5), (''Setsockopt'', 5), (''Getsockname'', 3), (''Getpeername'', 3),
      (''Futex'', 6), (''EpollCreate1'', 1), (''EpollCtl'', 4), (''EpollPwait'', 6), (''EpollPwait2'', 6), (''IoUringEnter'', 6),
      (''IoUringSetup'', 2), (''IoUringRegister'', 4), (''Eventfd2'', 2), (''Mmap'', 6), (''Munmap'', 2), (''Mprotect'', 3),
      (''Msync'', 3), (''Madvise'', 3), (''Mlock'', 2), (''Munlock'', 2), (''Mlockall'', 1), (''Munlockall'', 0),
      (''Mremap'', 5), (''Getrlimit'', 2), (''Prlimit64'', 4), (''Getrusage'', 2), (''Getpriority'', 2), (''Setpriority'', 3),
      (''Setrlimit'', 2), (''Statx'', 5)]"

definition declaration_ok :: "call \<Rightarrow> bool" where
  "declaration_ok c =
     (case c of (f, name, args) \<Rightarrow>
        (case get_raw_args args of
           Ok p \<Rightarrow>
             distinct (input_names args) \<and> distinct (rp_params p) \<and> length (rp_params p) \<le> 6 \<and>
             (map_of manual_arity name = Some (length (rp_params p)) \<or> f = ''mlock2'')
         | _ \<Rightarrow> False))"

lemma declared_calls_ok: "list_all declaration_ok declared_calls"
  by code_simp

definition architectures :: "(syscall_impl \<times> abi \<times> (string \<times> nat) list) list" where
  "architectures = [(x64_impl, x64_abi, x64_numbers), (arm64_impl, arm64_abi, arm64_numbers)]"

lemma numbers_small: "list_all (\<lambda>(name, n). n < 1000) (x64_numbers @ arm64_numbers)"
  by (simp add: x64_numbers_def x64_numbers_1_def x64_numbers_2_def x64_numbers_3_def
      arm64_numbers_def arm64_numbers_1_def arm64_numbers_2_def arm64_numbers_3_def)

text \<open>C23: 
  C0: every system call the crate declares, on both architectures and with arguments of the declared kinds: if each length fits the type its
  declaration gives, the call enters the kernel once, with the number of the table and, in the registers the system documents, every argument
  converted and in order, two registers for an array, and gives back the kernel's result; otherwise it panics and the kernel is not entered.
  The declarations pass as many registers as the manual says, all but one.
\<close>

theorem declared_calls_reach_the_kernel:
  assumes "(impl, arch, numbers) \<in> set architectures" and "(f, name, args) \<in> set declared_calls" and "map_of numbers name = Some n"
    and "list_all2 fits_decl args vs"
  shows "\<exists>d. syscall_define n args = Ok d \<and>
    (map_of manual_arity name = Some (length (sd_params d)) \<or> f = ''mlock2'') \<and>
    declared_call impl arch sys regs junk d vs k =
    Some (if list_all2 length_fits args vs
          then (let (r, k) = sys k n (map syscall_parameter (passed args vs)) in (Ok r, k))
          else (Panic, k))"
proof -
  from declared_calls_ok assms(2) have ok: "declaration_ok (f, name, args)" by (auto simp: list_all_iff)
  then obtain p where p: "get_raw_args args = Ok p" by (auto simp: declaration_ok_def split: outcome.splits)
  with ok have names: "distinct (input_names args)" "distinct (rp_params p)" "length (rp_params p) \<le> 6"
    and arity: "map_of manual_arity name = Some (length (rp_params p)) \<or> f = ''mlock2''"
    by (auto simp: declaration_ok_def)
  define d where "d = \<lparr>sd_number = n, sd_params = rp_params p, sd_inputs = input_names args, sd_vars = rp_vars p, sd_into_raw = rp_into_raw p\<rparr>"
  have d: "syscall_define n args = Ok d" by (simp add: syscall_define_def p d_def)
  have params: "sd_params d = rp_params p" by (simp add: d_def)
  from assms(1,3) have "(name, n) \<in> set (x64_numbers @ arm64_numbers)" by (auto simp: architectures_def dest: map_of_SomeD)
  with numbers_small have "n < 1000" by (auto simp: list_all_iff)
  then have small: "n < 2 ^ 64" by simp
  have six: "length (sd_params d) \<le> length (abi_args x64_abi)" "length (sd_params d) \<le> length (abi_args arm64_abi)"
    using names(3) by (simp_all add: params x64_abi_def arm64_abi_def)
  note runs = x64.declared_call_runs [OF d assms(4) names(1) names(2) [folded params] names(3) [folded params] six(1) small]
    arm64.declared_call_runs [OF d assms(4) names(1) names(2) [folded params] names(3) [folded params] six(2) small]
  from assms(1) have "impl = x64_impl \<and> arch = x64_abi \<or> impl = arm64_impl \<and> arch = arm64_abi" by (auto simp: architectures_def)
  then have "declared_call impl arch sys regs junk d vs k =
    Some (if list_all2 length_fits args vs
          then (let (r, k) = sys k n (map syscall_parameter (passed args vs)) in (Ok r, k))
          else (Panic, k))"
    by (elim disjE conjE) (simp_all only: runs)
  with d arity show ?thesis unfolding params [symmetric] by blast
qed

lemma declared_calls_reach_the_kernel_witness:
  "\<exists>d. declared_call x64_impl x64_abi (\<lambda>_ n args. (7, (n, args))) (\<lambda>_. 1) (\<lambda>_. 2) d
      [ABorrowedFd (- 100), ASlice 4096 100, AFlags 64, AOptInOut None] (0, []) =
    Some (Ok 7, (45, [- 100, 4096, 100, 64, 0, 0]))"
proof -
  let ?args = "[DArg ''socket'' None, DArg ''buf'' (Some MetaPath), DArg ''flags'' None, DArg ''addr'' (Some MetaPath)]"
  let ?vs = "[ABorrowedFd (- 100), ASlice 4096 100, AFlags 64, AOptInOut None]"
  have "(x64_impl, x64_abi, x64_numbers) \<in> set architectures" by (simp add: architectures_def)
  moreover have "(''recvfrom'', ''Recvfrom'', ?args) \<in> set declared_calls" by (simp add: declared_calls_def recvfrom_calls_def)
  moreover have "map_of x64_numbers ''Recvfrom'' = Some 45"
    by (simp add: x64_numbers_def x64_numbers_1_def)
  moreover have "list_all2 fits_decl ?args ?vs" by (simp add: fits_decl_def)
  ultimately obtain d where "declared_call x64_impl x64_abi (\<lambda>_ n args. (7 :: usize, (n, args))) (\<lambda>_. 1) (\<lambda>_. 2) d ?vs (0, []) =
    Some (if list_all2 length_fits ?args ?vs
          then (let (r, k) = (7, (45, map syscall_parameter (passed ?args ?vs))) in (Ok r, k))
          else (Panic, (0, [])))"
    using declared_calls_reach_the_kernel [where sys = "\<lambda>_ n args. (7 :: usize, (n, args))"] by blast
  then show ?thesis by (auto simp: passed_def)
qed

text \<open>
  A signal mask is a slice of sets of eight bytes, so what a call passes as its size is the number of sets, one, and not the eight that the
  kernel takes. And a read or write of a descriptor gives unit for every count.
\<close>

lemma signal_mask_size_is_wrong:
  "map syscall_parameter (passed [DArg ''sigmask'' (Some MetaPath)] [AOptSlice (Some (ptr, 1))]) = [ptr, 1]"
  by (simp add: passed_def)

lemma read_count_is_lost: "0 \<le>s r \<Longrightarrow> result_unit r = Ok ()"
  by (simp add: result_unit_def result_from_int_def)

end
