(* ===== verification/Thread_Pool.thy ===== *)
theory Thread_Pool
  imports Xx_Prelude "HOL-Library.Multiset"
begin

text \<open>
  The thread pool of \<open>src/src/threadpool/mod.rs\<close>. Everything the code does while it holds the mutex of the queue is
  one step; the workers' phases are the places where it does not hold it. The condition variable wakes at least one
  waiting worker for each \<open>notify_one\<close>, all of them for \<open>notify_all\<close>, and any of them for no reason. The intrusive list
  of works is the sequence of its elements (\<open>list_is_fifo_with_unlink\<close>). Works are submitted once, under fresh
  names. Shown: every work completes exactly once, no queued work is left while workers sleep, and a
  cancellation reaches the work it names and no other.
\<close>

section \<open>State\<close>

text \<open>
  Where a worker thread is: not yet at its first lock, waiting on the condition variable, woken but not yet holding the lock again,
  in the callback of a work, past the completion of the work but not yet holding the lock, and returned.
\<close>

datatype tp_phase = Starting | Waiting | Woken | Running nat | Completed nat | Exited

record tp_worker =
  wk_phase :: tp_phase
  wk_cur_work :: "nat option"
  wk_cancelled :: bool

record tp =
  tp_idle :: usize
  tp_queue :: "nat list"
  tp_closed :: bool
  tp_workers :: "tp_worker list"
  tp_interruptible :: bool
  tp_worker_of :: "nat \<Rightarrow> nat option"
  tp_done :: "(nat \<times> bool) list"
  tp_signals :: "nat list"

definition wk_new :: tp_worker where
  "wk_new = \<lparr>wk_phase = Starting, wk_cur_work = None, wk_cancelled = False\<rparr>"

definition tp_complete :: "tp \<Rightarrow> nat \<Rightarrow> bool \<Rightarrow> tp" where
  "tp_complete s x ok = s\<lparr>tp_done := tp_done s @ [(x, ok)]\<rparr>"

definition upd_worker :: "nat \<Rightarrow> (tp_worker \<Rightarrow> tp_worker) \<Rightarrow> tp \<Rightarrow> tp" where
  "upd_worker i f s = s\<lparr>tp_workers := (tp_workers s)[i := f (tp_workers s ! i)]\<rparr>"

text \<open>\<open>cancel_all\<close> on a queue that is left alone by its completions.\<close>

fun cancel_works :: "nat list \<Rightarrow> tp \<Rightarrow> tp" where
  "cancel_works [] s = s"
| "cancel_works (x # q) s = cancel_works q (tp_complete (s\<lparr>tp_queue := q\<rparr>) x False)"

definition interrupt_worker :: "nat \<Rightarrow> tp \<Rightarrow> tp" where
  "interrupt_worker i s = (if tp_interruptible s then s\<lparr>tp_signals := tp_signals s @ [i]\<rparr> else s)"

section \<open>Workers\<close>

text \<open>The head of the loop of \<open>run\<close>, under the lock, up to where it releases it.\<close>

definition worker_loop :: "nat \<Rightarrow> tp \<Rightarrow> tp" where
  "worker_loop i s =
     (if tp_closed s then upd_worker i (wk_phase_update (\<lambda>_. Exited)) s
      else case tp_queue s of
        [] \<Rightarrow> upd_worker i (wk_phase_update (\<lambda>_. Waiting)) (s\<lparr>tp_idle := tp_idle s + 1\<rparr>)
      | x # q \<Rightarrow>
          upd_worker i (\<lambda>_. \<lparr>wk_phase = Running x, wk_cur_work = Some x, wk_cancelled = False\<rparr>)
            (s\<lparr>tp_queue := q, tp_worker_of := (tp_worker_of s)(x \<mapsto> i)\<rparr>))"

definition worker_enter :: "nat \<Rightarrow> tp \<Rightarrow> tp" where
  "worker_enter i s = worker_loop i (s\<lparr>tp_idle := tp_idle s - 1\<rparr>)"

definition worker_complete :: "nat \<Rightarrow> nat \<Rightarrow> tp \<Rightarrow> tp" where
  "worker_complete i x s = upd_worker i (wk_phase_update (\<lambda>_. Completed x)) (tp_complete s x True)"

definition worker_relock :: "nat \<Rightarrow> tp \<Rightarrow> tp" where
  "worker_relock i s = worker_loop i (upd_worker i (wk_cur_work_update (\<lambda>_. None)) s)"

section \<open>Handles\<close>

text \<open>\<open>ThreadPool::new\<close>, with the number of threads the system could start, and whether the handler was installed.\<close>

definition tp_new :: "nat \<Rightarrow> nat \<Rightarrow> bool \<Rightarrow> tp" where
  "tp_new max_workers started interruptible =
     \<lparr>tp_idle = of_nat max_workers, tp_queue = [], tp_closed = False, tp_workers = replicate started wk_new,
      tp_interruptible = interruptible, tp_worker_of = Map.empty, tp_done = [], tp_signals = []\<rparr>"

definition default_count :: "usize \<Rightarrow> usize" where
  "default_count cpus = (if unat cpus * 2 < 2 ^ 64 then cpus * 2 else - 1)"

text \<open>The workers a notification may wake.\<close>

definition wake_worker :: "nat \<Rightarrow> tp \<Rightarrow> tp" where
  "wake_worker i s = (if wk_phase (tp_workers s ! i) = Waiting then upd_worker i (wk_phase_update (\<lambda>_. Woken)) s else s)"

definition wake_workers :: "tp \<Rightarrow> tp" where
  "wake_workers s = s\<lparr>tp_workers := map (\<lambda>w. if wk_phase w = Waiting then w\<lparr>wk_phase := Woken\<rparr> else w) (tp_workers s)\<rparr>"

definition waiting_workers :: "tp \<Rightarrow> nat list" where
  "waiting_workers s = filter (\<lambda>i. wk_phase (tp_workers s ! i) = Waiting) [0..<length (tp_workers s)]"

text \<open>\<open>submit_direct\<close>: \<open>choice\<close> is the condition variable's, any of the waiting workers.\<close>

definition submit_direct :: "(nat list \<Rightarrow> nat) \<Rightarrow> nat \<Rightarrow> tp \<Rightarrow> tp" where
  "submit_direct choice x s =
     (let s1 = s\<lparr>tp_queue := tp_queue s @ [x]\<rparr>
      in if tp_idle s1 \<noteq> 0 \<and> waiting_workers s1 \<noteq> [] then wake_worker (choice (waiting_workers s1)) s1 else s1)"

text \<open>\<open>cancel_direct\<close>: \<open>None\<close> when it follows the null worker of a work that no worker took.\<close>

definition cancel_direct :: "nat \<Rightarrow> tp \<Rightarrow> tp option" where
  "cancel_direct x s =
     (if x \<in> set (tp_queue s) then Some (tp_complete (s\<lparr>tp_queue := remove1 x (tp_queue s)\<rparr>) x False)
      else case tp_worker_of s x of
        None \<Rightarrow> None
      | Some i \<Rightarrow>
          Some (if wk_cur_work (tp_workers s ! i) = Some x
                then interrupt_worker i (upd_worker i (wk_cancelled_update (\<lambda>_. True)) s)
                else s))"

definition tp_cancel_all :: "tp \<Rightarrow> tp" where
  "tp_cancel_all s =
     (let s1 = fold interrupt_worker [0..<length (tp_workers s)] s
      in wake_workers (cancel_works (tp_queue s1) s1))"

definition tp_set_closed :: "tp \<Rightarrow> tp" where
  "tp_set_closed s = s\<lparr>tp_closed := True\<rparr>"

definition tp_close :: "tp \<Rightarrow> tp" where
  "tp_close s = tp_cancel_all (tp_set_closed s)"

text \<open>Dropping the queue, after the pool and every worker dropped theirs.\<close>

definition drop_queue :: "tp \<Rightarrow> tp" where
  "drop_queue s = cancel_works (tp_queue s) s"

text \<open>\<open>new\<close> closes the pool again when a thread could not be started.\<close>

definition tp_create :: "nat \<Rightarrow> nat \<Rightarrow> bool \<Rightarrow> (unit, tp) outcome \<times> tp" where
  "tp_create max_workers started interruptible =
     (let s = tp_new max_workers started interruptible
      in if started < max_workers then (Err (), tp_close s) else (Ok s, s))"

section \<open>Runs\<close>

text \<open>
  A run keeps the works submitted and the works that were asked to be cancelled. \<open>tp_set_closed\<close> and \<open>tp_cancel_all\<close> are separate steps, because \<open>close\<close>
  stores \<open>closed\<close> before it takes the lock; \<open>ThreadPool::cancel_all\<close> alone is public.
\<close>

record tp_run =
  tr_pool :: tp
  tr_submitted :: "nat list"
  tr_cancels :: "nat set"

inductive tp_step :: "tp_run \<Rightarrow> tp_run \<Rightarrow> bool" where
  step_enter: "i < length (tp_workers (tr_pool r)) \<Longrightarrow> wk_phase (tp_workers (tr_pool r) ! i) \<in> {Starting, Woken} \<Longrightarrow>
    tp_step r (r\<lparr>tr_pool := worker_enter i (tr_pool r)\<rparr>)"
| step_complete: "i < length (tp_workers (tr_pool r)) \<Longrightarrow> wk_phase (tp_workers (tr_pool r) ! i) = Running x \<Longrightarrow>
    tp_step r (r\<lparr>tr_pool := worker_complete i x (tr_pool r)\<rparr>)"
| step_relock: "i < length (tp_workers (tr_pool r)) \<Longrightarrow> wk_phase (tp_workers (tr_pool r) ! i) = Completed x \<Longrightarrow>
    tp_step r (r\<lparr>tr_pool := worker_relock i (tr_pool r)\<rparr>)"
| step_spurious: "i < length (tp_workers (tr_pool r)) \<Longrightarrow> tp_step r (r\<lparr>tr_pool := wake_worker i (tr_pool r)\<rparr>)"
| step_submit: "x \<notin> set (tr_submitted r) \<Longrightarrow> (\<And>as. as \<noteq> [] \<Longrightarrow> choice as \<in> set as) \<Longrightarrow>
    tp_step r (r\<lparr>tr_pool := submit_direct choice x (tr_pool r), tr_submitted := tr_submitted r @ [x]\<rparr>)"
| step_cancel: "cancel_direct x (tr_pool r) = Some s \<Longrightarrow>
    tp_step r (r\<lparr>tr_pool := s, tr_cancels := insert x (tr_cancels r)\<rparr>)"
| step_set_closed: "tp_step r (r\<lparr>tr_pool := tp_set_closed (tr_pool r)\<rparr>)"
| step_cancel_all: "tp_step r (r\<lparr>tr_pool := tp_cancel_all (tr_pool r)\<rparr>)"

definition tp_start :: "tp_run \<Rightarrow> bool" where
  "tp_start r \<longleftrightarrow> (\<exists>n < 2 ^ 64. \<exists>started \<le> n. \<exists>b. r = \<lparr>tr_pool = tp_new n started b, tr_submitted = [], tr_cancels = {}\<rparr>)"


section \<open>Counting workers and works\<close>

definition wk_works :: "tp_worker \<Rightarrow> nat list" where
  "wk_works w = (case wk_phase w of Running x \<Rightarrow> [x] | _ \<Rightarrow> [])"

definition tp_running :: "tp \<Rightarrow> nat list" where
  "tp_running s = concat (map wk_works (tp_workers s))"

definition tp_works :: "tp \<Rightarrow> nat multiset" where
  "tp_works s = mset (tp_queue s) + mset (tp_running s) + mset (map fst (tp_done s))"

definition tp_count :: "(tp_phase \<Rightarrow> bool) \<Rightarrow> tp \<Rightarrow> nat" where
  "tp_count P s = length (filter (\<lambda>w. P (wk_phase w)) (tp_workers s))"

fun awake :: "tp_phase \<Rightarrow> bool" where
  "awake Starting = True"
| "awake Woken = True"
| "awake _ = False"

fun asleep :: "tp_phase \<Rightarrow> bool" where
  "asleep Waiting = True"
| "asleep _ = False"

lemma mset_concat_update:
  "i < length ws \<Longrightarrow> mset (concat (map f (ws[i := w]))) + mset (f (ws ! i)) = mset (concat (map f ws)) + mset (f w)"
proof (induction ws arbitrary: i)
  case (Cons a ws)
  then show ?case by (cases i) (auto simp: ac_simps)
qed simp

lemma count_update:
  "i < length ws \<Longrightarrow> length (filter P (ws[i := w])) + (if P (ws ! i) then 1 else 0) =
    length (filter P ws) + (if P w then 1 else 0)"
proof (induction ws arbitrary: i)
  case (Cons a ws)
  then show ?case by (cases i) auto
qed simp

lemma count_upd_worker:
  "i < length (tp_workers s) \<Longrightarrow>
    tp_count P (upd_worker i f s) + (if P (wk_phase (tp_workers s ! i)) then 1 else 0) =
    tp_count P s + (if P (wk_phase (f (tp_workers s ! i))) then 1 else 0)"
  unfolding tp_count_def upd_worker_def using count_update[of i "tp_workers s" "\<lambda>w. P (wk_phase w)"] by simp

lemma running_upd_worker:
  "i < length (tp_workers s) \<Longrightarrow>
    mset (tp_running (upd_worker i f s)) + mset (wk_works (tp_workers s ! i)) =
    mset (tp_running s) + mset (wk_works (f (tp_workers s ! i)))"
  unfolding tp_running_def upd_worker_def using mset_concat_update[of i "tp_workers s" wk_works] by simp

lemma upd_worker_simps [simp]:
  "tp_idle (upd_worker i f s) = tp_idle s" "tp_queue (upd_worker i f s) = tp_queue s"
  "tp_closed (upd_worker i f s) = tp_closed s" "tp_worker_of (upd_worker i f s) = tp_worker_of s"
  "tp_done (upd_worker i f s) = tp_done s" "length (tp_workers (upd_worker i f s)) = length (tp_workers s)"
  "i < length (tp_workers s) \<Longrightarrow>
    tp_workers (upd_worker i f s) ! j = (if i = j then f (tp_workers s ! i) else tp_workers s ! j)"
  by (simp_all add: upd_worker_def)

lemma tp_count_simps [simp]:
  "tp_count P (s\<lparr>tp_idle := n\<rparr>) = tp_count P s" "tp_count P (s\<lparr>tp_queue := q\<rparr>) = tp_count P s"
  "tp_count P (s\<lparr>tp_worker_of := m\<rparr>) = tp_count P s" "tp_count P (s\<lparr>tp_done := d\<rparr>) = tp_count P s"
  "tp_count P (s\<lparr>tp_signals := g\<rparr>) = tp_count P s" "tp_count P (s\<lparr>tp_closed := b\<rparr>) = tp_count P s"
  by (simp_all add: tp_count_def)

lemma tp_running_simps [simp]:
  "tp_running (s\<lparr>tp_idle := n\<rparr>) = tp_running s" "tp_running (s\<lparr>tp_queue := q\<rparr>) = tp_running s"
  "tp_running (s\<lparr>tp_worker_of := m\<rparr>) = tp_running s" "tp_running (s\<lparr>tp_done := d\<rparr>) = tp_running s"
  "tp_running (s\<lparr>tp_signals := g\<rparr>) = tp_running s" "tp_running (s\<lparr>tp_closed := b\<rparr>) = tp_running s"
  by (simp_all add: tp_running_def)

text \<open>No step loses or invents a work.\<close>

lemma works_loop:
  assumes "i < length (tp_workers s)" "wk_works (tp_workers s ! i) = []"
  shows "tp_works (worker_loop i s) = tp_works s"
  using assms running_upd_worker[OF assms(1)]
    running_upd_worker[of i "s\<lparr>tp_queue := tl (tp_queue s), tp_worker_of := (tp_worker_of s)(hd (tp_queue s) \<mapsto> i)\<rparr>"]
    running_upd_worker[of i "s\<lparr>tp_idle := tp_idle s + 1\<rparr>"]
  by (auto simp: worker_loop_def tp_works_def wk_works_def split: list.splits tp_phase.splits)

lemma works_complete:
  assumes "i < length (tp_workers s)" "wk_phase (tp_workers s ! i) = Running x"
  shows "tp_works (worker_complete i x s) = tp_works s"
  using assms running_upd_worker[of i "tp_complete s x True"]
  by (auto simp: worker_complete_def tp_works_def wk_works_def tp_complete_def)

lemma cancel_works_eq:
  "tp_queue s = q \<Longrightarrow> cancel_works q s = s\<lparr>tp_queue := [], tp_done := tp_done s @ map (\<lambda>x. (x, False)) q\<rparr>"
  by (induction q s rule: cancel_works.induct) (auto simp: tp_complete_def)

lemma interrupt_simps [simp]:
  "tp_idle (interrupt_worker i s) = tp_idle s" "tp_queue (interrupt_worker i s) = tp_queue s"
  "tp_closed (interrupt_worker i s) = tp_closed s" "tp_worker_of (interrupt_worker i s) = tp_worker_of s"
  "tp_done (interrupt_worker i s) = tp_done s" "tp_workers (interrupt_worker i s) = tp_workers s"
  by (simp_all add: interrupt_worker_def)

lemma interrupts_simps [simp]:
  "tp_idle (fold interrupt_worker is s) = tp_idle s" "tp_queue (fold interrupt_worker is s) = tp_queue s"
  "tp_closed (fold interrupt_worker is s) = tp_closed s" "tp_worker_of (fold interrupt_worker is s) = tp_worker_of s"
  "tp_done (fold interrupt_worker is s) = tp_done s" "tp_workers (fold interrupt_worker is s) = tp_workers s"
  by (induction "is" arbitrary: s) simp_all

lemma cancel_all_simps [simp]:
  "tp_idle (tp_cancel_all s) = tp_idle s" "tp_queue (tp_cancel_all s) = []"
  "tp_closed (tp_cancel_all s) = tp_closed s" "tp_worker_of (tp_cancel_all s) = tp_worker_of s"
  "tp_done (tp_cancel_all s) = tp_done s @ map (\<lambda>x. (x, False)) (tp_queue s)"
  "tp_workers (tp_cancel_all s) = map (\<lambda>w. if wk_phase w = Waiting then w\<lparr>wk_phase := Woken\<rparr> else w) (tp_workers s)"
  unfolding tp_cancel_all_def Let_def wake_workers_def by (simp_all add: cancel_works_eq)

lemma waiting_in: "i \<in> set (waiting_workers s) \<longleftrightarrow> i < length (tp_workers s) \<and> wk_phase (tp_workers s ! i) = Waiting"
  by (auto simp: waiting_workers_def)


section \<open>The invariant\<close>

text \<open>Every work is in one place.\<close>

definition works_ok :: "tp_run \<Rightarrow> bool" where
  "works_ok r \<longleftrightarrow> distinct (tr_submitted r) \<and> tp_works (tr_pool r) = mset (tr_submitted r)"

text \<open>What a worker remembers fits its phase.\<close>

definition wk_ok :: "(nat \<Rightarrow> nat option) \<Rightarrow> nat set \<Rightarrow> nat \<Rightarrow> tp_worker \<Rightarrow> bool" where
  "wk_ok m cs i w \<longleftrightarrow>
     (case wk_phase w of
        Running x \<Rightarrow> wk_cur_work w = Some x \<and> m x = Some i \<and> (wk_cancelled w \<longrightarrow> x \<in> cs)
      | Completed x \<Rightarrow> wk_cur_work w = Some x
      | _ \<Rightarrow> wk_cur_work w = None)"

definition workers_ok :: "tp_run \<Rightarrow> bool" where
  "workers_ok r \<longleftrightarrow>
     (\<forall>i < length (tp_workers (tr_pool r)). wk_ok (tp_worker_of (tr_pool r)) (tr_cancels r) i (tp_workers (tr_pool r) ! i))"

text \<open>
  The idle count is exact, up to the threads that were never started; and while a worker waits there are at least as many workers
  on their way to the queue as there are works in it.
\<close>

definition idle_ok :: "nat \<Rightarrow> tp \<Rightarrow> bool" where
  "idle_ok n s \<longleftrightarrow> length (tp_workers s) \<le> n \<and>
     tp_idle s = of_nat (tp_count awake s + tp_count asleep s + (n - length (tp_workers s))) \<and>
     (\<not> tp_closed s \<longrightarrow> 0 < tp_count asleep s \<longrightarrow> length (tp_queue s) \<le> tp_count awake s)"

definition tp_ok :: "tp_run \<Rightarrow> bool" where
  "tp_ok r \<longleftrightarrow> works_ok r \<and> workers_ok r \<and> (\<exists>n < 2 ^ 64. idle_ok n (tr_pool r))"

lemma worker_loop_cases [case_names closed empty work]:
  assumes "tp_closed s \<Longrightarrow> P (upd_worker i (wk_phase_update (\<lambda>_. Exited)) s)"
    "\<not> tp_closed s \<Longrightarrow> tp_queue s = [] \<Longrightarrow>
      P (upd_worker i (wk_phase_update (\<lambda>_. Waiting)) (s\<lparr>tp_idle := tp_idle s + 1\<rparr>))"
    "\<And>x q. \<not> tp_closed s \<Longrightarrow> tp_queue s = x # q \<Longrightarrow>
      P (upd_worker i (\<lambda>_. \<lparr>wk_phase = Running x, wk_cur_work = Some x, wk_cancelled = False\<rparr>)
            (s\<lparr>tp_queue := q, tp_worker_of := (tp_worker_of s)(x \<mapsto> i)\<rparr>))"
  shows "P (worker_loop i s)"
  using assms by (auto simp: worker_loop_def split: list.splits)

lemma count_after:
  assumes "i < length (tp_workers s)"
  shows "tp_count P (upd_worker i f s) =
    tp_count P s - (if P (wk_phase (tp_workers s ! i)) then 1 else 0) + (if P (wk_phase (f (tp_workers s ! i))) then 1 else 0)"
proof -
  have "P (wk_phase (tp_workers s ! i)) \<Longrightarrow> 0 < tp_count P s"
    using assms nth_mem[of i "tp_workers s"] by (auto simp: tp_count_def filter_empty_conv)
  then show ?thesis using count_upd_worker[OF assms, of P f] by (auto split: if_splits)
qed

lemma count_pos: "i < length (tp_workers s) \<Longrightarrow> P (wk_phase (tp_workers s ! i)) \<Longrightarrow> 0 < tp_count P s"
  using nth_mem[of i "tp_workers s"] by (auto simp: tp_count_def filter_empty_conv)

lemma idle_loop:
  assumes "i < length (tp_workers s)" "\<not> asleep (wk_phase (tp_workers s ! i))" "length (tp_workers s) \<le> n"
    "tp_idle s = of_nat (tp_count awake s - (if awake (wk_phase (tp_workers s ! i)) then 1 else 0)
      + tp_count asleep s + (n - length (tp_workers s)))"
    "\<not> tp_closed s \<longrightarrow> 0 < tp_count asleep s \<longrightarrow> length (tp_queue s) \<le> tp_count awake s"
  shows "idle_ok n (worker_loop i s)"
proof (induction rule: worker_loop_cases)
  case closed
  then show ?case using assms by (auto simp: idle_ok_def count_after simp del: of_nat_add)
next
  case empty
  have "tp_idle s + 1 = of_nat (Suc (tp_count awake s - (if awake (wk_phase (tp_workers s ! i)) then 1 else 0)
      + tp_count asleep s + (n - length (tp_workers s))))" using assms(4) by (simp add: add.commute)
  then show ?case using assms(1-3) empty by (auto simp: idle_ok_def count_after simp del: of_nat_add of_nat_Suc)
next
  case (work x q)
  then show ?case using assms count_pos[OF assms(1), of awake]
    by (auto simp: idle_ok_def count_after simp del: of_nat_add)
qed

lemma idle_ok_congs:
  assumes "idle_ok n s" "tp_idle t = tp_idle s" "tp_workers t = tp_workers s" "length (tp_queue t) \<le> length (tp_queue s)"
    "tp_closed s \<longrightarrow> tp_closed t"
  shows "idle_ok n t"
  using assms by (auto simp: idle_ok_def tp_count_def)


text \<open>The idle count and the wake-ups, operation by operation.\<close>

lemma idle_enter:
  assumes "i < length (tp_workers s)" "awake (wk_phase (tp_workers s ! i))" "idle_ok n s"
  shows "idle_ok n (worker_enter i s)"
  unfolding worker_enter_def
proof (rule idle_loop)
  have "0 < tp_count awake s" using assms(1,2) by (rule count_pos)
  then have "tp_count awake s + tp_count asleep s + (n - length (tp_workers s)) =
      Suc (tp_count awake s - 1 + tp_count asleep s + (n - length (tp_workers s)))" by simp
  then have "tp_idle s - 1 = of_nat (tp_count awake s - 1 + tp_count asleep s + (n - length (tp_workers s)))"
    using assms(3) unfolding idle_ok_def by (simp del: of_nat_add)
  then show "tp_idle (s\<lparr>tp_idle := tp_idle s - 1\<rparr>) = of_nat (tp_count awake (s\<lparr>tp_idle := tp_idle s - 1\<rparr>) -
      (if awake (wk_phase (tp_workers (s\<lparr>tp_idle := tp_idle s - 1\<rparr>) ! i)) then 1 else 0) +
      tp_count asleep (s\<lparr>tp_idle := tp_idle s - 1\<rparr>) + (n - length (tp_workers (s\<lparr>tp_idle := tp_idle s - 1\<rparr>))))"
    using assms(2) by simp
  show "\<not> asleep (wk_phase (tp_workers (s\<lparr>tp_idle := tp_idle s - 1\<rparr>) ! i))"
    using assms(2) by (cases "wk_phase (tp_workers s ! i)") auto
qed (use assms in \<open>auto simp: idle_ok_def\<close>)

lemma idle_complete:
  "i < length (tp_workers s) \<Longrightarrow> wk_phase (tp_workers s ! i) = Running x \<Longrightarrow> idle_ok n s \<Longrightarrow> idle_ok n (worker_complete i x s)"
  by (auto simp: worker_complete_def tp_complete_def idle_ok_def count_after)

lemma idle_relock:
  assumes "i < length (tp_workers s)" "wk_phase (tp_workers s ! i) = Completed x" "idle_ok n s"
  shows "idle_ok n (worker_relock i s)"
  unfolding worker_relock_def
  by (rule idle_loop) (use assms in \<open>auto simp: idle_ok_def count_after simp del: of_nat_add\<close>)

lemma idle_wake: "i < length (tp_workers s) \<Longrightarrow> idle_ok n s \<Longrightarrow> idle_ok n (wake_worker i s)"
  using count_pos[of i s asleep] by (auto simp: wake_worker_def idle_ok_def count_after simp del: of_nat_add)

lemma phases_le: "length (filter (\<lambda>w. awake (wk_phase w)) ws) + length (filter (\<lambda>w. asleep (wk_phase w)) ws) \<le> length ws"
proof (induction ws)
  case (Cons w ws)
  then show ?case by (cases "wk_phase w") auto
qed simp

lemma idle_submit:
  assumes "\<And>as. as \<noteq> [] \<Longrightarrow> choice as \<in> set as" "idle_ok n s" "n < 2 ^ 64"
  shows "idle_ok n (submit_direct choice x s)"
proof -
  let ?s = "s\<lparr>tp_queue := tp_queue s @ [x]\<rparr>"
  show ?thesis
  proof (cases "waiting_workers ?s = []")
    case True
    have "tp_count asleep s = 0"
    proof (rule ccontr)
      assume "tp_count asleep s \<noteq> 0"
      then obtain w where "w \<in> set (tp_workers s)" "asleep (wk_phase w)" by (auto simp: tp_count_def filter_empty_conv)
      then obtain i where "i < length (tp_workers s)" "wk_phase (tp_workers s ! i) = Waiting"
        by (metis asleep.elims(2) in_set_conv_nth)
      then have "i \<in> set (waiting_workers ?s)" by (simp add: waiting_workers_def)
      with True show False by simp
    qed
    then show ?thesis using assms(2) True by (simp add: submit_direct_def Let_def idle_ok_def)
  next
    case False
    let ?i = "choice (waiting_workers ?s)"
    have "?i \<in> set (waiting_workers ?s)" using assms(1) False by blast
    then have i: "?i < length (tp_workers s)" "wk_phase (tp_workers s ! ?i) = Waiting" by (auto simp: waiting_workers_def)
    have "0 < tp_count asleep s" using count_pos[of ?i s asleep] i by simp
    moreover have "tp_count awake s + tp_count asleep s \<le> length (tp_workers s)" unfolding tp_count_def by (rule phases_le)
    moreover have "length (tp_workers s) \<le> n" "tp_idle s = of_nat (tp_count awake s + tp_count asleep s + (n - length (tp_workers s)))"
      using assms(2) by (simp_all add: idle_ok_def)
    moreover from this calculation have "unat (tp_idle s) = tp_count awake s + tp_count asleep s + (n - length (tp_workers s))"
      using assms(3) by (simp only:) (rule unat_of_nat_usize, linarith)
    ultimately have "unat (tp_idle s) \<noteq> 0" by linarith
    then have "tp_idle s \<noteq> 0" by auto
    then show ?thesis using assms(2) False i count_pos[of ?i s asleep]
      by (auto simp: submit_direct_def Let_def idle_ok_def wake_worker_def count_after simp del: of_nat_add)
  qed
qed

lemma idle_cancel_all:
  assumes "idle_ok n s"
  shows "idle_ok n (tp_cancel_all s)"
proof -
  let ?f = "\<lambda>w. if wk_phase w = Waiting then w\<lparr>wk_phase := Woken\<rparr> else w"
  have a: "length (filter (\<lambda>w. awake (wk_phase w)) (map ?f ws)) =
      length (filter (\<lambda>w. awake (wk_phase w)) ws) + length (filter (\<lambda>w. asleep (wk_phase w)) ws)" for ws
  proof (induction ws)
    case (Cons w ws)
    then show ?case by (cases "wk_phase w") auto
  qed simp
  have "\<not> asleep (wk_phase (?f w))" for w by (cases "wk_phase w") auto
  then have b: "filter (\<lambda>w. asleep (wk_phase w)) (map ?f ws) = []" for ws by (simp only: filter_empty_conv set_map) blast
  have c: "tp_count awake (tp_cancel_all s) = tp_count awake s + tp_count asleep s" "tp_count asleep (tp_cancel_all s) = 0"
    unfolding tp_count_def cancel_all_simps a b by simp_all
  show ?thesis using assms by (simp add: idle_ok_def c)
qed


text \<open>The workers' memory.\<close>

lemma upd_worker_beyond: "\<not> i < length (tp_workers s) \<Longrightarrow> upd_worker i f s = s"
  by (cases s) (simp add: upd_worker_def list_update_beyond)

lemma wk_ok_mono: "wk_ok m cs i w \<Longrightarrow> cs \<subseteq> cs' \<Longrightarrow> wk_ok m cs' i w"
  by (auto simp: wk_ok_def split: tp_phase.splits)

lemma wk_ok_woken [simp]: "wk_phase w = Waiting \<Longrightarrow> wk_ok m cs i (w\<lparr>wk_phase := Woken\<rparr>) \<longleftrightarrow> wk_ok m cs i w"
  by (simp add: wk_ok_def)

lemma workers_ok_upd:
  assumes "\<And>j. j < length (tp_workers s) \<Longrightarrow> j \<noteq> i \<Longrightarrow> wk_ok (tp_worker_of s) cs j (tp_workers s ! j)"
    "i < length (tp_workers s)" "wk_ok (tp_worker_of s) cs i (f (tp_workers s ! i))"
  shows "workers_ok \<lparr>tr_pool = upd_worker i f s, tr_submitted = xs, tr_cancels = cs\<rparr>"
  using assms by (simp add: workers_ok_def)

lemma workers_okD: "workers_ok r \<Longrightarrow> i < length (tp_workers (tr_pool r)) \<Longrightarrow>
    wk_ok (tp_worker_of (tr_pool r)) (tr_cancels r) i (tp_workers (tr_pool r) ! i)"
  by (simp add: workers_ok_def)

lemma workers_ok_congs:
  assumes "workers_ok r" "tp_workers (tr_pool t) = tp_workers (tr_pool r)" "tp_worker_of (tr_pool t) = tp_worker_of (tr_pool r)"
    "tr_cancels r \<subseteq> tr_cancels t"
  shows "workers_ok t"
  using assms by (auto simp: workers_ok_def intro: wk_ok_mono)

lemma in_running:
  assumes "i < length (tp_workers s)" "wk_phase (tp_workers s ! i) = Running x"
  shows "x \<in> set (tp_running s)"
proof -
  have "x \<in> set (wk_works (tp_workers s ! i))" using assms(2) by (simp add: wk_works_def)
  then show ?thesis using nth_mem[OF assms(1)] unfolding tp_running_def set_concat set_map by blast
qed

lemma running_unqueued:
  assumes "works_ok r" "i < length (tp_workers (tr_pool r))" "wk_phase (tp_workers (tr_pool r) ! i) = Running x"
  shows "x \<notin> set (tp_queue (tr_pool r))"
proof
  assume "x \<in> set (tp_queue (tr_pool r))"
  then have "x \<in># mset (tp_queue (tr_pool r))" by simp
  then have "1 \<le> count (mset (tp_queue (tr_pool r))) x" by (simp only: count_greater_eq_one_iff)
  moreover have "x \<in># mset (tp_running (tr_pool r))" using in_running[OF assms(2,3)] by simp
  then have "1 \<le> count (mset (tp_running (tr_pool r))) x" by (simp only: count_greater_eq_one_iff)
  ultimately have "2 \<le> count (tp_works (tr_pool r)) x" unfolding tp_works_def count_union by linarith
  then show False using assms(1) by (simp add: works_ok_def distinct_count_atmost_1 split: if_splits)
qed

lemma memory_loop:
  assumes "works_ok r" "\<And>j. j < length (tp_workers s) \<Longrightarrow> j \<noteq> i \<Longrightarrow> wk_ok (tp_worker_of s) (tr_cancels r) j (tp_workers s ! j)"
    "wk_cur_work (tp_workers s ! i) = None" "i < length (tp_workers s)"
    "tp_queue s = tp_queue (tr_pool r)" "length (tp_workers s) = length (tp_workers (tr_pool r))"
    "\<And>j. j < length (tp_workers s) \<Longrightarrow> wk_phase (tp_workers s ! j) = wk_phase (tp_workers (tr_pool r) ! j)"
  shows "workers_ok \<lparr>tr_pool = worker_loop i s, tr_submitted = xs, tr_cancels = tr_cancels r\<rparr>"
proof (induction rule: worker_loop_cases)
  case closed
  show ?case by (rule workers_ok_upd) (use assms(2-4) in \<open>simp_all add: wk_ok_def[of _ _ _ "wk_phase_update f w" for f w]\<close>)
next
  case empty
  show ?case by (rule workers_ok_upd) (use assms(2-4) in \<open>simp_all add: wk_ok_def[of _ _ _ "wk_phase_update f w" for f w]\<close>)
next
  case (work x q)
  have "wk_ok ((tp_worker_of s)(x \<mapsto> i)) (tr_cancels r) j (tp_workers s ! j)" if "j < length (tp_workers s)" "j \<noteq> i" for j
  proof -
    have "wk_phase (tp_workers s ! j) \<noteq> Running x"
      using running_unqueued[OF assms(1), of j x] assms(5-7) that work(2) by (metis list.set_intros(1))
    then show ?thesis using assms(2)[OF that] by (auto simp: wk_ok_def split: tp_phase.splits)
  qed
  then show ?case by (intro workers_ok_upd) (use assms(4) in \<open>simp_all add: wk_ok_def\<close>)
qed

lemma run_eta: "r\<lparr>tr_pool := p\<rparr> = \<lparr>tr_pool = p, tr_submitted = tr_submitted r, tr_cancels = tr_cancels r\<rparr>"
  "\<lparr>tr_pool = p, tr_submitted = ys, tr_cancels = cs\<rparr>\<lparr>tr_submitted := xs\<rparr> = \<lparr>tr_pool = p, tr_submitted = xs, tr_cancels = cs\<rparr>"
  "r\<lparr>tr_pool := p, tr_submitted := xs\<rparr> = \<lparr>tr_pool = p, tr_submitted = xs, tr_cancels = tr_cancels r\<rparr>"
  "r\<lparr>tr_pool := p, tr_cancels := cs\<rparr> = \<lparr>tr_pool = p, tr_submitted = tr_submitted r, tr_cancels = cs\<rparr>"
  by (cases r, simp)+

lemma wk_ok_cancelled: "wk_ok m cs i w \<Longrightarrow> wk_cur_work w = Some x \<Longrightarrow> wk_ok m (insert x cs) i (w\<lparr>wk_cancelled := True\<rparr>)"
  by (auto simp: wk_ok_def split: tp_phase.splits)

lemma memory_wake:
  assumes "workers_ok r" "i < length (tp_workers s)" "tp_workers s = tp_workers (tr_pool r)" "tp_worker_of s = tp_worker_of (tr_pool r)"
  shows "workers_ok \<lparr>tr_pool = wake_worker i s, tr_submitted = xs, tr_cancels = tr_cancels r\<rparr>"
proof (cases "wk_phase (tp_workers s ! i) = Waiting")
  case True
  show ?thesis unfolding wake_worker_def if_P[OF True]
    by (rule workers_ok_upd) (use assms True workers_okD[OF assms(1)] in simp_all)
next
  case False
  then show ?thesis using assms by (simp add: wake_worker_def workers_ok_def)
qed

lemma memory_step:
  assumes "tp_step r t" "works_ok r" "workers_ok r"
  shows "workers_ok t"
  using assms(1)
proof cases
  case (step_enter i)
  have "wk_cur_work (tp_workers (tr_pool r) ! i) = None"
    using workers_okD[OF assms(3) step_enter(2)] step_enter(3) by (auto simp: wk_ok_def)
  then show ?thesis
    unfolding step_enter(1) worker_enter_def run_eta
    by (intro memory_loop[OF assms(2)]) (use workers_okD[OF assms(3)] step_enter in simp_all)
next
  case (step_complete i x)
  show ?thesis unfolding step_complete(1) worker_complete_def run_eta tp_complete_def
    by (rule workers_ok_upd)
      (use workers_okD[OF assms(3)] workers_okD[OF assms(3) step_complete(2)] step_complete(2,3) in
        \<open>simp_all add: wk_ok_def[of _ _ _ "wk_phase_update f w" for f w] wk_ok_def[of _ _ i "tp_workers (tr_pool r) ! i"]\<close>)
next
  case (step_relock i x)
  show ?thesis unfolding step_relock(1) worker_relock_def run_eta
    by (intro memory_loop[OF assms(2)]) (use workers_okD[OF assms(3)] step_relock in \<open>simp_all add: if_distrib cong: if_cong\<close>)
next
  case (step_spurious i)
  then show ?thesis unfolding step_spurious(1) run_eta by (intro memory_wake[OF assms(3)]) simp_all
next
  case (step_submit x choice)
  let ?s = "tr_pool r\<lparr>tp_queue := tp_queue (tr_pool r) @ [x]\<rparr>"
  show ?thesis
  proof (cases "tp_idle ?s \<noteq> 0 \<and> waiting_workers ?s \<noteq> []")
    case True
    then have "choice (waiting_workers ?s) \<in> set (waiting_workers ?s)" using step_submit(3) by blast
    then have "choice (waiting_workers ?s) < length (tp_workers ?s)" unfolding waiting_in by blast
    then show ?thesis using True unfolding step_submit(1) run_eta submit_direct_def Let_def
      by (simp only: if_True simp_thms) (rule memory_wake[OF assms(3)], simp_all)
  next
    case False
    show ?thesis unfolding step_submit(1) submit_direct_def Let_def if_not_P[OF False]
      by (rule workers_ok_congs[OF assms(3)]) simp_all
  qed
next
  case (step_cancel x s)
  show ?thesis
  proof (cases "x \<in> set (tp_queue (tr_pool r)) \<or> \<not> (\<exists>i. tp_worker_of (tr_pool r) x = Some i \<and> wk_cur_work (tp_workers (tr_pool r) ! i) = Some x)")
    case True
    then have "tp_workers s = tp_workers (tr_pool r) \<and> tp_worker_of s = tp_worker_of (tr_pool r)"
      using step_cancel(2) by (auto simp: cancel_direct_def tp_complete_def split: if_splits option.splits)
    then show ?thesis unfolding step_cancel(1) by (intro workers_ok_congs[OF assms(3)]) auto
  next
    case False
    then obtain i where i: "tp_worker_of (tr_pool r) x = Some i" "wk_cur_work (tp_workers (tr_pool r) ! i) = Some x"
      "s = interrupt_worker i (upd_worker i (wk_cancelled_update (\<lambda>_. True)) (tr_pool r))"
      using step_cancel(2) by (auto simp: cancel_direct_def)
    show ?thesis
    proof (cases "i < length (tp_workers (tr_pool r))")
      case True
      have "workers_ok \<lparr>tr_pool = upd_worker i (wk_cancelled_update (\<lambda>_. True)) (tr_pool r),
          tr_submitted = tr_submitted r, tr_cancels = insert x (tr_cancels r)\<rparr>"
        by (rule workers_ok_upd)
          (use True workers_okD[OF assms(3)] i(2) in \<open>auto intro: wk_ok_cancelled wk_ok_mono[OF _ subset_insertI]\<close>)
      then show ?thesis unfolding step_cancel(1) i(3) by (rule workers_ok_congs) simp_all
    next
      case False
      then have "tp_workers s = tp_workers (tr_pool r)" "tp_worker_of s = tp_worker_of (tr_pool r)"
        unfolding i(3) by (simp_all add: upd_worker_beyond)
      then show ?thesis unfolding step_cancel(1) by (intro workers_ok_congs[OF assms(3)]) auto
    qed
  qed
next
  case step_set_closed
  show ?thesis unfolding step_set_closed tp_set_closed_def by (rule workers_ok_congs[OF assms(3)]) simp_all
next
  case step_cancel_all
  then show ?thesis using assms(3) by (simp add: workers_ok_def)
qed


text \<open>The works.\<close>

lemma works_upd_worker:
  assumes "wk_works (f (tp_workers s ! i)) = wk_works (tp_workers s ! i)"
  shows "tp_works (upd_worker i f s) = tp_works s"
proof (cases "i < length (tp_workers s)")
  case True
  then show ?thesis using running_upd_worker[OF True, of f] assms by (simp add: tp_works_def)
next
  case False
  then have "upd_worker i f s = s" by (rule upd_worker_beyond)
  then show ?thesis by simp
qed

lemma works_simps [simp]:
  "tp_works (s\<lparr>tp_idle := n\<rparr>) = tp_works s" "tp_works (s\<lparr>tp_closed := b\<rparr>) = tp_works s"
  "tp_works (s\<lparr>tp_queue := tp_queue s @ [x]\<rparr>) = add_mset x (tp_works s)"
  by (simp_all add: tp_works_def)

lemma works_wake [simp]: "tp_works (wake_worker i s) = tp_works s"
  by (auto simp: wake_worker_def wk_works_def intro: works_upd_worker)

lemma works_interrupt [simp]: "tp_works (interrupt_worker i s) = tp_works s"
  by (simp add: tp_works_def tp_running_def)

lemma works_cancel_all [simp]: "tp_works (tp_cancel_all s) = tp_works s"
proof -
  have "wk_works (if wk_phase w = Waiting then w\<lparr>wk_phase := Woken\<rparr> else w) = wk_works w" for w
    by (simp add: wk_works_def)
  then have "tp_running (tp_cancel_all s) = tp_running s" by (simp add: tp_running_def o_def)
  then show ?thesis by (simp add: tp_works_def o_def)
qed

lemma works_step:
  assumes "tp_step r t" "works_ok r"
  shows "works_ok t"
  using assms(1)
proof cases
  case (step_enter i)
  then have "tp_works (worker_enter i (tr_pool r)) = tp_works (tr_pool r)"
    using works_loop[of i "tr_pool r\<lparr>tp_idle := tp_idle (tr_pool r) - 1\<rparr>"] by (auto simp: worker_enter_def wk_works_def)
  then show ?thesis using assms(2) step_enter(1) by (simp add: works_ok_def)
next
  case (step_complete i x)
  then show ?thesis using assms(2) works_complete[OF step_complete(2,3)] by (simp add: works_ok_def)
next
  case (step_relock i x)
  let ?s = "upd_worker i (wk_cur_work_update (\<lambda>_. None)) (tr_pool r)"
  have "tp_works (worker_relock i (tr_pool r)) = tp_works ?s"
    using works_loop[of i ?s] step_relock(2,3) by (simp add: worker_relock_def wk_works_def)
  moreover have "tp_works ?s = tp_works (tr_pool r)" by (rule works_upd_worker) (simp add: wk_works_def)
  ultimately show ?thesis using assms(2) step_relock(1) by (simp add: works_ok_def)
next
  case (step_submit x choice)
  then show ?thesis using assms(2) by (simp add: works_ok_def submit_direct_def Let_def)
next
  case (step_cancel x s)
  have "tp_works s = tp_works (tr_pool r)"
  proof (cases "x \<in> set (tp_queue (tr_pool r))")
    case True
    then show ?thesis using step_cancel(2) by (auto simp: cancel_direct_def tp_complete_def tp_works_def)
  next
    case False
    have "tp_works (upd_worker i (wk_cancelled_update (\<lambda>_. True)) (tr_pool r)) = tp_works (tr_pool r)" for i
      by (rule works_upd_worker) (simp add: wk_works_def)
    with False show ?thesis using step_cancel(2) by (auto simp: cancel_direct_def split: option.splits if_splits)
  qed
  then show ?thesis using assms(2) step_cancel(1) by (simp add: works_ok_def)
qed (use assms(2) in \<open>simp_all add: works_ok_def tp_set_closed_def\<close>)

lemma tp_count_phases: "tp_count P s = length (filter P (map wk_phase (tp_workers s)))"
  by (simp add: tp_count_def filter_map o_def)

lemma cancel_phases: "cancel_direct x s = Some t \<Longrightarrow> map wk_phase (tp_workers t) = map wk_phase (tp_workers s)"
  by (auto simp: cancel_direct_def tp_complete_def upd_worker_def map_update split: option.splits if_splits)
    (metis list_update_id map_update nth_map)+

lemma idle_step:
  assumes "tp_step r t" "idle_ok n (tr_pool r)" "n < 2 ^ 64"
  shows "idle_ok n (tr_pool t)"
  using assms(1)
proof cases
  case (step_enter i)
  then have "awake (wk_phase (tp_workers (tr_pool r) ! i))" by auto
  then show ?thesis using step_enter idle_enter assms(2) by simp
next
  case (step_submit x choice)
  then show ?thesis using idle_submit[OF step_submit(3) assms(2,3)] by simp
next
  case (step_cancel x s)
  then have "tp_idle s = tp_idle (tr_pool r)" "length (tp_queue s) \<le> length (tp_queue (tr_pool r))" "tp_closed s = tp_closed (tr_pool r)"
    by (auto simp: cancel_direct_def tp_complete_def length_remove1 split: option.splits if_splits)
  moreover have "map wk_phase (tp_workers s) = map wk_phase (tp_workers (tr_pool r))" by (rule cancel_phases[OF step_cancel(2)])
  then have "tp_count P s = tp_count P (tr_pool r)" "length (tp_workers s) = length (tp_workers (tr_pool r))" for P
    unfolding tp_count_phases by (auto dest: arg_cong[where f = length])
  ultimately show ?thesis using step_cancel(1) assms(2) by (auto simp: idle_ok_def)
qed (use assms(2) in \<open>simp_all add: idle_complete idle_relock idle_wake idle_cancel_all, auto simp: tp_set_closed_def idle_ok_def\<close>)


lemma concat_no_works: "concat (map wk_works (replicate n wk_new)) = []"
  by (induction n) (simp_all add: wk_works_def wk_new_def)

lemma new_ok:
  assumes "started \<le> n" "n < 2 ^ 64"
  shows "tp_ok \<lparr>tr_pool = tp_new n started b, tr_submitted = [], tr_cancels = {}\<rparr>"
proof -
  have "works_ok \<lparr>tr_pool = tp_new n started b, tr_submitted = [], tr_cancels = {}\<rparr>"
    by (simp add: works_ok_def tp_works_def tp_running_def tp_new_def concat_no_works del: concat_replicate_trivial map_replicate)
  moreover have "workers_ok \<lparr>tr_pool = tp_new n started b, tr_submitted = [], tr_cancels = {}\<rparr>"
    by (simp add: workers_ok_def tp_new_def wk_new_def wk_ok_def)
  moreover have "idle_ok n (tp_new n started b)"
    using assms(1) by (simp add: idle_ok_def tp_count_def tp_new_def wk_new_def filter_replicate)
  ultimately show ?thesis using assms(2) by (auto simp: tp_ok_def)
qed

interpretation tp: transition_invariant tp_start tp_step tp_ok
proof
  show "tp_ok r" if "tp_start r" for r using that new_ok by (auto simp: tp_start_def)
  show "tp_ok t" if "tp_ok r" "tp_step r t" for r t
    using that works_step memory_step idle_step by (auto simp: tp_ok_def)
qed

lemma exited_running: "\<forall>w \<in> set (tp_workers s). wk_phase w = Exited \<Longrightarrow> tp_running s = []"
  by (simp add: tp_running_def wk_works_def)

section \<open>Shutting down\<close>

text \<open>What a worker does next when it is left alone.\<close>

definition own_step :: "nat \<Rightarrow> tp \<Rightarrow> tp" where
  "own_step i s =
     (case wk_phase (tp_workers s ! i) of
        Starting \<Rightarrow> worker_enter i s
      | Woken \<Rightarrow> worker_enter i s
      | Running x \<Rightarrow> worker_complete i x s
      | Completed x \<Rightarrow> worker_relock i s
      | _ \<Rightarrow> s)"

definition shut :: "tp_run \<Rightarrow> bool" where
  "shut r \<longleftrightarrow> tp_closed (tr_pool r) \<and> (\<forall>i < length (tp_workers (tr_pool r)). wk_phase (tp_workers (tr_pool r) ! i) \<noteq> Waiting)"

lemma closed_loop: "tp_closed s \<Longrightarrow> worker_loop i s = upd_worker i (wk_phase_update (\<lambda>_. Exited)) s"
  by (simp add: worker_loop_def)

lemma shut_step:
  assumes "tp_step r t" "shut r"
  shows "shut t"
  using assms(1)
proof cases
  case (step_enter i)
  then show ?thesis using assms(2) by (auto simp: shut_def worker_enter_def closed_loop)
next
  case (step_complete i x)
  then show ?thesis using assms(2) by (auto simp: shut_def worker_complete_def tp_complete_def)
next
  case (step_relock i x)
  then show ?thesis using assms(2) by (auto simp: shut_def worker_relock_def closed_loop)
next
  case (step_spurious i)
  then show ?thesis using assms(2) by (auto simp: shut_def wake_worker_def)
next
  case (step_submit x choice)
  then show ?thesis using assms(2) by (auto simp: shut_def submit_direct_def Let_def wake_worker_def waiting_workers_def)
next
  case (step_cancel x s)
  show ?thesis
  proof -
    have "tp_closed s" using assms(2) step_cancel(2)
      by (auto simp: shut_def cancel_direct_def tp_complete_def split: if_splits option.splits)
    moreover have "Waiting \<notin> set (map wk_phase (tp_workers s))"
      unfolding cancel_phases[OF step_cancel(2)] using assms(2) by (auto simp: shut_def in_set_conv_nth) metis
    then have "\<forall>i < length (tp_workers s). wk_phase (tp_workers s ! i) \<noteq> Waiting" by (metis length_map nth_map nth_mem)
    ultimately show ?thesis using step_cancel(1) by (simp add: shut_def)
  qed
next
  case step_set_closed
  then show ?thesis using assms(2) by (auto simp: shut_def tp_set_closed_def)
next
  case step_cancel_all
  then show ?thesis using assms(2) by (auto simp: shut_def)
qed

interpretation shutdown: transition_invariant
  "\<lambda>t. \<exists>r. tp_closed (tr_pool r) \<and> t = r\<lparr>tr_pool := tp_cancel_all (tr_pool r)\<rparr>" tp_step shut
proof
  show "shut t" if "\<exists>r. tp_closed (tr_pool r) \<and> t = r\<lparr>tr_pool := tp_cancel_all (tr_pool r)\<rparr>" for t
    using that by (auto simp: shut_def split: if_splits)
  show "shut t" if "shut s" "tp_step s t" for s t using that by (rule shut_step[rotated])
qed

section \<open>A run\<close>

text \<open>One worker; work 5 is submitted and taken, and work 6 is submitted while it runs.\<close>

definition sample_run :: "nat \<Rightarrow> tp_run" where
  "sample_run k =
     (let s0 = tp_new 1 1 True;
          s1 = submit_direct hd 5 s0;
          s2 = worker_enter 0 s1;
          s3 = submit_direct hd 6 s2
      in [\<lparr>tr_pool = s0, tr_submitted = [], tr_cancels = {}\<rparr>, \<lparr>tr_pool = s1, tr_submitted = [5], tr_cancels = {}\<rparr>,
          \<lparr>tr_pool = s2, tr_submitted = [5], tr_cancels = {}\<rparr>, \<lparr>tr_pool = s3, tr_submitted = [5, 6], tr_cancels = {}\<rparr>] ! k)"

lemmas sample_simps = sample_run_def Let_def tp_new_def wk_new_def submit_direct_def worker_enter_def worker_loop_def
  waiting_workers_def upd_worker_def

lemma sample_reach: "k \<le> 3 \<Longrightarrow> reach tp_start tp_step (sample_run k)"
proof (induction k)
  case 0
  show ?case by (rule reach_start) (auto simp: tp_start_def sample_run_def Let_def intro!: exI[of _ "1 :: nat"])
next
  case (Suc k)
  have hd: "as \<noteq> [] \<Longrightarrow> hd as \<in> set as" for as :: "nat list" by simp
  consider "k = 0" | "k = 1" | "k = 2" using Suc.prems by linarith
  then have "tp_step (sample_run k) (sample_run (Suc k))"
  proof cases
    case 1
    then show ?thesis using step_submit[of 5 "sample_run 0" hd] hd by (simp add: sample_simps)
  next
    case 2
    then show ?thesis using step_enter[of 0 "sample_run 1"] by (simp add: sample_simps)
  next
    case 3
    then show ?thesis using step_submit[of 6 "sample_run 2" hd] hd by (simp add: sample_simps)
  qed
  with Suc show ?case by (auto intro: reach_step)
qed

text \<open>Two workers fall asleep, and work 5 wakes one of them.\<close>

definition rest_run :: "nat \<Rightarrow> tp_run" where
  "rest_run k =
     (let s0 = tp_new 2 2 True;
          s1 = worker_enter 0 s0;
          s2 = worker_enter 1 s1;
          s3 = submit_direct hd 5 s2
      in [\<lparr>tr_pool = s0, tr_submitted = [], tr_cancels = {}\<rparr>, \<lparr>tr_pool = s1, tr_submitted = [], tr_cancels = {}\<rparr>,
          \<lparr>tr_pool = s2, tr_submitted = [], tr_cancels = {}\<rparr>, \<lparr>tr_pool = s3, tr_submitted = [5], tr_cancels = {}\<rparr>] ! k)"

lemma rest_phases:
  "map (\<lambda>k. map wk_phase (tp_workers (tr_pool (rest_run k)))) [0, 1, 2, 3] =
    [[Starting, Starting], [Waiting, Starting], [Waiting, Waiting], [Woken, Waiting]]"
  by code_simp

lemma rest_last:
  "tp_queue (tr_pool (rest_run 3)) = [5] \<and> \<not> tp_closed (tr_pool (rest_run 3)) \<and> tp_done (tr_pool (rest_run 3)) = []"
  by code_simp

lemma rest_reach: "reach tp_start tp_step (rest_run 3)"
proof -
  have 0: "reach tp_start tp_step (rest_run 0)"
    by (rule reach_start) (auto simp: tp_start_def rest_run_def Let_def intro!: exI[of _ "2 :: nat"])
  have ph: "map wk_phase (tp_workers (tr_pool (rest_run 0))) = [Starting, Starting]"
    "map wk_phase (tp_workers (tr_pool (rest_run 1))) = [Waiting, Starting]" using rest_phases by simp_all
  have n: "length (tp_workers (tr_pool (rest_run k))) = 2" if "k \<in> {0, 1}" for k
    using that ph[THEN arg_cong[where f = length]] by auto
  have 1: "tp_step (rest_run 0) (rest_run 1)"
    using step_enter[of 0 "rest_run 0"] n[of 0] ph(1)[THEN arg_cong[where f = "\<lambda>l. l ! 0"]]
    by (simp add: rest_run_def Let_def del: length_greater_0_conv)
  have 2: "tp_step (rest_run 1) (rest_run 2)"
    using step_enter[of 1 "rest_run 1"] n[of 1] ph(2)[THEN arg_cong[where f = "\<lambda>l. l ! 1"]]
    by (simp add: rest_run_def Let_def)
  have 3: "tp_step (rest_run 2) (rest_run 3)"
    using step_submit[of 5 "rest_run 2" hd] by (simp add: rest_run_def Let_def)
  from reach_step[OF reach_step[OF reach_step[OF 0 1] 2] 3] show ?thesis .
qed

section \<open>Properties\<close>

text \<open>C7: Every work that was submitted to the thread pool is in exactly one place, the queue, one running worker, or the
  list of completions, so that its future completes at most once; once the workers have returned and the queue is dropped,
  each has completed exactly once.\<close>

theorem works_complete_exactly_once:
  assumes "reach tp_start tp_step r"
  shows "distinct (tr_submitted r) \<and>
    mset (tr_submitted r) =
      mset (tp_queue (tr_pool r)) + mset (tp_running (tr_pool r)) + mset (map fst (tp_done (tr_pool r))) \<and>
    ((\<forall>w \<in> set (tp_workers (tr_pool r)). wk_phase w = Exited) \<longrightarrow>
      mset (map fst (tp_done (drop_queue (tr_pool r)))) = mset (tr_submitted r))"
  using tp.reach_inv[OF assms]
  by (auto simp: tp_ok_def works_ok_def tp_works_def drop_queue_def cancel_works_eq exited_running o_def add.commute)

theorem works_complete_exactly_once_witness:
  "mset (tr_submitted (sample_run 3)) = mset (tp_queue (tr_pool (sample_run 3))) + mset (tp_running (tr_pool (sample_run 3))) +
      mset (map fst (tp_done (tr_pool (sample_run 3)))) \<and> tr_submitted (sample_run 3) = [5, 6]"
  using works_complete_exactly_once[OF sample_reach[of 3]] by (simp add: sample_run_def Let_def)



text \<open>C26: Once the pool was closed and \<open>cancel_all\<close> has woken its workers, whatever happens in between, no worker sleeps again and
  each returns within two steps of its own.\<close>

theorem closing_stops_every_worker:
  assumes "tp_closed (tr_pool r)" "tp_step\<^sup>*\<^sup>* (r\<lparr>tr_pool := tp_cancel_all (tr_pool r)\<rparr>) t"
    "i < length (tp_workers (tr_pool t))"
  shows "wk_phase (tp_workers (own_step i (own_step i (tr_pool t))) ! i) = Exited"
proof -
  have "shut (r\<lparr>tr_pool := tp_cancel_all (tr_pool r)\<rparr>)" using assms(1) by (auto simp: shut_def)
  then have "shut t" using shutdown.steps_inv assms(2) by blast
  then show ?thesis using assms(3)
    by (cases "wk_phase (tp_workers (tr_pool t) ! i)")
      (auto simp: shut_def own_step_def worker_enter_def worker_complete_def worker_relock_def closed_loop tp_complete_def)
qed

theorem closing_stops_every_worker_witness:
  "wk_phase (tp_workers (own_step 0 (own_step 0 (tp_close (tp_new 1 1 True)))) ! 0) = Exited"
  using closing_stops_every_worker[of "\<lparr>tr_pool = tp_set_closed (tp_new 1 1 True), tr_submitted = [], tr_cancels = {}\<rparr>"
    "\<lparr>tr_pool = tp_close (tp_new 1 1 True), tr_submitted = [], tr_cancels = {}\<rparr>" 0]
  by (simp add: tp_close_def tp_set_closed_def tp_new_def)

text \<open>C25: Cancelling a work that has not completed always finds it, and either completes it without running it or tells the one worker that runs it; a running
  work is told that it is cancelled only if it was itself cancelled, whatever ran before on its worker.\<close>

theorem cancel_reaches_its_work:
  assumes "reach tp_start tp_step r" "x \<in> set (tr_submitted r)" "x \<notin> fst ` set (tp_done (tr_pool r))"
  shows "(\<exists>s. cancel_direct x (tr_pool r) = Some s \<and>
      ((x, False) \<in> set (tp_done s) \<or> (\<exists>i. wk_phase (tp_workers s ! i) = Running x \<and> wk_cancelled (tp_workers s ! i)))) \<and>
    (\<forall>i < length (tp_workers (tr_pool r)).
      wk_phase (tp_workers (tr_pool r) ! i) = Running x \<and> wk_cancelled (tp_workers (tr_pool r) ! i) \<longrightarrow> x \<in> tr_cancels r)"
proof (intro conjI)
  have ok: "works_ok r" "workers_ok r" using tp.reach_inv[OF assms(1)] by (simp_all add: tp_ok_def)
  show "\<forall>i < length (tp_workers (tr_pool r)).
      wk_phase (tp_workers (tr_pool r) ! i) = Running x \<and> wk_cancelled (tp_workers (tr_pool r) ! i) \<longrightarrow> x \<in> tr_cancels r"
  proof (intro allI impI)
    fix i assume "i < length (tp_workers (tr_pool r))"
      "wk_phase (tp_workers (tr_pool r) ! i) = Running x \<and> wk_cancelled (tp_workers (tr_pool r) ! i)"
    then show "x \<in> tr_cancels r" using workers_okD[OF ok(2), of i] by (simp add: wk_ok_def)
  qed
  have "x \<in># tp_works (tr_pool r)" using assms(2) ok(1) by (simp add: works_ok_def)
  then consider "x \<in> set (tp_queue (tr_pool r))" | "x \<notin> set (tp_queue (tr_pool r))" "x \<in> set (tp_running (tr_pool r))"
    using assms(3) by (auto simp: tp_works_def)
  then show "\<exists>s. cancel_direct x (tr_pool r) = Some s \<and>
      ((x, False) \<in> set (tp_done s) \<or> (\<exists>i. wk_phase (tp_workers s ! i) = Running x \<and> wk_cancelled (tp_workers s ! i)))"
  proof cases
    case 1
    then show ?thesis by (simp add: cancel_direct_def tp_complete_def)
  next
    case 2
    then obtain i where i: "i < length (tp_workers (tr_pool r))" "wk_phase (tp_workers (tr_pool r) ! i) = Running x"
      by (auto simp: tp_running_def wk_works_def in_set_conv_nth split: tp_phase.splits)
    then have "tp_worker_of (tr_pool r) x = Some i" "wk_cur_work (tp_workers (tr_pool r) ! i) = Some x"
      using workers_okD[OF ok(2) i(1)] by (simp_all add: wk_ok_def)
    then show ?thesis using 2(1) i by (auto simp: cancel_direct_def intro!: exI[of _ i])
  qed
qed

theorem cancel_reaches_its_work_witness:
  "\<exists>s. cancel_direct 6 (tr_pool (sample_run 3)) = Some s \<and>
    ((6, False) \<in> set (tp_done s) \<or> (\<exists>i. wk_phase (tp_workers s ! i) = Running 6 \<and> wk_cancelled (tp_workers s ! i)))"
proof -
  have "tp_done (tr_pool (sample_run 3)) = []" "tr_submitted (sample_run 3) = [5, 6]" by (code_simp, code_simp)
  then show ?thesis using cancel_reaches_its_work[OF sample_reach[of 3], of 6] by simp
qed

end
