(* ===== verification/Wait_Race.thy ===== *)
theory Wait_Race
  imports Wait_List
begin

text \<open>
  Interleavings of \<open>ThreadSafeWaitList\<close> (\<open>src/src/async_std/sync/wait_list.rs\<close>): waiters, wakers and
  closers run concurrently, one shared access (or one access to the list, which only the holder of
  the spin lock touches) per step. \<open>tw_cond\<close> is what \<open>should_block\<close> reads; a waker makes it false
  before it calls \<open>wake_all\<close>, as the clients of the list do, and the environment may make it true
  again. Shown: a wake-up that follows its state
  change is never lost, a close that takes the lock leaves nobody asleep, and a close that finds
  the \<open>empty\<close> flag set can leave a waiter asleep for ever.
\<close>

section \<open>States and steps\<close>

datatype wake_kind = WakeCall | CloseCall

text \<open>
  Waiters: holding the lock, past the closed check, past \<open>empty.store(false)\<close>, told to block, giving
  up, asleep, woken, returned. Wakers and closers: called, past the \<open>empty\<close> check, holding the lock,
  finished (having drained the list or not).
\<close>

datatype tw_pc = TIdle | WLock | WOpen | WFlag | WBlock | WUnlock | WAsleep | WWoken | WRet
  | KCall wake_kind | KWant wake_kind | KHeld wake_kind | KDone wake_kind bool

record tw_sys =
  tw_lock :: "nat option"
  tw_empty :: bool
  tw_closed :: bool
  tw_cond :: bool
  tw_queue :: "nat list"
  tw_pc :: "nat \<Rightarrow> tw_pc"

definition tw_start :: "tw_sys \<Rightarrow> bool" where
  "tw_start s \<longleftrightarrow> tw_lock s = None \<and> \<not> tw_closed s \<and> \<not> tw_empty s \<and> tw_queue s = [] \<and>
     tw_pc s = (\<lambda>_. TIdle)"

definition at :: "nat \<Rightarrow> tw_pc \<Rightarrow> tw_sys \<Rightarrow> tw_sys" where
  "at t p s = s\<lparr>tw_pc := (tw_pc s)(t := p)\<rparr>"

text \<open>Waking the whole queue: every queued waiter's request completes.\<close>

definition drain :: "tw_sys \<Rightarrow> tw_sys" where
  "drain s = s\<lparr>tw_queue := [], tw_pc := (\<lambda>t. if t \<in> set (tw_queue s) then WWoken else tw_pc s t)\<rparr>"

inductive tw_step :: "tw_sys \<Rightarrow> tw_sys \<Rightarrow> bool" where
  tw_wait_lock: "tw_pc s t = TIdle \<Longrightarrow> tw_lock s = None \<Longrightarrow> tw_step s (at t WLock (s\<lparr>tw_lock := Some t\<rparr>))"
| tw_wait_closed: "tw_pc s t = WLock \<Longrightarrow>
    tw_step s (at t (if tw_closed s then WUnlock else WOpen) s)"
| tw_wait_flag: "tw_pc s t = WOpen \<Longrightarrow> tw_step s (at t WFlag (s\<lparr>tw_empty := False\<rparr>))"
| tw_wait_block: "tw_pc s t = WFlag \<Longrightarrow> tw_cond s \<Longrightarrow> tw_step s (at t WBlock s)"
| tw_wait_pass: "tw_pc s t = WFlag \<Longrightarrow> \<not> tw_cond s \<Longrightarrow>
    tw_step s (at t WUnlock (s\<lparr>tw_empty := (tw_queue s = [])\<rparr>))"
| tw_wait_unlock: "tw_pc s t = WUnlock \<Longrightarrow> tw_step s (at t WRet (s\<lparr>tw_lock := None\<rparr>))"
| tw_wait_sleep: "tw_pc s t = WBlock \<Longrightarrow>
    tw_step s (at t WAsleep (s\<lparr>tw_queue := tw_queue s @ [t], tw_lock := None\<rparr>))"
| tw_cancel: "t \<in> set (tw_queue s) \<Longrightarrow> tw_lock s = None \<Longrightarrow>
    tw_step s (at t WRet (s\<lparr>tw_queue := remove1 t (tw_queue s)\<rparr>))"
| tw_wake_call: "tw_pc s k = TIdle \<Longrightarrow> tw_step s (at k (KCall WakeCall) (s\<lparr>tw_cond := False\<rparr>))"
| tw_close_call: "tw_pc s k = TIdle \<Longrightarrow> tw_step s (at k (KCall CloseCall) (s\<lparr>tw_closed := True\<rparr>))"
| tw_load_empty: "tw_pc s k = KCall c \<Longrightarrow>
    tw_step s (at k (if tw_empty s then KDone c False else KWant c) s)"
| tw_wake_lock: "tw_pc s k = KWant c \<Longrightarrow> tw_lock s = None \<Longrightarrow>
    tw_step s (at k (KHeld c) (s\<lparr>tw_lock := Some k\<rparr>))"
| tw_wake_drain: "tw_pc s k = KHeld c \<Longrightarrow>
    tw_step s (at k (KDone c True) (drain (s\<lparr>tw_lock := None\<rparr>)))"
| tw_env: "tw_step s (s\<lparr>tw_cond := True\<rparr>)"

section \<open>Invariant\<close>

definition holds_lock :: "tw_pc \<Rightarrow> bool" where
  "holds_lock p \<longleftrightarrow> p \<in> {WLock, WOpen, WFlag, WBlock, WUnlock} \<or> (\<exists>c. p = KHeld c)"

definition waking :: "tw_pc \<Rightarrow> bool" where
  "waking p \<longleftrightarrow> p \<in> {KCall WakeCall, KWant WakeCall, KHeld WakeCall}"

definition tw_lock_inv :: "tw_sys \<Rightarrow> bool" where
  "tw_lock_inv s \<longleftrightarrow> (\<forall>t. holds_lock (tw_pc s t) \<longleftrightarrow> tw_lock s = Some t)"

definition tw_queue_inv :: "tw_sys \<Rightarrow> bool" where
  "tw_queue_inv s \<longleftrightarrow> distinct (tw_queue s) \<and> (\<forall>t. t \<in> set (tw_queue s) \<longleftrightarrow> tw_pc s t = WAsleep) \<and>
     (tw_empty s \<longrightarrow> tw_queue s = [] \<and> (\<forall>t. tw_pc s t \<notin> {WFlag, WBlock}))"

definition tw_wake_inv :: "tw_sys \<Rightarrow> bool" where
  "tw_wake_inv s \<longleftrightarrow>
     (\<not> tw_cond s \<and> (\<exists>t. tw_pc s t \<in> {WBlock, WAsleep}) \<longrightarrow> (\<exists>k. waking (tw_pc s k)))"

definition tw_close_inv :: "tw_sys \<Rightarrow> bool" where
  "tw_close_inv s \<longleftrightarrow>
     (\<forall>k. tw_pc s k \<in> {KCall CloseCall, KWant CloseCall, KHeld CloseCall} \<longrightarrow> tw_closed s) \<and>
     (\<forall>k. tw_pc s k = KDone CloseCall True \<longrightarrow>
       tw_closed s \<and> (\<forall>t. tw_pc s t \<notin> {WOpen, WFlag, WBlock, WAsleep}))"

definition tw_inv :: "tw_sys \<Rightarrow> bool" where
  "tw_inv s \<longleftrightarrow> tw_lock_inv s \<and> tw_queue_inv s \<and> tw_wake_inv s \<and> tw_close_inv s"

lemma at_simps [simp]:
  "tw_lock (at t p s) = tw_lock s" "tw_empty (at t p s) = tw_empty s" "tw_closed (at t p s) = tw_closed s"
  "tw_cond (at t p s) = tw_cond s" "tw_queue (at t p s) = tw_queue s"
  "tw_pc (at t p s) = (tw_pc s)(t := p)"
  by (simp_all add: at_def)

lemma drain_simps [simp]:
  "tw_lock (drain s) = tw_lock s" "tw_empty (drain s) = tw_empty s" "tw_closed (drain s) = tw_closed s"
  "tw_cond (drain s) = tw_cond s" "tw_queue (drain s) = []"
  "tw_pc (drain s) = (\<lambda>t. if t \<in> set (tw_queue s) then WWoken else tw_pc s t)"
  by (simp_all add: drain_def)

lemma holds_lock_simps [simp]:
  "holds_lock WLock" "holds_lock WOpen" "holds_lock WFlag" "holds_lock WBlock" "holds_lock WUnlock"
  "holds_lock (KHeld c)" "\<not> holds_lock TIdle" "\<not> holds_lock WAsleep" "\<not> holds_lock WWoken"
  "\<not> holds_lock WRet" "\<not> holds_lock (KCall c)" "\<not> holds_lock (KWant c)" "\<not> holds_lock (KDone c d)"
  by (simp_all add: holds_lock_def)

lemma waking_simps [simp]:
  "waking (KCall c) = (c = WakeCall)" "waking (KWant c) = (c = WakeCall)" "waking (KHeld c) = (c = WakeCall)"
  "\<not> waking WAsleep" "\<not> waking TIdle" "\<not> waking WLock" "\<not> waking WOpen" "\<not> waking WFlag" "\<not> waking WBlock"
  "\<not> waking WUnlock" "\<not> waking WWoken" "\<not> waking WRet" "\<not> waking (KDone c d)"
  by (simp_all add: waking_def)

lemma tw_lock_upd:
  assumes "tw_lock_inv s" "tw_pc s' = (tw_pc s)(t := p)"
    and "holds_lock p \<longleftrightarrow> tw_lock s' = Some t"
    and "\<And>u. u \<noteq> t \<Longrightarrow> tw_lock s' = Some u \<longleftrightarrow> tw_lock s = Some u"
  shows "tw_lock_inv s'"
  using assms by (auto simp: tw_lock_inv_def)

lemma tw_lock_step:
  assumes "tw_step s s'" "tw_lock_inv s" "tw_queue_inv s"
  shows "tw_lock_inv s'"
proof -
  have l: "holds_lock (tw_pc s t) \<longleftrightarrow> tw_lock s = Some t" for t
    using assms(2) by (simp add: tw_lock_inv_def)
  have q: "t \<in> set (tw_queue s) \<longleftrightarrow> tw_pc s t = WAsleep" for t
    using assms(3) by (simp add: tw_queue_inv_def)
  note u = tw_lock_upd[OF assms(2)]
  show ?thesis using assms(1)
  proof cases
    case (tw_wake_drain k c)
    have "tw_lock s = Some k" using l[of k] tw_wake_drain by simp
    then have "\<not> holds_lock (tw_pc s t)" if "t \<noteq> k" for t using l[of t] that by simp
    then show ?thesis using tw_wake_drain by (auto simp: tw_lock_inv_def)
  next
    case (tw_wait_lock t)
    then show ?thesis by (intro u[of _ t WLock]) auto
  next
    case (tw_wait_closed t)
    then show ?thesis using l[of t] by (intro u[of _ t "if tw_closed s then WUnlock else WOpen"]) auto
  next
    case (tw_wait_flag t)
    then show ?thesis using l[of t] by (intro u[of _ t WFlag]) auto
  next
    case (tw_wait_block t)
    then show ?thesis using l[of t] by (intro u[of _ t WBlock]) auto
  next
    case (tw_wait_pass t)
    then show ?thesis using l[of t] by (intro u[of _ t WUnlock]) auto
  next
    case (tw_wait_unlock t)
    then show ?thesis using l[of t] by (intro u[of _ t WRet]) auto
  next
    case (tw_wait_sleep t)
    then show ?thesis using l[of t] by (intro u[of _ t WAsleep]) auto
  next
    case (tw_cancel t)
    then show ?thesis using q[of t] l[of t] by (intro u[of _ t WRet]) auto
  next
    case (tw_wake_call k)
    then show ?thesis using l[of k] by (intro u[of _ k "KCall WakeCall"]) auto
  next
    case (tw_close_call k)
    then show ?thesis using l[of k] by (intro u[of _ k "KCall CloseCall"]) auto
  next
    case (tw_load_empty k c)
    then show ?thesis using l[of k]
      by (intro u[of _ k "if tw_empty s then KDone c False else KWant c"]) auto
  next
    case (tw_wake_lock k c)
    then show ?thesis by (intro u[of _ k "KHeld c"]) auto
  next
    case tw_env
    then show ?thesis using assms(2) by (simp add: tw_lock_inv_def)
  qed
qed

lemma tw_queue_step:
  assumes "tw_step s s'" "tw_lock_inv s" "tw_queue_inv s"
  shows "tw_queue_inv s'"
proof -
  have one: "holds_lock (tw_pc s t) \<Longrightarrow> tw_pc s u = p \<Longrightarrow> holds_lock p \<Longrightarrow> u = t" for t u p
    using assms(2) by (metis tw_lock_inv_def option.inject)
  have q: "distinct (tw_queue s)" "t \<in> set (tw_queue s) \<longleftrightarrow> tw_pc s t = WAsleep"
    "tw_empty s \<Longrightarrow> tw_queue s = []" "tw_empty s \<Longrightarrow> tw_pc s t \<noteq> WFlag"
    "tw_empty s \<Longrightarrow> tw_pc s t \<noteq> WBlock" for t
    using assms(3) by (auto simp: tw_queue_inv_def)
  have i: "tw_queue_inv s" by fact
  show ?thesis using assms(1)
  proof cases
    case (tw_wait_lock t)
    then show ?thesis using i by (fastforce simp: tw_queue_inv_def)
  next
    case (tw_wait_closed t)
    then show ?thesis using i by (simp add: tw_queue_inv_def)
  next
    case (tw_wait_flag t)
    then show ?thesis using i by (simp add: tw_queue_inv_def)
  next
    case (tw_wait_block t)
    then show ?thesis using i by (simp add: tw_queue_inv_def) metis
  next
    case (tw_wait_pass t)
    have "tw_pc s u \<notin> {WFlag, WBlock}" if "u \<noteq> t" for u
      using one[of t u] tw_wait_pass(2) that by auto
    then show ?thesis using i tw_wait_pass by (auto simp: tw_queue_inv_def)
  next
    case (tw_wait_unlock t)
    then show ?thesis using i by (simp add: tw_queue_inv_def)
  next
    case (tw_wait_sleep t)
    then show ?thesis using i by (simp add: tw_queue_inv_def) metis
  next
    case (tw_cancel t)
    then show ?thesis using i by (simp add: tw_queue_inv_def)
  next
    case (tw_wake_call k)
    then show ?thesis using i by (simp add: tw_queue_inv_def)
  next
    case (tw_close_call k)
    then show ?thesis using i by (simp add: tw_queue_inv_def)
  next
    case (tw_load_empty k c)
    then show ?thesis using i by (simp add: tw_queue_inv_def)
  next
    case (tw_wake_lock k c)
    then show ?thesis using i by (simp add: tw_queue_inv_def)
  next
    case (tw_wake_drain k c)
    then show ?thesis using i by (simp add: tw_queue_inv_def)
  next
    case tw_env
    then show ?thesis using i by (simp add: tw_queue_inv_def)
  qed
qed

text \<open>The holder of the lock is the only thread inside a critical section.\<close>

lemma tw_only_holder:
  "tw_lock_inv s \<Longrightarrow> holds_lock (tw_pc s t) \<Longrightarrow> holds_lock (tw_pc s u) \<Longrightarrow> u = t"
  by (simp add: tw_lock_inv_def)

lemma tw_wake_keep:
  assumes "tw_wake_inv s" "tw_cond s' = tw_cond s"
    and "\<And>t. tw_pc s' t \<in> {WBlock, WAsleep} \<Longrightarrow> tw_pc s t \<in> {WBlock, WAsleep}"
    and "\<And>k. waking (tw_pc s k) \<Longrightarrow> waking (tw_pc s' k)"
  shows "tw_wake_inv s'"
  using assms unfolding tw_wake_inv_def by metis

lemma tw_wake_none:
  "(\<And>t. tw_pc s t \<notin> {WBlock, WAsleep}) \<Longrightarrow> tw_wake_inv s"
  by (simp add: tw_wake_inv_def)

lemma tw_wake_step:
  assumes "tw_step s s'" "tw_lock_inv s" "tw_queue_inv s" "tw_wake_inv s"
  shows "tw_wake_inv s'"
proof -
  note keep = tw_wake_keep[OF assms(4)]
  have sleep: "tw_pc s t = WAsleep \<Longrightarrow> t \<in> set (tw_queue s)" for t
    using assms(3) by (simp add: tw_queue_inv_def)
  show ?thesis using assms(1)
  proof cases
    case (tw_wait_block t)
    then show ?thesis by (simp add: tw_wake_inv_def)
  next
    case tw_env
    then show ?thesis by (simp add: tw_wake_inv_def)
  next
    case (tw_wake_call k)
    then show ?thesis unfolding tw_wake_inv_def by (auto intro!: exI[of _ k])
  next
    case (tw_load_empty k c)
    show ?thesis
    proof (cases "tw_empty s")
      case True
      then have "tw_pc s t \<notin> {WBlock, WAsleep}" for t
        using assms(3) sleep[of t] by (auto simp: tw_queue_inv_def)
      then show ?thesis using tw_load_empty True by (intro tw_wake_none) (auto split: if_splits)
    next
      case False
      then show ?thesis using tw_load_empty by (intro keep) (auto split: if_splits)
    qed
  next
    case (tw_wake_drain k c)
    have "tw_pc s t \<noteq> WBlock" for t using tw_only_holder[OF assms(2), of k t] tw_wake_drain by auto
    then show ?thesis using tw_wake_drain sleep by (intro tw_wake_none) (auto split: if_splits)
  next
    case (tw_cancel t)
    then have "tw_pc s t = WAsleep" using assms(3) by (simp add: tw_queue_inv_def)
    with tw_cancel show ?thesis by (intro keep) (auto split: if_splits)
  qed (auto intro!: keep split: if_splits)
qed

lemma tw_close_invI:
  assumes "\<And>k. tw_pc s k \<in> {KCall CloseCall, KWant CloseCall, KHeld CloseCall, KDone CloseCall True} \<Longrightarrow> tw_closed s"
    and "\<And>k t. tw_pc s k = KDone CloseCall True \<Longrightarrow> tw_pc s t \<notin> {WOpen, WFlag, WBlock, WAsleep}"
  shows "tw_close_inv s"
  using assms unfolding tw_close_inv_def by blast

lemma tw_close_keep:
  assumes "tw_close_inv s" "tw_closed s \<Longrightarrow> tw_closed s'"
    and "tw_pc s' = (tw_pc s)(t := p)" "p \<noteq> KDone CloseCall True"
    and "p \<in> {KCall CloseCall, KWant CloseCall, KHeld CloseCall} \<Longrightarrow> tw_closed s'"
    and "p \<in> {WOpen, WFlag, WBlock, WAsleep} \<Longrightarrow>
      tw_pc s t \<in> {WOpen, WFlag, WBlock, WAsleep} \<or> \<not> tw_closed s"
  shows "tw_close_inv s'"
proof (rule tw_close_invI)
  fix k
  show "tw_closed s'" if "tw_pc s' k \<in> {KCall CloseCall, KWant CloseCall, KHeld CloseCall, KDone CloseCall True}"
    using that assms by (cases "k = t") (auto simp: tw_close_inv_def)
next
  fix k u
  assume k: "tw_pc s' k = KDone CloseCall True"
  then have k': "tw_pc s k = KDone CloseCall True" using assms(3,4) by (cases "k = t") auto
  with assms(1) have "tw_closed s" "tw_pc s u \<notin> {WOpen, WFlag, WBlock, WAsleep}"
    "tw_pc s t \<notin> {WOpen, WFlag, WBlock, WAsleep}"
    by (auto simp: tw_close_inv_def)
  then show "tw_pc s' u \<notin> {WOpen, WFlag, WBlock, WAsleep}"
    using assms(3,6) by (cases "u = t") auto
qed

lemma tw_close_step:
  assumes "tw_step s s'" "tw_lock_inv s" "tw_queue_inv s" "tw_close_inv s"
  shows "tw_close_inv s'"
proof -
  note keep = tw_close_keep[OF assms(4)]
  have closed: "tw_pc s k \<in> {KCall CloseCall, KWant CloseCall, KHeld CloseCall} \<Longrightarrow> tw_closed s" for k
    using assms(4) by (auto simp: tw_close_inv_def)
  show ?thesis using assms(1)
  proof cases
    case (tw_wake_drain k c)
    have h: "tw_pc s t \<notin> {WOpen, WFlag, WBlock}" for t
      using tw_only_holder[OF assms(2), of k t] tw_wake_drain by auto
    have q: "tw_pc s t = WAsleep \<Longrightarrow> t \<in> set (tw_queue s)" for t
      using assms(3) by (simp add: tw_queue_inv_def)
    show ?thesis
    proof (rule tw_close_invI)
      fix u
      show "tw_closed s'"
        if "tw_pc s' u \<in> {KCall CloseCall, KWant CloseCall, KHeld CloseCall, KDone CloseCall True}"
        using that tw_wake_drain assms(4) closed[of k] by (auto simp: tw_close_inv_def split: if_splits)
    next
      fix u t
      show "tw_pc s' t \<notin> {WOpen, WFlag, WBlock, WAsleep}"
        using tw_wake_drain h[of t] q[of t] by (auto split: if_splits)
    qed
  next
    case (tw_wait_closed t)
    then show ?thesis
      by (intro keep[of _ t "if tw_closed s then WUnlock else WOpen"]) (auto split: if_splits)
  next
    case (tw_load_empty k c)
    then show ?thesis using closed[of k]
      by (intro keep[of _ k "if tw_empty s then KDone c False else KWant c"]) (auto split: if_splits)
  next
    case (tw_wake_lock k c)
    then show ?thesis using closed[of k] by (intro keep[of _ k "KHeld c"]) auto
  next
    case (tw_wait_lock t)
    then show ?thesis by (intro keep[of _ t WLock]) auto
  next
    case (tw_wait_flag t)
    then show ?thesis by (intro keep[of _ t WFlag]) auto
  next
    case (tw_wait_block t)
    then show ?thesis by (intro keep[of _ t WBlock]) auto
  next
    case (tw_wait_pass t)
    then show ?thesis by (intro keep[of _ t WUnlock]) auto
  next
    case (tw_wait_unlock t)
    then show ?thesis by (intro keep[of _ t WRet]) auto
  next
    case (tw_wait_sleep t)
    then show ?thesis by (intro keep[of _ t WAsleep]) auto
  next
    case (tw_cancel t)
    then show ?thesis by (intro keep[of _ t WRet]) auto
  next
    case (tw_wake_call k)
    then show ?thesis by (intro keep[of _ k "KCall WakeCall"]) auto
  next
    case (tw_close_call k)
    then show ?thesis by (intro keep[of _ k "KCall CloseCall"]) auto
  next
    case tw_env
    then show ?thesis using assms(4) by (simp add: tw_close_inv_def)
  qed
qed

interpretation tw: transition_invariant tw_start tw_step tw_inv
proof
  show "tw_start s \<Longrightarrow> tw_inv s" for s
    by (simp add: tw_start_def tw_inv_def tw_lock_inv_def tw_queue_inv_def tw_wake_inv_def tw_close_inv_def)
  show "tw_inv s \<Longrightarrow> tw_step s t \<Longrightarrow> tw_inv t" for s t
    unfolding tw_inv_def
    using tw_lock_step tw_queue_step tw_wake_step tw_close_step by blast
qed

text \<open>
  The run that loses a close: a first waiter gives up and leaves the \<open>empty\<close> flag set; a second one
  passes the closed check; a closer then stores \<open>closed\<close>, reads \<open>empty\<close> and is done; the waiter sleeps.
\<close>

definition tw3 :: "nat option \<Rightarrow> bool \<Rightarrow> bool \<Rightarrow> bool \<Rightarrow> nat list \<Rightarrow> tw_pc \<Rightarrow> tw_pc \<Rightarrow> tw_pc \<Rightarrow> tw_sys" where
  "tw3 l e c b q p0 p1 p2 = \<lparr>tw_lock = l, tw_empty = e, tw_closed = c, tw_cond = b, tw_queue = q,
     tw_pc = (\<lambda>t. if t = 0 then p0 else if t = 1 then p1 else if t = 2 then p2 else TIdle)\<rparr>"

lemma tw3_simps [simp]:
  "tw_lock (tw3 l e c b q p0 p1 p2) = l" "tw_empty (tw3 l e c b q p0 p1 p2) = e"
  "tw_closed (tw3 l e c b q p0 p1 p2) = c" "tw_cond (tw3 l e c b q p0 p1 p2) = b"
  "tw_queue (tw3 l e c b q p0 p1 p2) = q" "tw_pc (tw3 l e c b q p0 p1 p2) 0 = p0"
  "tw_pc (tw3 l e c b q p0 p1 p2) (Suc 0) = p1" "tw_pc (tw3 l e c b q p0 p1 p2) 2 = p2"
  "(tw3 l e c b q p0 p1 p2)\<lparr>tw_lock := l'\<rparr> = tw3 l' e c b q p0 p1 p2"
  "(tw3 l e c b q p0 p1 p2)\<lparr>tw_empty := e'\<rparr> = tw3 l e' c b q p0 p1 p2"
  "(tw3 l e c b q p0 p1 p2)\<lparr>tw_closed := c'\<rparr> = tw3 l e c' b q p0 p1 p2"
  "(tw3 l e c b q p0 p1 p2)\<lparr>tw_cond := b'\<rparr> = tw3 l e c b' q p0 p1 p2"
  "(tw3 l e c b q p0 p1 p2)\<lparr>tw_queue := q'\<rparr> = tw3 l e c b q' p0 p1 p2"
  "at 0 p (tw3 l e c b q p0 p1 p2) = tw3 l e c b q p p1 p2"
  "at (Suc 0) p (tw3 l e c b q p0 p1 p2) = tw3 l e c b q p0 p p2"
  "at 2 p (tw3 l e c b q p0 p1 p2) = tw3 l e c b q p0 p1 p"
  by (auto simp: tw3_def at_def)

definition tw_lost :: tw_sys where
  "tw_lost = tw3 None False True True [Suc 0] WRet WAsleep (KDone CloseCall False)"

abbreviation "tw_reach \<equiv> reach tw_start tw_step"

lemma tw_reach_then: "tw_reach s \<Longrightarrow> tw_step s s' \<Longrightarrow> tw_reach s'"
  by (rule reach.reach_step)

lemma tw_reach_gave_up: "tw_reach (tw3 None True False True [] WRet TIdle TIdle)"
proof -
  let ?t = "\<lambda>l e p. tw3 l e False False [] p TIdle TIdle"
  have "tw_reach (?t None False TIdle)"
    by (rule reach.reach_start) (auto simp: tw_start_def tw3_def)
  from tw_reach_then[OF this tw_wait_lock[of _ 0]]
  have "tw_reach (?t (Some 0) False WLock)" by simp
  from tw_reach_then[OF this tw_wait_closed[of _ 0]]
  have "tw_reach (?t (Some 0) False WOpen)" by simp
  from tw_reach_then[OF this tw_wait_flag[of _ 0]]
  have "tw_reach (?t (Some 0) False WFlag)" by simp
  from tw_reach_then[OF this tw_wait_pass[of _ 0]]
  have "tw_reach (?t (Some 0) True WUnlock)" by simp
  from tw_reach_then[OF this tw_wait_unlock[of _ 0]]
  have "tw_reach (?t None True WRet)" by simp
  from tw_reach_then[OF this tw_env] show ?thesis by simp
qed

lemma tw_reach_lost: "tw_reach tw_lost"
proof -
  let ?t = "\<lambda>e c p1 p2. tw3 (Some (Suc 0)) e c True [] WRet p1 p2"
  from tw_reach_then[OF tw_reach_gave_up tw_wait_lock[of _ "Suc 0"]]
  have "tw_reach (?t True False WLock TIdle)" by simp
  from tw_reach_then[OF this tw_wait_closed[of _ "Suc 0"]]
  have "tw_reach (?t True False WOpen TIdle)" by simp
  from tw_reach_then[OF this tw_close_call[of _ 2]]
  have "tw_reach (?t True True WOpen (KCall CloseCall))" by simp
  from tw_reach_then[OF this tw_load_empty[of _ 2 CloseCall]]
  have "tw_reach (?t True True WOpen (KDone CloseCall False))" by simp
  from tw_reach_then[OF this tw_wait_flag[of _ "Suc 0"]]
  have "tw_reach (?t False True WFlag (KDone CloseCall False))" by simp
  from tw_reach_then[OF this tw_wait_block[of _ "Suc 0"]]
  have "tw_reach (?t False True WBlock (KDone CloseCall False))" by simp
  from tw_reach_then[OF this tw_wait_sleep[of _ "Suc 0"]]
  show ?thesis by (simp add: tw_lost_def)
qed

section \<open>Properties\<close>



text \<open>Closing a ThreadSafeWaitList can leave a waiter asleep for ever: an execution ends with the list
  closed, its only closer finished, nobody holding the lock, and a waiter asleep in the queue. The
  closer read the empty flag before the waiter cleared it, and the waiter had already passed its
  closed check.\<close>

theorem close_can_miss_a_waiter:
  "tw_reach tw_lost \<and> tw_closed tw_lost \<and> tw_pc tw_lost 2 = KDone CloseCall False \<and>
   tw_pc tw_lost 1 = WAsleep \<and> tw_lock tw_lost = None \<and>
   (\<forall>k. tw_pc tw_lost k \<in> {TIdle, WRet, WAsleep, KDone CloseCall False})"
  using tw_reach_lost by (auto simp: tw_lost_def tw3_def)

text \<open>A close that does take the lock is complete: once it is finished, no waiter is asleep and none
  can fall asleep any more.\<close>

theorem close_under_lock_is_final:
  assumes "tw_reach s" "tw_pc s k = KDone CloseCall True"
  shows "tw_closed s \<and> tw_pc s t \<notin> {WOpen, WFlag, WBlock, WAsleep}"
  using tw.reach_inv[OF assms(1)] assms(2) unfolding tw_inv_def tw_close_inv_def by blast

theorem close_under_lock_is_final_witness:
  "tw_pc (tw3 None False True False [] TIdle TIdle (KDone CloseCall True)) 1 \<noteq> WAsleep"
proof -
  let ?t = "\<lambda>l p. tw3 l False True False [] TIdle TIdle p"
  have "tw_reach (tw3 None False False False [] TIdle TIdle TIdle)"
    by (rule reach.reach_start) (auto simp: tw_start_def tw3_def)
  from tw_reach_then[OF this tw_close_call[of _ 2]] have "tw_reach (?t None (KCall CloseCall))" by simp
  from tw_reach_then[OF this tw_load_empty[of _ 2 CloseCall]] have "tw_reach (?t None (KWant CloseCall))" by simp
  from tw_reach_then[OF this tw_wake_lock[of _ 2 CloseCall]] have "tw_reach (?t (Some 2) (KHeld CloseCall))" by simp
  from tw_reach_then[OF this tw_wake_drain[of _ 2 CloseCall]]
  have "tw_reach (?t None (KDone CloseCall True))" by (simp add: drain_def)
  from close_under_lock_is_final[OF this, of 2 1] show ?thesis by simp
qed

end
