(* ===== verification/Spec2Isabelle.thy ===== *)
theory Spec2Isabelle
  imports Async_Context Async_Functions Async_Items Async_Mutex Async_Transform Atomic_Waiter Block_On Branch Broadcast Buf_Read Buf_Reader Buf_Writer Closure_Macro Dirent Error_Codes Error_Values Errors_Macro Executor Fiber Fiber_Pool Io_Base Io_Props Io_Uring Linked_List Logging Mp_Channel Node_Queue Oneshot Os_Calls Os_Data Seek Select_Macro Spawn Sync Syscall_Macro Thread_Pool Typed_Io Uint_Ext Wait_List Wait_Race Xx_Prelude
begin

text \<open>
  Verification of the core of xx-core, a Rust runtime for asynchronous programs on fibers.

  \<^bold>\<open>The program.\<close> Tasks run on workers, which own a fiber each; an executor per thread switches between them. A task that waits
  blocks on a future: it starts an operation, suspends, and is resumed by the request's callback. Everything that waits rests on two
  queues of waiters (\<open>RawWaitList\<close>, \<open>ThreadSafeWaitList\<close>) over an intrusive linked list; channels, mutexes and notifications are built on them, and so are
  \<open>branch\<close>, \<open>select\<close>, \<open>join\<close> and \<open>spawn\<close> on futures. Byte streams are the traits \<open>Read\<close>, \<open>Write\<close>, \<open>BufRead\<close> and \<open>Seek\<close>, with buffering adapters and typed I/O.

  \<^bold>\<open>Which theory models what\<close> (paths under \<open>src/src/\<close>).
  \<^item> \<open>Xx_Prelude\<close>: machine types, outcomes of Rust calls (\<open>Ok\<close>, \<open>Err\<close>, a panic), transition systems with the locales that turn a preservation lemma into an
    invariant or a mutual exclusion theorem, and list facts. \<open>Node_Queue\<close>: the locale of a queue of nodes that can also be unlinked from the middle.
  \<^item> \<open>Linked_List\<close> (\<open>container/intrusive/linked_list.rs\<close>): nodes on an explicit heap, so that aliasing is real; it provides \<open>Node_Queue\<close>.
    \<open>Wait_List\<close> and \<open>Wait_Race\<close> (\<open>async_std/sync/wait_list.rs\<close>, \<open>notify.rs\<close>): the lists run alone, and the thread-safe list under every interleaving of its accesses.
    \<open>Atomic_Waiter\<close>: the single waiter of the same file, alone and interleaved.
  \<^item> \<open>Sync\<close> (\<open>sync/\<close>): backoff, spin lock, spin mutex, poison flag. \<open>Async_Mutex\<close> (\<open>async_std/sync/mutex.rs\<close>): any number of threads.
  \<^item> \<open>Mp_Channel\<close> (\<open>channel/mp.rs\<close>): ring of sequenced slots. \<open>Oneshot\<close> (\<open>channel/oneshot.rs\<close>): all interleavings of a sender and a receiver.
    \<open>Broadcast\<close> (\<open>broadcast.rs\<close>): ring with a position per receiver.
  \<^item> \<open>Thread_Pool\<close> (\<open>threadpool/mod.rs\<close>): critical sections of the queue lock as steps of the workers and of the callers.
  \<^item> \<open>Executor\<close> (\<open>coroutines/executor.rs\<close>, \<open>worker.rs\<close>), \<open>Async_Context\<close> (\<open>context.rs\<close>, \<open>coroutines/mod.rs\<close>), \<open>Branch\<close> (\<open>branch.rs\<close>,
    \<open>select.rs\<close>, \<open>join.rs\<close>), \<open>Spawn\<close> (\<open>spawn.rs\<close>), \<open>Fiber\<close> (\<open>fiber/mod.rs\<close> with both
    architectures and their assembly) and \<open>Fiber_Pool\<close> (\<open>fiber/pool.rs\<close>), \<open>Block_On\<close> (\<open>future/block_on.rs\<close>, \<open>os/futex.rs\<close>).
  \<^item> \<open>Error_Codes\<close> (\<open>error/\<close>, \<open>os/error.rs\<close>): kinds, system error codes, the tagged word of an error. \<open>Error_Values\<close> (\<open>error/repr/\<close>): custom
    and context errors, their downcasts, source chains and printed forms, and \<open>io::Error\<close>. \<open>Uint_Ext\<close> (\<open>impls/uint.rs\<close>).
  \<^item> \<open>Os_Data\<close> (\<open>os/time.rs\<close>, \<open>fcntl.rs\<close>, \<open>inet.rs\<close>, \<open>mod.rs\<close>): times, open flags, addresses as the bytes of their C structures, paths. \<open>Dirent\<close>
    (\<open>os/dirent.rs\<close>, \<open>stat.rs\<close>): directory listing against any kernel that hands out records. \<open>Io_Uring\<close> (\<open>os/io_uring.rs\<close>): feature detection. \<open>Os_Calls\<close> (\<open>os/syscall/\<close>, \<open>mman.rs\<close>,
    \<open>socket.rs\<close>, \<open>resource.rs\<close>, \<open>signal.rs\<close>, \<open>sysconf.rs\<close>, \<open>eventfd.rs\<close>): call numbers and the wrappers with logic of their own. The kernel is a parameter; its documentation is a predicate.
  \<^item> \<open>Select_Macro\<close> and \<open>Errors_Macro\<close> (\<open>macros/src/\<close>): the generators of \<open>select!\<close> and \<open>errors\<close> with the meaning of the code they generate.
    \<open>Async_Transform\<close>, \<open>Async_Functions\<close> and \<open>Async_Items\<close> (\<open>macros/src/asynchronous/\<close>): the asynchronous macro, on an abstract syntax whose
    evaluator gives a meaning to the source, where \<open>async\<close> and \<open>.await\<close> are the language's, and to the generated code; from bodies to functions to traits.
    \<open>Closure_Macro\<close> (\<open>macros/src/make_closure.rs\<close>, \<open>visit.rs\<close>): the lifetimes of functions that return closures. \<open>Syscall_Macro\<close>
    (\<open>macros/src/syscall.rs\<close>, \<open>os/syscall/\<close> and the calls declared in \<open>os/\<close>): the expansion and the registers on both architectures. \<open>Logging\<close> (\<open>log/\<close>): how a record is written.
  \<^item> \<open>Io_Base\<close>, \<open>Io_Props\<close>, \<open>Seek\<close>, \<open>Buf_Reader\<close>, \<open>Buf_Read\<close>, \<open>Buf_Writer\<close>, \<open>Typed_Io\<close> (\<open>async_std/io/\<close>, \<open>io/\<close>): the provided
    methods over a parameter reader, writer or stream, whose documented contract is a locale, and the buffering adapters, which are shown to keep it.

  \<^bold>\<open>How the code is rendered.\<close> A method that takes a mutable or shared reference is a function from a state record to a result and the record it leaves. A call that breaks an
  \<open>unreachable_unchecked\<close> promise, reads memory without a value or does not end within its bound is \<open>None\<close>, so theorems that give \<open>Some\<close>
  also say that this does not happen. Integers keep their width (\<open>word\<close>) where the code wraps or converts. Code shared by threads is an inductive step relation
  with one step per atomic access or critical section, sequentially consistent; system calls, callbacks, clocks and
  scheduling are nondeterministic steps or function parameters.

  \<^bold>\<open>What is shown.\<close> Channels and lists refine queues and logs; locks exclude; a fiber continues where it left; no wake-up is lost; every request, work and result is completed exactly once; the buffered streams are streams;
  encodings round trip; loops end; a body, a function and a trait under the asynchronous macro mean what they say. The lemmas before each property are the refinement or the invariant it rests on, by operation.

  \<^bold>\<open>Bounds.\<close> Searches and loops of the code whose end depends on its data carry a number of rounds (\<open>next_slot\<close>, \<open>wake_loop\<close>, \<open>read_to_end_loop\<close> and others); their theorems say
  which number is enough, and give \<open>Some\<close> for every larger one. The evaluator of \<open>Async_Transform\<close> takes fuel for
  calls and loops, and its theorems are equations for every amount. Callbacks nest in \<open>Branch\<close> at most twice, and the theorem shows that two is enough.
  Sequence numbers and counts are exact below the powers of two that the hypotheses name.

  \<^bold>\<open>Not modelled.\<close> Raw pointer and closure wrappers; system call wrappers that only pass their arguments on, and the other
  C structures and constants; the panic hook; the macros for futures, durations and wrappers, whose expansions
  are what is modelled, and parsing in all macros; weak memory orders; the structured (alternate) debug output of errors. Reentrant calls are modelled where the code is written for them (cancels
  that complete within the call); a completion callback that calls back into the object that runs it is otherwise excluded, as the crate's safety contracts do.
\<close>

end
